(* ===== verification/Go_Prelude.thy ===== *)
theory Go_Prelude
  imports Main "HOL-Library.Word"
begin

text \<open>
  Shared vocabulary of the development: the Go types the models use (bytes, unsigned words,
  64-bit signed arithmetic kept as an integer with an explicit wrap), the result type of
  fallible Go functions, and the generic facts on lists, words and results that the component
  theories rely on.
\<close>

unbundle bit_operations_syntax

named_theorems go_arith \<open>wrap-around and truncated division, reduced to plain integers in range\<close>
named_theorems go_result \<open>sequencing of Go results\<close>

section \<open>Types\<close>

type_synonym byte = "8 word"
type_synonym bytes = "byte list"
type_synonym u16 = "16 word"
type_synonym u32 = "32 word"
type_synonym u64 = "64 word"

text \<open>
  A Go function that returns \<open>(T, error)\<close> or may panic is a value of type \<open>'e + 'a\<close>, the error
  (or the panic) on the left. \<open>go_bind\<close> is the early return \<open>if err != nil { return err }\<close>.
\<close>

definition go_bind :: "'e + 'a \<Rightarrow> ('a \<Rightarrow> 'e + 'b) \<Rightarrow> 'e + 'b" where
  "go_bind r f = (case r of Inl e \<Rightarrow> Inl e | Inr a \<Rightarrow> f a)"

lemma go_bind_simps [simp, go_result]:
  "go_bind (Inl e) f = Inl e"
  "go_bind (Inr a) f = f a"
  by (simp_all add: go_bind_def)

lemma go_bind_Inr_iff [go_result]:
  "go_bind r f = Inr b \<longleftrightarrow> (\<exists>a. r = Inr a \<and> f a = Inr b)"
  by (cases r) auto

section \<open>Signed 64-bit integers\<close>

text \<open>
  An \<open>int64\<close> is an integer in \<open>[-2^63, 2^63)\<close>; \<open>i64\<close> reduces the mathematical result of an
  operation into that range as two's complement does. Go's \<open>/\<close> and \<open>%\<close> truncate towards zero.
\<close>

definition i64 :: "int \<Rightarrow> int" where
  "i64 x = (x + 2 ^ 63) mod 2 ^ 64 - 2 ^ 63"

definition i64_range :: "int \<Rightarrow> bool" where
  "i64_range x \<longleftrightarrow> - (2 ^ 63) \<le> x \<and> x < 2 ^ 63"

definition go_quot :: "int \<Rightarrow> int \<Rightarrow> int" where
  "go_quot a b = sgn a * sgn b * (\<bar>a\<bar> div \<bar>b\<bar>)"

definition go_rem :: "int \<Rightarrow> int \<Rightarrow> int" where
  "go_rem a b = a - b * go_quot a b"

lemma i64_id [go_arith]: "i64_range x \<Longrightarrow> i64 x = x"
  unfolding i64_def i64_range_def by simp

lemma i64_in_range [simp, intro]: "i64_range (i64 x)"
proof -
  have "0 \<le> (x + 2 ^ 63) mod (2 ^ 64 :: int)" "(x + 2 ^ 63) mod (2 ^ 64 :: int) < 2 ^ 64"
    by simp_all
  then show ?thesis
    unfolding i64_def i64_range_def by simp
qed

lemma go_quot_nonneg [go_arith]: "0 \<le> a \<Longrightarrow> 0 < b \<Longrightarrow> go_quot a b = a div b"
  by (cases "a = 0") (simp_all add: go_quot_def)

lemma go_rem_nonneg [go_arith]: "0 \<le> a \<Longrightarrow> 0 < b \<Longrightarrow> go_rem a b = a mod b"
  by (simp add: go_rem_def go_quot_nonneg minus_mult_div_eq_mod)

lemma go_quot_rem: "b * go_quot a b + go_rem a b = a"
  by (simp add: go_rem_def)

section \<open>Big-endian bytes\<close>

text \<open>
  The value of a byte string read big-endian, and the two conversions the code uses: a fixed
  width (\<open>binary.BigEndian.PutUint64\<close>) and the minimal form (\<open>big.Int.Bytes\<close>).
\<close>

fun be_val :: "bytes \<Rightarrow> nat" where
  "be_val [] = 0"
| "be_val (b # bs) = unat b * 256 ^ length bs + be_val bs"

fun be_fixed :: "nat \<Rightarrow> nat \<Rightarrow> bytes" where
  "be_fixed 0 v = []"
| "be_fixed (Suc n) v = be_fixed n (v div 256) @ [word_of_nat (v mod 256)]"

fun be_min :: "nat \<Rightarrow> bytes" where
  "be_min v = (if v = 0 then [] else be_min (v div 256) @ [word_of_nat (v mod 256)])"

declare be_min.simps [simp del]

lemma unat_byte_of_nat [simp]: "unat (word_of_nat (v mod 256) :: byte) = v mod 256"
  by (simp add: unat_of_nat)

lemma unat_byte_less: "unat (b :: byte) < 256"
  using unsigned_less [of b, where 'a = nat] by simp

lemma unat_drop_bit_div: "unat (drop_bit n w) = unat (w::'a::len word) div 2^n"
  by (metis unat_drop_bit_eq drop_bit_eq_div)

lemma unat_push_bit_one: 
  assumes "n < 64" shows "unat (push_bit n 1 :: u64) = 2 ^ n"
proof -
  have "(2::nat) ^ n < 2 ^ 64" using assms by (intro power_strict_increasing) simp_all
  then show ?thesis
    unfolding unsigned_push_bit_eq by (simp add: push_bit_eq_mult take_bit_eq_mod)
qed

lemma unat_byte_u64 [simp]: "unat (ucast (b::byte) :: u64) = unat b"
  unfolding unsigned_ucast_eq
  by (rule take_bit_nat_eq_self) (rule order.strict_trans2 [OF unat_byte_less], simp)

lemma unat_u64_byte: "unat (ucast (w::u64) :: byte) = unat w mod 256"
  by (simp add: unsigned_ucast_eq take_bit_eq_mod)

lemma shift_or_byte: 
  fixes w :: u64 and b :: byte
  assumes "unat w < 2 ^ 56"
  shows "unat (push_bit 8 w OR ucast b) = unat w * 256 + unat b"
proof -
  have "\<not> bit b n" if "8 \<le> n" for n
    using that bit_imp_le_length [of b n] by auto
  then have "push_bit 8 w AND ucast b = 0"
    by (intro bit_eqI) (auto simp: bit_and_iff bit_push_bit_iff bit_ucast_iff)
  then have "push_bit 8 w OR ucast b = push_bit 8 w + ucast b"
    by (simp add: disjunctive_add_eq_or)
  moreover have "unat (push_bit 8 w) = unat w * 256"
    unfolding unsigned_push_bit_eq using assms by (simp add: push_bit_eq_mult take_bit_nat_eq_self)
  moreover have "unat w * 256 + unat b < 2 ^ 64" using assms unat_byte_less [of b] by simp
  ultimately show ?thesis by (simp add: unat_word_ariths)
qed

lemma be_val_append: "be_val (xs @ ys) = be_val xs * 256 ^ length ys + be_val ys"
  by (induction xs) (simp_all add: algebra_simps power_add)

lemma be_val_snoc [simp]: "be_val (xs @ [b]) = be_val xs * 256 + unat b"
  by (simp add: be_val_append)

lemma be_val_less: "be_val bs < 256 ^ length bs"
proof (induction bs rule: rev_induct)
  case Nil
  then show ?case by simp
next
  case (snoc b bs)
  have "unat b < 256" by (rule unat_byte_less)
  moreover from snoc have "be_val bs + 1 \<le> 256 ^ length bs" by simp
  then have "(be_val bs + 1) * 256 \<le> 256 ^ length bs * 256" by (rule mult_le_mono1)
  then have "be_val bs * 256 + 256 \<le> 256 ^ length bs * 256" by simp
  moreover have "be_val (bs @ [b]) = be_val bs * 256 + unat b" by simp
  ultimately have "be_val (bs @ [b]) < 256 ^ length bs * 256" by linarith
  then show ?case by (simp add: mult.commute)
qed

lemma length_be_fixed [simp]: "length (be_fixed n v) = n"
  by (induction n arbitrary: v) simp_all

lemma be_val_be_fixed: "v < 256 ^ n \<Longrightarrow> be_val (be_fixed n v) = v"
proof (induction n arbitrary: v)
  case 0
  then show ?case by simp
next
  case (Suc n)
  then have "v div 256 < 256 ^ n"
    by (simp add: less_mult_imp_div_less mult.commute)
  then have "be_val (be_fixed n (v div 256)) = v div 256"
    by (rule Suc.IH)
  then show ?case by simp
qed

lemma be_fixed_be_val: "length bs = n \<Longrightarrow> be_fixed n (be_val bs) = bs"
proof (induction n arbitrary: bs)
  case 0
  then show ?case by simp
next
  case (Suc n)
  then obtain cs c where bs: "bs = cs @ [c]" and "length cs = n"
    by (cases bs rule: rev_cases) simp_all
  have "(be_val cs * 256 + unat c) div 256 = be_val cs"
    "(be_val cs * 256 + unat c) mod 256 = unat c"
    using unat_byte_less [of c] by simp_all
  moreover have "be_fixed n (be_val cs) = cs"
    using \<open>length cs = n\<close> by (rule Suc.IH)
  ultimately show ?case by (simp add: bs)
qed

lemma be_min_0 [simp]: "be_min 0 = []"
  by (simp add: be_min.simps)

lemma be_min_eq_Nil [simp]: "be_min v = [] \<longleftrightarrow> v = 0"
  by (simp add: be_min.simps [of v])

lemma be_val_be_min [simp]: "be_val (be_min v) = v"
proof (induction v rule: be_min.induct)
  case (1 v)
  then show ?case by (cases "v = 0") (simp_all add: be_min.simps [of v])
qed

lemma hd_be_min: "v \<noteq> 0 \<Longrightarrow> hd (be_min v) \<noteq> 0"
proof (induction v rule: be_min.induct)
  case (1 v)
  show ?case
  proof (cases "v div 256 = 0")
    case True
    then have "v < 256" by (simp add: div_eq_0_iff)
    with 1 have "v mod 256 \<noteq> 0" by simp
    then have "unat (word_of_nat (v mod 256) :: byte) \<noteq> 0"
      by (simp only: unat_byte_of_nat not_False_eq_True)
    then have "(word_of_nat (v mod 256) :: byte) \<noteq> 0" by (metis unat_0)
    with 1 True show ?thesis by (simp add: be_min.simps [of v])
  next
    case False
    with 1 show ?thesis by (simp add: be_min.simps [of v])
  qed
qed

lemma be_min_unique:
  assumes "bs = [] \<or> hd bs \<noteq> 0"
  shows "be_min (be_val bs) = bs"
  using assms
proof (induction bs rule: rev_induct)
  case Nil
  then show ?case by simp
next
  case (snoc b bs)
  show ?case
  proof (cases "bs = []")
    case True
    with snoc.prems have "unat b \<noteq> 0" by (simp add: unat_eq_zero)
    with True show ?thesis
      using unat_byte_less [of b] by (simp add: be_min.simps [of "unat b"])
  next
    case False
    with snoc.prems have "hd bs \<noteq> 0" by simp
    with snoc.IH have IH: "be_min (be_val bs) = bs" by simp
    with False have "be_val bs \<noteq> 0" by (metis be_min_eq_Nil)
    moreover have "(be_val bs * 256 + unat b) div 256 = be_val bs"
      "(be_val bs * 256 + unat b) mod 256 = unat b"
      using unat_byte_less [of b] by simp_all
    ultimately show ?thesis
      using IH by (simp add: be_min.simps [of "be_val bs * 256 + unat b"])
  qed
qed

end
