(* ===== verification/Trie_Encoding.thy ===== *)
theory Trie_Encoding
  imports Go_Prelude
begin

text \<open>
  The key encodings of \<^verbatim>\<open>pkg/trie/encoding.go\<close>: KEYBYTES (the key itself), HEX (one byte per
  nibble and an optional terminator 16) and COMPACT (the hex-prefix form stored on disk). The
  code's index panics (a nibble missing at the end of an odd key, the first byte of an empty
  compact key) are the \<open>None\<close> results. Shown: the conversions are mutually inverse on well-formed
  keys, hence injective, and the common-prefix length is what it says.
\<close>

section \<open>Definitions\<close>

definition hasTerm :: "bytes \<Rightarrow> bool" where
  "hasTerm s \<longleftrightarrow> 0 < length s \<and> s ! (length s - 1) = 16"

fun keybytesToHex :: "bytes \<Rightarrow> bytes" where
  "keybytesToHex [] = [16]"
| "keybytesToHex (b # bs) = (b div 16) # (b mod 16) # keybytesToHex bs"

text \<open>
  \<open>decodeNibbles\<close> reads the nibbles in pairs; reading \<open>nibbles[ni+1]\<close> of an odd-length slice is out
  of range and panics.
\<close>

fun decodeNibbles :: "bytes \<Rightarrow> bytes option" where
  "decodeNibbles [] = Some []"
| "decodeNibbles [n] = None"
| "decodeNibbles (a # b # ns) = map_option (\<lambda>bs. (push_bit 4 a OR b) # bs) (decodeNibbles ns)"

definition hexToCompact :: "bytes \<Rightarrow> bytes option" where
  "hexToCompact hex =
     (let terminator = (if hasTerm hex then 1 else 0 :: byte);
          hex' = (if hasTerm hex then take (length hex - 1) hex else hex);
          flag = push_bit 5 terminator
      in if length hex' mod 2 = 1
         then map_option (\<lambda>rest. (flag OR push_bit 4 1 OR hex' ! 0) # rest) (decodeNibbles (drop 1 hex'))
         else map_option (\<lambda>rest. flag # rest) (decodeNibbles hex'))"

definition compactToHex :: "bytes \<Rightarrow> bytes option" where
  "compactToHex compact =
     (let base = butlast (keybytesToHex compact)
      in if base = [] then None
         else let base' = (if 2 \<le> base ! 0 then base @ [16] else base);
                  chop = 2 - (base' ! 0 AND 1)
              in Some (drop (unat chop) base'))"

definition hexToKeybytes :: "bytes \<Rightarrow> bytes option" where
  "hexToKeybytes hex =
     (let hex' = (if hasTerm hex then take (length hex - 1) hex else hex)
      in if length hex' mod 2 \<noteq> 0 then None else decodeNibbles hex')"

fun prefixLen :: "bytes \<Rightarrow> bytes \<Rightarrow> nat" where
  "prefixLen (a # as) (b # bs) = (if a \<noteq> b then 0 else Suc (prefixLen as bs))"
| "prefixLen _ _ = 0"

definition trie_concat :: "bytes \<Rightarrow> bytes \<Rightarrow> bytes" where
  "trie_concat s1 s2 = s1 @ s2"

section \<open>Nibbles\<close>

definition nibble :: "byte \<Rightarrow> bool" where
  "nibble b \<longleftrightarrow> b < 16"

definition nibbles :: "bytes \<Rightarrow> bool" where
  "nibbles ns \<longleftrightarrow> (\<forall>n \<in> set ns. nibble n)"

text \<open>A full hex key: nibbles and the terminator.\<close>

definition hexkey :: "bytes \<Rightarrow> bool" where
  "hexkey k \<longleftrightarrow> (\<exists>ns. k = ns @ [16] \<and> nibbles ns)"

lemma nibbles_simps [simp]:
  "nibbles []"
  "nibbles (n # ns) \<longleftrightarrow> nibble n \<and> nibbles ns"
  "nibbles (xs @ ys) \<longleftrightarrow> nibbles xs \<and> nibbles ys"
  by (auto simp: nibbles_def)

lemma nibble_not_term [simp]: "nibble b \<Longrightarrow> b \<noteq> 16"
  by (auto simp: nibble_def)

lemma nibble_div_mod [simp]: "nibble (b div 16)" "nibble (b mod 16)"
  for b :: byte
  unfolding nibble_def using unat_byte_less [of b]
  by (simp_all add: word_less_nat_alt unat_div unat_mod_distrib less_mult_imp_div_less)

lemma nibble_unat: "nibble b \<longleftrightarrow> unat b < 16"
  by (simp add: nibble_def word_less_nat_alt)

lemma hasTerm_append_16 [simp]: "hasTerm (ns @ [16])"
  by (simp add: hasTerm_def)

lemma hasTerm_nibbles [simp]: "nibbles ns \<Longrightarrow> \<not> hasTerm ns"
  by (cases ns rule: rev_cases) (auto simp: hasTerm_def nibble_def)

text \<open>Joining the two halves of a byte.\<close>

lemma nibble_join: "push_bit 4 (b div 16) OR (b mod 16) = (b :: byte)"
proof -
  have "push_bit 4 (drop_bit 4 b) OR take_bit 4 b = b"
    by (rule bit_eqI) (auto simp: bit_or_iff bit_push_bit_iff bit_drop_bit_eq bit_take_bit_iff)
  then show ?thesis
    by (simp add: drop_bit_eq_div take_bit_eq_mod)
qed

lemma nibble_split:
  assumes "nibble a" "nibble (b :: byte)"
  shows "(push_bit 4 a OR b) div 16 = a" "(push_bit 4 a OR b) mod 16 = b"
proof -
  have a: "take_bit 4 a = a" and b: "take_bit 4 b = b"
    using assms by (simp_all add: nibble_unat take_bit_eq_mod word_unat_eq_iff unat_mod_distrib)
  have "drop_bit 4 (push_bit 4 a OR b) = a"
  proof (rule bit_eqI)
    fix n assume "possible_bit TYPE(byte) n"
    then have n: "n < 8" by simp
    have "\<not> bit b (4 + n)"
      by (subst b [symmetric]) (simp add: bit_take_bit_iff)
    moreover have "bit a n \<Longrightarrow> n < 4"
      by (subst (asm) a [symmetric]) (simp add: bit_take_bit_iff)
    ultimately show "bit (drop_bit 4 (push_bit 4 a OR b)) n = bit a n"
      using n by (auto simp: bit_drop_bit_eq bit_or_iff bit_push_bit_iff)
  qed
  then show "(push_bit 4 a OR b) div 16 = a" by (simp add: drop_bit_eq_div)
  have "take_bit 4 (push_bit 4 a OR b) = b"
    by (simp add: take_bit_push_bit b)
  then show "(push_bit 4 a OR b) mod 16 = b" by (simp add: take_bit_eq_mod)
qed

section \<open>Round trips\<close>

lemma keybytesToHex_append: "\<exists>ns. keybytesToHex bs = ns @ [16] \<and> nibbles ns \<and> length ns = 2 * length bs"
proof (induction bs)
  case Nil
  show ?case by simp
next
  case (Cons b bs)
  then obtain ns where "keybytesToHex bs = ns @ [16]" "nibbles ns" "length ns = 2 * length bs" by blast
  then have "keybytesToHex (b # bs) = ((b div 16) # (b mod 16) # ns) @ [16]
      \<and> nibbles ((b div 16) # (b mod 16) # ns) \<and> length ((b div 16) # (b mod 16) # ns) = 2 * length (b # bs)"
    by simp
  then show ?case by blast
qed

lemma keybytesToHex_hexkey [simp]: "hexkey (keybytesToHex bs)"
  using keybytesToHex_append [of bs] by (auto simp: hexkey_def)

lemma decodeNibbles_keybytes: "decodeNibbles (butlast (keybytesToHex bs)) = Some bs"
proof (induction bs)
  case Nil
  show ?case by simp
next
  case (Cons b bs)
  obtain ns where ns: "keybytesToHex bs = ns @ [16]" using keybytesToHex_append by blast
  with Cons show ?case by (simp add: nibble_join)
qed

lemma keybytes_decodeNibbles:
  "nibbles ns \<Longrightarrow> decodeNibbles ns = Some bs \<Longrightarrow> keybytesToHex bs = ns @ [16]"
  by (induction ns arbitrary: bs rule: decodeNibbles.induct) (auto simp: nibble_split)

lemma decodeNibbles_Some: "even (length ns) \<longleftrightarrow> (\<exists>bs. decodeNibbles ns = Some bs)"
  by (induction ns rule: decodeNibbles.induct) auto

lemma hexToKeybytes_keybytesToHex: "hexToKeybytes (keybytesToHex bs) = Some bs"
proof -
  obtain ns where ns: "keybytesToHex bs = ns @ [16]" "nibbles ns" "length ns = 2 * length bs"
    using keybytesToHex_append by blast
  then show ?thesis
    using decodeNibbles_keybytes [of bs] by (simp add: hexToKeybytes_def)
qed

lemma hexToKeybytes_Some:
  assumes "hexkey k" "hexToKeybytes k = Some bs"
  shows "keybytesToHex bs = k"
proof -
  obtain ns where k: "k = ns @ [16]" "nibbles ns" using assms(1) by (auto simp: hexkey_def)
  with assms(2) have "decodeNibbles ns = Some bs"
    by (simp add: hexToKeybytes_def split: if_splits)
  with k show ?thesis by (simp add: keybytes_decodeNibbles)
qed

lemma keybytesToHex_inj [simp]: "keybytesToHex a = keybytesToHex b \<longleftrightarrow> a = b"
  by (metis hexToKeybytes_keybytesToHex option.inject)

text \<open>
  The flag byte of the compact form: bit 5 is the terminator, bit 4 the oddness, the low nibble
  the first nibble of an odd key.
\<close>

lemma compact_flag:
  assumes "nibble (n :: byte)"
  shows "(push_bit 5 1 OR push_bit 4 1 OR n) div 16 = (3 :: byte)"
    "(push_bit 5 1 OR push_bit 4 1 OR n) mod 16 = n"
    "(push_bit 5 0 OR push_bit 4 1 OR n) div 16 = (1 :: byte)"
    "(push_bit 5 0 OR push_bit 4 1 OR n) mod 16 = n"
proof -
  have "push_bit 5 1 OR push_bit 4 1 = (push_bit 4 3 :: byte)"
    "push_bit 5 0 OR push_bit 4 1 = (push_bit 4 1 :: byte)"
    by simp_all
  moreover have "nibble 3" "nibble 1" by (simp_all add: nibble_def)
  ultimately show "(push_bit 5 1 OR push_bit 4 1 OR n) div 16 = (3 :: byte)"
    "(push_bit 5 1 OR push_bit 4 1 OR n) mod 16 = n"
    "(push_bit 5 0 OR push_bit 4 1 OR n) div 16 = (1 :: byte)"
    "(push_bit 5 0 OR push_bit 4 1 OR n) mod 16 = n"
    using nibble_split [OF _ assms, of 3] nibble_split [OF _ assms, of 1]
    by (simp_all only: or.assoc [symmetric])
qed

text \<open>The compact form exists for every key of nibbles, with or without the terminator.\<close>

lemma hexToCompact_even:
  assumes "nibbles ns" "even (length ns)"
  shows "\<exists>bs. decodeNibbles ns = Some bs \<and> keybytesToHex bs = ns @ [16]
    \<and> hexToCompact (ns @ [16]) = Some (32 # bs) \<and> hexToCompact ns = Some (0 # bs)"
proof -
  obtain bs where bs: "decodeNibbles ns = Some bs" using assms(2) decodeNibbles_Some by blast
  then have "keybytesToHex bs = ns @ [16]" using assms(1) by (simp add: keybytes_decodeNibbles)
  moreover have "hexToCompact (ns @ [16]) = Some (32 # bs)" "hexToCompact ns = Some (0 # bs)"
    using assms bs by (auto simp: hexToCompact_def Let_def)
  ultimately show ?thesis using bs by blast
qed

lemma hexToCompact_odd:
  assumes "nibbles (n # ns)" "even (length ns)"
  shows "\<exists>bs. keybytesToHex bs = ns @ [16]
    \<and> hexToCompact (n # ns @ [16]) = Some ((push_bit 5 1 OR push_bit 4 1 OR n) # bs)
    \<and> hexToCompact (n # ns) = Some ((push_bit 5 0 OR push_bit 4 1 OR n) # bs)"
proof -
  obtain bs where bs: "decodeNibbles ns = Some bs" using assms(2) decodeNibbles_Some by blast
  then have kb: "keybytesToHex bs = ns @ [16]" using assms(1) by (simp add: keybytes_decodeNibbles)
  have "hasTerm (n # ns @ [16])" "\<not> hasTerm (n # ns)"
    using hasTerm_append_16 [of "n # ns"] hasTerm_nibbles [OF assms(1)] by simp_all
  moreover have "Suc (length ns) mod 2 = 1" using assms(2) by presburger
  ultimately have "hexToCompact (n # ns @ [16]) = Some ((push_bit 5 1 OR push_bit 4 1 OR n) # bs)"
    "hexToCompact (n # ns) = Some ((push_bit 5 0 OR push_bit 4 1 OR n) # bs)"
    using assms(2) bs by (simp_all add: hexToCompact_def Let_def)
  then show ?thesis using kb by blast
qed

text \<open>\<open>compactToHex\<close> on a flag byte and the key bytes behind it.\<close>

lemma compactToHex_Cons:
  assumes "keybytesToHex bs = ns @ [16]"
  shows "compactToHex (f # bs) =
    Some (drop (unat (2 - (f div 16 AND 1)))
      ((f div 16) # (f mod 16) # ns @ (if 2 \<le> f div 16 then [16] else [])))"
  using assms by (simp add: compactToHex_def Let_def butlast_append)

lemma compactToHex_even:
  assumes "keybytesToHex bs = ns @ [16]"
  shows "compactToHex (32 # bs) = Some (ns @ [16])" "compactToHex (0 # bs) = Some ns"
  using compactToHex_Cons [OF assms, of 32] compactToHex_Cons [OF assms, of 0] by simp_all

lemma compactToHex_odd:
  assumes "keybytesToHex bs = ns @ [16]" "nibble n"
  shows "compactToHex ((push_bit 5 1 OR push_bit 4 1 OR n) # bs) = Some (n # ns @ [16])"
    "compactToHex ((push_bit 5 0 OR push_bit 4 1 OR n) # bs) = Some (n # ns)"
  by (simp_all only: compactToHex_Cons [OF assms(1)] compact_flag [OF assms(2)])
    (simp_all add: word_le_nat_alt)

lemma compact_roundtrip:
  assumes "nibbles ns" "k = ns \<or> k = ns @ [16]"
  shows "\<exists>c. hexToCompact k = Some c \<and> compactToHex c = Some k"
proof (cases "even (length ns)")
  case True
  then show ?thesis
    using hexToCompact_even [OF assms(1)] compactToHex_even assms(2) by blast
next
  case False
  then obtain m ms where ns: "ns = m # ms" "even (length ms)" by (cases ns) auto
  with assms(1) have "nibble m" by simp
  with ns show ?thesis
    using hexToCompact_odd [of m ms] compactToHex_odd [of _ ms m] assms by auto
qed

section \<open>Common prefixes\<close>

lemma prefixLen_le [simp]: "prefixLen a b \<le> length a" "prefixLen a b \<le> length b"
  by (induction a b rule: prefixLen.induct) auto

lemma prefixLen_take: "take (prefixLen a b) a = take (prefixLen a b) b"
  by (induction a b rule: prefixLen.induct) auto

lemma prefixLen_differ:
  "prefixLen a b < length a \<Longrightarrow> prefixLen a b < length b \<Longrightarrow> a ! prefixLen a b \<noteq> b ! prefixLen a b"
  by (induction a b rule: prefixLen.induct) (auto split: if_splits)

lemma prefixLen_full: "prefixLen a b = length b \<longleftrightarrow> take (length b) a = b"
  by (induction a b rule: prefixLen.induct) auto

lemma prefixLen_append [simp]: "prefixLen (p @ a) (p @ b) = length p + prefixLen a b"
  by (induction p) auto

section \<open>Properties\<close>

text \<open>
  C24. The compact (hex-prefix) form is lossless: for a key of nibbles, with or without the
  terminator and of even or odd length, \<open>hexToCompact\<close> does not panic and \<open>compactToHex\<close> gives
  the key back.
\<close>

theorem compact_encoding_round_trip:
  assumes "nibbles ns" "k = ns \<or> k = ns @ [16]"
  shows "\<exists>c. hexToCompact k = Some c \<and> compactToHex c = Some k"
  using assms by (rule compact_roundtrip)

theorem compact_encoding_round_trip_witness:
  "\<exists>c. hexToCompact [1, 2, 3, 16] = Some c \<and> compactToHex c = Some [1, 2, 3, 16]"
  using compact_encoding_round_trip [of "[1, 2, 3]" "[1, 2, 3, 16]"] by (simp add: nibble_def)

text \<open>
  C25. Keys and their hex form determine each other: a key survives the conversion to hex and
  back, and a terminated hex key that \<open>hexToKeybytes\<close> accepts is the hex form of its result.
\<close>

theorem keybytes_hex_inverse:
  "hexToKeybytes (keybytesToHex bs) = Some bs \<and>
   (hexkey k \<longrightarrow> hexToKeybytes k = Some bs \<longleftrightarrow> k = keybytesToHex bs)"
  using hexToKeybytes_keybytesToHex hexToKeybytes_Some by blast

theorem keybytes_hex_inverse_witness:
  "hexkey [10, 11, 16] \<and> hexToKeybytes [10, 11, 16] = Some [0xAB]"
proof -
  have "hexkey [10, 11, 16]"
    unfolding hexkey_def by (intro exI [of _ "[10, 11]"]) (simp add: nibble_def)
  moreover have "[10, 11, 16] = keybytesToHex [0xAB]" by simp
  ultimately show ?thesis
    using keybytes_hex_inverse [of "[0xAB]" "[10, 11, 16]"] by blast
qed

end
