(* ===== verification/Trie_Pure.thy ===== *)
theory Trie_Pure
  imports Trie_Encoding
begin

text \<open>
  The abstract specification of the Merkle Patricia trie: a tree without hash references and
  cache flags, with lookup, insertion and deletion on it. It is what a trie of
  \<^verbatim>\<open>pkg/trie/trie.go\<close> stands for once every reference is resolved; theory \<open>Trie_Ops\<close> shows that
  the code's operations refine these. Shown here: the operations keep the canonical form, they
  implement a finite map, and a canonical tree is determined by its contents.
\<close>

section \<open>Trees, lookup, insertion, deletion\<close>

datatype ptrie = PNil | PVal bytes | PShort bytes ptrie | PFull "ptrie list"

fun plookup :: "ptrie \<Rightarrow> bytes \<Rightarrow> bytes option" where
  "plookup PNil key = None"
| "plookup (PVal v) key = Some v"
| "plookup (PShort k p) key =
     (if length k \<le> length key \<and> take (length k) key = k then plookup p (drop (length k) key) else None)"
| "plookup (PFull cs) [] = None"
| "plookup (PFull cs) (x # xs) = (if unat x < length cs then plookup (cs ! unat x) xs else None)"

definition pextend :: "bytes \<Rightarrow> ptrie \<Rightarrow> ptrie" where
  "pextend k p = (if k = [] then p else PShort k p)"

definition empty_children :: "ptrie list" where
  "empty_children = replicate 17 PNil"

definition pbranch :: "bytes \<Rightarrow> ptrie \<Rightarrow> bytes \<Rightarrow> ptrie \<Rightarrow> ptrie" where
  "pbranch k p l q =
     PFull ((empty_children [unat (hd k) := pextend (tl k) p]) [unat (hd l) := pextend (tl l) q])"

fun pinsert :: "ptrie \<Rightarrow> bytes \<Rightarrow> bytes \<Rightarrow> ptrie" where
  "pinsert p [] v = PVal v"
| "pinsert PNil key v = PShort key (PVal v)"
| "pinsert (PVal w) key v = PVal w"
| "pinsert (PShort k p) key v =
     (let m = prefixLen key k
      in if m = length k then PShort k (pinsert p (drop m key) v)
         else pextend (take m key) (pbranch (drop m k) p (drop m key) (PVal v)))"
| "pinsert (PFull cs) (x # xs) v =
     (if unat x < length cs then PFull (cs [unat x := pinsert (cs ! unat x) xs v]) else PFull cs)"

text \<open>
  Deletion contracts on the way up: a branch with one child left becomes a short node, merged
  with that child when the child is itself a short node.
\<close>

definition live :: "ptrie list \<Rightarrow> nat list" where
  "live cs = filter (\<lambda>i. cs ! i \<noteq> PNil) [0..<length cs]"

definition pmerge :: "bytes \<Rightarrow> ptrie \<Rightarrow> ptrie" where
  "pmerge k p = (case p of PShort l q \<Rightarrow> PShort (k @ l) q | _ \<Rightarrow> PShort k p)"

definition pcontract :: "ptrie list \<Rightarrow> ptrie" where
  "pcontract cs = (case live cs of
      [i] \<Rightarrow> (if i = 16 then PShort [16] (cs ! 16) else pmerge [word_of_nat i] (cs ! i))
    | _ \<Rightarrow> PFull cs)"

fun pdelete :: "ptrie \<Rightarrow> bytes \<Rightarrow> ptrie" where
  "pdelete PNil key = PNil"
| "pdelete (PVal v) key = PNil"
| "pdelete (PShort k p) key =
     (let m = prefixLen key k
      in if m < length k then PShort k p
         else if m = length key then PNil
         else if plookup p (drop m key) = None then PShort k p
         else pmerge k (pdelete p (drop m key)))"
| "pdelete (PFull cs) [] = PFull cs"
| "pdelete (PFull cs) (x # xs) =
     (if unat x < length cs \<and> plookup (cs ! unat x) xs \<noteq> None
      then pcontract (cs [unat x := pdelete (cs ! unat x) xs]) else PFull cs)"

section \<open>Canonical form\<close>

text \<open>
  A leaf holds a non-empty value behind the rest of a terminated key, an extension holds a
  branch behind at least one nibble, and a branch has at least two children, the last of them a
  value if present.
\<close>

inductive pnode :: "ptrie \<Rightarrow> bool" where
  leaf: "hexkey k \<Longrightarrow> v \<noteq> [] \<Longrightarrow> pnode (PShort k (PVal v))"
| ext: "k \<noteq> [] \<Longrightarrow> nibbles k \<Longrightarrow> pnode (PFull cs) \<Longrightarrow> pnode (PShort k (PFull cs))"
| branch: "length cs = 17 \<Longrightarrow> (\<forall>i < 16. cs ! i = PNil \<or> pnode (cs ! i)) \<Longrightarrow>
     cs ! 16 = PNil \<or> (\<exists>v. v \<noteq> [] \<and> cs ! 16 = PVal v) \<Longrightarrow> 2 \<le> length (live cs) \<Longrightarrow> pnode (PFull cs)"

definition pwf :: "ptrie \<Rightarrow> bool" where
  "pwf p \<longleftrightarrow> p = PNil \<or> pnode p"

inductive_cases pnode_ShortE: "pnode (PShort k p)"
inductive_cases pnode_FullE: "pnode (PFull cs)"
inductive_simps pnode_simps [simp]: "pnode PNil" "pnode (PVal v)"

lemma nibble_16 [simp]: "\<not> nibble 16"
  by (simp add: nibble_def)

text \<open>Keys below a branch: after a nibble another key, after the terminator nothing.\<close>

lemma hexkey_simps [simp]:
  "\<not> hexkey []"
  "hexkey (x # xs) \<longleftrightarrow> (nibble x \<and> hexkey xs) \<or> (x = 16 \<and> xs = [])"
proof -
  show "\<not> hexkey []" by (simp add: hexkey_def)
  show "hexkey (x # xs) \<longleftrightarrow> (nibble x \<and> hexkey xs) \<or> (x = 16 \<and> xs = [])"
  proof
    assume "hexkey (x # xs)"
    then obtain ns where ns: "x # xs = ns @ [16]" "nibbles ns" by (auto simp: hexkey_def)
    then show "(nibble x \<and> hexkey xs) \<or> (x = 16 \<and> xs = [])"
      by (cases ns) (auto simp: hexkey_def)
  next
    assume "(nibble x \<and> hexkey xs) \<or> (x = 16 \<and> xs = [])"
    then show "hexkey (x # xs)"
    proof
      assume "nibble x \<and> hexkey xs"
      then obtain ns where "xs = ns @ [16]" "nibbles ns" by (auto simp: hexkey_def)
      with \<open>nibble x \<and> hexkey xs\<close> show ?thesis
        unfolding hexkey_def by (intro exI [of _ "x # ns"]) simp
    qed (simp add: hexkey_def)
  qed
qed

lemma hexkey_append: "nibbles ns \<Longrightarrow> hexkey (ns @ k) \<longleftrightarrow> hexkey k"
  by (induction ns) auto

text \<open>No key is a proper prefix of another.\<close>

lemma hexkey_prefix_free: "hexkey k \<Longrightarrow> hexkey (k @ l) \<Longrightarrow> l = []"
  by (induction k) auto

lemma unat_nibble: "nibble x \<Longrightarrow> unat x < 16"
  by (simp add: nibble_unat)

lemma hexkey_hd: "hexkey (x # xs) \<Longrightarrow> unat x < 17"
  using unat_nibble by fastforce

section \<open>Lookup after insertion\<close>

lemma plookup_pextend [simp]:
  "plookup (pextend k p) key =
     (if length k \<le> length key \<and> take (length k) key = k then plookup p (drop (length k) key) else None)"
  by (simp add: pextend_def)

lemma plookup_PVal_pextend: "plookup (pextend k (PVal v)) key =
   (if length k \<le> length key \<and> take (length k) key = k then Some v else None)"
  by simp

lemma length_empty_children [simp]: "length empty_children = 17"
  by (simp add: empty_children_def)

lemma nth_empty_children [simp]: "i < 17 \<Longrightarrow> empty_children ! i = PNil"
  by (simp add: empty_children_def)

lemma plookup_pbranch:
  assumes "unat (hd k) < 17" "unat (hd l) < 17" "hd k \<noteq> hd l" "unat x < 17"
  shows "plookup (pbranch k p l q) (x # xs) =
    (if x = hd k then plookup (pextend (tl k) p) xs
     else if x = hd l then plookup (pextend (tl l) q) xs else None)"
proof -
  have "unat (hd k) \<noteq> unat (hd l)" using assms(3) by (simp add: word_unat_eq_iff)
  moreover have "unat x = unat (hd k) \<longleftrightarrow> x = hd k" "unat x = unat (hd l) \<longleftrightarrow> x = hd l"
    by (simp_all add: word_unat_eq_iff)
  ultimately show ?thesis
    using assms by (auto simp: pbranch_def nth_list_update)
qed


lemma plookup_PShort_append [simp]: "plookup (PShort k p) (k @ r) = plookup p r"
  by simp

lemma plookup_PShort_other: "(\<And>r. key \<noteq> k @ r) \<Longrightarrow> plookup (PShort k p) key = None"
  by (simp, metis append_take_drop_id)

lemma prefix_or_not: obtains (prefix) r where "key = k @ r" | (other) "\<And>r. key \<noteq> (k :: bytes) @ r"
  by blast

text \<open>Two keys split at the length of their common prefix.\<close>

lemma prefixLen_split:
  assumes "prefixLen a b < length a" "prefixLen a b < length b"
  obtains pre x xs y ys where "a = pre @ x # xs" "b = pre @ y # ys" "x \<noteq> y"
    "prefixLen a b = length pre"
proof -
  let ?m = "prefixLen a b"
  have "a = take ?m a @ a ! ?m # drop (Suc ?m) a" using assms(1) by (rule id_take_nth_drop)
  moreover have "b = take ?m a @ b ! ?m # drop (Suc ?m) b"
    using id_take_nth_drop [OF assms(2)] prefixLen_take [of a b] by simp
  moreover have "a ! ?m \<noteq> b ! ?m" using assms by (rule prefixLen_differ)
  moreover have "?m = length (take ?m a)" using assms(1) by simp
  ultimately show ?thesis using that by blast
qed

lemma prefixLen_eq_right: "prefixLen a b = length b \<Longrightarrow> \<exists>r. a = b @ r"
  by (metis append_take_drop_id prefixLen_take take_all order_refl)

lemma prefixLen_eq_left: "prefixLen a b = length a \<Longrightarrow> \<exists>r. b = a @ r"
  by (metis append_take_drop_id prefixLen_take take_all order_refl)

lemma hexkey_prefixLen_full:
  "hexkey a \<Longrightarrow> hexkey b \<Longrightarrow> prefixLen a b = length b \<Longrightarrow> a = b"
  using prefixLen_eq_right hexkey_prefix_free by fastforce

lemma hexkey_prefixLen_less:
  assumes "hexkey a" "hexkey b \<or> nibbles b" "prefixLen a b < length b"
  shows "prefixLen a b < length a"
proof (rule ccontr)
  assume "\<not> ?thesis"
  then have "prefixLen a b = length a" using prefixLen_le(1) [of a b] by simp
  then obtain r where r: "b = a @ r" using prefixLen_eq_left by blast
  from assms(1) obtain ns where "a = ns @ [16]" by (auto simp: hexkey_def)
  with r have "\<not> nibbles b" by simp
  with assms r have "r = []" using hexkey_prefix_free by blast
  with r assms(3) \<open>prefixLen a b = length a\<close> show False by simp
qed

lemma plookup_split:
  assumes "hexkey (pre @ x # xs)" "hexkey key" "unat y < 17" "x \<noteq> y"
  shows "plookup (pextend pre (pbranch (y # ys) p (x # xs) (PVal v))) key =
    (if key = pre @ x # xs then Some v else plookup (PShort (pre @ y # ys) p) key)"
proof (cases key pre rule: prefix_or_not)
  case (prefix r)
  have pre: "nibbles pre"
    using assms(1) by (induction pre) auto
  with prefix assms(1,2) have r: "hexkey r" "hexkey (x # xs)" by (simp_all add: hexkey_append del: hexkey_simps)
  then obtain z zs where z: "r = z # zs" by (cases r) auto
  have bounds: "unat x < 17" "unat z < 17"
    using r z hexkey_hd by blast+
  have *: "plookup (pextend pre (pbranch (y # ys) p (x # xs) (PVal v))) key =
     (if z = y then plookup (pextend ys p) zs
      else if z = x then plookup (pextend xs (PVal v)) zs else None)"
    using prefix z bounds assms(3,4) plookup_pbranch [of "y # ys" "x # xs" z p "PVal v" zs]
    by (auto simp del: plookup.simps(5))
  consider "z = y" | "z = x" | "z \<noteq> x" "z \<noteq> y" by blast
  then show ?thesis
  proof cases
    case 1
    have "plookup (PShort (pre @ y # ys) p) key = plookup (pextend ys p) zs"
      using prefix z 1 by simp
    then show ?thesis using * 1 assms(4) prefix z by simp
  next
    case 2
    have "plookup (PShort (pre @ y # ys) p) key = None"
      using prefix z 2 assms(4) by simp
    moreover have "length xs \<le> length zs \<and> take (length xs) zs = xs \<longleftrightarrow> zs = xs"
    proof
      assume "length xs \<le> length zs \<and> take (length xs) zs = xs"
      then have "zs = xs @ drop (length xs) zs" by (metis append_take_drop_id)
      then show "zs = xs"
        using r z 2 hexkey_prefix_free [of "x # xs" "drop (length xs) zs"] by (metis append_Cons append_Nil2)
    qed simp
    ultimately show ?thesis using * 2 assms(4) prefix z by simp
  next
    case 3
    then show ?thesis using * prefix z by simp
  qed
next
  case other
  then have "plookup (pextend pre (pbranch (y # ys) p (x # xs) (PVal v))) key = None"
    by (simp, metis append_take_drop_id)
  moreover have "plookup (PShort (pre @ y # ys) p) key = None"
    using other by (intro plookup_PShort_other) simp
  ultimately show ?thesis using other by auto
qed

lemma pinsert_PShort_split:
  assumes "prefixLen key k \<noteq> length k" "key \<noteq> []"
  shows "pinsert (PShort k p) key v = pextend (take (prefixLen key k) key)
    (pbranch (drop (prefixLen key k) k) p (drop (prefixLen key k) key) (PVal v))"
  using assms by (cases key) (simp_all add: Let_def)

lemma prefixLen_extend [simp]: "prefixLen (k @ r) k = length k"
  by (simp add: prefixLen_full)

lemma pinsert_PShort_down:
  assumes "k @ r \<noteq> []"
  shows "pinsert (PShort k p) (k @ r) v = PShort k (pinsert p r v)"
proof -
  obtain x xs where x: "k @ r = x # xs" using assms by (cases "k @ r") auto
  have "prefixLen (x # xs) k = length k" "drop (length k) (x # xs) = r" by (simp_all flip: x)
  then show ?thesis unfolding x by (simp add: Let_def)
qed


lemma pinsert_nonempty_split:
  assumes "hexkey key" "hexkey k \<or> nibbles k" "prefixLen key k \<noteq> length k"
  obtains pre x xs y ys where "key = pre @ x # xs" "k = pre @ y # ys" "x \<noteq> y" "unat y < 17"
    "nibbles pre"
    "pinsert (PShort k p) key v = pextend pre (pbranch (y # ys) p (x # xs) (PVal v))"
proof -
  have "prefixLen key k < length k" using assms(3) prefixLen_le(2) [of key k] by linarith
  moreover from this have "prefixLen key k < length key" using assms hexkey_prefixLen_less by blast
  ultimately obtain pre x xs y ys where sp: "key = pre @ x # xs" "k = pre @ y # ys" "x \<noteq> y"
    "prefixLen key k = length pre"
    using prefixLen_split by metis
  have pre: "nibbles pre" using assms(1) unfolding sp by (induction pre) auto
  from assms(2) have "unat y < 17"
  proof
    assume "hexkey k"
    then have "hexkey (y # ys)" using pre unfolding sp by (simp add: hexkey_append del: hexkey_simps)
    then show ?thesis by (rule hexkey_hd)
  next
    assume "nibbles k"
    then show ?thesis unfolding sp using unat_nibble [of y] by simp
  qed
  moreover have "key \<noteq> []" using sp by simp
  ultimately show ?thesis
    using that [OF sp(1,2,3) _ pre] pinsert_PShort_split [OF assms(3), of p v] sp by simp
qed

lemma plookup_leaf:
  assumes "hexkey k" "hexkey key"
  shows "plookup (PShort k (PVal v)) key = (if key = k then Some v else None)"
proof (cases key k rule: prefix_or_not)
  case (prefix r)
  then have "r = []" using assms hexkey_prefix_free by blast
  with prefix show ?thesis by simp
next
  case other
  then have "plookup (PShort k (PVal v)) key = None" by (rule plookup_PShort_other)
  moreover have "key \<noteq> k" using other [of "[]"] by simp
  ultimately show ?thesis by simp
qed

lemma pinsert_PNil: "hexkey key \<Longrightarrow> pinsert PNil key v = PShort key (PVal v)"
  by (cases key) auto

text \<open>What insertion does to a child of a branch; the hypothesis is about the child as a subtree.\<close>

lemma pinsert_child_lookup:
  assumes "hexkey (x # xs)" "hexkey (x # ys)"
    "nibble x \<Longrightarrow> c = PNil \<or> (\<forall>key key'. hexkey key \<longrightarrow> hexkey key' \<longrightarrow>
       plookup (pinsert c key v) key' = (if key' = key then Some v else plookup c key'))"
  shows "plookup (pinsert c xs v) ys = (if ys = xs then Some v else plookup c ys)"
proof (cases "x = 16")
  case True
  then show ?thesis using assms(1,2) by simp
next
  case False
  then have h: "nibble x" "hexkey xs" "hexkey ys" using assms(1,2) by auto
  show ?thesis
    using assms(3) [OF h(1)] h plookup_leaf [of xs ys v] pinsert_PNil [of xs v] by auto
qed

lemma pinsert_pnode_lookup:
  "pnode p \<Longrightarrow> hexkey key \<Longrightarrow> hexkey key' \<Longrightarrow>
     plookup (pinsert p key v) key' = (if key' = key then Some v else plookup p key')"
proof (induction p arbitrary: key key' rule: pnode.induct)
  case (leaf k w)
  show ?case
  proof (cases "prefixLen key k = length k")
    case True
    then have "key = k" using leaf hexkey_prefixLen_full by blast
    moreover have "k \<noteq> []" using leaf by auto
    ultimately have "pinsert (PShort k (PVal w)) key v = PShort k (PVal v)"
      using pinsert_PShort_down [of k "[]" "PVal w" v] by simp
    then show ?thesis using leaf \<open>key = k\<close> by (simp only: plookup_leaf if_cancel split: if_split) simp
  next
    case False
    with leaf obtain pre x xs y ys where sp: "key = pre @ x # xs" "k = pre @ y # ys" "x \<noteq> y" "unat y < 17"
      "pinsert (PShort k (PVal w)) key v = pextend pre (pbranch (y # ys) (PVal w) (x # xs) (PVal v))"
      using pinsert_nonempty_split by metis
    have "hexkey (pre @ x # xs)" using leaf.prems unfolding sp by simp
    then show ?thesis unfolding sp(5) unfolding sp(1,2) by (rule plookup_split [OF _ leaf.prems(2) sp(4,3)])
  qed
next
  case (ext k cs)
  show ?case
  proof (cases "prefixLen key k = length k")
    case True
    then obtain r where r: "key = k @ r" using prefixLen_eq_right by blast
    have hr: "hexkey r" using ext r by (simp add: hexkey_append)
    have ins: "pinsert (PShort k (PFull cs)) key v = PShort k (pinsert (PFull cs) r v)"
      using ext.hyps(1) unfolding r by (intro pinsert_PShort_down) simp
    show ?thesis
    proof (cases key' k rule: prefix_or_not)
      case (prefix s)
      then have "hexkey s" using ext by (simp add: hexkey_append)
      then have "plookup (pinsert (PShort k (PFull cs)) key v) key' =
          (if s = r then Some v else plookup (PFull cs) s)"
        unfolding ins prefix plookup_PShort_append by (rule ext.IH [OF hr])
      then show ?thesis unfolding prefix r plookup_PShort_append by simp
    next
      case other
      then have "plookup (PShort k q) key' = None" for q by (rule plookup_PShort_other)
      moreover have "key' \<noteq> key" using other r by simp
      ultimately show ?thesis by (simp add: ins del: plookup.simps)
    qed
  next
    case False
    with ext obtain pre x xs y ys where sp: "key = pre @ x # xs" "k = pre @ y # ys" "x \<noteq> y" "unat y < 17"
      "pinsert (PShort k (PFull cs)) key v = pextend pre (pbranch (y # ys) (PFull cs) (x # xs) (PVal v))"
      using pinsert_nonempty_split by metis
    have "hexkey (pre @ x # xs)" using ext.prems unfolding sp by simp
    then show ?thesis unfolding sp(5) unfolding sp(1,2) by (rule plookup_split [OF _ ext.prems(2) sp(4,3)])
  qed
next
  case (branch cs)
  obtain x xs where x: "key = x # xs" using branch.prems by (cases key) auto
  obtain y ys where y: "key' = y # ys" using branch.prems by (cases key') auto
  have b: "unat x < 17" "unat y < 17" using branch.prems x y hexkey_hd by blast+
  have eq: "unat x = unat y \<longleftrightarrow> x = y" by (simp add: word_unat_eq_iff)
  show ?case
  proof (cases "x = y")
    case False
    then show ?thesis using b branch.hyps(1) eq by (simp add: x y nth_list_update)
  next
    case True
    have "plookup (pinsert (cs ! unat x) xs v) ys = (if ys = xs then Some v else plookup (cs ! unat x) ys)"
    proof (rule pinsert_child_lookup)
      show "hexkey (x # xs)" "hexkey (x # ys)" using branch.prems x y True by simp_all
      assume "nibble x"
      then show "cs ! unat x = PNil \<or> (\<forall>key key'. hexkey key \<longrightarrow> hexkey key' \<longrightarrow>
         plookup (pinsert (cs ! unat x) key v) key' = (if key' = key then Some v else plookup (cs ! unat x) key'))"
        using branch.IH unat_nibble by blast
    qed
    then show ?thesis using True b branch.hyps(1) by (simp add: x y)
  qed
qed

theorem plookup_pinsert:
  "pwf p \<Longrightarrow> hexkey key \<Longrightarrow> hexkey key' \<Longrightarrow>
     plookup (pinsert p key v) key' = (if key' = key then Some v else plookup p key')"
  unfolding pwf_def using pinsert_pnode_lookup plookup_leaf pinsert_PNil by auto


section \<open>Insertion keeps the canonical form\<close>

lemma live_iff: "2 \<le> length (live cs) \<longleftrightarrow>
  (\<exists>i j. i < length cs \<and> j < length cs \<and> i \<noteq> j \<and> cs ! i \<noteq> PNil \<and> cs ! j \<noteq> PNil)"
proof -
  let ?S = "{i. i < length cs \<and> cs ! i \<noteq> PNil}"
  have "length (live cs) = card ?S"
    by (simp add: live_def distinct_card [symmetric] Collect_conj_eq lessThan_def Int_commute)
  moreover have "card ?S \<le> Suc 0 \<longleftrightarrow> (\<forall>i \<in> ?S. \<forall>j \<in> ?S. i = j)"
    by (rule card_le_Suc0_iff_eq) simp
  moreover have "2 \<le> card ?S \<longleftrightarrow> \<not> card ?S \<le> Suc 0" by linarith
  ultimately show ?thesis by auto
qed

lemma live_mem: "i \<in> set (live cs) \<longleftrightarrow> i < length cs \<and> cs ! i \<noteq> PNil"
  by (auto simp: live_def)

text \<open>A child may sit at an index: a subtree below a nibble, a value below the terminator.\<close>

definition pslot :: "nat \<Rightarrow> ptrie \<Rightarrow> bool" where
  "pslot i c \<longleftrightarrow> (i < 16 \<and> pnode c) \<or> (i = 16 \<and> (\<exists>v. v \<noteq> [] \<and> c = PVal v))"

lemma pslot_not_PNil: "pslot i c \<Longrightarrow> c \<noteq> PNil"
  by (auto simp: pslot_def)

lemma less_17: "i < (17 :: nat) \<longleftrightarrow> i < 16 \<or> i = 16"
  by linarith

lemma pnode_PFull_iff:
  "pnode (PFull cs) \<longleftrightarrow> length cs = 17 \<and> (\<forall>i < 17. cs ! i = PNil \<or> pslot i (cs ! i)) \<and> 2 \<le> length (live cs)"
proof -
  have "(\<forall>i < 17. cs ! i = PNil \<or> pslot i (cs ! i)) \<longleftrightarrow>
     (\<forall>i < 16. cs ! i = PNil \<or> pnode (cs ! i)) \<and> (cs ! 16 = PNil \<or> (\<exists>v. v \<noteq> [] \<and> cs ! 16 = PVal v))"
    unfolding pslot_def less_17 by blast
  then show ?thesis using pnode.branch [of cs] by (auto elim: pnode_FullE)
qed

lemma pslot_leaf:
  assumes "hexkey (x # xs)" "v \<noteq> []"
  shows "pslot (unat x) (pextend xs (PVal v))"
proof (cases "x = 16")
  case True
  then show ?thesis using assms by (auto simp: pslot_def pextend_def)
next
  case False
  then have "nibble x" "hexkey xs" "xs \<noteq> []" using assms by auto
  then show ?thesis using assms unat_nibble by (simp add: pslot_def pextend_def pnode.leaf)
qed

lemma pslot_ext:
  assumes "nibbles (x # xs)" "pnode (PFull cs)"
  shows "pslot (unat x) (pextend xs (PFull cs))"
  using assms unat_nibble by (auto simp: pslot_def pextend_def intro: pnode.ext)

lemma pnode_pbranch:
  assumes "pslot (unat x) (pextend xs p)" "pslot (unat y) (pextend ys q)" "x \<noteq> y"
  shows "pnode (pbranch (x # xs) p (y # ys) q)"
proof -
  define cs where "cs = (empty_children [unat x := pextend xs p]) [unat y := pextend ys q]"
  have ne: "unat x \<noteq> unat y" using assms(3) by (simp add: word_unat_eq_iff)
  have b: "unat x < 17" "unat y < 17" using assms(1,2) by (auto simp: pslot_def)
  have len: "length cs = 17" by (simp add: cs_def)
  have at: "cs ! unat x = pextend xs p" "cs ! unat y = pextend ys q"
    using ne b by (simp_all add: cs_def)
  have slots: "\<forall>i < 17. cs ! i = PNil \<or> pslot i (cs ! i)"
    using assms(1,2) b by (auto simp: cs_def nth_list_update)
  have "2 \<le> length (live cs)"
    unfolding live_iff using len b ne at pslot_not_PNil [OF assms(1)] pslot_not_PNil [OF assms(2)] by metis
  then have "pnode (PFull cs)" using len slots by (simp add: pnode_PFull_iff)
  then show ?thesis by (simp add: pbranch_def cs_def)
qed

lemma pnode_pextend: "nibbles k \<Longrightarrow> pnode (PFull cs) \<Longrightarrow> pnode (pextend k (PFull cs))"
  by (simp add: pextend_def pnode.ext)

lemma pnode_split:
  assumes "nibbles pre" "pslot (unat y) (pextend ys p)" "hexkey (pre @ x # xs)" "x \<noteq> y" "v \<noteq> []"
  shows "pnode (pextend pre (pbranch (y # ys) p (x # xs) (PVal v)))"
proof -
  have "hexkey (x # xs)" using assms(1,3) by (simp add: hexkey_append del: hexkey_simps)
  then have "pnode (pbranch (y # ys) p (x # xs) (PVal v))"
    using assms by (intro pnode_pbranch pslot_leaf) auto
  then show ?thesis using assms(1) pnode_pextend by (simp add: pbranch_def)
qed

lemma pinsert_PFull_form: "\<exists>cs'. pinsert (PFull cs) (x # xs) v = PFull cs'"
  by simp

lemma pnode_update:
  assumes "pnode (PFull cs)" "i < 17" "pslot i c"
  shows "pnode (PFull (cs [i := c]))"
proof -
  from assms(1) have len: "length cs = 17" by (simp add: pnode_PFull_iff)
  from assms(1) obtain a b where ab: "a < 17" "b < 17" "a \<noteq> b" "cs ! a \<noteq> PNil" "cs ! b \<noteq> PNil"
    unfolding pnode_PFull_iff live_iff by metis
  have "2 \<le> length (live (cs [i := c]))"
    unfolding live_iff using ab len pslot_not_PNil [OF assms(3)]
    by (intro exI [of _ a] exI [of _ b]) (auto simp: nth_list_update \<open>i < 17\<close>)
  then show ?thesis using assms by (auto simp: pnode_PFull_iff nth_list_update)
qed

lemma pinsert_pnode: "pnode p \<Longrightarrow> hexkey key \<Longrightarrow> v \<noteq> [] \<Longrightarrow> pnode (pinsert p key v)"
proof (induction p arbitrary: key rule: pnode.induct)
  case (leaf k w)
  show ?case
  proof (cases "prefixLen key k = length k")
    case True
    then have "key = k" using leaf hexkey_prefixLen_full by blast
    moreover have "k \<noteq> []" using leaf by auto
    ultimately have "pinsert (PShort k (PVal w)) key v = PShort k (PVal v)"
      using pinsert_PShort_down [of k "[]" "PVal w" v] by simp
    then show ?thesis using leaf by (simp add: pnode.leaf)
  next
    case False
    with leaf obtain pre x xs y ys where sp: "key = pre @ x # xs" "k = pre @ y # ys" "x \<noteq> y"
      "nibbles pre"
      "pinsert (PShort k (PVal w)) key v = pextend pre (pbranch (y # ys) (PVal w) (x # xs) (PVal v))"
      using pinsert_nonempty_split by metis
    then have "hexkey (y # ys)" using leaf by (simp add: hexkey_append del: hexkey_simps)
    with leaf sp show ?thesis using pnode_split pslot_leaf by metis
  qed
next
  case (ext k cs)
  show ?case
  proof (cases "prefixLen key k = length k")
    case True
    then obtain r where r: "key = k @ r" using prefixLen_eq_right by blast
    then have hr: "hexkey r" using ext by (simp add: hexkey_append)
    then obtain cs' where "pinsert (PFull cs) r v = PFull cs'"
      using pinsert_PFull_form by (metis hexkey_simps(1) list.exhaust)
    then show ?thesis
      using ext r pinsert_PShort_down [of k r "PFull cs" v] ext.IH [OF hr] by (simp add: pnode.ext)
  next
    case False
    with ext obtain pre x xs y ys where sp: "key = pre @ x # xs" "k = pre @ y # ys" "x \<noteq> y"
      "nibbles pre"
      "pinsert (PShort k (PFull cs)) key v = pextend pre (pbranch (y # ys) (PFull cs) (x # xs) (PVal v))"
      using pinsert_nonempty_split by metis
    then have "pslot (unat y) (pextend ys (PFull cs))" using ext by (intro pslot_ext) auto
    with ext sp show ?thesis using pnode_split by metis
  qed
next
  case (branch cs)
  obtain x xs where x: "key = x # xs" using branch.prems by (cases key) auto
  have b: "unat x < 17" using branch.prems x hexkey_hd by blast
  have "pslot (unat x) (pinsert (cs ! unat x) xs v)"
  proof (cases "x = 16")
    case True
    then show ?thesis using branch.prems x by (simp add: pslot_def)
  next
    case False
    then have h: "nibble x" "hexkey xs" using branch.prems x by auto
    then have "pnode (pinsert (cs ! unat x) xs v)"
      using branch.IH branch.prems unat_nibble [of x] pinsert_PNil [of xs v] pnode.leaf by metis
    then show ?thesis using h unat_nibble by (simp add: pslot_def)
  qed
  moreover have "pnode (PFull cs)" using branch by (auto intro: pnode.branch)
  ultimately show ?case using b pnode_update branch.hyps(1) by (simp add: x)
qed

lemma pwf_pinsert: "pwf p \<Longrightarrow> hexkey key \<Longrightarrow> v \<noteq> [] \<Longrightarrow> pnode (pinsert p key v)"
  unfolding pwf_def using pinsert_pnode pinsert_PNil pnode.leaf by metis


section \<open>Deletion\<close>

lemma pmerge_lookup [simp]: "plookup (pmerge k p) key = plookup (PShort k p) key"
proof (cases key k rule: prefix_or_not)
  case (prefix r)
  then show ?thesis by (cases p) (simp_all add: pmerge_def)
next
  case other
  then have "plookup (PShort k p) key = None" by (rule plookup_PShort_other)
  moreover have "key \<noteq> (k @ l) @ r" for l r using other by simp
  then have "plookup (PShort (k @ l) q) key = None" for l q by (rule plookup_PShort_other)
  ultimately show ?thesis by (cases p) (simp_all add: pmerge_def del: plookup.simps(3))
qed

lemma live_single:
  assumes "live cs = [i]"
  shows "i < length cs" "cs ! i \<noteq> PNil" "\<And>j. j < length cs \<Longrightarrow> j \<noteq> i \<Longrightarrow> cs ! j = PNil"
  using live_mem [of _ cs] assms by (metis list.set_intros(1), metis list.set_intros(1), auto)

lemma pcontract_lookup:
  assumes "length cs = 17" "hexkey key"
  shows "plookup (pcontract cs) key = plookup (PFull cs) key"
proof (cases "\<exists>i. live cs = [i]")
  case False
  then have "pcontract cs = PFull cs"
    by (auto simp: pcontract_def split: list.split)
  then show ?thesis by simp
next
  case True
  then obtain i where i: "live cs = [i]" by blast
  note l = live_single [OF i]
  obtain x xs where x: "key = x # xs" using assms by (cases key) auto
  have b: "unat x < 17" using assms(2) x hexkey_hd by blast
  have "word_of_nat i = x \<longleftrightarrow> unat x = i"
    using l(1) assms(1) by (auto simp: unat_of_nat)
  then have "plookup (PShort [word_of_nat i] (cs ! i)) key = plookup (PFull cs) key"
    using l b assms(1) x by auto
  moreover have "pcontract cs = PShort [word_of_nat i] (cs ! i) \<or> pcontract cs = pmerge [word_of_nat i] (cs ! i)"
    by (simp add: pcontract_def i)
  ultimately show ?thesis by (metis pmerge_lookup)
qed

text \<open>Deleting an absent key changes nothing.\<close>

lemma pdelete_absent:
  assumes "pwf p" "hexkey key" "plookup p key = None"
  shows "pdelete p key = p"
proof (cases p)
  case (PShort k q)
  show ?thesis
  proof (cases "prefixLen key k < length k")
    case False
    then have "prefixLen key k = length k" using prefixLen_le(2) [of key k] by simp
    moreover from this obtain r where "key = k @ r" using prefixLen_eq_right by blast
    moreover from this have "r \<noteq> []"
      using assms PShort by (auto simp: pwf_def elim!: pnode_ShortE) (auto simp: hexkey_def)
    ultimately show ?thesis using assms(3) PShort by (simp add: Let_def)
  qed (simp add: PShort)
next
  case (PFull cs)
  then show ?thesis using assms by (cases key) auto
qed (use assms in \<open>auto simp: pwf_def\<close>)

lemma pmerge_pnode:
  assumes "k \<noteq> []" "nibbles k" "pnode p"
  shows "pnode (pmerge k p)"
  using assms(3)
proof cases
  case (leaf l v)
  then show ?thesis using assms by (simp add: pmerge_def hexkey_append pnode.leaf)
next
  case (ext l cs)
  then show ?thesis using assms by (simp add: pmerge_def pnode.ext)
next
  case (branch cs)
  then show ?thesis using assms pnode.ext [of k cs] by (simp add: pmerge_def)
qed

lemma pcontract_pnode:
  assumes "length cs = 17" "\<forall>i < 17. cs ! i = PNil \<or> pslot i (cs ! i)" "j < 17" "cs ! j \<noteq> PNil"
  shows "pnode (pcontract cs)"
proof (cases "\<exists>i. live cs = [i]")
  case True
  then obtain i where i: "live cs = [i]" by blast
  note l = live_single [OF i]
  have slot: "pslot i (cs ! i)" using l assms(1,2) by auto
  show ?thesis
  proof (cases "i = 16")
    case True
    then obtain v where "v \<noteq> []" "cs ! 16 = PVal v" using slot by (auto simp: pslot_def)
    then show ?thesis using True i by (auto simp: pcontract_def intro: pnode.leaf)
  next
    case False
    then have "pnode (cs ! i)" "i < 16" using slot by (auto simp: pslot_def)
    moreover from this have "nibble (word_of_nat i)" by (simp add: nibble_unat unat_of_nat)
    ultimately show ?thesis using False i by (simp add: pcontract_def pmerge_pnode)
  qed
next
  case False
  have "j \<in> set (live cs)" using assms by (simp add: live_mem)
  with False have "2 \<le> length (live cs)"
    by (cases "live cs" rule: remdups_adj.cases) auto
  moreover have "pcontract cs = PFull cs" using False by (auto simp: pcontract_def split: list.split)
  ultimately show ?thesis using assms by (simp add: pnode_PFull_iff)
qed


lemma pnode_other_child:
  assumes "pnode (PFull cs)"
  obtains j where "j < 17" "j \<noteq> i" "cs ! j \<noteq> PNil"
  using assms unfolding pnode_PFull_iff live_iff by metis

lemma pdelete_leaf:
  assumes "hexkey key" "hexkey k"
  shows "pdelete (PShort k (PVal v)) key = (if key = k then PNil else PShort k (PVal v))"
proof (cases "key = k")
  case True
  then show ?thesis using prefixLen_extend [of k "[]"] by simp
next
  case False
  then have "prefixLen key k \<noteq> length k" using assms hexkey_prefixLen_full by blast
  then have "prefixLen key k < length k" by (meson le_neq_implies_less prefixLen_le(2))
  then show ?thesis using False by simp
qed

text \<open>A branch stays non-empty, and so does everything that holds one.\<close>

lemma pdelete_pnode:
  "pnode p \<Longrightarrow> hexkey key \<Longrightarrow> pwf (pdelete p key) \<and> (\<forall>cs. p = PFull cs \<longrightarrow> pnode (pdelete p key))"
proof (induction p arbitrary: key rule: pnode.induct)
  case (leaf k v)
  then show ?case using pnode.leaf [of k v] pdelete_leaf [of key k v] by (auto simp: pwf_def)
next
  case (ext k cs)
  have le: "prefixLen key k \<le> length k" by simp
  have whole: "pnode (PShort k (PFull cs))" using ext by (simp add: pnode.ext)
  show ?case
  proof (cases "prefixLen key k = length k")
    case True
    then obtain r where r: "key = k @ r" using prefixLen_eq_right by blast
    then have hr: "hexkey r" using ext by (simp add: hexkey_append)
    have "pnode (pmerge k (pdelete (PFull cs) r))" using ext.IH [OF hr] ext.hyps by (simp add: pmerge_pnode)
    then show ?thesis using whole True r hr by (auto simp: pwf_def Let_def)
  next
    case False
    with le have "prefixLen key k < length k" by (rule le_neq_implies_less)
    then show ?thesis using whole by (simp add: pwf_def)
  qed
next
  case (branch cs)
  have whole: "pnode (PFull cs)" using branch by (auto intro: pnode.branch)
  then have cs: "length cs = 17" "\<forall>i < 17. cs ! i = PNil \<or> pslot i (cs ! i)" by (simp_all add: pnode_PFull_iff)
  obtain x xs where x: "key = x # xs" using branch.prems by (cases key) auto
  have b: "unat x < 17" using branch.prems x hexkey_hd by blast
  obtain j where j: "j < 17" "j \<noteq> unat x" "cs ! j \<noteq> PNil" using whole pnode_other_child by blast
  have "plookup (cs ! unat x) xs \<noteq> None \<Longrightarrow> pdelete (cs ! unat x) xs = PNil \<or> pslot (unat x) (pdelete (cs ! unat x) xs)"
  proof (cases "x = 16")
    case True
    then show ?thesis using branch.hyps by auto
  next
    case False
    assume "plookup (cs ! unat x) xs \<noteq> None"
    then have "cs ! unat x \<noteq> PNil" by auto
    moreover have h: "nibble x" "hexkey xs" using False branch.prems x by auto
    ultimately have "pwf (pdelete (cs ! unat x) xs)" using branch.IH unat_nibble by blast
    then show ?thesis using h unat_nibble by (auto simp: pwf_def pslot_def)
  qed
  then have "plookup (cs ! unat x) xs \<noteq> None \<Longrightarrow> pnode (pcontract (cs [unat x := pdelete (cs ! unat x) xs]))"
    using cs j b by (intro pcontract_pnode [of _ j]) (auto simp: nth_list_update)
  then show ?case using whole b cs by (auto simp: x pwf_def)
qed

lemma pwf_pdelete: "pwf p \<Longrightarrow> hexkey key \<Longrightarrow> pwf (pdelete p key)"
  using pdelete_pnode [of p key] by (auto simp: pwf_def)

lemma pdelete_pnode_lookup:
  "pnode p \<Longrightarrow> hexkey key \<Longrightarrow> hexkey key' \<Longrightarrow>
     plookup (pdelete p key) key' = (if key' = key then None else plookup p key')"
proof (induction p arbitrary: key key' rule: pnode.induct)
  case (leaf k v)
  then show ?case by (auto simp: pdelete_leaf plookup_leaf simp del: plookup.simps(3) pdelete.simps(3))
next
  case (ext k cs)
  have le: "prefixLen key k \<le> length k" by simp
  show ?case
  proof (cases key k rule: prefix_or_not)
    case (prefix r)
    then have hr: "hexkey r" using ext by (simp add: hexkey_append)
    then have "r \<noteq> []" by auto
    show ?thesis
    proof (cases key' k rule: prefix_or_not)
      case (prefix s)
      then have "hexkey s" using ext by (simp add: hexkey_append)
      then show ?thesis
        using ext.IH [OF hr, of s] \<open>r \<noteq> []\<close> \<open>key = k @ r\<close> prefix by (auto simp: Let_def)
    next
      case other
      then have "plookup (PShort k q) key' = None" for q by (rule plookup_PShort_other)
      then show ?thesis using \<open>key = k @ r\<close> \<open>r \<noteq> []\<close> by (auto simp: Let_def simp del: plookup.simps(3))
    qed
  next
    case other
    then have "prefixLen key k < length k"
      using le prefixLen_eq_right [of key k] by (metis le_neq_implies_less)
    moreover have "plookup (PShort k (PFull cs)) key = None" using other by (rule plookup_PShort_other)
    ultimately show ?thesis by (auto simp del: plookup.simps(3))
  qed
next
  case (branch cs)
  obtain x xs where x: "key = x # xs" using branch.prems by (cases key) auto
  obtain y ys where y: "key' = y # ys" using branch.prems by (cases key') auto
  have b: "unat x < 17" "unat y < 17" using branch.prems x y hexkey_hd by blast+
  have eq: "unat x = unat y \<longleftrightarrow> x = y" by (simp add: word_unat_eq_iff)
  show ?case
  proof (cases "plookup (cs ! unat x) xs")
    case None
    then show ?thesis using branch.hyps(1) b by (auto simp: x y)
  next
    case (Some v)
    have child: "x = y \<Longrightarrow> plookup (pdelete (cs ! unat x) xs) ys = (if ys = xs then None else plookup (cs ! unat x) ys)"
    proof (cases "x = 16")
      case True
      assume "x = y"
      with True have "xs = []" "ys = []" using branch.prems x y by auto
      then show ?thesis using True branch.hyps by auto
    next
      case False
      assume "x = y"
      with False have h: "nibble x" "hexkey xs" "hexkey ys" using branch.prems x y by auto
      have "cs ! unat x \<noteq> PNil" using Some by auto
      then show ?thesis using branch.IH h unat_nibble by blast
    qed
    have "plookup (pdelete (PFull cs) key) key' = plookup (PFull (cs [unat x := pdelete (cs ! unat x) xs])) key'"
      using Some b branch.hyps(1) branch.prems by (simp add: x pcontract_lookup del: plookup.simps hexkey_simps)
    then show ?thesis using child b branch.hyps(1) eq by (auto simp: x y nth_list_update)
  qed
qed

theorem plookup_pdelete:
  "pwf p \<Longrightarrow> hexkey key \<Longrightarrow> hexkey key' \<Longrightarrow>
     plookup (pdelete p key) key' = (if key' = key then None else plookup p key')"
  unfolding pwf_def using pdelete_pnode_lookup by auto


section \<open>A canonical tree is determined by its contents\<close>

lemma pnode_has_key: "pnode p \<Longrightarrow> \<exists>key. hexkey key \<and> plookup p key \<noteq> None"
proof (induction p rule: pnode.induct)
  case (leaf k v)
  then show ?case using plookup_leaf [of k k v] by (auto simp del: plookup.simps)
next
  case (ext k cs)
  then obtain key where "hexkey key" "plookup (PFull cs) key \<noteq> None" by blast
  then show ?case
    using ext.hyps by (intro exI [of _ "k @ key"]) (auto simp: hexkey_append)
next
  case (branch cs)
  then obtain i where i: "i < length cs" "cs ! i \<noteq> PNil" by (auto simp: live_iff)
  have u: "unat (word_of_nat i :: byte) = i" using i branch.hyps(1) by (simp add: unat_of_nat)
  show ?case
  proof (cases "i = 16")
    case True
    then show ?thesis using i branch.hyps by (intro exI [of _ "[16]"]) auto
  next
    case False
    then have "i < 16" using i branch.hyps(1) by simp
    then obtain key where "hexkey key" "plookup (cs ! i) key \<noteq> None" using branch.IH i by blast
    moreover have "nibble (word_of_nat i)" using \<open>i < 16\<close> u by (simp add: nibble_unat)
    ultimately show ?thesis using i u by (intro exI [of _ "word_of_nat i # key"]) simp
  qed
qed

text \<open>Below a branch there are keys that differ in their first element.\<close>

lemma slot_has_key:
  assumes "pslot i c"
  shows "\<exists>x xs. unat x = i \<and> hexkey (x # xs) \<and> plookup c xs \<noteq> None"
proof (cases "i = 16")
  case True
  then show ?thesis using assms by (intro exI [of _ 16] exI [of _ "[]"]) (auto simp: pslot_def)
next
  case False
  then have i: "i < 16" "pnode c" using assms by (auto simp: pslot_def)
  then obtain key where "hexkey key" "plookup c key \<noteq> None" using pnode_has_key by blast
  moreover have "unat (word_of_nat i :: byte) = i" using i by (simp add: unat_of_nat)
  ultimately show ?thesis
    using i by (intro exI [of _ "word_of_nat i"] exI [of _ key]) (auto simp: nibble_unat)
qed

lemma pnode_PFull_keys:
  assumes "pnode (PFull cs)"
  obtains x xs y ys where "x \<noteq> y" "hexkey (x # xs)" "hexkey (y # ys)"
    "plookup (PFull cs) (x # xs) \<noteq> None" "plookup (PFull cs) (y # ys) \<noteq> None"
proof -
  from assms have cs: "length cs = 17" "\<forall>i < 17. cs ! i = PNil \<or> pslot i (cs ! i)"
    by (simp_all add: pnode_PFull_iff)
  from assms obtain i j where ij: "i < 17" "j < 17" "i \<noteq> j" "cs ! i \<noteq> PNil" "cs ! j \<noteq> PNil"
    unfolding pnode_PFull_iff live_iff by metis
  obtain x xs where x: "unat x = i" "hexkey (x # xs)" "plookup (cs ! i) xs \<noteq> None"
    using slot_has_key cs ij by blast
  obtain y ys where y: "unat y = j" "hexkey (y # ys)" "plookup (cs ! j) ys \<noteq> None"
    using slot_has_key cs ij by blast
  show ?thesis using that [of x y xs ys] x y ij cs by auto
qed

definition same_contents :: "ptrie \<Rightarrow> ptrie \<Rightarrow> bool" where
  "same_contents p q \<longleftrightarrow> (\<forall>key. hexkey key \<longrightarrow> plookup p key = plookup q key)"

lemma same_contents_sym: "same_contents p q \<Longrightarrow> same_contents q p"
  by (simp add: same_contents_def)

text \<open>A non-empty key of a short node is a prefix of every key it holds.\<close>

lemma plookup_PShort_prefix: "plookup (PShort k p) key \<noteq> None \<Longrightarrow> \<exists>r. key = k @ r"
  using plookup_PShort_other by metis

lemma same_contents_PShort_PFull:
  assumes "pnode (PFull cs)" "k \<noteq> []"
  shows "\<not> same_contents (PShort k p) (PFull cs)"
proof
  assume same: "same_contents (PShort k p) (PFull cs)"
  obtain x xs y ys where "x \<noteq> y" "hexkey (x # xs)" "hexkey (y # ys)"
    "plookup (PFull cs) (x # xs) \<noteq> None" "plookup (PFull cs) (y # ys) \<noteq> None"
    using assms(1) by (rule pnode_PFull_keys)
  moreover from this have "plookup (PShort k p) (x # xs) \<noteq> None" "plookup (PShort k p) (y # ys) \<noteq> None"
    using same unfolding same_contents_def by metis+
  then obtain r s where "x # xs = k @ r" "y # ys = k @ s" using plookup_PShort_prefix by blast
  ultimately show False using assms(2) by (cases k) auto
qed

text \<open>The keys of an extension branch right behind its prefix.\<close>

lemma ext_prefix_of_keys:
  assumes "pnode (PFull cs)" "nibbles k" "same_contents (PShort k (PFull cs)) (PShort l q)"
  shows "\<exists>r. k = l @ r"
proof -
  obtain x xs y ys where xy: "x \<noteq> y" "hexkey (x # xs)" "hexkey (y # ys)"
    "plookup (PFull cs) (x # xs) \<noteq> None" "plookup (PFull cs) (y # ys) \<noteq> None"
    using assms(1) by (rule pnode_PFull_keys)
  have "hexkey (k @ z) \<Longrightarrow> plookup (PFull cs) z \<noteq> None \<Longrightarrow> \<exists>r. k @ z = l @ r" for z
    using assms(3) plookup_PShort_prefix [of l q "k @ z"] plookup_PShort_append [of k "PFull cs" z]
    unfolding same_contents_def by metis
  then obtain r s where "k @ x # xs = l @ r" "k @ y # ys = l @ s"
    using xy assms(2) hexkey_append by meson
  then show ?thesis using xy(1)
    by (auto simp: append_eq_append_conv2 Cons_eq_append_conv)
qed

lemma same_contents_child:
  assumes "same_contents (PFull cs) (PFull ds)" "length cs = 17" "length ds = 17" "i < 17"
    "hexkey (word_of_nat i # xs)"
  shows "plookup (cs ! i) xs = plookup (ds ! i) xs"
proof -
  have "unat (word_of_nat i :: byte) = i" using assms(4) by (simp add: unat_of_nat)
  then show ?thesis
    using assms(1) [unfolded same_contents_def, rule_format, OF assms(5)] assms(2,3,4) by simp
qed

text \<open>Two children at one index agree when their contents do.\<close>

lemma slot_unique:
  assumes "\<And>xs. hexkey (word_of_nat i # xs) \<Longrightarrow> plookup c xs = plookup d xs"
    "c = PNil \<or> pslot i c" "d = PNil \<or> pslot i d"
    "i < 16 \<Longrightarrow> pnode c \<Longrightarrow> pnode d \<Longrightarrow> same_contents c d \<Longrightarrow> c = d"
  shows "c = d"
proof (cases "i < 16")
  case True
  then have "nibble (word_of_nat i)" by (simp add: nibble_unat unat_of_nat)
  then have same: "same_contents c d" using assms(1) by (simp add: same_contents_def)
  have "c = PNil \<or> pnode c" "d = PNil \<or> pnode d" using assms(2,3) True by (auto simp: pslot_def)
  moreover have "pnode c \<Longrightarrow> d \<noteq> PNil" "pnode d \<Longrightarrow> c \<noteq> PNil"
    using same pnode_has_key [of c] pnode_has_key [of d] by (auto simp: same_contents_def)
  ultimately show ?thesis using assms(4) True same by blast
next
  case False
  then have "c = PNil \<or> (i = 16 \<and> (\<exists>v. c = PVal v))" "d = PNil \<or> (i = 16 \<and> (\<exists>v. d = PVal v))"
    using assms(2,3) by (auto simp: pslot_def)
  then show ?thesis using assms(1) [of "[]"] by auto
qed

lemma pnode_unique: "pnode p \<Longrightarrow> pnode q \<Longrightarrow> same_contents p q \<Longrightarrow> p = q"
proof (induction p arbitrary: q rule: pnode.induct)
  case (leaf k v)
  have at_k: "plookup q k = Some v"
    using leaf plookup_leaf [of k k v] unfolding same_contents_def by metis
  have only_k: "hexkey key \<Longrightarrow> plookup q key \<noteq> None \<Longrightarrow> key = k" for key
    using leaf plookup_leaf [of k key v] unfolding same_contents_def by metis
  have no_branch: False
    if b: "pnode (PFull cs)" "nibbles l" and at: "\<And>z. plookup q (l @ z) = plookup (PFull cs) z" for cs l
  proof -
    obtain x xs y ys where xy: "x \<noteq> y" "hexkey (x # xs)" "hexkey (y # ys)"
      "plookup (PFull cs) (x # xs) \<noteq> None" "plookup (PFull cs) (y # ys) \<noteq> None"
      using b(1) by (rule pnode_PFull_keys)
    have "l @ x # xs = k" "l @ y # ys = k"
      using xy at b(2) by (auto intro!: only_k simp: hexkey_append simp del: hexkey_simps plookup.simps)
    then show False using xy(1) by (metis list.inject same_append_eq)
  qed
  from leaf.prems(1) show ?case
  proof cases
    case (leaf l w)
    then show ?thesis using at_k plookup_leaf [of l k w] \<open>hexkey k\<close> by (metis option.distinct(1) option.inject)
  next
    case (ext l cs)
    then show ?thesis using no_branch [of cs l] plookup_PShort_append by simp
  next
    case (branch cs)
    then show ?thesis using no_branch [of cs "[]"] leaf.prems(1) by simp
  qed
next
  case (ext k cs)
  have k: "k \<noteq> []" "nibbles k" "pnode (PFull cs)" using ext by auto
  from ext.prems(1) show ?case
  proof cases
    case (leaf l w)
    then obtain r where "k = l @ r" using ext_prefix_of_keys k ext.prems(2) by metis
    then show ?thesis using k leaf by (auto simp: hexkey_def)
  next
    case q: (ext l ds)
    obtain r where "k = l @ r" using ext_prefix_of_keys k q ext.prems(2) by blast
    moreover obtain s where "l = k @ s"
      using ext_prefix_of_keys [of ds l k "PFull cs"] q ext.prems(2) same_contents_sym by blast
    ultimately have kl: "k = l" by simp
    have "same_contents (PFull cs) (PFull ds)"
      unfolding same_contents_def
    proof (intro allI impI)
      fix key assume "hexkey key"
      then have "hexkey (k @ key)" using k by (simp add: hexkey_append)
      then show "plookup (PFull cs) key = plookup (PFull ds) key"
        using ext.prems(2) q kl plookup_PShort_append unfolding same_contents_def by metis
    qed
    then have "PFull cs = PFull ds" using ext.IH q by blast
    then show ?thesis using q kl by simp
  next
    case (branch ds)
    then show ?thesis using same_contents_PShort_PFull ext.prems k by metis
  qed
next
  case (branch cs)
  have whole: "pnode (PFull cs)" using branch by (auto intro: pnode.branch)
  from branch.prems(1) show ?case
  proof cases
    case (leaf l w)
    then have "l \<noteq> []" by auto
    then show ?thesis using same_contents_PShort_PFull [OF whole] branch.prems(2) leaf same_contents_sym by metis
  next
    case (ext l ds)
    then show ?thesis using same_contents_PShort_PFull [OF whole] branch.prems(2) same_contents_sym by metis
  next
    case q: (branch ds)
    have "cs ! i = ds ! i" if i: "i < 17" for i
    proof -
      have "same_contents (PFull cs) (PFull ds)" using branch.prems(2) q by simp
      then have "hexkey (word_of_nat i # xs) \<Longrightarrow> plookup (cs ! i) xs = plookup (ds ! i) xs" for xs
        using same_contents_child i branch.hyps(1) q by blast
      moreover have "cs ! i = PNil \<or> pslot i (cs ! i)" "ds ! i = PNil \<or> pslot i (ds ! i)"
        using whole branch.prems(1) i q by (simp_all add: pnode_PFull_iff)
      moreover have "pnode (ds ! i) \<Longrightarrow> same_contents (cs ! i) (ds ! i) \<Longrightarrow> pnode (cs ! i) \<Longrightarrow> cs ! i = ds ! i" if "i < 16"
        using branch.IH that by (metis pnode_simps(1))
      ultimately show ?thesis by (rule slot_unique)
    qed
    then show ?thesis using q branch.hyps(1) by (auto intro: nth_equalityI)
  qed
qed


theorem pwf_unique:
  assumes "pwf p" "pwf q" "same_contents p q"
  shows "p = q"
proof -
  have "p = PNil \<longleftrightarrow> q = PNil"
    using assms pnode_has_key [of p] pnode_has_key [of q] by (auto simp: pwf_def same_contents_def)
  then show ?thesis using assms pnode_unique by (auto simp: pwf_def)
qed

text \<open>
  Consequences: updates of different keys commute, and deleting a freshly inserted key gives the
  tree back, as equalities of trees.
\<close>

lemma pinsert_commute:
  assumes "pwf p" "hexkey k" "hexkey l" "k \<noteq> l" "v \<noteq> []" "w \<noteq> []"
  shows "pinsert (pinsert p k v) l w = pinsert (pinsert p l w) k v"
proof (rule pwf_unique)
  have k: "pwf (pinsert p k v)" and l: "pwf (pinsert p l w)" using assms pwf_pinsert by (auto simp: pwf_def)
  then show "pwf (pinsert (pinsert p k v) l w)" "pwf (pinsert (pinsert p l w) k v)"
    using assms pwf_pinsert pwf_def by blast+
  show "same_contents (pinsert (pinsert p k v) l w) (pinsert (pinsert p l w) k v)"
    using assms k l by (auto simp: same_contents_def plookup_pinsert)
qed

lemma pdelete_pinsert_fresh:
  assumes "pwf p" "hexkey k" "v \<noteq> []" "plookup p k = None"
  shows "pdelete (pinsert p k v) k = p"
proof (rule pwf_unique)
  have k: "pwf (pinsert p k v)" using assms pwf_pinsert by (auto simp: pwf_def)
  then show "pwf (pdelete (pinsert p k v) k)" using assms by (intro pwf_pdelete)
  show "pwf p" by fact
  show "same_contents (pdelete (pinsert p k v) k) p"
    using assms k by (auto simp: same_contents_def plookup_pinsert plookup_pdelete)
qed

end
