(* ===== verification/RLP_Encode.thy ===== *)
theory RLP_Encode
  imports Go_Prelude
begin

text \<open>
  The RLP encoder of \<^verbatim>\<open>pkg/rlp/encode.go\<close>. The code writes all string data into one buffer and
  remembers the list headers with their offsets (\<open>encbuf\<close>, \<open>listhead\<close>); \<open>toBytes\<close> and \<open>toWriter\<close>
  interleave the two at the end. The values the reflection-driven writers are chosen for are
  the constructors of \<open>rlp_val\<close>. Shown: the buffered encoder produces exactly the recursive
  encoding \<open>rlp_enc\<close> of the RLP definition, and its integer and size helpers are minimal
  big-endian.
\<close>

section \<open>Integers and headers\<close>

definition byte_of :: "u64 \<Rightarrow> byte" where
  "byte_of i = ucast i"

definition putint :: "u64 \<Rightarrow> bytes" where
  "putint i =
     (if i < push_bit 8 1 then [byte_of i]
      else if i < push_bit 16 1 then [byte_of (drop_bit 8 i), byte_of i]
      else if i < push_bit 24 1 then
        [byte_of (drop_bit 16 i), byte_of (drop_bit 8 i), byte_of i]
      else if i < push_bit 32 1 then
        [byte_of (drop_bit 24 i), byte_of (drop_bit 16 i), byte_of (drop_bit 8 i), byte_of i]
      else if i < push_bit 40 1 then
        [byte_of (drop_bit 32 i), byte_of (drop_bit 24 i), byte_of (drop_bit 16 i),
         byte_of (drop_bit 8 i), byte_of i]
      else if i < push_bit 48 1 then
        [byte_of (drop_bit 40 i), byte_of (drop_bit 32 i), byte_of (drop_bit 24 i),
         byte_of (drop_bit 16 i), byte_of (drop_bit 8 i), byte_of i]
      else if i < push_bit 56 1 then
        [byte_of (drop_bit 48 i), byte_of (drop_bit 40 i), byte_of (drop_bit 32 i),
         byte_of (drop_bit 24 i), byte_of (drop_bit 16 i), byte_of (drop_bit 8 i), byte_of i]
      else
        [byte_of (drop_bit 56 i), byte_of (drop_bit 48 i), byte_of (drop_bit 40 i),
         byte_of (drop_bit 32 i), byte_of (drop_bit 24 i), byte_of (drop_bit 16 i),
         byte_of (drop_bit 8 i), byte_of i])"

text \<open>
  The loop of \<open>intsize\<close> shifts right by eight until nothing is left; \<open>size\<close> is its counter.
\<close>

function intsize_loop :: "u64 \<Rightarrow> nat \<Rightarrow> nat" where
  "intsize_loop i sz =
     (let i' = drop_bit 8 i in if i' = 0 then sz else intsize_loop i' (Suc sz))"
  by pat_completeness auto
termination
proof (relation "measure (\<lambda>(i, sz). unat i)")
  fix i :: u64 and sz i'
  assume "i' = drop_bit 8 i" "i' \<noteq> 0"
  then have "unat i' = unat i div 256" "unat i' \<noteq> 0"
    by (simp add: unat_drop_bit_div) (simp add: \<open>i' \<noteq> 0\<close> unat_eq_zero)
  then show "((i', Suc sz), i, sz) \<in> measure (\<lambda>(i, sz). unat i)"
    by (simp add: div_less_dividend)
qed simp

declare intsize_loop.simps [simp del]

definition intsize :: "u64 \<Rightarrow> nat" where
  "intsize i = intsize_loop i 1"

definition headsize :: "u64 \<Rightarrow> nat" where
  "headsize sz = (if sz < 56 then 1 else 1 + intsize sz)"

text \<open>\<open>puthead\<close> writes the header into the front of a buffer; here it is the bytes written.\<close>

definition puthead :: "byte \<Rightarrow> byte \<Rightarrow> u64 \<Rightarrow> bytes" where
  "puthead smalltag largetag sz =
     (if sz < 56 then [smalltag + byte_of sz]
      else let enc = putint sz in (largetag + word_of_nat (length enc)) # enc)"

definition ListSize :: "u64 \<Rightarrow> u64" where
  "ListSize contentSize = word_of_nat (headsize contentSize) + contentSize"

section \<open>The encode buffer\<close>

text \<open>
  \<open>lheads\<close> are pointers in the code; a header is named here by its index in the list, which is
  what \<open>encbuf_list\<close> returns and \<open>encbuf_listEnd\<close> takes.
\<close>

record listhead =
  lh_offset :: nat
  lh_size :: nat

record encbuf =
  eb_str :: bytes
  eb_lheads :: "listhead list"
  eb_lhsize :: nat

definition encbuf_reset :: encbuf where
  "encbuf_reset = \<lparr>eb_str = [], eb_lheads = [], eb_lhsize = 0\<rparr>"

definition encbuf_size :: "encbuf \<Rightarrow> nat" where
  "encbuf_size w = length (eb_str w) + eb_lhsize w"

definition encbuf_put :: "bytes \<Rightarrow> encbuf \<Rightarrow> encbuf" where
  "encbuf_put b w = w\<lparr>eb_str := eb_str w @ b\<rparr>"

definition listhead_encode :: "listhead \<Rightarrow> bytes" where
  "listhead_encode head = puthead 0xC0 0xF7 (word_of_nat (lh_size head))"

definition encodeStringHeader :: "nat \<Rightarrow> encbuf \<Rightarrow> encbuf" where
  "encodeStringHeader sz w =
     (if sz < 56 then encbuf_put [0x80 + word_of_nat sz] w
      else let enc = putint (word_of_nat sz)
           in encbuf_put ((0xB7 + word_of_nat (length enc)) # enc) w)"

definition encodeString :: "bytes \<Rightarrow> encbuf \<Rightarrow> encbuf" where
  "encodeString b w =
     (if length b = 1 \<and> b ! 0 \<le> 0x7F then encbuf_put [b ! 0] w
      else encbuf_put b (encodeStringHeader (length b) w))"

definition encbuf_list :: "encbuf \<Rightarrow> nat \<times> encbuf" where
  "encbuf_list w =
     (let lh = \<lparr>lh_offset = length (eb_str w), lh_size = eb_lhsize w\<rparr>
      in (length (eb_lheads w), w\<lparr>eb_lheads := eb_lheads w @ [lh]\<rparr>))"

text \<open>
  \<open>listEnd\<close> turns the saved header sum into the payload size. The subtraction is of Go ints; it
  never goes negative because the buffer only grows.
\<close>

definition encbuf_listEnd :: "nat \<Rightarrow> encbuf \<Rightarrow> encbuf" where
  "encbuf_listEnd i w =
     (let lh = eb_lheads w ! i;
          sz = encbuf_size w - lh_offset lh - lh_size lh
      in w\<lparr>eb_lheads := (eb_lheads w)[i := lh\<lparr>lh_size := sz\<rparr>],
           eb_lhsize := eb_lhsize w + (if sz < 56 then 1 else 1 + intsize (word_of_nat sz))\<rparr>)"

text \<open>
  \<open>toWriter\<close> streams the pieces; \<open>toBytes\<close> copies them into a buffer of exactly \<open>size()\<close> bytes.
  Go's \<open>copy\<close> moves as many bytes as fit, and writing a header past the end of the buffer is an
  index panic (\<open>None\<close>).
\<close>

fun toWriter_loop :: "bytes \<Rightarrow> listhead list \<Rightarrow> nat \<Rightarrow> bytes" where
  "toWriter_loop str [] strpos = drop strpos str"
| "toWriter_loop str (head # heads) strpos =
     take (lh_offset head - strpos) (drop strpos str) @ listhead_encode head
       @ toWriter_loop str heads (max strpos (lh_offset head))"

definition toWriter :: "encbuf \<Rightarrow> bytes" where
  "toWriter w = toWriter_loop (eb_str w) (eb_lheads w) 0"

definition copy_at :: "bytes \<Rightarrow> nat \<Rightarrow> bytes \<Rightarrow> nat \<times> bytes" where
  "copy_at out pos src =
     (let n = min (length src) (length out - pos)
      in (n, take pos out @ take n src @ drop (pos + n) out))"

fun toBytes_loop :: "bytes \<Rightarrow> listhead list \<Rightarrow> bytes \<Rightarrow> nat \<Rightarrow> nat \<Rightarrow> bytes option" where
  "toBytes_loop str [] out strpos pos = Some (snd (copy_at out pos (drop strpos str)))"
| "toBytes_loop str (head # heads) out strpos pos =
     (let (n, out1) = copy_at out pos (take (lh_offset head - strpos) (drop strpos str));
          pos1 = pos + n;
          enc = listhead_encode head
      in if length out1 - pos1 < length enc then None
         else let (m, out2) = copy_at out1 pos1 enc
              in toBytes_loop str heads out2 (strpos + n) (pos1 + length enc))"

definition toBytes :: "encbuf \<Rightarrow> bytes option" where
  "toBytes w = toBytes_loop (eb_str w) (eb_lheads w) (replicate (encbuf_size w) 0) 0 0"

section \<open>Writers\<close>

text \<open>
  The values the writers of \<open>makeWriter\<close> handle: byte strings (slices, arrays and Go strings),
  unsigned integers, booleans, big integers (a nil pointer is \<open>RBigNil\<close>), raw values, nil
  interfaces, and lists (slices, arrays and structs). A type that has no writer, and a value that is
  not addressable but whose \<open>EncodeRLP\<close> method needs a pointer, fail in the reflection before anything is
  written; such types have no value here.
\<close>

datatype rlp_val =
    RBytes bytes
  | RUint u64
  | RBool bool
  | RBig int
  | RBigNil
  | RRaw bytes
  | RNilInterface
  | RList "rlp_val list"

datatype enc_error = ErrNegativeBigInt

definition writeUint :: "u64 \<Rightarrow> encbuf \<Rightarrow> encbuf" where
  "writeUint i w =
     (if i = 0 then encbuf_put [0x80] w
      else if i < 128 then encbuf_put [byte_of i] w
      else let enc = putint i in encbuf_put ((0x80 + word_of_nat (length enc)) # enc) w)"

definition writeBool :: "bool \<Rightarrow> encbuf \<Rightarrow> encbuf" where
  "writeBool v w = encbuf_put [if v then 0x01 else 0x80] w"

definition writeBigInt :: "int \<Rightarrow> encbuf \<Rightarrow> enc_error + encbuf" where
  "writeBigInt i w =
     (if i < 0 then Inl ErrNegativeBigInt
      else if i = 0 then Inr (encbuf_put [0x80] w)
      else Inr (encodeString (be_min (nat i)) w))"

fun rlp_write :: "rlp_val \<Rightarrow> encbuf \<Rightarrow> enc_error + encbuf"
  and rlp_write_list :: "rlp_val list \<Rightarrow> encbuf \<Rightarrow> enc_error + encbuf" where
  "rlp_write (RBytes b) w = Inr (encodeString b w)"
| "rlp_write (RUint i) w = Inr (writeUint i w)"
| "rlp_write (RBool v) w = Inr (writeBool v w)"
| "rlp_write (RBig i) w = writeBigInt i w"
| "rlp_write RBigNil w = Inr (encbuf_put [0x80] w)"
| "rlp_write (RRaw b) w = Inr (encbuf_put b w)"
| "rlp_write RNilInterface w = Inr (encbuf_put [0xC0] w)"
| "rlp_write (RList vs) w =
     (let (lh, w1) = encbuf_list w
      in go_bind (rlp_write_list vs w1) (\<lambda>w2. Inr (encbuf_listEnd lh w2)))"
| "rlp_write_list [] w = Inr w"
| "rlp_write_list (v # vs) w = go_bind (rlp_write v w) (rlp_write_list vs)"

text \<open>\<open>EncodeToBytes\<close>; the outer \<open>option\<close> of \<open>toBytes\<close> is the index panic, shown impossible below.\<close>

definition EncodeToBytes :: "rlp_val \<Rightarrow> enc_error + bytes option" where
  "EncodeToBytes v = go_bind (rlp_write v encbuf_reset) (\<lambda>w. Inr (toBytes w))"

section \<open>The recursive encoding\<close>

definition rlp_head :: "byte \<Rightarrow> byte \<Rightarrow> nat \<Rightarrow> bytes" where
  "rlp_head smalltag largetag n =
     (if n < 56 then [smalltag + word_of_nat n]
      else (largetag + word_of_nat (length (be_min n))) # be_min n)"

definition rlp_string :: "bytes \<Rightarrow> bytes" where
  "rlp_string b = (if length b = 1 \<and> b ! 0 < 128 then b else rlp_head 0x80 0xB7 (length b) @ b)"

definition rlp_list :: "bytes \<Rightarrow> bytes" where
  "rlp_list content = rlp_head 0xC0 0xF7 (length content) @ content"

fun rlp_enc :: "rlp_val \<Rightarrow> bytes" where
  "rlp_enc (RBytes b) = rlp_string b"
| "rlp_enc (RUint i) = rlp_string (be_min (unat i))"
| "rlp_enc (RBool v) = rlp_string (be_min (if v then 1 else 0))"
| "rlp_enc (RBig i) = rlp_string (be_min (nat i))"
| "rlp_enc RBigNil = rlp_string []"
| "rlp_enc (RRaw b) = b"
| "rlp_enc RNilInterface = rlp_list []"
| "rlp_enc (RList vs) = rlp_list (concat (map rlp_enc vs))"

text \<open>
  The values with an encoding: no negative big integer, and every string and list short enough
  for its size to be a 64-bit number (which every Go slice is).
\<close>

fun rlp_ok :: "rlp_val \<Rightarrow> bool" where
  "rlp_ok (RBytes b) \<longleftrightarrow> length b < 2 ^ 64"
| "rlp_ok (RBig i) \<longleftrightarrow> 0 \<le> i \<and> length (be_min (nat i)) < 2 ^ 64"
| "rlp_ok (RList vs) \<longleftrightarrow> (\<forall>v \<in> set vs. rlp_ok v) \<and> length (concat (map rlp_enc vs)) < 2 ^ 64"
| "rlp_ok _ \<longleftrightarrow> True"

section \<open>Integer helpers\<close>

lemma byte_of_drop_bit: "byte_of (drop_bit n i) = word_of_nat (unat i div 2 ^ n mod 256)"
  by (simp add: byte_of_def word_unat_eq_iff unat_u64_byte unat_drop_bit_div)

lemma byte_of_nat: "byte_of i = word_of_nat (unat i mod 256)"
  using byte_of_drop_bit [of 0 i] by simp

lemma be_min_fixed: "256 ^ k \<le> v \<Longrightarrow> v < 256 ^ Suc k \<Longrightarrow> be_min v = be_fixed (Suc k) v"
proof (induction k arbitrary: v)
  case 0
  then show ?case by (simp add: be_min.simps [of v] div_eq_0_iff [THEN iffD2])
next
  case (Suc k)
  have "256 ^ k \<le> v div 256"
    using Suc.prems(1) by (simp add: less_eq_div_iff_mult_less_eq mult.commute)
  moreover have "v div 256 < 256 ^ Suc k"
    using Suc.prems(2) by (simp add: less_mult_imp_div_less mult.commute)
  ultimately have "be_min (v div 256) = be_fixed (Suc k) (v div 256)"
    by (rule Suc.IH)
  moreover have "v \<noteq> 0" using Suc.prems(1) by (metis le_zero_eq power_not_zero zero_neq_numeral)
  ultimately show ?case by (simp add: be_min.simps [of v])
qed

lemma word_less_push_bit_1:
  fixes i :: u64
  assumes "n < 64"
  shows "i < push_bit n 1 \<longleftrightarrow> unat i < 2 ^ n"
  using assms by (simp add: word_less_nat_alt unat_push_bit_one del: push_bit_of_1)

lemma be_fixed_explicit:
  "be_fixed (Suc (Suc 0)) v = [word_of_nat (v div 2 ^ 8 mod 256), word_of_nat (v mod 256)]"
  "be_fixed (Suc (Suc (Suc 0))) v = [word_of_nat (v div 2 ^ 16 mod 256), word_of_nat (v div 2 ^ 8 mod 256), word_of_nat (v mod 256)]"
  "be_fixed (Suc (Suc (Suc (Suc 0)))) v = [word_of_nat (v div 2 ^ 24 mod 256), word_of_nat (v div 2 ^ 16 mod 256), word_of_nat (v div 2 ^ 8 mod 256), word_of_nat (v mod 256)]"
  "be_fixed (Suc (Suc (Suc (Suc (Suc 0))))) v = [word_of_nat (v div 2 ^ 32 mod 256), word_of_nat (v div 2 ^ 24 mod 256), word_of_nat (v div 2 ^ 16 mod 256), word_of_nat (v div 2 ^ 8 mod 256), word_of_nat (v mod 256)]"
  "be_fixed (Suc (Suc (Suc (Suc (Suc (Suc 0)))))) v = [word_of_nat (v div 2 ^ 40 mod 256), word_of_nat (v div 2 ^ 32 mod 256), word_of_nat (v div 2 ^ 24 mod 256), word_of_nat (v div 2 ^ 16 mod 256), word_of_nat (v div 2 ^ 8 mod 256), word_of_nat (v mod 256)]"
  "be_fixed (Suc (Suc (Suc (Suc (Suc (Suc (Suc 0))))))) v = [word_of_nat (v div 2 ^ 48 mod 256), word_of_nat (v div 2 ^ 40 mod 256), word_of_nat (v div 2 ^ 32 mod 256), word_of_nat (v div 2 ^ 24 mod 256), word_of_nat (v div 2 ^ 16 mod 256), word_of_nat (v div 2 ^ 8 mod 256), word_of_nat (v mod 256)]"
  "be_fixed (Suc (Suc (Suc (Suc (Suc (Suc (Suc (Suc 0)))))))) v = [word_of_nat (v div 2 ^ 56 mod 256), word_of_nat (v div 2 ^ 48 mod 256), word_of_nat (v div 2 ^ 40 mod 256), word_of_nat (v div 2 ^ 32 mod 256), word_of_nat (v div 2 ^ 24 mod 256), word_of_nat (v div 2 ^ 16 mod 256), word_of_nat (v div 2 ^ 8 mod 256), word_of_nat (v mod 256)]"
  by (simp_all add: div_mult2_eq [symmetric])

lemma putint_be_min: "putint i = (if i = 0 then [0] else be_min (unat i))"
proof (cases "unat i < 256")
  case True
  then show ?thesis
    using word_less_push_bit_1 [of 8 i]
    by (cases "i = 0") (simp_all add: putint_def byte_of_nat be_min.simps [of "unat i"] unat_eq_zero)
next
  case False
  then have i: "i \<noteq> 0" by auto
  have lt: "unat i < 2 ^ 64" using unsigned_less [of i, where 'a = nat] by simp
  note defs = putint_def word_less_push_bit_1 byte_of_nat unat_drop_bit_div
  consider "unat i < 2 ^ 16" | "2 ^ 16 \<le> unat i" "unat i < 2 ^ 24" | "2 ^ 24 \<le> unat i" "unat i < 2 ^ 32"
    | "2 ^ 32 \<le> unat i" "unat i < 2 ^ 40" | "2 ^ 40 \<le> unat i" "unat i < 2 ^ 48"
    | "2 ^ 48 \<le> unat i" "unat i < 2 ^ 56" | "2 ^ 56 \<le> unat i"
    by linarith
  then show ?thesis
  proof cases
    case 1
    with False i lt have "be_min (unat i) = be_fixed (Suc (Suc 0)) (unat i)"
      by (intro be_min_fixed) simp_all
    with 1 False i show ?thesis by (simp add: defs be_fixed_explicit del: push_bit_of_1 be_fixed.simps)
  next
    case 2
    with False i lt have "be_min (unat i) = be_fixed (Suc (Suc (Suc 0))) (unat i)"
      by (intro be_min_fixed) simp_all
    with 2 False i show ?thesis by (simp add: defs be_fixed_explicit del: push_bit_of_1 be_fixed.simps)
  next
    case 3
    with False i lt have "be_min (unat i) = be_fixed (Suc (Suc (Suc (Suc 0)))) (unat i)"
      by (intro be_min_fixed) simp_all
    with 3 False i show ?thesis by (simp add: defs be_fixed_explicit del: push_bit_of_1 be_fixed.simps)
  next
    case 4
    with False i lt have "be_min (unat i) = be_fixed (Suc (Suc (Suc (Suc (Suc 0))))) (unat i)"
      by (intro be_min_fixed) simp_all
    with 4 False i show ?thesis by (simp add: defs be_fixed_explicit del: push_bit_of_1 be_fixed.simps)
  next
    case 5
    with False i lt have "be_min (unat i) = be_fixed (Suc (Suc (Suc (Suc (Suc (Suc 0)))))) (unat i)"
      by (intro be_min_fixed) simp_all
    with 5 False i show ?thesis by (simp add: defs be_fixed_explicit del: push_bit_of_1 be_fixed.simps)
  next
    case 6
    with False i lt have "be_min (unat i) = be_fixed (Suc (Suc (Suc (Suc (Suc (Suc (Suc 0))))))) (unat i)"
      by (intro be_min_fixed) simp_all
    with 6 False i show ?thesis by (simp add: defs be_fixed_explicit del: push_bit_of_1 be_fixed.simps)
  next
    case 7
    with False i lt have "be_min (unat i) = be_fixed (Suc (Suc (Suc (Suc (Suc (Suc (Suc (Suc 0)))))))) (unat i)"
      by (intro be_min_fixed) simp_all
    with 7 False i show ?thesis by (simp add: defs be_fixed_explicit del: push_bit_of_1 be_fixed.simps)
  qed
qed

lemma intsize_loop_be_min:
  "i \<noteq> 0 \<Longrightarrow> Suc (intsize_loop i sz) = sz + length (be_min (unat i))"
proof (induction i sz rule: intsize_loop.induct)
  case (1 i sz)
  have d: "unat (drop_bit 8 i) = unat i div 256" by (simp add: unat_drop_bit_div)
  have i: "unat i \<noteq> 0" using "1.prems" by (simp add: unat_eq_zero)
  show ?case
  proof (cases "drop_bit 8 i = 0")
    case True
    with d have "unat i div 256 = 0" by simp
    with i True show ?thesis
      by (simp add: intsize_loop.simps [of i] be_min.simps [of "unat i"])
  next
    case False
    with "1.IH" d have "Suc (intsize_loop (drop_bit 8 i) (Suc sz)) = Suc sz + length (be_min (unat i div 256))"
      by simp
    with i False show ?thesis
      by (simp add: intsize_loop.simps [of i] be_min.simps [of "unat i"])
  qed
qed

lemma intsize_putint: "intsize i = length (putint i)"
proof (cases "i = 0")
  case True
  then show ?thesis by (simp add: intsize_def intsize_loop.simps [of 0] putint_be_min)
next
  case False
  then show ?thesis
    using intsize_loop_be_min [of i 1] by (simp add: intsize_def putint_be_min)
qed

lemma unat_u64_of_nat: "n < 2 ^ 64 \<Longrightarrow> unat (word_of_nat n :: u64) = n"
  by (simp add: unat_of_nat)

lemma u64_of_nat_less_56: "n < 2 ^ 64 \<Longrightarrow> (word_of_nat n :: u64) < 56 \<longleftrightarrow> n < 56"
  by (simp add: word_less_nat_alt unat_of_nat)

lemma putint_of_nat: "0 < n \<Longrightarrow> n < 2 ^ 64 \<Longrightarrow> putint (word_of_nat n) = be_min n"
  using unat_u64_of_nat [of n] by (auto simp: putint_be_min)

lemma byte_of_small: "n < 56 \<Longrightarrow> byte_of (word_of_nat n) = word_of_nat n"
  by (simp add: byte_of_nat unat_of_nat)

lemma puthead_rlp_head: "n < 2 ^ 64 \<Longrightarrow> puthead s l (word_of_nat n) = rlp_head s l n"
  by (auto simp: puthead_def rlp_head_def u64_of_nat_less_56 byte_of_small putint_of_nat Let_def)

lemma length_puthead: "length (puthead s l sz) = headsize sz"
  by (simp add: puthead_def headsize_def intsize_putint Let_def)

text \<open>What each writer appends.\<close>

lemma encbuf_put_simps [simp]:
  "encbuf_put a (encbuf_put b w) = encbuf_put (b @ a) w"
  by (simp add: encbuf_put_def)

lemma encodeString_put:
  assumes "length b < 2 ^ 64"
  shows "encodeString b w = encbuf_put (rlp_string b) w"
proof (cases "length b = 1 \<and> b ! 0 < 128")
  case True
  then obtain x where "b = [x]" by (auto simp: length_Suc_conv)
  with True show ?thesis
    by (simp add: encodeString_def rlp_string_def word_less_nat_alt word_le_nat_alt)
next
  case False
  then have "\<not> (length b = 1 \<and> b ! 0 \<le> 0x7F)"
    by (auto simp: word_less_nat_alt word_le_nat_alt)
  moreover have "\<not> length b < 56 \<longrightarrow> putint (word_of_nat (length b)) = be_min (length b)"
    using assms by (auto intro!: putint_of_nat)
  ultimately show ?thesis
    using False by (auto simp: encodeString_def encodeStringHeader_def rlp_string_def rlp_head_def Let_def)
qed

lemma length_be_min_u64: "length (be_min (unat (i :: u64))) \<le> 8"
proof (cases "i = 0")
  case False
  then have "be_min (unat i) = putint i" by (simp add: putint_be_min)
  then show ?thesis by (simp add: putint_def)
qed simp

lemma rlp_string_be_min_small: "0 < n \<Longrightarrow> n < 128 \<Longrightarrow> rlp_string (be_min n) = [word_of_nat n]"
  by (simp add: be_min.simps [of n] rlp_string_def word_less_nat_alt unat_of_nat)

lemma writeUint_put: "writeUint i w = encbuf_put (rlp_string (be_min (unat i))) w"
proof -
  consider "i = 0" | "i \<noteq> 0" "i < 128" | "128 \<le> i" by force
  then show ?thesis
  proof cases
    case 1
    then show ?thesis by (simp add: writeUint_def rlp_string_def rlp_head_def)
  next
    case 2
    then have "0 < unat i" "unat i < 128" by (simp_all add: word_less_nat_alt unat_gt_0)
    with 2 show ?thesis by (simp add: writeUint_def rlp_string_be_min_small byte_of_nat)
  next
    case 3
    then have "\<not> i < 128" by simp
    moreover from 3 have "128 \<le> unat i" by (simp add: word_le_nat_alt)
    ultimately have i: "i \<noteq> 0" "\<not> i < 128" "128 \<le> unat i" by auto
    have "\<not> (length (be_min (unat i)) = 1 \<and> be_min (unat i) ! 0 < 128)"
    proof
      assume A: "length (be_min (unat i)) = 1 \<and> be_min (unat i) ! 0 < 128"
      then obtain b where b: "be_min (unat i) = [b]" by (auto simp: length_Suc_conv)
      then have "unat i = unat b" using be_val_be_min [of "unat i"] by simp
      with A b i(3) show False by (simp add: word_less_nat_alt)
    qed
    then show ?thesis
      using i length_be_min_u64 [of i]
      by (auto simp: writeUint_def rlp_string_def rlp_head_def putint_be_min Let_def)
  qed
qed

lemma writeBool_put: "writeBool v w = encbuf_put (rlp_string (be_min (if v then 1 else 0))) w"
  by (auto simp: writeBool_def be_min.simps [of "Suc 0"] rlp_string_def rlp_head_def)

lemma writeBigInt_put:
  assumes "0 \<le> i" "length (be_min (nat i)) < 2 ^ 64"
  shows "writeBigInt i w = Inr (encbuf_put (rlp_string (be_min (nat i))) w)"
  using assms by (auto simp: writeBigInt_def encodeString_put rlp_string_def rlp_head_def)

section \<open>The buffer holds the recursive encoding\<close>

definition shift_head :: "nat \<Rightarrow> listhead \<Rightarrow> listhead" where
  "shift_head n h = h\<lparr>lh_offset := n + lh_offset h\<rparr>"

text \<open>Headers in the order of their offsets, none before \<open>p\<close> or beyond \<open>n\<close> bytes of data.\<close>

fun heads_ok :: "nat \<Rightarrow> nat \<Rightarrow> listhead list \<Rightarrow> bool" where
  "heads_ok p n [] \<longleftrightarrow> p \<le> n"
| "heads_ok p n (h # hs) \<longleftrightarrow> p \<le> lh_offset h \<and> lh_offset h \<le> n \<and> heads_ok (lh_offset h) n hs"

definition heads_len :: "listhead list \<Rightarrow> nat" where
  "heads_len hs = sum_list (map (length \<circ> listhead_encode) hs)"

lemma shift_head_simps [simp]:
  "lh_offset (shift_head n h) = n + lh_offset h"
  "lh_size (shift_head n h) = lh_size h"
  "listhead_encode (shift_head n h) = listhead_encode h"
  by (simp_all add: shift_head_def listhead_encode_def)

lemma shift_head_0 [simp]: "shift_head 0 = id"
  by (simp add: shift_head_def fun_eq_iff)

lemma shift_head_shift [simp]: "shift_head m (shift_head n h) = shift_head (m + n) h"
  by (simp add: shift_head_def add.assoc)

lemma heads_len_simps [simp]:
  "heads_len [] = 0"
  "heads_len (h # hs) = length (listhead_encode h) + heads_len hs"
  "heads_len (hs @ gs) = heads_len hs + heads_len gs"
  "heads_len (map (shift_head n) hs) = heads_len hs"
  by (simp_all add: heads_len_def o_def)

lemma heads_ok_le: "heads_ok p n hs \<Longrightarrow> p \<le> n"
  by (cases hs) auto

lemma heads_ok_mono: "heads_ok p n hs \<Longrightarrow> q \<le> p \<Longrightarrow> n \<le> m \<Longrightarrow> heads_ok q m hs"
  by (induction hs arbitrary: p q) auto

lemma heads_ok_shift: "heads_ok p n hs \<Longrightarrow> heads_ok (k + p) (k + n) (map (shift_head k) hs)"
  by (induction hs arbitrary: p) auto

lemma heads_ok_append:
  "heads_ok p n hs \<Longrightarrow> heads_ok n m gs \<Longrightarrow> heads_ok p m (hs @ gs)"
proof (induction hs arbitrary: p)
  case Nil
  then show ?case by (auto intro: heads_ok_mono)
next
  case (Cons h hs)
  then show ?case using heads_ok_le by fastforce
qed

lemma toWriter_loop_shift:
  "toWriter_loop (s1 @ s2) (map (shift_head (length s1)) hs) (length s1 + q) = toWriter_loop s2 hs q"
  by (induction hs arbitrary: q) (simp_all flip: nat_add_max_right)

lemma toWriter_loop_base:
  assumes "p \<le> length s1"
  shows "toWriter_loop (s1 @ s2) (map (shift_head (length s1)) hs) p = drop p s1 @ toWriter_loop s2 hs 0"
proof (cases hs)
  case Nil
  with assms show ?thesis by simp
next
  case (Cons h hs')
  have "max p (length s1 + lh_offset h) = length s1 + lh_offset h" using assms by simp
  with Cons assms show ?thesis
    using toWriter_loop_shift [of s1 s2 hs' "lh_offset h"] by simp
qed

lemma toWriter_loop_append:
  assumes "heads_ok p (length s1) hs"
  shows "toWriter_loop (s1 @ s2) (hs @ map (shift_head (length s1)) gs) p
    = toWriter_loop s1 hs p @ toWriter_loop s2 gs 0"
  using assms
proof (induction hs arbitrary: p)
  case Nil
  then show ?case by (simp add: toWriter_loop_base)
next
  case (Cons h hs)
  then have "p \<le> length s1" by auto
  with Cons show ?case by (simp add: max_def)
qed

lemma length_toWriter_loop:
  "heads_ok p (length s) hs \<Longrightarrow> p + length (toWriter_loop s hs p) = length s + heads_len hs"
proof (induction hs arbitrary: p)
  case (Cons h hs)
  then have "lh_offset h + length (toWriter_loop s hs (lh_offset h)) = length s + heads_len hs"
    by simp
  with Cons.prems show ?case by (auto simp: max_def min_def)
qed simp

text \<open>A write appends data and headers whose interleaving is \<open>enc\<close>.\<close>

definition appends :: "bytes \<Rightarrow> encbuf \<Rightarrow> encbuf \<Rightarrow> bool" where
  "appends enc w w' \<longleftrightarrow> (\<exists>s hs. heads_ok 0 (length s) hs \<and> toWriter_loop s hs 0 = enc
     \<and> eb_str w' = eb_str w @ s
     \<and> eb_lheads w' = eb_lheads w @ map (shift_head (length (eb_str w))) hs
     \<and> eb_lhsize w' = eb_lhsize w + heads_len hs)"

lemma appends_refl: "appends [] w w"
  unfolding appends_def by (rule exI [of _ "[]"], rule exI [of _ "[]"]) simp

lemma appends_put: "appends b w (encbuf_put b w)"
  unfolding appends_def encbuf_put_def by (rule exI [of _ b], rule exI [of _ "[]"]) simp

lemma appends_trans:
  assumes "appends a w w1" "appends b w1 w2"
  shows "appends (a @ b) w w2"
proof -
  obtain s hs where 1: "heads_ok 0 (length s) hs" "toWriter_loop s hs 0 = a"
    "eb_str w1 = eb_str w @ s" "eb_lheads w1 = eb_lheads w @ map (shift_head (length (eb_str w))) hs"
    "eb_lhsize w1 = eb_lhsize w + heads_len hs"
    using assms(1) by (auto simp: appends_def)
  obtain t gs where 2: "heads_ok 0 (length t) gs" "toWriter_loop t gs 0 = b"
    "eb_str w2 = eb_str w1 @ t" "eb_lheads w2 = eb_lheads w1 @ map (shift_head (length (eb_str w1))) gs"
    "eb_lhsize w2 = eb_lhsize w1 + heads_len gs"
    using assms(2) by (auto simp: appends_def)
  let ?hs = "hs @ map (shift_head (length s)) gs"
  have "heads_ok 0 (length (s @ t)) ?hs"
    using 1(1) heads_ok_shift [OF 2(1), of "length s"] by (auto intro: heads_ok_append)
  moreover have "toWriter_loop (s @ t) ?hs 0 = a @ b"
    using 1 2 by (simp add: toWriter_loop_append)
  ultimately show ?thesis
    unfolding appends_def using 1 2
    by (intro exI [of _ "s @ t"] exI [of _ ?hs]) (simp add: add.commute)
qed

text \<open>Opening and closing a list around a write puts the list header in front of it.\<close>

lemma appends_list:
  assumes "encbuf_list w = (lh, w1)" "appends enc w1 w2" "length enc < 2 ^ 64"
  shows "appends (rlp_list enc) w (encbuf_listEnd lh w2)"
proof -
  let ?n = "length (eb_str w)"
  have w1: "lh = length (eb_lheads w)" "eb_str w1 = eb_str w" "eb_lhsize w1 = eb_lhsize w"
    "eb_lheads w1 = eb_lheads w @ [\<lparr>lh_offset = ?n, lh_size = eb_lhsize w\<rparr>]"
    using assms(1) by (auto simp: encbuf_list_def Let_def)
  obtain s hs where 2: "heads_ok 0 (length s) hs" "toWriter_loop s hs 0 = enc"
    "eb_str w2 = eb_str w @ s" "eb_lheads w2 = eb_lheads w1 @ map (shift_head ?n) hs"
    "eb_lhsize w2 = eb_lhsize w + heads_len hs"
    using assms(2) by (auto simp: appends_def w1)
  have len: "length s + heads_len hs = length enc"
    using length_toWriter_loop [OF 2(1)] 2(2) by simp
  let ?h = "\<lparr>lh_offset = 0, lh_size = length enc\<rparr>"
  have enc: "listhead_encode ?h = rlp_head 0xC0 0xF7 (length enc)"
    using assms(3) by (simp add: listhead_encode_def puthead_rlp_head)
  have sz: "length (listhead_encode ?h)
      = (if length enc < 56 then 1 else 1 + intsize (word_of_nat (length enc)))"
    using assms(3) by (simp add: listhead_encode_def length_puthead headsize_def u64_of_nat_less_56)
  have "encbuf_size w2 - ?n - eb_lhsize w = length enc"
    using 2 len by (simp add: encbuf_size_def)
  then have end_eq: "eb_lheads (encbuf_listEnd lh w2) = eb_lheads w @ map (shift_head ?n) (?h # hs)"
    "eb_lhsize (encbuf_listEnd lh w2) = eb_lhsize w2 + length (listhead_encode ?h)"
    "eb_str (encbuf_listEnd lh w2) = eb_str w @ s"
    using sz 2 w1
    by (simp_all add: encbuf_listEnd_def Let_def nth_append list_update_append shift_head_def)
  have "toWriter_loop s (?h # hs) 0 = rlp_list enc"
    using 2(2) enc by (simp add: rlp_list_def)
  with 2 end_eq show ?thesis
    unfolding appends_def by (intro exI [of _ s] exI [of _ "?h # hs"]) simp
qed

lemma rlp_write_appends:
  "rlp_ok v \<Longrightarrow> \<exists>w'. rlp_write v w = Inr w' \<and> appends (rlp_enc v) w w'"
  "(\<forall>v \<in> set vs. rlp_ok v) \<Longrightarrow>
     \<exists>w'. rlp_write_list vs w = Inr w' \<and> appends (concat (map rlp_enc vs)) w w'"
proof (induction v w and vs w rule: rlp_write_rlp_write_list.induct)
  case (8 vs w)
  obtain lh w1 where l: "encbuf_list w = (lh, w1)" by fastforce
  with 8 obtain w2 where "rlp_write_list vs w1 = Inr w2" "appends (concat (map rlp_enc vs)) w1 w2"
    by fastforce
  with l 8(2) show ?case by (auto intro: appends_list)
next
  case (10 v vs w)
  then obtain w1 where w1: "rlp_write v w = Inr w1" "appends (rlp_enc v) w w1" by auto
  with 10 obtain w2 where "rlp_write_list vs w1 = Inr w2" "appends (concat (map rlp_enc vs)) w1 w2"
    by auto
  with w1 show ?case by (auto intro: appends_trans)
qed (auto simp: encodeString_put writeUint_put writeBool_put writeBigInt_put rlp_string_def rlp_head_def
       rlp_list_def appends_put appends_refl)

section \<open>Copying into the output buffer\<close>

lemma copy_at_fits:
  assumes "pos + length src \<le> length out"
  shows "copy_at out pos src = (length src, take pos out @ src @ drop (pos + length src) out)"
  using assms by (simp add: copy_at_def Let_def)

lemma toBytes_loop_toWriter:
  assumes "heads_ok strpos (length str) hs"
    "length out = pos + length (toWriter_loop str hs strpos)"
  shows "toBytes_loop str hs out strpos pos = Some (take pos out @ toWriter_loop str hs strpos)"
  using assms
proof (induction hs arbitrary: out strpos pos)
  case Nil
  then show ?case by (simp add: copy_at_fits)
next
  case (Cons h hs)
  define src where "src = take (lh_offset h - strpos) (drop strpos str)"
  define enc where "enc = listhead_encode h"
  define rest where "rest = toWriter_loop str hs (lh_offset h)"
  from Cons.prems(1) have off: "strpos \<le> lh_offset h" "lh_offset h \<le> length str"
    and ok: "heads_ok (lh_offset h) (length str) hs" by auto
  then have src: "strpos + length src = lh_offset h" by (simp add: src_def)
  have eq: "toWriter_loop str (h # hs) strpos = src @ enc @ rest"
    using off by (simp add: src_def enc_def rest_def max_def)
  have len: "length out = pos + length src + length enc + length rest"
    using Cons.prems(2) unfolding eq by simp
  define out1 where "out1 = take pos out @ src @ drop (pos + length src) out"
  define pos1 where "pos1 = pos + length src"
  define out2 where "out2 = take pos1 out1 @ enc @ drop (pos1 + length enc) out1"
  have len1: "length out1 = pos1 + length enc + length rest"
    using len by (simp add: out1_def pos1_def)
  have len2: "length out2 = pos1 + length enc + length rest"
    using len1 by (simp add: out2_def)
  have c1: "copy_at out pos src = (length src, out1)"
    using len by (simp add: copy_at_fits out1_def)
  have c2: "copy_at out1 pos1 enc = (length enc, out2)"
    using len1 by (simp add: copy_at_fits out2_def)
  have t: "take (pos1 + length enc) out2 = take pos out @ src @ enc"
    using len len1 by (simp add: out2_def) (simp add: out1_def pos1_def)
  have "toBytes_loop str hs out2 (lh_offset h) (pos1 + length enc)
      = Some (take (pos1 + length enc) out2 @ rest)"
    using ok len2 unfolding rest_def by (intro Cons.IH)
  then have "toBytes_loop str (h # hs) out strpos pos = Some (take pos out @ src @ enc @ rest)"
    using c1 c2 t len1 src by (simp add: Let_def flip: src_def enc_def pos1_def)
  then show ?case by (simp only: eq)
qed

lemma toBytes_appends:
  assumes "appends enc encbuf_reset w"
  shows "toBytes w = Some enc" "toWriter w = enc"
proof -
  obtain s hs where s: "heads_ok 0 (length s) hs" "toWriter_loop s hs 0 = enc"
    "eb_str w = s" "eb_lheads w = hs" "eb_lhsize w = heads_len hs"
    using assms by (auto simp: appends_def encbuf_reset_def)
  then show "toWriter w = enc" by (simp add: toWriter_def)
  have "length (replicate (encbuf_size w) (0 :: byte)) = 0 + length enc"
    using length_toWriter_loop [OF s(1)] s by (simp add: encbuf_size_def)
  with s show "toBytes w = Some enc"
    unfolding toBytes_def by (subst toBytes_loop_toWriter) simp_all
qed

lemma EncodeToBytes_enc: "rlp_ok v \<Longrightarrow> EncodeToBytes v = Inr (Some (rlp_enc v))"
  using rlp_write_appends(1) [of v encbuf_reset] toBytes_appends(1)
  by (auto simp: EncodeToBytes_def)

section \<open>Properties\<close>

text \<open>
  C23. \<open>EncodeToBytes\<close> computes the RLP encoding: on every encodable value the buffer of
  deferred list headers, assembled by \<open>toBytes\<close>, is the recursively defined encoding, and the
  index panic of \<open>toBytes\<close> does not happen.
\<close>

theorem EncodeToBytes_correct:
  "rlp_ok v \<Longrightarrow> EncodeToBytes v = Inr (Some (rlp_enc v))"
  by (rule EncodeToBytes_enc)

theorem EncodeToBytes_correct_witness:
  "EncodeToBytes (RList [RUint 1024, RBytes [1, 2, 3], RList [RBool True], RBig 0]) =
     Inr (Some [0xCA, 0x82, 4, 0, 0x83, 1, 2, 3, 0xC1, 1, 0x80])"
proof -
  define v where "v = RList [RUint 1024, RBytes [1, 2, 3], RList [RBool True], RBig 0]"
  have enc: "rlp_enc (RUint 1024) = [0x82, 4, 0]" "rlp_enc (RBytes [1, 2, 3]) = [0x83, 1, 2, 3]"
    "rlp_enc (RList [RBool True]) = [0xC1, 1]" "rlp_enc (RBig 0) = [0x80]" "rlp_enc (RBool True) = [1]"
    by code_simp+
  have "rlp_enc v = [0xCA, 0x82, 4, 0, 0x83, 1, 2, 3, 0xC1, 1, 0x80]"
    unfolding v_def by code_simp
  moreover have "rlp_ok v" using enc by (simp add: v_def be_min.simps)
  ultimately show ?thesis using EncodeToBytes_correct [of v] by (simp add: v_def)
qed

text \<open>The values whose encoding fails.\<close>

fun has_negative :: "rlp_val \<Rightarrow> bool" where
  "has_negative (RBig i) \<longleftrightarrow> i < 0"
| "has_negative (RList vs) \<longleftrightarrow> (\<exists>v \<in> set vs. has_negative v)"
| "has_negative _ \<longleftrightarrow> False"

lemma rlp_write_fails_iff:
  "(\<exists>e. rlp_write v w = Inl e) \<longleftrightarrow> has_negative v"
  "(\<exists>e. rlp_write_list vs w = Inl e) \<longleftrightarrow> (\<exists>v \<in> set vs. has_negative v)"
proof (induction v w and vs w rule: rlp_write_rlp_write_list.induct)
  case (8 vs w)
  then show ?case by (auto simp: encbuf_list_def go_bind_def split: sum.splits)
next
  case (10 v vs w)
  then show ?case by (cases "rlp_write v w") (auto simp: go_bind_def)
qed (simp_all add: writeBigInt_def)

end
