(* ===== verification/RLP_Raw.thy ===== *)
theory RLP_Raw
  imports RLP_Encode
begin

text \<open>
  Splitting of encoded values, \<^verbatim>\<open>pkg/rlp/raw.go\<close>: the tag is read, its size information checked
  to be canonical, and the input cut into content and rest. Every index and slice expression of the
  source is checked here: one out of range, which panics in Go, gives \<open>ErrIndexPanic\<close>. Shown: \<open>Split\<close>
  inverts the encoder, accepts nothing else, and the only input on which it panics is the single byte
  0x81 (after which the code reads a second byte without checking that there is one).
\<close>

section \<open>Definitions\<close>

datatype rlp_kind = KByte | KString | KList

datatype rlp_error =
    ErrUnexpectedEOF
  | ErrEOF
  | EOL
  | ErrCanonSize
  | ErrCanonInt
  | ErrValueTooLarge
  | ErrElemTooLarge
  | ErrExpectedString
  | ErrExpectedList
  | ErrMoreThanOneValue
  | ErrNotInList
  | ErrNotAtEOL
  | ErrUintOverflow
  | ErrInvalidBool u64
  | ErrInputTooLong
  | ErrInputTooShort
  | ErrTooFewElements
  | ErrTooManyElements
  | ErrNotSerializable
  | ErrIndexPanic
  | ErrOutOfFuel

text \<open>
  Checked indexing \<open>b[i]\<close> and slicing \<open>b[lo:hi]\<close>; the slices that are cut have no spare capacity.
\<close>

definition go_index :: "bytes \<Rightarrow> nat \<Rightarrow> rlp_error + byte" where
  "go_index b i = (if i < length b then Inr (b ! i) else Inl ErrIndexPanic)"

definition go_slice :: "bytes \<Rightarrow> nat \<Rightarrow> nat \<Rightarrow> rlp_error + bytes" where
  "go_slice b lo hi = (if lo \<le> hi \<and> hi \<le> length b then Inr (take (hi - lo) (drop lo b)) else Inl ErrIndexPanic)"

text \<open>The operands \<open>uint64(b[i])<<k\<close> of \<open>readSize\<close>, and their disjunction.\<close>

definition byte_at :: "bytes \<Rightarrow> nat \<Rightarrow> nat \<Rightarrow> rlp_error + u64" where
  "byte_at b i k = go_bind (go_index b i) (\<lambda>x. Inr (push_bit k (ucast x)))"

definition go_or :: "rlp_error + u64 \<Rightarrow> rlp_error + u64 \<Rightarrow> rlp_error + u64" where
  "go_or r q = go_bind r (\<lambda>x. go_bind q (\<lambda>y. Inr (x OR y)))"

definition readSize :: "bytes \<Rightarrow> byte \<Rightarrow> rlp_error + u64" where
  "readSize b slen =
     (if length b < unat slen then Inl ErrUnexpectedEOF
      else
        go_bind
          (if slen = 1 then byte_at b 0 0
           else if slen = 2 then go_or (byte_at b 0 8) (byte_at b 1 0)
           else if slen = 3 then go_or (go_or (byte_at b 0 16) (byte_at b 1 8)) (byte_at b 2 0)
           else if slen = 4 then go_or (go_or (go_or (byte_at b 0 24) (byte_at b 1 16)) (byte_at b 2 8)) (byte_at b 3 0)
           else if slen = 5 then
             go_or (go_or (go_or (go_or (byte_at b 0 32) (byte_at b 1 24)) (byte_at b 2 16)) (byte_at b 3 8)) (byte_at b 4 0)
           else if slen = 6 then
             go_or (go_or (go_or (go_or (go_or (byte_at b 0 40) (byte_at b 1 32)) (byte_at b 2 24)) (byte_at b 3 16)) (byte_at b 4 8)) (byte_at b 5 0)
           else if slen = 7 then
             go_or (go_or (go_or (go_or (go_or (go_or (byte_at b 0 48) (byte_at b 1 40)) (byte_at b 2 32)) (byte_at b 3 24)) (byte_at b 4 16)) (byte_at b 5 8)) (byte_at b 6 0)
           else if slen = 8 then
             go_or (go_or (go_or (go_or (go_or (go_or (go_or (byte_at b 0 56) (byte_at b 1 48)) (byte_at b 2 40)) (byte_at b 3 32)) (byte_at b 4 24)) (byte_at b 5 16)) (byte_at b 6 8)) (byte_at b 7 0)
           else Inr 0)
          (\<lambda>s. if s < 56 then Inl ErrCanonSize
                else go_bind (go_index b 0) (\<lambda>b0. if b0 = 0 then Inl ErrCanonSize else Inr s)))"

text \<open>The switch over the tag byte of a non-empty input, and \<open>readKind\<close> around it.\<close>

definition readTag :: "bytes \<Rightarrow> rlp_error + rlp_kind \<times> u64 \<times> u64" where
  "readTag buf =
     go_bind (go_index buf 0) (\<lambda>b.
       if b < 0x80 then Inr (KByte, 0, 1)
       else if b < 0xB8 then
         (let contentsize = ucast (b - 0x80) :: u64
          in if contentsize = 1
             then go_bind (go_index buf 1) (\<lambda>c. if c < 128 then Inl ErrCanonSize else Inr (KString, 1, contentsize))
             else Inr (KString, 1, contentsize))
       else if b < 0xC0 then
         go_bind (go_slice buf 1 (length buf)) (\<lambda>rest.
           go_bind (readSize rest (b - 0xB7)) (\<lambda>cs. Inr (KString, ucast (b - 0xB7) + 1, cs)))
       else if b < 0xF8 then Inr (KList, 1, ucast (b - 0xC0))
       else
         go_bind (go_slice buf 1 (length buf)) (\<lambda>rest.
           go_bind (readSize rest (b - 0xF7)) (\<lambda>cs. Inr (KList, ucast (b - 0xF7) + 1, cs))))"

definition readKind :: "bytes \<Rightarrow> rlp_error + rlp_kind \<times> u64 \<times> u64" where
  "readKind buf =
     (if length buf = 0 then Inl ErrUnexpectedEOF
      else go_bind (readTag buf) (\<lambda>(k, tagsize, contentsize).
        if word_of_nat (length buf) - tagsize < contentsize then Inl ErrValueTooLarge
        else Inr (k, tagsize, contentsize)))"

definition Split :: "bytes \<Rightarrow> rlp_error + rlp_kind \<times> bytes \<times> bytes" where
  "Split b = go_bind (readKind b) (\<lambda>(k, ts, cs).
     go_bind (go_slice b (unat ts) (unat (ts + cs))) (\<lambda>content.
       go_bind (go_slice b (unat (ts + cs)) (length b)) (\<lambda>rest. Inr (k, content, rest))))"

definition SplitString :: "bytes \<Rightarrow> rlp_error + bytes \<times> bytes" where
  "SplitString b = go_bind (Split b) (\<lambda>(k, content, rest).
     if k = KList then Inl ErrExpectedString else Inr (content, rest))"

definition SplitList :: "bytes \<Rightarrow> rlp_error + bytes \<times> bytes" where
  "SplitList b = go_bind (Split b) (\<lambda>(k, content, rest).
     if k \<noteq> KList then Inl ErrExpectedList else Inr (content, rest))"

section \<open>Sizes\<close>

text \<open>The shifts and disjunctions of \<open>readSize\<close> read a big-endian number.\<close>

definition be_fold :: "bytes \<Rightarrow> u64" where
  "be_fold xs = foldl (\<lambda>s x. push_bit 8 s OR ucast x) 0 xs"

lemma unat_be_fold: "length xs \<le> 8 \<Longrightarrow> unat (be_fold xs) = be_val xs"
proof (induction xs rule: rev_induct)
  case Nil
  then show ?case by (simp add: be_fold_def)
next
  case (snoc x xs)
  then have IH: "unat (be_fold xs) = be_val xs" by simp
  have "be_val xs < 256 ^ length xs" by (rule be_val_less)
  also have "\<dots> \<le> 256 ^ 7" using snoc.prems by (intro power_increasing) simp_all
  finally have "unat (be_fold xs) < 2 ^ 56" by (simp add: IH)
  then have "unat (push_bit 8 (be_fold xs) OR ucast x) = be_val xs * 256 + unat x"
    by (simp only: shift_or_byte IH)
  then show ?case by (simp add: be_fold_def)
qed

lemma ex_byte_of_size:
  assumes "unat (slen :: byte) \<le> 8"
  shows "slen = 0 \<or> slen = 1 \<or> slen = 2 \<or> slen = 3 \<or> slen = 4 \<or> slen = 5 \<or> slen = 6 \<or> slen = 7 \<or> slen = 8"
proof -
  have "unat slen = 0 \<or> unat slen = 1 \<or> unat slen = 2 \<or> unat slen = 3 \<or> unat slen = 4 \<or> unat slen = 5
    \<or> unat slen = 6 \<or> unat slen = 7 \<or> unat slen = 8"
    using assms by presburger
  then show ?thesis by (simp add: word_unat_eq_iff)
qed

lemma take_map_nth: "n \<le> length b \<Longrightarrow> take n b = map ((!) b) [0..<n]"
  by (simp add: list_eq_iff_nth_eq)

lemma upt_explicit:
  "[0..<2] = [0, 1]" "[0..<3] = [0, 1, 2]" "[0..<4] = [0, 1, 2, 3]" "[0..<5] = [0, 1, 2, 3, 4]"
  "[0..<6] = [0, 1, 2, 3, 4, 5]" "[0..<7] = [0, 1, 2, 3, 4, 5, 6]" "[0..<8] = [0, 1, 2, 3, 4, 5, 6, 7]"
  by code_simp+

lemma be_fold_explicit:
  "be_fold [a] = ucast a"
  "be_fold [a, b] = push_bit 8 (ucast a) OR ucast b"
  "be_fold [a, b, c] = push_bit 16 (ucast a) OR push_bit 8 (ucast b) OR ucast c"
  "be_fold [a, b, c, d] = push_bit 24 (ucast a) OR push_bit 16 (ucast b) OR push_bit 8 (ucast c) OR ucast d"
  "be_fold [a, b, c, d, e] = push_bit 32 (ucast a) OR push_bit 24 (ucast b) OR push_bit 16 (ucast c)
     OR push_bit 8 (ucast d) OR ucast e"
  "be_fold [a, b, c, d, e, f] = push_bit 40 (ucast a) OR push_bit 32 (ucast b) OR push_bit 24 (ucast c)
     OR push_bit 16 (ucast d) OR push_bit 8 (ucast e) OR ucast f"
  "be_fold [a, b, c, d, e, f, g] = push_bit 48 (ucast a) OR push_bit 40 (ucast b) OR push_bit 32 (ucast c)
     OR push_bit 24 (ucast d) OR push_bit 16 (ucast e) OR push_bit 8 (ucast f) OR ucast g"
  "be_fold [a, b, c, d, e, f, g, h] = push_bit 56 (ucast a) OR push_bit 48 (ucast b) OR push_bit 40 (ucast c)
     OR push_bit 32 (ucast d) OR push_bit 24 (ucast e) OR push_bit 16 (ucast f) OR push_bit 8 (ucast g)
     OR ucast h"
  unfolding be_fold_def foldl.simps push_bit_or push_bit_push_bit or.assoc by simp_all

lemma byte_at_ok: "i < length b \<Longrightarrow> byte_at b i k = Inr (push_bit k (ucast (b ! i)))"
  by (simp add: byte_at_def go_index_def)

lemma go_or_ok: "go_or (Inr x) (Inr y) = Inr (x OR y)"
  by (simp add: go_or_def)

lemma readSize_eq:
  assumes "1 \<le> unat slen" "unat slen \<le> 8"
  shows "readSize b slen =
    (if length b < unat slen then Inl ErrUnexpectedEOF
     else if be_val (take (unat slen) b) < 56 \<or> b ! 0 = 0 then Inl ErrCanonSize
     else Inr (be_fold (take (unat slen) b)))"
proof (cases "length b < unat slen")
  case True
  then show ?thesis by (simp add: readSize_def)
next
  case False
  let ?xs = "take (unat slen) b"
  have len: "length ?xs \<le> 8" using assms(2) False by simp
  have lt: "be_fold ?xs < 56 \<longleftrightarrow> be_val ?xs < 56"
    using unat_be_fold [OF len] by (simp add: word_less_nat_alt)
  have ne: "b \<noteq> []" using False assms(1) by auto
  have xs: "?xs = map ((!) b) [0..<unat slen]"
    using False by (simp add: take_map_nth)
  have "readSize b slen =
      (let s = be_fold ?xs in if s < 56 \<or> b ! 0 = 0 then Inl ErrCanonSize else Inr s)"
    unfolding xs readSize_def
    using ex_byte_of_size [OF assms(2)] assms(1) False ne
    by (elim disjE) (simp_all add: be_fold_explicit upt_explicit byte_at_ok go_or_ok or.assoc go_index_def Let_def)
  then show ?thesis using False lt by (simp add: Let_def)
qed

section \<open>Tags\<close>

lemma unat_sub_byte: "unat (b - c) = unat b - unat c" if "c \<le> b" for b c :: byte
  using that by (simp add: unat_sub_if' word_le_nat_alt)

lemma byte_sub_cases:
  fixes b :: byte
  shows "\<not> b < 0x80 \<Longrightarrow> b < 0xB8 \<Longrightarrow> unat (b - 0x80) = unat b - 0x80 \<and> unat (b - 0x80) < 56"
    "\<not> b < 0xB8 \<Longrightarrow> b < 0xC0 \<Longrightarrow> unat (b - 0xB7) = unat b - 0xB7 \<and> 1 \<le> unat (b - 0xB7) \<and> unat (b - 0xB7) \<le> 8"
    "\<not> b < 0xC0 \<Longrightarrow> b < 0xF8 \<Longrightarrow> unat (b - 0xC0) = unat b - 0xC0 \<and> unat (b - 0xC0) < 56"
    "\<not> b < 0xF8 \<Longrightarrow> unat (b - 0xF7) = unat b - 0xF7 \<and> 1 \<le> unat (b - 0xF7) \<and> unat (b - 0xF7) \<le> 8"
  using unat_byte_less [of b]
  by (auto simp: word_less_nat_alt unat_sub_if')

text \<open>
  A header of \<open>n\<close> content bytes, either a short tag or a long tag with the size in minimal form.
\<close>

lemma readSize_Inr:
  assumes "1 \<le> unat slen" "unat slen \<le> 8" "readSize b slen = Inr cs"
  shows "unat slen \<le> length b \<and> 56 \<le> unat cs \<and> be_min (unat cs) = take (unat slen) b"
proof -
  let ?xs = "take (unat slen) b"
  from assms have *: "unat slen \<le> length b" "56 \<le> be_val ?xs" "b ! 0 \<noteq> 0" "cs = be_fold ?xs"
    by (auto simp: readSize_eq split: if_splits)
  then have "unat cs = be_val ?xs" using assms(2) by (simp add: unat_be_fold)
  moreover have "?xs \<noteq> []" "hd ?xs \<noteq> 0" using * assms(1) by (cases b; auto)+
  ultimately show ?thesis using * be_min_unique [of ?xs] by simp
qed

lemma readSize_be_min:
  assumes "56 \<le> n" "n < 2 ^ 64"
  shows "readSize (be_min n @ rest) (word_of_nat (length (be_min n))) = Inr (word_of_nat n)"
    "1 \<le> length (be_min n)" "length (be_min n) \<le> 8"
proof -
  have n: "unat (word_of_nat n :: u64) = n" using assms(2) by (rule unat_u64_of_nat)
  show len: "length (be_min n) \<le> 8" using length_be_min_u64 [of "word_of_nat n"] n by simp
  show pos: "1 \<le> length (be_min n)" using assms(1) by (simp add: Suc_le_eq)
  have s: "unat (word_of_nat (length (be_min n)) :: byte) = length (be_min n)"
    using len by (simp add: unat_of_nat)
  have hd: "(be_min n @ rest) ! 0 \<noteq> 0"
    using hd_be_min [of n] pos assms(1) by (simp add: nth_append hd_conv_nth)
  have "be_fold (be_min n) = word_of_nat n"
    using unat_be_fold [OF len] n by (simp add: word_unat_eq_iff)
  then show "readSize (be_min n @ rest) (word_of_nat (length (be_min n))) = Inr (word_of_nat n)"
    using len pos hd assms(1) by (subst readSize_eq) (simp_all add: s)
qed

lemma length_rlp_head_le: "n < 2 ^ 64 \<Longrightarrow> length (rlp_head s l n) \<le> 9"
  using readSize_be_min(3) [of n] by (auto simp: rlp_head_def)

lemma rlp_head_nonempty [simp]: "rlp_head s l n \<noteq> []"
  by (simp add: rlp_head_def)

text \<open>The encoding of one item of a kind, and the contents each kind may have.\<close>

fun rlp_item :: "rlp_kind \<Rightarrow> bytes \<Rightarrow> bytes" where
  "rlp_item KByte c = c"
| "rlp_item KString c = rlp_head 0x80 0xB7 (length c) @ c"
| "rlp_item KList c = rlp_head 0xC0 0xF7 (length c) @ c"

fun item_ok :: "rlp_kind \<Rightarrow> bytes \<Rightarrow> bool" where
  "item_ok KByte c \<longleftrightarrow> length c = 1 \<and> c ! 0 < 128"
| "item_ok KString c \<longleftrightarrow> \<not> (length c = 1 \<and> c ! 0 < 128)"
| "item_ok KList c \<longleftrightarrow> True"

lemma long_tag_ok:
  fixes b :: byte and base :: byte
  assumes "readSize bs (b - base) = Inr cs" "1 \<le> unat (b - base)" "unat (b - base) \<le> 8"
  shows "take (unat (ucast (b - base) + 1 :: u64)) (b # bs) = rlp_head s base (unat cs)"
    "unat (ucast (b - base) + 1 :: u64) = Suc (unat (b - base))" "56 \<le> unat cs"
proof -
  note r = readSize_Inr [OF assms(2,3,1)]
  show t: "unat (ucast (b - base) + 1 :: u64) = Suc (unat (b - base))"
    using assms(3) by (simp add: unat_word_ariths)
  show "56 \<le> unat cs" using r by simp
  have "length (be_min (unat cs)) = unat (b - base)" using r by simp
  then have "base + word_of_nat (length (be_min (unat cs))) = b" by simp
  with r show "take (unat (ucast (b - base) + 1 :: u64)) (b # bs) = rlp_head s base (unat cs)"
    by (simp add: t rlp_head_def)
qed

lemma readKind_Inr_iff:
  "readKind buf = Inr (k, ts, cs) \<longleftrightarrow>
     buf \<noteq> [] \<and> readTag buf = Inr (k, ts, cs) \<and> \<not> word_of_nat (length buf) - ts < cs"
  by (auto simp: readKind_def go_bind_Inr_iff split: if_splits)

lemma readTag_simps:
  "b < 0x80 \<Longrightarrow> readTag (b # bs) = Inr (KByte, 0, 1)"
  "\<not> b < 0x80 \<Longrightarrow> b < 0xB8 \<Longrightarrow> readTag (b # bs) =
     (if b = 0x81 \<and> bs = [] then Inl ErrIndexPanic
      else if b = 0x81 \<and> bs ! 0 < 128 then Inl ErrCanonSize
      else Inr (KString, 1, ucast (b - 0x80)))"
  "\<not> b < 0xB8 \<Longrightarrow> b < 0xC0 \<Longrightarrow> readTag (b # bs) =
     go_bind (readSize bs (b - 0xB7)) (\<lambda>cs. Inr (KString, ucast (b - 0xB7) + 1, cs))"
  "\<not> b < 0xC0 \<Longrightarrow> b < 0xF8 \<Longrightarrow> readTag (b # bs) = Inr (KList, 1, ucast (b - 0xC0))"
  "\<not> b < 0xF8 \<Longrightarrow> readTag (b # bs) =
     go_bind (readSize bs (b - 0xF7)) (\<lambda>cs. Inr (KList, ucast (b - 0xF7) + 1, cs))"
proof -
  have "(ucast (b - 0x80) :: u64) = 1 \<longleftrightarrow> b = 0x81"
  proof -
    have "(ucast (b - 0x80) :: u64) = 1 \<longleftrightarrow> unat (b - 0x80) = unat (1 :: byte)"
      by (simp add: word_unat_eq_iff [of "ucast (b - 0x80) :: u64"])
    also have "\<dots> \<longleftrightarrow> b - 0x80 = 1" by (simp only: word_unat_eq_iff)
    also have "\<dots> \<longleftrightarrow> b = 0x81" by (simp add: diff_eq_eq)
    finally show ?thesis .
  qed
  then show "\<not> b < 0x80 \<Longrightarrow> b < 0xB8 \<Longrightarrow> readTag (b # bs) =
     (if b = 0x81 \<and> bs = [] then Inl ErrIndexPanic
      else if b = 0x81 \<and> bs ! 0 < 128 then Inl ErrCanonSize
      else Inr (KString, 1, ucast (b - 0x80)))"
    by (auto simp: readTag_def Let_def go_index_def)
qed (auto simp: readTag_def Let_def word_less_nat_alt go_index_def go_slice_def)

text \<open>The check of the content size against the input, on natural numbers.\<close>

lemma size_fits:
  fixes ts cs :: u64
  assumes "n < 2 ^ 64" "unat ts \<le> n"
  shows "\<not> word_of_nat n - ts < cs \<longleftrightarrow> unat ts + unat cs \<le> n"
proof -
  have "unat (word_of_nat n - ts) = n - unat ts"
    using assms by (simp add: unat_sub_if' unat_of_nat word_le_nat_alt)
  then show ?thesis using assms(2) by (auto simp: word_less_nat_alt)
qed

lemma Split_slices:
  assumes "readKind b = Inr (k, ts, cs)" "unat ts + unat cs \<le> length b" "length b < 2 ^ 64"
  shows "Split b = Inr (k, take (unat cs) (drop (unat ts) b), drop (unat ts + unat cs) b)"
proof -
  have "unat (ts + cs) = unat ts + unat cs" using assms by (simp add: unat_word_ariths)
  with assms show ?thesis by (simp add: Split_def go_slice_def)
qed

text \<open>The tag bytes of short and long items.\<close>

lemma short_tag:
  fixes base :: byte
  assumes "n < 56" "base \<le> 0xC0"
  shows "unat (base + word_of_nat n) = unat base + n"
    "(ucast (base + word_of_nat n - base) :: u64) = word_of_nat n"
  using assms by (simp_all add: unat_word_ariths unat_of_nat word_le_nat_alt word_unat_eq_iff)

lemma long_tag:
  fixes base :: byte
  assumes "\<not> n < 56" "n < 2 ^ 64" "base \<le> 0xF7"
  shows "unat (base + word_of_nat (length (be_min n))) = unat base + length (be_min n)"
    "(ucast (base + word_of_nat (length (be_min n)) - base) :: u64) + 1 = word_of_nat (Suc (length (be_min n)))"
  using readSize_be_min(2,3) [of n] assms
  by (simp_all add: unat_word_ariths unat_of_nat word_le_nat_alt word_unat_eq_iff)

lemma readTag_string:
  assumes "item_ok KString c" "length c < 2 ^ 64"
  shows "readTag (rlp_item KString c @ rest) =
    Inr (KString, word_of_nat (length (rlp_head 0x80 0xB7 (length c))), word_of_nat (length c))"
proof (cases "length c < 56")
  case True
  note t = short_tag [OF True, of "0x80"]
  have "(0x80 + word_of_nat (length c) :: byte) = 0x81 \<longleftrightarrow> length c = 1"
    using t(1) by (simp add: word_unat_eq_iff)
  with True assms(1) t show ?thesis
    by (auto simp: rlp_head_def readTag_simps(2) word_less_nat_alt length_Suc_conv)
next
  case False
  let ?x = "0xB7 + word_of_nat (length (be_min (length c))) :: byte"
  have "\<not> ?x < 0xB8" "?x < 0xC0"
    unfolding word_less_nat_alt
    using long_tag(1) [OF False assms(2), of "0xB7"] readSize_be_min(2,3) [of "length c"] False assms(2)
    by auto
  note tag = readTag_simps(3) [OF this]
  show ?thesis
    using long_tag(2) [OF False assms(2), of "0xB7"] readSize_be_min(1) [of "length c" "c @ rest"]
      False assms(2)
    by (simp add: rlp_head_def tag)
qed

lemma readTag_list:
  assumes "length c < 2 ^ 64"
  shows "readTag (rlp_item KList c @ rest) =
    Inr (KList, word_of_nat (length (rlp_head 0xC0 0xF7 (length c))), word_of_nat (length c))"
proof (cases "length c < 56")
  case True
  then show ?thesis
    using short_tag [OF True, of "0xC0"] by (simp add: rlp_head_def readTag_simps(4) word_less_nat_alt)
next
  case False
  let ?x = "0xF7 + word_of_nat (length (be_min (length c))) :: byte"
  have "\<not> ?x < 0xF8"
    unfolding word_less_nat_alt
    using long_tag(1) [OF False assms, of "0xF7"] readSize_be_min(2,3) [of "length c"] False assms
    by auto
  note tag = readTag_simps(5) [OF this]
  show ?thesis
    using long_tag(2) [OF False assms, of "0xF7"] readSize_be_min(1) [of "length c" "c @ rest"]
      False assms
    by (simp add: rlp_head_def tag)
qed

lemma readTag_item:
  assumes "item_ok k c" "length c < 2 ^ 64"
  shows "readTag (rlp_item k c @ rest) =
    Inr (k, word_of_nat (length (rlp_item k c) - length c), word_of_nat (length c))"
proof (cases k)
  case KByte
  with assms(1) show ?thesis by (auto simp: length_Suc_conv readTag_simps(1))
next
  case KString
  with assms show ?thesis using readTag_string [of c rest] by simp
next
  case KList
  with assms show ?thesis using readTag_list [of c rest] by simp
qed

lemma length_rlp_item: "length c \<le> length (rlp_item k c)"
  by (cases k) simp_all

lemma rlp_item_nonempty: "item_ok k c \<Longrightarrow> rlp_item k c \<noteq> []"
  by (cases k) auto

lemma drop_rlp_item: "drop (length (rlp_item k c) - length c) (rlp_item k c @ rest) = c @ rest"
  by (cases k) simp_all

text \<open>
  Every item the encoder can produce is split off again, and the cut determines the input.
\<close>

lemma Split_item:
  assumes "item_ok k c" "length (rlp_item k c @ rest) < 2 ^ 64"
  shows "Split (rlp_item k c @ rest) = Inr (k, c, rest)"
proof -
  let ?b = "rlp_item k c @ rest"
  let ?t = "length (rlp_item k c) - length c"
  have t: "?t < 2 ^ 64" "?t + length c = length (rlp_item k c)" "length c < 2 ^ 64"
    "length c + ?t = length (rlp_item k c)"
    using assms(2) length_rlp_item [of c k] by auto
  then have u: "unat (word_of_nat ?t :: u64) = ?t" "unat (word_of_nat (length c) :: u64) = length c"
    by (simp_all only: unat_u64_of_nat)
  have "\<not> word_of_nat (length ?b) - (word_of_nat ?t :: u64) < word_of_nat (length c)"
    by (subst size_fits [OF assms(2)]) (simp_all add: u t(2) del: length_append, simp_all)
  then have r: "readKind ?b = Inr (k, word_of_nat ?t, word_of_nat (length c))"
    using readTag_item [OF assms(1) t(3)] rlp_item_nonempty [OF assms(1)]
    by (simp add: readKind_Inr_iff)
  have d: "drop (length (rlp_item k c)) ?b = rest" by simp
  show ?thesis
    using Split_slices [OF r] assms(2) drop_rlp_item [of k c rest]
    by (simp add: u t(2,4) d)
qed

lemma rlp_head_of_short:
  fixes b :: byte
  shows "\<not> b < 0x80 \<Longrightarrow> b < 0xB8 \<Longrightarrow> rlp_head 0x80 0xB7 (unat (b - 0x80)) = [b]"
    "\<not> b < 0xC0 \<Longrightarrow> b < 0xF8 \<Longrightarrow> rlp_head 0xC0 0xF7 (unat (b - 0xC0)) = [b]"
  using conjunct2 [OF byte_sub_cases(1) [of b]] conjunct2 [OF byte_sub_cases(3) [of b]]
  by (simp_all add: rlp_head_def)

text \<open>What a successful read of the tag says about the input: its header is canonical.\<close>

lemma readTag_Inr:
  assumes "readTag (b # bs) = Inr (k, ts, cs)"
  shows "(k = KByte \<and> ts = 0 \<and> cs = 1 \<and> b < 128)
    \<or> (k = KString \<and> take (unat ts) (b # bs) = rlp_head 0x80 0xB7 (unat cs) \<and> unat ts \<le> length (b # bs)
        \<and> \<not> (unat cs = 1 \<and> bs \<noteq> [] \<and> bs ! 0 < 128 \<and> unat ts = 1) \<and> (unat cs = 1 \<longrightarrow> unat ts = 1))
    \<or> (k = KList \<and> take (unat ts) (b # bs) = rlp_head 0xC0 0xF7 (unat cs) \<and> unat ts \<le> length (b # bs))"
proof -
  consider "b < 0x80" | "\<not> b < 0x80" "b < 0xB8" | "\<not> b < 0xB8" "b < 0xC0"
    | "\<not> b < 0xC0" "b < 0xF8" | "\<not> b < 0xF8" by blast
  then show ?thesis
  proof cases
    case 1
    with assms show ?thesis by (simp add: readTag_simps)
  next
    case 2
    have "unat (b - 0x80) = 1 \<longleftrightarrow> b = 0x81"
      using byte_sub_cases(1) [OF 2] 2 by (auto simp: word_unat_eq_iff)
    with assms 2 rlp_head_of_short(1) [OF 2] show ?thesis
      by (auto simp: readTag_simps split: if_splits)
  next
    case 3
    then have r: "readSize bs (b - 0xB7) = Inr cs" "k = KString" "ts = ucast (b - 0xB7) + 1"
      using assms by (auto simp: readTag_simps go_bind_Inr_iff)
    with 3 byte_sub_cases(2) [OF 3] show ?thesis
      using long_tag_ok(1) [OF r(1), of "0x80"] long_tag_ok(2,3) [OF r(1)] readSize_Inr [OF _ _ r(1)]
      by auto
  next
    case 4
    with assms rlp_head_of_short(2) [OF 4] show ?thesis by (auto simp: readTag_simps)
  next
    case 5
    then have r: "readSize bs (b - 0xF7) = Inr cs" "k = KList" "ts = ucast (b - 0xF7) + 1"
      using assms by (auto simp: readTag_simps go_bind_Inr_iff)
    with 5 byte_sub_cases(4) [OF 5] show ?thesis
      using long_tag_ok(1) [OF r(1), of "0xC0"] long_tag_ok(2,3) [OF r(1)] readSize_Inr [OF _ _ r(1)]
      by auto
  qed
qed

lemma Split_Inr:
  assumes "Split b = Inr (k, c, rest)" "length b < 2 ^ 64"
  shows "b = rlp_item k c @ rest \<and> item_ok k c"
proof -
  obtain ts cs where r: "readKind b = Inr (k, ts, cs)"
    using assms(1) by (auto simp: Split_def go_bind_Inr_iff)
  then obtain x xs where b: "b = x # xs" by (cases b) (auto simp: readKind_Inr_iff)
  have tag: "readTag (x # xs) = Inr (k, ts, cs)" and nf: "\<not> word_of_nat (length b) - ts < cs"
    using r b by (auto simp: readKind_Inr_iff)
  note T = readTag_Inr [OF tag]
  have tl: "unat ts \<le> length b" using T b by auto
  then have fit: "unat ts + unat cs \<le> length b" using nf size_fits [OF assms(2) tl] by simp
  then have s: "c = take (unat cs) (drop (unat ts) b)" "rest = drop (unat ts + unat cs) b"
    using Split_slices [OF r fit assms(2)] assms(1) by simp_all
  then have len: "length c = unat cs" using fit by simp
  have cut: "b = take (unat ts) b @ c @ rest"
    by (metis s append_take_drop_id drop_drop add.commute)
  have "length c = 1 \<and> unat ts = 1 \<Longrightarrow> c ! 0 = xs ! 0 \<and> xs \<noteq> []"
    "length c = 1 \<and> unat ts = 0 \<Longrightarrow> c ! 0 = x" using s b fit by auto
  with T cut len b show ?thesis by auto
qed

section \<open>Strings, lists and counting\<close>

lemma Split_Inr_iff:
  "length b < 2 ^ 64 \<Longrightarrow> Split b = Inr (k, c, rest) \<longleftrightarrow> b = rlp_item k c @ rest \<and> item_ok k c"
  using Split_Inr Split_item by blast

lemma rlp_string_item: "rlp_string c = rlp_item (if length c = 1 \<and> c ! 0 < 128 then KByte else KString) c"
  by (simp add: rlp_string_def)

lemma rlp_list_item: "rlp_list c = rlp_item KList c"
  by (simp add: rlp_list_def)

lemma SplitString_enc:
  assumes "length (rlp_string c @ rest) < 2 ^ 64"
  shows "SplitString (rlp_string c @ rest) = Inr (c, rest)"
proof -
  have "Split (rlp_string c @ rest) = Inr (if length c = 1 \<and> c ! 0 < 128 then KByte else KString, c, rest)"
    using assms unfolding rlp_string_item by (intro Split_item) auto
  then show ?thesis by (simp add: SplitString_def)
qed

lemma SplitList_enc:
  assumes "length (rlp_list c @ rest) < 2 ^ 64"
  shows "SplitList (rlp_list c @ rest) = Inr (c, rest)"
  using Split_item [of KList c rest] assms by (simp add: SplitList_def rlp_list_item)

lemma SplitString_Inr:
  assumes "SplitString b = Inr (c, rest)" "length b < 2 ^ 64"
  shows "b = rlp_string c @ rest"
proof -
  obtain k where k: "Split b = Inr (k, c, rest)" "k \<noteq> KList"
    using assms(1) by (auto simp: SplitString_def go_bind_Inr_iff split: if_splits)
  then show ?thesis
    using Split_Inr [OF k(1) assms(2)] by (cases k) (auto simp: rlp_string_item)
qed

lemma SplitList_Inr:
  "SplitList b = Inr (c, rest) \<Longrightarrow> length b < 2 ^ 64 \<Longrightarrow> b = rlp_list c @ rest"
  using Split_Inr [of b KList c rest]
  by (auto simp: SplitList_def go_bind_Inr_iff rlp_list_item split: if_splits)

text \<open>
  Each value takes at least one byte, so the loop of \<open>CountValues\<close> ends; \<open>i\<close> is its counter. One
  round per byte is fuel enough for every input that a Go slice can hold.
\<close>

lemma readKind_cut:
  assumes "readKind b = Inr (k, ts, cs)" "length b < 2 ^ 64"
  shows "\<exists>c rest. b = rlp_item k c @ rest \<and> item_ok k c \<and> go_slice b (unat (ts + cs)) (length b) = Inr rest \<and> Split b = Inr (k, c, rest)"
proof -
  obtain x xs where b: "b = x # xs" using assms(1) by (cases b) (auto simp: readKind_Inr_iff)
  have tag: "readTag (x # xs) = Inr (k, ts, cs)" and nf: "\<not> word_of_nat (length b) - ts < cs"
    using assms(1) b by (auto simp: readKind_Inr_iff)
  have tl: "unat ts \<le> length b" using readTag_Inr [OF tag] b by auto
  then have fit: "unat ts + unat cs \<le> length b" using nf size_fits [OF assms(2) tl] by simp
  have sum: "unat (ts + cs) = unat ts + unat cs" using fit assms(2) by (simp add: unat_word_ariths)
  have s: "Split b = Inr (k, take (unat cs) (drop (unat ts) b), drop (unat ts + unat cs) b)" by (rule Split_slices [OF assms(1) fit assms(2)])
  have g: "go_slice b (unat (ts + cs)) (length b) = Inr (drop (unat ts + unat cs) b)" using fit sum by (simp add: go_slice_def)
  show ?thesis using Split_Inr [OF s assms(2)] s g by blast
qed

fun CountValues_loop :: "nat \<Rightarrow> bytes \<Rightarrow> nat \<Rightarrow> rlp_error + nat" where
  "CountValues_loop 0 b i = Inl ErrOutOfFuel"
| "CountValues_loop (Suc f) b i =
     (if length b = 0 then Inr i
      else go_bind (readKind b) (\<lambda>(k, tagsize, sz).
        go_bind (go_slice b (unat (tagsize + sz)) (length b)) (\<lambda>rest. CountValues_loop f rest (Suc i))))"

definition CountValues :: "bytes \<Rightarrow> rlp_error + nat" where
  "CountValues b = CountValues_loop (Suc (length b)) b 0"

lemma CountValues_loop_item:
  assumes "item_ok k c" "length (rlp_item k c @ rest) < 2 ^ 64"
  shows "CountValues_loop (Suc f) (rlp_item k c @ rest) i = CountValues_loop f rest (Suc i)"
proof -
  let ?b = "rlp_item k c @ rest"
  have "Split ?b = Inr (k, c, rest)" using assms by (rule Split_item)
  then obtain ts cs where r: "readKind ?b = Inr (k, ts, cs)" by (auto simp: Split_def go_bind_Inr_iff)
  obtain rest' where "go_slice ?b (unat (ts + cs)) (length ?b) = Inr rest'" "Split ?b = Inr (k, c, rest')"
    using readKind_cut [OF r assms(2)] \<open>Split ?b = Inr (k, c, rest)\<close> by auto
  then show ?thesis using r \<open>Split ?b = Inr (k, c, rest)\<close> rlp_item_nonempty [OF assms(1)] by simp
qed

abbreviation items :: "(rlp_kind \<times> bytes) list \<Rightarrow> bytes" where
  "items xs \<equiv> concat (map (\<lambda>(k, c). rlp_item k c) xs)"

lemma CountValues_loop_items:
  assumes "\<forall>(k, c) \<in> set xs. item_ok k c" "length (items xs @ rest) < 2 ^ 64" "length xs \<le> f"
  shows "CountValues_loop f (items xs @ rest) i = CountValues_loop (f - length xs) rest (i + length xs)"
  using assms
proof (induction xs arbitrary: i f)
  case (Cons x xs)
  obtain k c where x: "x = (k, c)" by fastforce
  obtain g where g: "f = Suc g" using Cons.prems(3) by (cases f) auto
  have "CountValues_loop f (items (x # xs) @ rest) i = CountValues_loop g (items xs @ rest) (Suc i)"
    using CountValues_loop_item [of k c "items xs @ rest" g i] Cons.prems(1,2) x g by simp
  then show ?case using Cons.IH [of g "Suc i"] Cons.prems x g by simp
qed simp

lemma length_items: "\<forall>(k, c) \<in> set xs. item_ok k c \<Longrightarrow> length xs \<le> length (items xs)"
proof (induction xs)
  case (Cons x xs)
  obtain k c where x: "x = (k, c)" by fastforce
  then have "rlp_item k c \<noteq> []" using Cons.prems rlp_item_nonempty by simp
  then have "1 \<le> length (rlp_item k c)" by (cases "rlp_item k c") auto
  then show ?case using Cons x by simp
qed simp

lemma CountValues_items:
  assumes "\<forall>(k, c) \<in> set xs. item_ok k c" "length (items xs) < 2 ^ 63"
  shows "CountValues (items xs) = Inr (length xs)"
proof -
  have le: "length xs \<le> length (items xs)" by (rule length_items [OF assms(1)])
  then have "CountValues_loop (Suc (length (items xs))) (items xs) 0 = CountValues_loop (Suc (length (items xs) - length xs)) [] (length xs)"
    using CountValues_loop_items [OF assms(1), of "[]" "Suc (length (items xs))" 0] assms(2) by (simp add: Suc_diff_le)
  then show ?thesis by (simp add: CountValues_def)
qed

section \<open>Panics\<close>

lemma readSize_no_panic: "1 \<le> unat n \<Longrightarrow> unat n \<le> 8 \<Longrightarrow> readSize b n \<noteq> Inl ErrIndexPanic"
  by (simp add: readSize_eq)

lemma readKind_panics_iff: "readKind b = Inl ErrIndexPanic \<longleftrightarrow> b = [0x81]"
proof
  assume "readKind b = Inl ErrIndexPanic"
  then have "b \<noteq> []" "readTag b = Inl ErrIndexPanic"
    by (auto simp: readKind_def go_bind_def split: sum.splits if_splits)
  then obtain x xs where b: "b = x # xs" and "readTag (x # xs) = Inl ErrIndexPanic" by (cases b) auto
  then have "x = 0x81 \<and> xs = []"
    using readTag_simps [of x xs] readSize_no_panic byte_sub_cases [of x]
    by (cases "x < 0x80"; cases "x < 0xB8"; cases "x < 0xC0"; cases "x < 0xF8")
      (auto simp: go_bind_def split: if_splits sum.splits)
  with b show "b = [0x81]" by simp
next
  assume "b = [0x81]"
  then show "readKind b = Inl ErrIndexPanic" by (simp add: readKind_def readTag_def go_index_def)
qed

lemma Split_panics_iff:
  assumes "length b < 2 ^ 64"
  shows "Split b = Inl ErrIndexPanic \<longleftrightarrow> b = [0x81]"
proof (cases "readKind b")
  case (Inl e)
  then show ?thesis using readKind_panics_iff [of b] by (auto simp: Split_def)
next
  case (Inr x)
  obtain k ts cs where x: "x = (k, ts, cs)" by (cases x)
  then show ?thesis using readKind_cut [OF _ assms, of k ts cs] Inr readKind_panics_iff [of b] by auto
qed

lemma CountValues_loop_panics:
  assumes "length b < f" "length b < 2 ^ 64"
  shows "CountValues_loop f b i = Inl ErrIndexPanic \<longleftrightarrow> (\<exists>xs. (\<forall>(k, c) \<in> set xs. item_ok k c) \<and> b = items xs @ [0x81])"
  using assms
proof (induction f arbitrary: b i)
  case (Suc f)
  have nil: "items xs @ [0x81] \<noteq> []" for xs by simp
  show ?case
  proof (cases "readKind b")
    case (Inl e)
    have "b = [0x81]" if b: "\<forall>(k, c) \<in> set xs. item_ok k c" "b = items xs @ [0x81]" for xs
    proof (cases xs)
      case (Cons y ys)
      obtain k c where y: "y = (k, c)" by fastforce
      then have "Split b = Inr (k, c, items ys @ [0x81])" using Split_item [of k c "items ys @ [0x81]"] b Cons Suc.prems(2) by simp
      then show ?thesis using Inl by (simp add: Split_def)
    qed (use b in simp)
    moreover have "\<exists>xs. (\<forall>(k, c) \<in> set xs. item_ok k c) \<and> b = items xs @ [0x81]" if "b = [0x81]" using that by (intro exI [of _ "[]"]) simp
    ultimately show ?thesis using Inl readKind_panics_iff [of b] nil by (auto simp: readKind_def)
  next
    case (Inr x)
    obtain k ts cs where x: "x = (k, ts, cs)" by (cases x)
    then have r: "readKind b = Inr (k, ts, cs)" using Inr by simp
    obtain c rest where c: "b = rlp_item k c @ rest" "item_ok k c" "go_slice b (unat (ts + cs)) (length b) = Inr rest" "Split b = Inr (k, c, rest)"
      using readKind_cut [OF r Suc.prems(2)] by blast
    have ne: "b \<noteq> []" "length rest < f" "length rest < 2 ^ 64" using c(1) rlp_item_nonempty [OF c(2)] Suc.prems by (cases "rlp_item k c"; simp)+
    have "(\<exists>xs. (\<forall>(k, c) \<in> set xs. item_ok k c) \<and> rest = items xs @ [0x81]) \<longleftrightarrow> (\<exists>xs. (\<forall>(k, c) \<in> set xs. item_ok k c) \<and> b = items xs @ [0x81])"
    proof
      assume "\<exists>xs. (\<forall>(k, c) \<in> set xs. item_ok k c) \<and> rest = items xs @ [0x81]"
      then obtain xs where "\<forall>(k, c) \<in> set xs. item_ok k c" "rest = items xs @ [0x81]" by blast
      then show "\<exists>xs. (\<forall>(k, c) \<in> set xs. item_ok k c) \<and> b = items xs @ [0x81]" using c(1,2) by (intro exI [of _ "(k, c) # xs"]) simp
    next
      assume "\<exists>xs. (\<forall>(k, c) \<in> set xs. item_ok k c) \<and> b = items xs @ [0x81]"
      then obtain xs where xs: "\<forall>(k, c) \<in> set xs. item_ok k c" "b = items xs @ [0x81]" by blast
      then have "xs \<noteq> []" using r readKind_panics_iff [of b] by auto
      then obtain k' c' ys where y: "xs = (k', c') # ys" by (cases xs) auto
      then have "Split b = Inr (k', c', items ys @ [0x81])" using Split_item [of k' c' "items ys @ [0x81]"] xs Suc.prems(2) by simp
      then show "\<exists>xs. (\<forall>(k, c) \<in> set xs. item_ok k c) \<and> rest = items xs @ [0x81]" using c(4) xs(1) y by (intro exI [of _ ys]) simp
    qed
    then show ?thesis using Suc.IH [OF ne(2,3), of "Suc i"] r c(3) ne(1) by simp
  qed
qed simp

section \<open>Properties\<close>

text \<open>
  C22. \<open>Split\<close> accepts exactly the canonical encodings: it returns kind, content and rest if and
  only if the input is the one encoding of that content followed by the rest. No input has two
  readings and no content two accepted encodings.
\<close>

theorem Split_accepts_exactly:
  "length b < 2 ^ 64 \<Longrightarrow> Split b = Inr (k, c, rest) \<longleftrightarrow> b = rlp_item k c @ rest \<and> item_ok k c"
  by (rule Split_Inr_iff)

theorem Split_accepts_exactly_witness:
  "Split [0x83, 1, 2, 3, 0xC0] = Inr (KString, [1, 2, 3], [0xC0])"
proof -
  have "[0x83, 1, 2, 3, 0xC0] = rlp_item KString [1, 2, 3] @ [0xC0]" "item_ok KString [1, 2, 3]"
    by code_simp+
  then show ?thesis
    using Split_accepts_exactly [of "[0x83, 1, 2, 3, 0xC0]" KString "[1, 2, 3]" "[0xC0]"] by simp
qed

text \<open>
  C36. \<open>Split\<close>, \<open>SplitString\<close> and \<open>SplitList\<close> index or slice past the end of their input on exactly one
  input, the single byte 0x81: the canonical-form check of a one-byte string reads the content byte
  before the length check, and all other accesses are in range. \<open>CountValues\<close> does so exactly on the
  inputs where that byte follows some complete items. This is for inputs shorter than \<open>2 ^ 64\<close> bytes,
  as all Go slices are.
\<close>

theorem Split_index_panic:
  assumes "length b < 2 ^ 64"
  shows "(Split b = Inl ErrIndexPanic \<longleftrightarrow> b = [0x81]) \<and> (SplitString b = Inl ErrIndexPanic \<longleftrightarrow> b = [0x81])
    \<and> (SplitList b = Inl ErrIndexPanic \<longleftrightarrow> b = [0x81])
    \<and> (CountValues b = Inl ErrIndexPanic \<longleftrightarrow> (\<exists>xs. (\<forall>(k, c) \<in> set xs. item_ok k c) \<and> b = concat (map (\<lambda>(k, c). rlp_item k c) xs) @ [0x81]))"
  using Split_panics_iff [OF assms] CountValues_loop_panics [of b "Suc (length b)" 0] assms
  by (cases "Split b") (auto simp: SplitString_def SplitList_def CountValues_def split: if_splits)

theorem Split_index_panic_witness:
  "Split [0x81] = Inl ErrIndexPanic \<and> Split [0x82] \<noteq> Inl ErrIndexPanic \<and> CountValues [0x05, 0x81] = Inl ErrIndexPanic"
proof -
  have "(\<forall>(k, c) \<in> set [(KByte, [5])]. item_ok k c) \<and> [0x05, 0x81] = items [(KByte, [5])] @ [0x81]" by simp
  then have "\<exists>xs. (\<forall>(k, c) \<in> set xs. item_ok k c) \<and> [0x05, 0x81] = items xs @ [0x81]" by blast
  then show ?thesis using Split_index_panic [of "[0x81]"] Split_index_panic [of "[0x82]"] Split_index_panic [of "[0x05, 0x81]"] by simp
qed

text \<open>
  C35. \<open>CountValues\<close> of a concatenation of canonical items is the number of items.
\<close>

theorem CountValues_counts_items:
  assumes "\<forall>(k, c) \<in> set xs. item_ok k c" "length (concat (map (\<lambda>(k, c). rlp_item k c) xs)) < 2 ^ 63"
  shows "CountValues (concat (map (\<lambda>(k, c). rlp_item k c) xs)) = Inr (length xs)"
  using assms by (rule CountValues_items)

theorem CountValues_counts_items_witness:
  "CountValues (concat (map (\<lambda>(k, c). rlp_item k c) [(KByte, [5]), (KString, [1, 2]), (KList, [])])) = Inr 3"
proof -
  let ?xs = "[(KByte, [5]), (KString, [1, 2]), (KList, [])] :: (rlp_kind \<times> bytes) list"
  have "\<forall>(k, c) \<in> set ?xs. item_ok k c" "length (concat (map (\<lambda>(k, c). rlp_item k c) ?xs)) < 2 ^ 63"
    by (simp_all add: rlp_head_def)
  from CountValues_counts_items [OF this] show ?thesis by simp
qed

end
