(* ===== verification/RLP_Stream.thy ===== *)
theory RLP_Stream
  imports RLP_Raw
begin

text \<open>
  The decoding stream of \<^verbatim>\<open>pkg/rlp/decode.go\<close>: a record with the input that is left, the cached tag of
  the value ahead (\<open>None\<close> is the code's -1) and the stack of open lists, innermost first. An
  operation maps a stream to a result and the stream afterwards, as an error also leaves a changed
  stream. Shown: the stack invariant, that \<open>Kind\<close> reads exactly the canonical tags, and that each
  reading operation is an exact decoder (locale \<open>decoder\<close>).
\<close>

section \<open>The stream\<close>

record stream =
  st_r :: bytes
  st_remaining :: u64
  st_limited :: bool
  st_kind :: "rlp_kind option"
  st_size :: u64
  st_byteval :: byte
  st_kinderr :: "rlp_error option"
  st_stack :: "(u64 \<times> u64) list"

type_synonym 'a sm = "stream \<Rightarrow> (rlp_error + 'a) \<times> stream"

definition s_bind :: "'a sm \<Rightarrow> ('a \<Rightarrow> 'b sm) \<Rightarrow> 'b sm" where
  "s_bind m f s = (case m s of (Inl e, s') \<Rightarrow> (Inl e, s') | (Inr x, s') \<Rightarrow> f x s')"

definition s_return :: "'a \<Rightarrow> 'a sm" where
  "s_return x s = (Inr x, s)"

definition s_fail :: "rlp_error \<Rightarrow> 'a sm" where
  "s_fail e s = (Inl e, s)"

text \<open>\<open>Reset\<close> on a reader over the bytes \<open>b\<close>; \<open>sized\<close> says whether the reader knows its length.\<close>

definition stream_Reset :: "bytes \<Rightarrow> bool \<Rightarrow> u64 \<Rightarrow> stream \<Rightarrow> stream" where
  "stream_Reset b sized inputLimit s =
     s\<lparr>st_remaining := (if inputLimit > 0 then inputLimit else if sized then word_of_nat (length b) else st_remaining s),
       st_limited := (inputLimit > 0 \<or> sized),
       st_r := b, st_stack := [], st_size := 0, st_kind := None, st_kinderr := None\<rparr>"

definition zero_stream :: stream where
  "zero_stream = \<lparr>st_r = [], st_remaining = 0, st_limited = False, st_kind = Some KByte, st_size = 0,
     st_byteval = 0, st_kinderr = None, st_stack = []\<rparr>"

definition NewStream :: "bytes \<Rightarrow> bool \<Rightarrow> u64 \<Rightarrow> stream" where
  "NewStream b sized inputLimit = stream_Reset b sized inputLimit zero_stream"

definition NewListStream :: "bytes \<Rightarrow> bool \<Rightarrow> u64 \<Rightarrow> stream" where
  "NewListStream b sized len = (stream_Reset b sized len zero_stream)\<lparr>st_kind := Some KList, st_size := len\<rparr>"

definition willRead :: "u64 \<Rightarrow> unit sm" where
  "willRead n s0 =
     (let s = s0\<lparr>st_kind := None\<rparr>;
          limit = (\<lambda>s. if st_limited s then
                     (if n > st_remaining s then (Inl ErrValueTooLarge, s)
                      else (Inr (), s\<lparr>st_remaining := st_remaining s - n\<rparr>))
                   else (Inr (), s))
      in (case st_stack s of
            [] \<Rightarrow> limit s
          | (pos, sz) # rest \<Rightarrow>
              if n > sz - pos then (Inl ErrElemTooLarge, s)
              else limit (s\<lparr>st_stack := (pos + n, sz) # rest\<rparr>)))"

definition readByte :: "byte sm" where
  "readByte = s_bind (willRead 1) (\<lambda>_ s.
     case st_r s of [] \<Rightarrow> (Inl ErrUnexpectedEOF, s) | b # bs \<Rightarrow> (Inr b, s\<lparr>st_r := bs\<rparr>))"

definition readFull :: "nat \<Rightarrow> bytes sm" where
  "readFull n = s_bind (willRead (word_of_nat n)) (\<lambda>_ s.
     if length (st_r s) < n then (Inl ErrUnexpectedEOF, s\<lparr>st_r := []\<rparr>)
     else (Inr (take n (st_r s)), s\<lparr>st_r := drop n (st_r s)\<rparr>))"

definition readUint :: "byte \<Rightarrow> u64 sm" where
  "readUint sz =
     (if sz = 0 then (\<lambda>s. (Inr 0, s\<lparr>st_kind := None\<rparr>))
      else if sz = 1 then s_bind readByte (\<lambda>b. s_return (ucast b))
      else s_bind (readFull (unat sz)) (\<lambda>bs.
        if bs ! 0 = 0 then s_fail ErrCanonSize else s_return (word_of_nat (be_val bs))))"

text \<open>
  The results of \<open>readKind\<close> are stored by \<open>Kind\<close> also when there is an error, so the function
  returns kind, size and error together.
\<close>

definition stream_readKind :: "stream \<Rightarrow> (rlp_kind \<times> u64 \<times> rlp_error option) \<times> stream" where
  "stream_readKind s =
     (case readByte s of
        (Inl e, s') \<Rightarrow>
          ((KByte, 0, Some (if st_stack s' = [] \<and> (e = ErrUnexpectedEOF \<or> e = ErrValueTooLarge) then ErrEOF else e)), s')
      | (Inr b, s1) \<Rightarrow>
          (let s' = s1\<lparr>st_byteval := 0\<rparr>;
               long = (\<lambda>k n. case readUint n s' of
                   (Inl e, s'') \<Rightarrow> ((k, 0, Some e), s'')
                 | (Inr sz, s'') \<Rightarrow> ((k, sz, if sz < 56 then Some ErrCanonSize else None), s''))
           in if b < 0x80 then ((KByte, 0, None), s'\<lparr>st_byteval := b\<rparr>)
              else if b < 0xB8 then ((KString, ucast (b - 0x80), None), s')
              else if b < 0xC0 then long KString (b - 0xB7)
              else if b < 0xF8 then ((KList, ucast (b - 0xC0), None), s')
              else long KList (b - 0xF7)))"

definition stream_Kind :: "(rlp_kind \<times> u64) sm" where
  "stream_Kind s =
     (case st_kind s of
        Some k \<Rightarrow> (case st_kinderr s of Some e \<Rightarrow> (Inl e, s) | None \<Rightarrow> (Inr (k, st_size s), s))
      | None \<Rightarrow>
          (let s0 = s\<lparr>st_kinderr := None\<rparr>
           in if (case st_stack s of [] \<Rightarrow> False | (pos, sz) # _ \<Rightarrow> pos = sz) then (Inl EOL, s0)
              else (case stream_readKind s0 of ((k, sz, err), s1) \<Rightarrow>
                let err' = (if err \<noteq> None then err
                            else (case st_stack s1 of
                                [] \<Rightarrow> if st_limited s1 \<and> sz > st_remaining s1 then Some ErrValueTooLarge else None
                              | (pos, lsz) # _ \<Rightarrow> if sz > lsz - pos then Some ErrElemTooLarge else None));
                    s2 = s1\<lparr>st_kind := Some k, st_size := sz, st_kinderr := err'\<rparr>
                in (case err' of Some e \<Rightarrow> (Inl e, s2) | None \<Rightarrow> (Inr (k, sz), s2)))))"

definition stream_Bytes :: "bytes sm" where
  "stream_Bytes = s_bind stream_Kind (\<lambda>(k, sz) s.
     (case k of
        KByte \<Rightarrow> (Inr [st_byteval s], s\<lparr>st_kind := None\<rparr>)
      | KString \<Rightarrow> s_bind (readFull (unat sz)) (\<lambda>b.
          if sz = 1 \<and> b ! 0 < 128 then s_fail ErrCanonSize else s_return b) s
      | KList \<Rightarrow> (Inl ErrExpectedString, s)))"

definition stream_Raw :: "bytes sm" where
  "stream_Raw = s_bind stream_Kind (\<lambda>(k, sz) s.
     if k = KByte then (Inr [st_byteval s], s\<lparr>st_kind := None\<rparr>)
     else s_bind (readFull (unat sz)) (\<lambda>content.
       s_return ((if k = KString then puthead 0x80 0xB7 sz else puthead 0xC0 0xF7 sz) @ content)) s)"

definition stream_uint :: "nat \<Rightarrow> u64 sm" where
  "stream_uint maxbits = s_bind stream_Kind (\<lambda>(k, sz) s.
     (case k of
        KByte \<Rightarrow> if st_byteval s = 0 then (Inl ErrCanonInt, s) else (Inr (ucast (st_byteval s)), s\<lparr>st_kind := None\<rparr>)
      | KString \<Rightarrow>
          if sz > word_of_nat (maxbits div 8) then (Inl ErrUintOverflow, s)
          else (case readUint (ucast sz) s of
              (Inl e, s') \<Rightarrow> (Inl (if e = ErrCanonSize then ErrCanonInt else e), s')
            | (Inr v, s') \<Rightarrow> if sz > 0 \<and> v < 128 then (Inl ErrCanonSize, s') else (Inr v, s'))
      | KList \<Rightarrow> (Inl ErrExpectedString, s)))"

definition stream_Uint :: "u64 sm" where
  "stream_Uint = stream_uint 64"

definition stream_Bool :: "bool sm" where
  "stream_Bool = s_bind (stream_uint 8) (\<lambda>num.
     if num = 0 then s_return False else if num = 1 then s_return True else s_fail (ErrInvalidBool num))"

definition stream_List :: "u64 sm" where
  "stream_List = s_bind stream_Kind (\<lambda>(k, sz) s.
     if k \<noteq> KList then (Inl ErrExpectedList, s)
     else (Inr sz, s\<lparr>st_stack := (0, sz) # st_stack s, st_kind := None, st_size := 0\<rparr>))"

definition stream_ListEnd :: "unit sm" where
  "stream_ListEnd s =
     (case st_stack s of
        [] \<Rightarrow> (Inl ErrNotInList, s)
      | (pos, sz) # rest \<Rightarrow>
          if pos \<noteq> sz then (Inl ErrNotAtEOL, s)
          else (Inr (), s\<lparr>st_stack := (case rest of [] \<Rightarrow> [] | (p, z) # rs \<Rightarrow> (p + sz, z) # rs),
                          st_kind := None, st_size := 0\<rparr>))"

section \<open>The stack invariant\<close>

text \<open>
  With \<open>avail\<close> bytes of input left: the innermost list ends within the input, it ends within its
  parent, and the same holds for the parent once the list has been read.
\<close>

fun stack_ok :: "nat \<Rightarrow> (u64 \<times> u64) list \<Rightarrow> bool" where
  "stack_ok avail [] \<longleftrightarrow> True"
| "stack_ok avail [(pos, sz)] \<longleftrightarrow> unat pos \<le> unat sz \<and> unat sz - unat pos \<le> avail"
| "stack_ok avail ((pos, sz) # (p, z) # rest) \<longleftrightarrow>
     unat pos \<le> unat sz \<and> unat sz - unat pos \<le> avail \<and> unat p + unat sz \<le> unat z
     \<and> stack_ok (avail - (unat sz - unat pos)) ((p + sz, z) # rest)"

definition stream_inv :: "stream \<Rightarrow> bool" where
  "stream_inv s \<longleftrightarrow> st_limited s \<and> unat (st_remaining s) = length (st_r s) \<and> stack_ok (length (st_r s)) (st_stack s)"

text \<open>How many bytes may be read before the end of the innermost list, or of the input.\<close>

definition room :: "stream \<Rightarrow> nat" where
  "room s = (case st_stack s of [] \<Rightarrow> length (st_r s) | (pos, sz) # _ \<Rightarrow> unat sz - unat pos)"

fun bump :: "nat \<Rightarrow> (u64 \<times> u64) list \<Rightarrow> (u64 \<times> u64) list" where
  "bump n [] = []"
| "bump n ((pos, sz) # rest) = (pos + word_of_nat n, sz) # rest"

definition adv :: "nat \<Rightarrow> stream \<Rightarrow> stream" where
  "adv n s = s\<lparr>st_r := drop n (st_r s), st_remaining := st_remaining s - word_of_nat n,
     st_stack := bump n (st_stack s), st_kind := None\<rparr>"

text \<open>The part of the state that later operations depend on.\<close>

definition core :: "stream \<Rightarrow> bytes \<times> u64 \<times> bool \<times> rlp_kind option \<times> (u64 \<times> u64) list" where
  "core s = (st_r s, st_remaining s, st_limited s, st_kind s, st_stack s)"

lemma unat_u64_less: "unat (x :: u64) < 2 ^ 64"
  using unsigned_less [of x] by simp

lemma unat_plus_le: "unat a + n \<le> unat b \<Longrightarrow> unat (a + word_of_nat n) = unat a + n" for a b :: u64
proof -
  assume "unat a + n \<le> unat b"
  moreover have "unat b < 2 ^ 64" by (rule unat_u64_less)
  ultimately have "unat a + n < 2 ^ 64" by linarith
  then show ?thesis by (simp add: unat_word_ariths unat_of_nat)
qed

lemma unat_plus_word_le: "unat a + unat n \<le> unat b \<Longrightarrow> unat (a + n) = unat a + unat n" for a b n :: u64
  using unat_plus_le [of a "unat n" b] by simp

lemma stack_ok_bump:
  "stack_ok avail ((pos, sz) # rest) \<Longrightarrow> n \<le> unat sz - unat pos \<Longrightarrow>
     stack_ok (avail - n) ((pos + word_of_nat n, sz) # rest)"
proof (cases rest)
  case Nil
  assume "stack_ok avail ((pos, sz) # rest)" "n \<le> unat sz - unat pos"
  then show ?thesis using Nil unat_plus_le [of pos n sz] by auto
next
  case (Cons a list)
  obtain p z where a: "a = (p, z)" by (cases a)
  assume "stack_ok avail ((pos, sz) # rest)" "n \<le> unat sz - unat pos"
  moreover from this have "unat (pos + word_of_nat n) = unat pos + n"
    using unat_plus_le [of pos n sz] Cons a by auto
  ultimately show ?thesis using Cons a by auto
qed

lemma stack_ok_room:
  "stack_ok avail ((pos, sz) # rest) \<Longrightarrow> unat pos \<le> unat sz \<and> unat sz - unat pos \<le> avail"
  by (cases rest) auto

lemma room_le: "stream_inv s \<Longrightarrow> room s \<le> length (st_r s)"
  using stack_ok_room [of "length (st_r s)"]
  by (auto simp: stream_inv_def room_def split: list.split)

lemma length_r_less: "stream_inv s \<Longrightarrow> length (st_r s) < 2 ^ 64"
  using unat_u64_less [of "st_remaining s"] by (simp add: stream_inv_def)

lemma unat_of_nat_le: "stream_inv s \<Longrightarrow> n \<le> length (st_r s) \<Longrightarrow> unat (word_of_nat n :: u64) = n"
  using length_r_less [of s] by (simp add: unat_of_nat)

lemma stream_inv_adv:
  assumes "stream_inv s" "n \<le> room s"
  shows "stream_inv (adv n s)" "room (adv n s) = room s - n"
proof -
  have le: "n \<le> length (st_r s)" using assms room_le by fastforce
  have u: "unat (st_remaining s - word_of_nat n) = length (st_r s) - n"
    using assms(1) le unat_of_nat_le [OF assms(1) le]
    by (simp add: unat_sub_if' stream_inv_def)
  have "stack_ok (length (st_r s) - n) (bump n (st_stack s)) \<and> room (adv n s) = room s - n"
  proof (cases "st_stack s")
    case Nil
    then show ?thesis by (simp add: room_def adv_def)
  next
    case (Cons a rest)
    obtain pos sz where a: "a = (pos, sz)" by (cases a)
    have st: "stack_ok (length (st_r s)) ((pos, sz) # rest)" using assms(1) Cons a by (simp add: stream_inv_def)
    have n: "n \<le> unat sz - unat pos" using assms(2) Cons a by (simp add: room_def)
    have "unat (pos + word_of_nat n) = unat pos + n"
      using unat_plus_le [of pos n sz] stack_ok_room [OF st] n by linarith
    then show ?thesis using stack_ok_bump [OF st n] Cons a by (simp add: room_def adv_def)
  qed
  then show "stream_inv (adv n s)" "room (adv n s) = room s - n"
    using assms(1) u by (simp_all add: stream_inv_def adv_def)
qed

lemma stream_inv_core: "core s = core s' \<Longrightarrow> stream_inv s \<longleftrightarrow> stream_inv s'"
  by (simp add: core_def stream_inv_def)

lemma room_core: "core s = core s' \<Longrightarrow> room s = room s'"
  by (cases "st_stack s'") (auto simp: core_def room_def)

lemma adv_fields [simp]:
  "st_r (adv n s) = drop n (st_r s)" "st_kind (adv n s) = None" "st_limited (adv n s) = st_limited s"
  "st_stack (adv n s) = bump n (st_stack s)"
  by (simp_all add: adv_def)

lemma adv_core: "core s = core s' \<Longrightarrow> core (adv n s) = core (adv n s')"
  by (simp add: core_def adv_def)

lemma bump_add: "bump m (bump n st) = bump (n + m) st"
  by (cases st; cases "hd st") (auto simp: add.assoc)

lemma core_adv_adv: "core (adv m (adv n s)) = core (adv (n + m) s)"
  by (simp add: core_def adv_def bump_add add.commute diff_diff_add)

section \<open>Reading bytes\<close>

lemma willRead_ok:
  assumes "stream_inv s" "n \<le> room s"
  shows "willRead (word_of_nat n) s =
    (Inr (), s\<lparr>st_kind := None, st_stack := bump n (st_stack s), st_remaining := st_remaining s - word_of_nat n\<rparr>)"
proof -
  have le: "n \<le> length (st_r s)" using assms room_le by fastforce
  have u: "unat (word_of_nat n :: u64) = n" using unat_of_nat_le [OF assms(1) le] .
  have rem: "\<not> st_remaining s < word_of_nat n"
    using assms(1) le u by (simp add: word_less_nat_alt stream_inv_def)
  show ?thesis
  proof (cases "st_stack s")
    case Nil
    then show ?thesis using rem assms(1) by (simp add: willRead_def Let_def stream_inv_def)
  next
    case (Cons a rest)
    obtain pos sz where a: "a = (pos, sz)" by (cases a)
    have "unat pos \<le> unat sz" using assms(1) Cons a stack_ok_room [of _ pos sz rest] by (auto simp: stream_inv_def)
    then have "unat (sz - pos) = unat sz - unat pos" by (simp add: unat_sub_if')
    then have "\<not> sz - pos < word_of_nat n"
      using assms(2) Cons a u by (simp add: word_less_nat_alt room_def)
    then show ?thesis using Cons a rem assms(1) by (simp add: willRead_def Let_def stream_inv_def)
  qed
qed

text \<open>Reading beyond the innermost list or the input fails, and not with the end-of-list signal.\<close>

lemma willRead_fail:
  assumes "stream_inv s" "room s < unat n"
  shows "\<exists>s' e. willRead n s = (Inl e, s') \<and> e \<noteq> EOL"
proof (cases "st_stack s")
  case Nil
  then have "st_remaining s < n" using assms by (simp add: word_less_nat_alt stream_inv_def room_def)
  then show ?thesis using Nil assms(1) by (simp add: willRead_def Let_def stream_inv_def)
next
  case (Cons a rest)
  obtain pos sz where a: "a = (pos, sz)" by (cases a)
  have "unat pos \<le> unat sz" using assms(1) Cons a stack_ok_room [of _ pos sz rest] by (auto simp: stream_inv_def)
  then have "sz - pos < n" using assms(2) Cons a by (simp add: word_less_nat_alt unat_sub_if' room_def)
  then show ?thesis using Cons a by (simp add: willRead_def Let_def)
qed

lemma readFull_ok:
  assumes "stream_inv s" "n \<le> room s"
  shows "readFull n s = (Inr (take n (st_r s)), adv n s)"
proof -
  have "n \<le> length (st_r s)" using assms room_le by fastforce
  then show ?thesis
    using willRead_ok [OF assms] by (simp add: readFull_def s_bind_def adv_def)
qed

lemma readFull_fail:
  assumes "stream_inv s" "room s < n" "n < 2 ^ 64"
  shows "\<exists>s' e. readFull n s = (Inl e, s') \<and> e \<noteq> EOL"
  using willRead_fail [OF assms(1), of "word_of_nat n"] assms(2,3)
  by (auto simp: readFull_def s_bind_def unat_of_nat)

lemma readByte_ok:
  assumes "stream_inv s" "1 \<le> room s"
  shows "readByte s = (Inr (hd (st_r s)), adv 1 s)" "st_r s \<noteq> []"
proof -
  have "1 \<le> length (st_r s)" using assms room_le by fastforce
  then obtain b bs where "st_r s = b # bs" by (cases "st_r s") auto
  then show "readByte s = (Inr (hd (st_r s)), adv 1 s)" "st_r s \<noteq> []"
    using willRead_ok [OF assms] by (simp_all add: readByte_def s_bind_def adv_def)
qed

lemma readByte_fail:
  assumes "stream_inv s" "room s < 1"
  shows "\<exists>s' e. readByte s = (Inl e, s') \<and> e \<noteq> EOL"
  using willRead_fail [OF assms(1), of 1] assms(2) by (auto simp: readByte_def s_bind_def)


section \<open>Reading tags\<close>

fun tag_of :: "rlp_kind \<Rightarrow> byte \<Rightarrow> nat \<Rightarrow> bytes" where
  "tag_of KByte b n = [b]"
| "tag_of KString b n = rlp_head 0x80 0xB7 n"
| "tag_of KList b n = rlp_head 0xC0 0xF7 n"

fun tag_ok :: "rlp_kind \<Rightarrow> byte \<Rightarrow> nat \<Rightarrow> bool" where
  "tag_ok KByte b n \<longleftrightarrow> b < 0x80 \<and> n = 0"
| "tag_ok _ b n \<longleftrightarrow> n < 2 ^ 64"

lemma take_room_less: "stream_inv s \<Longrightarrow> n \<le> room s \<Longrightarrow> length (take n (st_r s)) = n"
  using room_le [of s] by simp

lemma be_val_bound: "length bs \<le> 8 \<Longrightarrow> be_val bs < 2 ^ 64"
proof -
  assume "length bs \<le> 8"
  then have "(256 :: nat) ^ length bs \<le> 256 ^ 8" by (intro power_increasing) simp_all
  then show ?thesis using be_val_less [of bs] by simp
qed

lemma readUint_Inr:
  assumes "stream_inv s" "1 \<le> unat m" "unat m \<le> 8" "readUint m s = (Inr v, s')"
  shows "unat m \<le> room s \<and> s' = adv (unat m) s \<and> (v \<noteq> 0 \<longrightarrow> take (unat m) (st_r s) = be_min (unat v))"
proof (cases "m = 1")
  case True
  have r: "1 \<le> room s"
    using assms(4) readByte_fail [OF assms(1)] True by (cases "1 \<le> room s") (auto simp: readUint_def s_bind_def)
  note b = readByte_ok [OF assms(1) r]
  have v: "v = ucast (hd (st_r s))" "s' = adv 1 s"
    using assms(4) True b(1) by (simp_all add: readUint_def s_bind_def s_return_def)
  have "take 1 (st_r s) = [hd (st_r s)]" using b(2) by (cases "st_r s") auto
  moreover have "v \<noteq> 0 \<Longrightarrow> be_min (unat v) = [hd (st_r s)]"
    using v(1) be_min_unique [of "[hd (st_r s)]"] by (cases "hd (st_r s) = 0") auto
  ultimately show ?thesis using v(2) r True by simp
next
  case False
  have m0: "m \<noteq> 0" using assms(2) by auto
  have r: "unat m \<le> room s"
  proof (rule ccontr)
    assume "\<not> ?thesis"
    then obtain s'' e where "readFull (unat m) s = (Inl e, s'')"
      using readFull_fail [OF assms(1), of "unat m"] assms(3) by fastforce
    then show False using assms(4) False m0 by (simp add: readUint_def s_bind_def)
  qed
  let ?bs = "take (unat m) (st_r s)"
  have res: "?bs ! 0 \<noteq> 0" "v = word_of_nat (be_val ?bs)" "s' = adv (unat m) s"
    using assms(4) False m0 readFull_ok [OF assms(1) r]
    by (auto simp: readUint_def s_bind_def s_return_def s_fail_def split: if_splits)
  have len: "length ?bs = unat m" using take_room_less [OF assms(1) r] .
  then have "hd ?bs \<noteq> 0" using res(1) assms(2) by (cases ?bs) auto
  moreover have "unat v = be_val ?bs"
    using res(2) be_val_bound [of ?bs] len assms(3) by (simp add: unat_of_nat)
  ultimately show ?thesis using res(3) r be_min_unique [of ?bs] by simp
qed

lemma readUint_be_min:
  assumes "stream_inv s" "56 \<le> n" "n < 2 ^ 64" "unat m = length (be_min n)" "st_r s = be_min n @ rest" "unat m \<le> room s"
  shows "readUint m s = (Inr (word_of_nat n), adv (unat m) s)"
proof -
  have len: "1 \<le> unat m" "unat m \<le> 8" using readSize_be_min(2,3) [OF assms(2,3)] assms(4) by simp_all
  have tk: "take (unat m) (st_r s) = be_min n" using assms(4,5) by simp
  have hd0: "be_min n ! 0 \<noteq> 0" using hd_be_min [of n] assms(2) by (simp add: hd_conv_nth)
  show ?thesis
  proof (cases "m = 1")
    case True
    have "1 \<le> room s" using assms(6) True by simp
    note b = readByte_ok [OF assms(1) this]
    have "length (be_min n) = 1" using assms(4) True by simp
    then obtain x where x: "be_min n = [x]" by (auto simp: length_Suc_conv)
    then have "n = unat x" using be_val_be_min [of n] by simp
    then show ?thesis
      using True b(1) x assms(5) by (simp add: readUint_def s_bind_def s_return_def)
  next
    case False
    moreover have "m \<noteq> 0" using len by auto
    ultimately show ?thesis
      using readFull_ok [OF assms(1,6)] tk hd0
      by (simp add: readUint_def s_bind_def s_return_def)
  qed
qed

lemma readUint_not_EOL:
  assumes "stream_inv s" "unat m \<le> 8" "readUint m s = (Inl e, s')"
  shows "e \<noteq> EOL"
proof (cases "room s < unat m")
  case True
  then show ?thesis
    using assms readFull_fail [OF assms(1), of "unat m"] readByte_fail [OF assms(1)]
    by (auto simp: readUint_def s_bind_def s_return_def split: if_splits)
next
  case False
  then show ?thesis
    using assms(3) readFull_ok [OF assms(1), of "unat m"] readByte_ok(1) [OF assms(1)]
    by (auto simp: readUint_def s_bind_def s_return_def s_fail_def split: if_splits)
qed

lemma stream_inv_byteval [simp]: "stream_inv (s\<lparr>st_byteval := b\<rparr>) = stream_inv s"
  by (simp add: stream_inv_def)

lemma room_byteval [simp]: "room (s\<lparr>st_byteval := b\<rparr>) = room s"
  by (rule room_core) (simp add: core_def)

lemma core_byteval [simp]: "core (s\<lparr>st_byteval := b\<rparr>) = core s"
  by (simp add: core_def)

lemma core_adv_Suc: "core (adv m ((adv (Suc 0) s)\<lparr>st_byteval := b\<rparr>)) = core (adv (Suc m) s)"
proof -
  have "core (adv m ((adv (Suc 0) s)\<lparr>st_byteval := b\<rparr>)) = core (adv m (adv (Suc 0) s))"
    by (rule adv_core) simp
  then show ?thesis using core_adv_adv [of m "Suc 0" s] by simp
qed

text \<open>The long form: the size in its minimal big-endian form, at least 56.\<close>

lemma long_head_Inr:
  assumes "stream_inv s" "1 \<le> room s" "st_r s = b # bs" "unat (b - base) = m" "1 \<le> m" "m \<le> 8"
    "readUint (b - base) ((adv 1 s)\<lparr>st_byteval := 0\<rparr>) = (Inr sz, s')" "\<not> sz < 56"
  shows "st_r s = rlp_head x base (unat sz) @ drop (Suc m) (st_r s)
    \<and> length (rlp_head x base (unat sz)) = Suc m \<and> Suc m \<le> room s \<and> core s' = core (adv (Suc m) s)"
proof -
  let ?s1 = "(adv 1 s)\<lparr>st_byteval := 0\<rparr>"
  have i1: "stream_inv ?s1" "room ?s1 = room s - 1" using stream_inv_adv [OF assms(1,2)] by simp_all
  have "sz \<noteq> 0" using assms(8) by auto
  with readUint_Inr [OF i1(1) _ _ assms(7)] assms(4,5,6)
  have r: "m \<le> room ?s1" "s' = adv m ?s1" "take m bs = be_min (unat sz)"
    by (simp_all add: assms(3))
  have u: "\<not> unat sz < 56" using assms(8) by (simp add: word_less_nat_alt)
  have len: "length (be_min (unat sz)) = m"
    using take_room_less [OF i1(1) r(1)] r(3) by (simp add: assms(3))
  have "base + word_of_nat m = b" using assms(4) by (auto simp: word_of_nat_eq_iff)
  then have "rlp_head x base (unat sz) = b # take m bs" using u len r(3) by (simp add: rlp_head_def)
  moreover have "bs = take m bs @ drop m bs" by simp
  moreover have "Suc m \<le> room s" using r(1) i1(2) assms(2) by simp
  ultimately show ?thesis
    using r(2) assms(3) len core_adv_Suc [of m 0 s] r(3) by simp
qed


lemma readKind_Inr:
  assumes "stream_inv s" "stream_readKind s = ((k, sz, None), s1)"
  shows "\<exists>b. tag_ok k b (unat sz) \<and> length (tag_of k b (unat sz)) \<le> room s
    \<and> st_r s = tag_of k b (unat sz) @ drop (length (tag_of k b (unat sz))) (st_r s)
    \<and> core s1 = core (adv (length (tag_of k b (unat sz))) s) \<and> (k = KByte \<longrightarrow> st_byteval s1 = b)"
proof -
  have r1: "1 \<le> room s"
    using assms(2) readByte_fail [OF assms(1)] by (cases "1 \<le> room s") (auto simp: stream_readKind_def)
  note rb = readByte_ok [OF assms(1) r1]
  obtain b bs where b: "st_r s = b # bs" using rb(2) by (cases "st_r s") auto
  let ?s' = "(adv 1 s)\<lparr>st_byteval := 0\<rparr>"
  note D = stream_readKind_def Let_def rb(1) b
  have sz64: "unat sz < 2 ^ 64" by (rule unat_u64_less)
  consider "b < 0x80" | "\<not> b < 0x80" "b < 0xB8" | "\<not> b < 0xB8" "b < 0xC0"
    | "\<not> b < 0xC0" "b < 0xF8" | "\<not> b < 0xF8" by blast
  then show ?thesis
  proof cases
    case 1
    then show ?thesis using assms(2) r1 by (auto simp: D intro!: exI [of _ b])
  next
    case 2
    then have "k = KString" "sz = ucast (b - 0x80)" "s1 = ?s'" using assms(2) by (auto simp: D)
    then show ?thesis using rlp_head_of_short(1) [OF 2] r1 b sz64 by simp
  next
    case 3
    then have n: "\<not> b < 0x80" by (auto simp: word_less_nat_alt)
    then obtain e where r: "k = KString" "readUint (b - 0xB7) ?s' = (Inr sz, s1)" "\<not> sz < 56"
      using assms(2) 3 by (auto simp: D split: prod.splits sum.splits if_splits)
    note l = long_head_Inr [OF assms(1) r1 b refl _ _ r(2,3), of "0x80"] byte_sub_cases(2) [OF 3]
    then show ?thesis using r(1) sz64 by auto
  next
    case 4
    then have n: "\<not> b < 0x80" "\<not> b < 0xB8" by (auto simp: word_less_nat_alt)
    with 4 have "k = KList" "sz = ucast (b - 0xC0)" "s1 = ?s'" using assms(2) by (auto simp: D)
    then show ?thesis using rlp_head_of_short(2) [OF 4] r1 b sz64 by simp
  next
    case 5
    then have n: "\<not> b < 0x80" "\<not> b < 0xB8" "\<not> b < 0xC0" by (auto simp: word_less_nat_alt)
    then obtain e where r: "k = KList" "readUint (b - 0xF7) ?s' = (Inr sz, s1)" "\<not> sz < 56"
      using assms(2) 5 by (auto simp: D split: prod.splits sum.splits if_splits)
    note l = long_head_Inr [OF assms(1) r1 b refl _ _ r(2,3), of "0xC0"] byte_sub_cases(4) [OF 5]
    then show ?thesis using r(1) sz64 by auto
  qed
qed

text \<open>A canonical tag ahead is read as such.\<close>

lemma long_head_ok:
  assumes "stream_inv s" "\<not> n < 56" "n < 2 ^ 64" "base = 0xB7 \<or> base = 0xF7" "st_r s = rlp_head x base n @ rest"
    "length (rlp_head x base n) \<le> room s"
  shows "\<exists>b s'. readByte s = (Inr b, adv 1 s) \<and> b = base + word_of_nat (length (be_min n))
    \<and> readUint (b - base) ((adv 1 s)\<lparr>st_byteval := 0\<rparr>) = (Inr (word_of_nat n), s')
    \<and> core s' = core (adv (length (rlp_head x base n)) s)"
proof -
  let ?b = "base + word_of_nat (length (be_min n))"
  let ?s1 = "(adv 1 s)\<lparr>st_byteval := 0\<rparr>"
  have h: "rlp_head x base n = ?b # be_min n" using assms(2) by (simp add: rlp_head_def)
  have r1: "1 \<le> room s" using assms(6) h by simp
  have i1: "stream_inv ?s1" "room ?s1 = room s - 1" using stream_inv_adv [OF assms(1) r1] by simp_all
  have l8: "length (be_min n) \<le> 8" using readSize_be_min(3) assms(2,3) by simp
  then have u: "unat (?b - base) = length (be_min n)" by (simp add: unat_of_nat)
  have "readUint (?b - base) ?s1 = (Inr (word_of_nat n), adv (unat (?b - base)) ?s1)"
    using assms h u i1 by (intro readUint_be_min) auto
  moreover have "readByte s = (Inr ?b, adv 1 s)" using readByte_ok(1) [OF assms(1) r1] assms(5) h by simp
  ultimately show ?thesis using core_adv_Suc [of "length (be_min n)" 0 s] h u by auto
qed

lemma readKind_ok:
  assumes "stream_inv s" "tag_ok k b n" "st_r s = tag_of k b n @ rest" "length (tag_of k b n) \<le> room s"
  shows "\<exists>s1. stream_readKind s = ((k, word_of_nat n, None), s1)
    \<and> core s1 = core (adv (length (tag_of k b n)) s) \<and> (k = KByte \<longrightarrow> st_byteval s1 = b)"
proof (cases k)
  case KByte
  then have "1 \<le> room s" "hd (st_r s) = b" using assms by simp_all
  with readByte_ok(1) [OF assms(1)] assms(2) KByte show ?thesis by (simp add: stream_readKind_def Let_def)
next
  case KString
  show ?thesis
  proof (cases "n < 56")
    case True
    then have h: "tag_of k b n = [0x80 + word_of_nat n]" using KString by (simp add: rlp_head_def)
    have u: "unat (0x80 + word_of_nat n :: byte) = 0x80 + n" "(ucast (0x80 + word_of_nat n - 0x80 :: byte) :: u64) = word_of_nat n"
      using short_tag [OF True, of "0x80"] by simp_all
    have "\<not> (0x80 + word_of_nat n :: byte) < 0x80" "(0x80 + word_of_nat n :: byte) < 0xB8"
      using u(1) True by (simp_all add: word_less_nat_alt)
    then show ?thesis
      using readByte_ok(1) [OF assms(1)] assms(3,4) h KString u(2) by (simp add: stream_readKind_def Let_def)
  next
    case False
    have n: "n < 2 ^ 64" using assms(2) KString by simp
    obtain c s' where c: "readByte s = (Inr c, adv 1 s)" "c = 0xB7 + word_of_nat (length (be_min n))"
      "readUint (c - 0xB7) ((adv 1 s)\<lparr>st_byteval := 0\<rparr>) = (Inr (word_of_nat n), s')"
      "core s' = core (adv (length (tag_of k b n)) s)"
      using long_head_ok [OF assms(1) False n, of "0xB7" "0x80" rest] assms(3,4) KString by auto
    have "unat c = 0xB7 + length (be_min n)" using c(2) long_tag(1) [OF False n, of "0xB7"] by simp
    then have "\<not> c < 0x80" "\<not> c < 0xB8" "c < 0xC0"
      using readSize_be_min(2,3) [of n] False n by (simp_all add: word_less_nat_alt)
    moreover have "\<not> (word_of_nat n :: u64) < 56" using False n by (simp add: word_less_nat_alt unat_of_nat)
    ultimately show ?thesis using c KString by (simp add: stream_readKind_def Let_def)
  qed
next
  case KList
  show ?thesis
  proof (cases "n < 56")
    case True
    then have h: "tag_of k b n = [0xC0 + word_of_nat n]" using KList by (simp add: rlp_head_def)
    have u: "unat (0xC0 + word_of_nat n :: byte) = 0xC0 + n" "(ucast (0xC0 + word_of_nat n - 0xC0 :: byte) :: u64) = word_of_nat n"
      using short_tag [OF True, of "0xC0"] by simp_all
    have "\<not> (0xC0 + word_of_nat n :: byte) < 0x80" "\<not> (0xC0 + word_of_nat n :: byte) < 0xB8"
      "\<not> (0xC0 + word_of_nat n :: byte) < 0xC0" "(0xC0 + word_of_nat n :: byte) < 0xF8"
      using u(1) True by (simp_all add: word_less_nat_alt)
    then show ?thesis
      using readByte_ok(1) [OF assms(1)] assms(3,4) h KList u(2) by (simp add: stream_readKind_def Let_def)
  next
    case False
    have n: "n < 2 ^ 64" using assms(2) KList by simp
    obtain c s' where c: "readByte s = (Inr c, adv 1 s)" "c = 0xF7 + word_of_nat (length (be_min n))"
      "readUint (c - 0xF7) ((adv 1 s)\<lparr>st_byteval := 0\<rparr>) = (Inr (word_of_nat n), s')"
      "core s' = core (adv (length (tag_of k b n)) s)"
      using long_head_ok [OF assms(1) False n, of "0xF7" "0xC0" rest] assms(3,4) KList by auto
    have "unat c = 0xF7 + length (be_min n)" using c(2) long_tag(1) [OF False n, of "0xF7"] by simp
    then have "\<not> c < 0x80" "\<not> c < 0xB8" "\<not> c < 0xC0" "\<not> c < 0xF8"
      using readSize_be_min(2,3) [of n] False n by (simp_all add: word_less_nat_alt)
    moreover have "\<not> (word_of_nat n :: u64) < 56" using False n by (simp add: word_less_nat_alt unat_of_nat)
    ultimately show ?thesis using c KList by (simp add: stream_readKind_def Let_def)
  qed
qed


section \<open>The value ahead\<close>

definition at_eol :: "stream \<Rightarrow> bool" where
  "at_eol s \<longleftrightarrow> (case st_stack s of [] \<Rightarrow> False | (pos, sz) # _ \<Rightarrow> pos = sz)"

text \<open>What \<open>Kind\<close> knows after it has read a canonical tag: \<open>n\<close> is the size of the content.\<close>

definition peeked :: "stream \<Rightarrow> rlp_kind \<Rightarrow> byte \<Rightarrow> nat \<Rightarrow> stream \<Rightarrow> bool" where
  "peeked s k b n s1 \<longleftrightarrow> tag_ok k b n \<and> length (tag_of k b n) + n \<le> room s \<and> \<not> at_eol s
    \<and> st_r s = tag_of k b n @ drop (length (tag_of k b n)) (st_r s)
    \<and> core s1 = core ((adv (length (tag_of k b n)) s)\<lparr>st_kind := Some k\<rparr>)
    \<and> st_kinderr s1 = None \<and> st_size s1 = word_of_nat n \<and> (k = KByte \<longrightarrow> st_byteval s1 = b)"

lemma at_eol_room: "stream_inv s \<Longrightarrow> at_eol s \<Longrightarrow> room s = 0"
  by (auto simp: at_eol_def room_def split: list.splits)

lemma stream_inv_kinderr [simp]: "stream_inv (s\<lparr>st_kinderr := e\<rparr>) = stream_inv s"
  by (simp add: stream_inv_def)

lemma room_kinderr [simp]: "room (s\<lparr>st_kinderr := e\<rparr>) = room s"
  by (rule room_core) (simp add: core_def)

lemma core_kinderr [simp]: "core (s\<lparr>st_kinderr := e\<rparr>) = core s"
  by (simp add: core_def)

lemma core_adv_kinderr [simp]: "core (adv n (s\<lparr>st_kinderr := e\<rparr>)) = core (adv n s)"
  by (simp add: core_def adv_def)

lemma core_kind: "core s = core s' \<Longrightarrow> core (s\<lparr>st_kind := k\<rparr>) = core (s'\<lparr>st_kind := k\<rparr>)"
  by (simp add: core_def)

text \<open>The size checks of \<open>Kind\<close> compare the size with the room that is left.\<close>

lemma size_check:
  assumes "stream_inv s1" "st_stack s1 = st"
  shows "(case st of
      [] \<Rightarrow> if st_limited s1 \<and> sz > st_remaining s1 then Some ErrValueTooLarge else None
    | (pos, lsz) # _ \<Rightarrow> if sz > lsz - pos then Some ErrElemTooLarge else None) = None \<longleftrightarrow> unat sz \<le> room s1"
proof (cases st)
  case Nil
  then show ?thesis using assms by (simp add: room_def stream_inv_def word_less_nat_alt not_less)
next
  case (Cons a rest)
  obtain pos lsz where a: "a = (pos, lsz)" by (cases a)
  have "unat pos \<le> unat lsz" using assms Cons a stack_ok_room [of _ pos lsz rest] by (auto simp: stream_inv_def)
  then show ?thesis using assms Cons a by (simp add: room_def word_less_nat_alt unat_sub_if' not_less)
qed

lemma Kind_ok:
  assumes "stream_inv s" "st_kind s = None" "tag_ok k b n" "st_r s = tag_of k b n @ rest"
    "length (tag_of k b n) + n \<le> room s"
  shows "\<exists>s1. stream_Kind s = (Inr (k, word_of_nat n), s1) \<and> peeked s k b n s1"
proof -
  let ?s0 = "s\<lparr>st_kinderr := None\<rparr>"
  let ?l = "length (tag_of k b n)"
  have tl: "?l \<ge> 1" by (cases k) (simp_all add: Suc_leI)
  have ne: "\<not> at_eol s" using at_eol_room [OF assms(1)] assms(5) tl by auto
  obtain s1 where s1: "stream_readKind ?s0 = ((k, word_of_nat n, None), s1)" "core s1 = core (adv ?l s)"
    "k = KByte \<longrightarrow> st_byteval s1 = b"
    using readKind_ok [of ?s0 k b n rest] assms by auto
  have i1: "stream_inv s1" "room s1 = room s - ?l"
    using stream_inv_adv [OF assms(1), of ?l] stream_inv_core [OF s1(2)] room_core [OF s1(2)] assms(5) by simp_all
  have "unat (word_of_nat n :: u64) = n"
    using assms(3) by (cases k) (simp_all add: unat_of_nat)
  then have chk: "(case st_stack s1 of
      [] \<Rightarrow> if st_limited s1 \<and> word_of_nat n > st_remaining s1 then Some ErrValueTooLarge else None
    | (pos, lsz) # _ \<Rightarrow> if word_of_nat n > lsz - pos then Some ErrElemTooLarge else None) = None"
    using size_check [OF i1(1) refl, of "word_of_nat n"] i1(2) assms(5) by simp
  have "\<not> (case st_stack s of [] \<Rightarrow> False | (pos, sz) # _ \<Rightarrow> pos = sz)" using ne by (simp add: at_eol_def)
  then have "stream_Kind s = (Inr (k, word_of_nat n), s1\<lparr>st_kind := Some k, st_size := word_of_nat n, st_kinderr := None\<rparr>)"
    using assms(2) s1(1) chk by (simp add: stream_Kind_def Let_def)
  moreover have "core (s1\<lparr>st_kind := Some k, st_size := word_of_nat n, st_kinderr := None\<rparr>)
      = core ((adv ?l s)\<lparr>st_kind := Some k\<rparr>)"
    using core_kind [OF s1(2), of "Some k"] by (simp add: core_def)
  ultimately show ?thesis using assms ne s1(3) by (simp add: peeked_def)
qed

lemma readKind_not_EOL:
  assumes "stream_inv s" "stream_readKind s = ((k, sz, Some e), s1)"
  shows "e \<noteq> EOL"
proof (cases "1 \<le> room s")
  case False
  then show ?thesis using assms(2) readByte_fail [OF assms(1)] by (auto simp: stream_readKind_def split: if_splits)
next
  case True
  let ?b = "hd (st_r s)" and ?s' = "(adv 1 s)\<lparr>st_byteval := 0\<rparr>"
  have i: "stream_inv ?s'" using stream_inv_adv(1) [OF assms(1) True] by simp
  have "\<not> ?b < 0xB8 \<Longrightarrow> ?b < 0xC0 \<Longrightarrow> readUint (?b - 0xB7) ?s' = (Inl e', s'') \<Longrightarrow> e' \<noteq> EOL"
    "\<not> ?b < 0xF8 \<Longrightarrow> readUint (?b - 0xF7) ?s' = (Inl e', s'') \<Longrightarrow> e' \<noteq> EOL" for e' s''
    using readUint_not_EOL [OF i] byte_sub_cases(2,4) [of ?b] by blast+
  then show ?thesis
    using assms(2) readByte_ok(1) [OF assms(1) True]
    by (auto simp: stream_readKind_def Let_def split: if_splits prod.splits sum.splits)
qed

text \<open>A fresh \<open>Kind\<close> either signals the end of the list, fails otherwise, or has read a canonical tag.\<close>

lemma Kind_cases:
  assumes "stream_inv s" "st_kind s = None"
  obtains (eol) "at_eol s" "stream_Kind s = (Inl EOL, s\<lparr>st_kinderr := None\<rparr>)"
  | (err) e s1 where "\<not> at_eol s" "stream_Kind s = (Inl e, s1)" "e \<noteq> EOL"
  | (ok) k b n s1 where "stream_Kind s = (Inr (k, word_of_nat n), s1)" "peeked s k b n s1"
proof (cases "at_eol s")
  case True
  then have "(case st_stack s of [] \<Rightarrow> False | (pos, sz) # _ \<Rightarrow> pos = sz)" by (simp add: at_eol_def)
  then have "stream_Kind s = (Inl EOL, s\<lparr>st_kinderr := None\<rparr>)" using assms(2) by (simp add: stream_Kind_def Let_def)
  then show ?thesis using eol True by blast
next
  case False
  then have ne: "\<not> (case st_stack s of [] \<Rightarrow> False | (pos, sz) # _ \<Rightarrow> pos = sz)" by (simp add: at_eol_def)
  let ?s0 = "s\<lparr>st_kinderr := None\<rparr>"
  obtain k sz er s1 where rk: "stream_readKind ?s0 = ((k, sz, er), s1)"
    by (cases "stream_readKind ?s0") auto
  have i0: "stream_inv ?s0" using assms(1) by simp
  show ?thesis
  proof (cases er)
    case (Some e)
    then have "\<exists>s2. stream_Kind s = (Inl e, s2)" using ne assms(2) rk by (simp add: stream_Kind_def Let_def)
    then show ?thesis using err False readKind_not_EOL [OF i0] rk Some by blast
  next
    case None
    obtain b where b: "tag_ok k b (unat sz)" "length (tag_of k b (unat sz)) \<le> room s"
      "st_r s = tag_of k b (unat sz) @ drop (length (tag_of k b (unat sz))) (st_r s)"
      "core s1 = core (adv (length (tag_of k b (unat sz))) s)"
      using readKind_Inr [OF i0, of k sz s1] rk None by auto
    have i1: "stream_inv s1" "room s1 = room s - length (tag_of k b (unat sz))"
      using stream_inv_adv [OF assms(1) b(2)] stream_inv_core [OF b(4)] room_core [OF b(4)] by simp_all
    show ?thesis
    proof (cases "unat sz \<le> room s1")
      case True
      then have "length (tag_of k b (unat sz)) + unat sz \<le> room s" using i1(2) b(2) by linarith
      then show ?thesis using Kind_ok [OF assms b(1,3)] ok by blast
    next
      case F: False
      then obtain e where "(case st_stack s1 of
          [] \<Rightarrow> if st_limited s1 \<and> sz > st_remaining s1 then Some ErrValueTooLarge else None
        | (pos, lsz) # _ \<Rightarrow> if sz > lsz - pos then Some ErrElemTooLarge else None) = Some e" "e \<noteq> EOL"
        using size_check [OF i1(1) refl, of sz] by (auto split: list.splits if_splits)
      then have "\<exists>s2. stream_Kind s = (Inl e, s2)" using ne assms(2) rk None by (simp add: stream_Kind_def Let_def)
      then show ?thesis using err False \<open>e \<noteq> EOL\<close> by blast
    qed
  qed
qed

text \<open>The state after \<open>Kind\<close>: calling it again changes nothing.\<close>

lemma Kind_again: "stream_Kind s = (Inr r, s1) \<Longrightarrow> stream_Kind s1 = (Inr r, s1)"
  by (auto simp: stream_Kind_def Let_def split: option.splits prod.splits if_splits)

lemma peeked_inv:
  assumes "stream_inv s" "peeked s k b n s1"
  shows "stream_inv s1" "n \<le> room s1" "st_r s1 = drop (length (tag_of k b n)) (st_r s)" "unat (st_size s1) = n"
    "core (adv m s1) = core (adv (length (tag_of k b n) + m) s)"
    "core (s1\<lparr>st_kind := None\<rparr>) = core (adv (length (tag_of k b n)) s)"
proof -
  let ?l = "length (tag_of k b n)"
  have c: "core s1 = core ((adv ?l s)\<lparr>st_kind := Some k\<rparr>)" using assms(2) by (simp add: peeked_def)
  have le: "?l \<le> room s" using assms(2) by (simp add: peeked_def)
  have c': "core (s1\<lparr>st_kind := None\<rparr>) = core (adv ?l s)" using c by (simp add: core_def adv_def)
  then show "core (s1\<lparr>st_kind := None\<rparr>) = core (adv ?l s)" .
  have e: "stream_inv s1 = stream_inv (s1\<lparr>st_kind := None\<rparr>)" "room s1 = room (s1\<lparr>st_kind := None\<rparr>)"
    by (simp_all add: stream_inv_def room_def split: list.split)
  show "stream_inv s1" using stream_inv_adv(1) [OF assms(1) le] stream_inv_core [OF c'] e by simp
  show "n \<le> room s1" using stream_inv_adv(2) [OF assms(1) le] room_core [OF c'] e assms(2)
    unfolding peeked_def by linarith
  show "st_r s1 = drop ?l (st_r s)" using c by (simp add: core_def)
  show "unat (st_size s1) = n" using assms(2) by (cases k) (auto simp: peeked_def unat_of_nat)
  have "core (adv m s1) = core (adv m (s1\<lparr>st_kind := None\<rparr>))" by (simp add: core_def adv_def)
  also have "\<dots> = core (adv m (adv ?l s))" by (rule adv_core) (rule c')
  finally show "core (adv m s1) = core (adv (?l + m) s)" using core_adv_adv [of m ?l s] by simp
qed

section \<open>Exact decoders\<close>

text \<open>\<open>s'\<close> is the stream after the bytes \<open>e\<close>, which lie ahead of \<open>s\<close>, have been read.\<close>

definition reads :: "stream \<Rightarrow> bytes \<Rightarrow> stream \<Rightarrow> bool" where
  "reads s e s' \<longleftrightarrow> st_r s = e @ drop (length e) (st_r s) \<and> length e \<le> room s \<and> core s' = core (adv (length e) s)"

text \<open>
  The contract of a decoder for the values \<open>ok\<close> with the encoding \<open>enc\<close>: a value it returns was
  encoded ahead, a value encoded ahead is returned (if the fuel suffices for it), and the end of
  the list is signalled only there, with nothing read.
\<close>

locale decoder =
  fixes dec :: "'a sm" and ok :: "'a \<Rightarrow> bool" and fit :: "'a \<Rightarrow> bool" and enc :: "'a \<Rightarrow> bytes"
  assumes sound: "stream_inv s \<Longrightarrow> st_kind s = None \<Longrightarrow> dec s = (Inr x, s') \<Longrightarrow> ok x \<and> reads s (enc x) s'"
    and complete: "stream_inv s \<Longrightarrow> st_kind s = None \<Longrightarrow> ok x \<Longrightarrow> fit x \<Longrightarrow> st_r s = enc x @ rest \<Longrightarrow>
      length (enc x) \<le> room s \<Longrightarrow> \<exists>s'. dec s = (Inr x, s') \<and> core s' = core (adv (length (enc x)) s)"
    and eol: "stream_inv s \<Longrightarrow> st_kind s = None \<Longrightarrow> dec s = (Inl EOL, s') \<Longrightarrow> at_eol s \<and> core s' = core s"
begin

text \<open>Post-processing the value by a constructor.\<close>

lemma mapped:
  assumes "\<And>x. e (c x) = enc x"
  shows "decoder (s_bind dec (\<lambda>x. s_return (c x))) (\<lambda>y. \<exists>x. y = c x \<and> ok x) (\<lambda>y. \<forall>x. y = c x \<longrightarrow> fit x) e"
proof
  fix s s' y
  assume a: "stream_inv s" "st_kind s = None" "s_bind dec (\<lambda>x. s_return (c x)) s = (Inr y, s')"
  then obtain x where "dec s = (Inr x, s')" "y = c x"
    by (auto simp: s_bind_def s_return_def split: prod.splits sum.splits)
  with sound [OF a(1,2)] assms show "(\<exists>x. y = c x \<and> ok x) \<and> reads s (e y) s'" by auto
next
  fix s y rest
  assume a: "stream_inv s" "st_kind s = None" "\<exists>x. y = c x \<and> ok x" "\<forall>x. y = c x \<longrightarrow> fit x" "st_r s = e y @ rest"
    "length (e y) \<le> room s"
  then obtain x where "y = c x" "ok x" "fit x" by blast
  with complete [OF a(1,2), of x rest] a(5,6) assms
  show "\<exists>s'. s_bind dec (\<lambda>x. s_return (c x)) s = (Inr y, s') \<and> core s' = core (adv (length (e y)) s)"
    by (auto simp: s_bind_def s_return_def)
next
  fix s s'
  assume a: "stream_inv s" "st_kind s = None" "s_bind dec (\<lambda>x. s_return (c x)) s = (Inl EOL, s')"
  then have "dec s = (Inl EOL, s')" by (auto simp: s_bind_def s_return_def split: prod.splits sum.splits)
  with eol [OF a(1,2)] show "at_eol s \<and> core s' = core s" by blast
qed

end

lemma rlp_string_length: "length c \<le> length (rlp_string c)"
  by (simp add: rlp_string_def)

text \<open>A string ahead, as its kind is seen.\<close>

lemma string_ahead:
  assumes "stream_inv s" "st_kind s = None" "st_r s = rlp_string c @ rest" "length (rlp_string c) \<le> room s"
  obtains (byte) b s1 where "c = [b]" "b < 128" "stream_Kind s = (Inr (KByte, 0), s1)" "peeked s KByte b 0 s1"
  | (str) s1 where "\<not> (length c = 1 \<and> c ! 0 < 128)" "stream_Kind s = (Inr (KString, word_of_nat (length c)), s1)"
      "peeked s KString 0 (length c) s1" "take (length c) (st_r s1) = c" "length c < 2 ^ 64"
      "core (adv (length c) s1) = core (adv (length (rlp_string c)) s)"
proof (cases "length c = 1 \<and> c ! 0 < 128")
  case True
  then obtain b where b: "c = [b]" "b < 128" by (cases c) auto
  then have "rlp_string c = [b]" by (simp add: rlp_string_def)
  then show ?thesis using byte [OF b] Kind_ok [OF assms(1,2), of KByte b 0 rest] assms(3,4) b(2) by auto
next
  case False
  then have e: "rlp_string c = rlp_head 0x80 0xB7 (length c) @ c" by (auto simp: rlp_string_def)
  have l: "length c < 2 ^ 64"
    using rlp_string_length [of c] assms(4) room_le [OF assms(1)] length_r_less [OF assms(1)] by linarith
  obtain s1 where s1: "stream_Kind s = (Inr (KString, word_of_nat (length c)), s1)" "peeked s KString 0 (length c) s1"
    using Kind_ok [OF assms(1,2), of KString 0 "length c" "c @ rest"] assms(3,4) l e by auto
  note p = peeked_inv [OF assms(1) s1(2)]
  show ?thesis using str [OF False s1] p(3) p(5) [of "length c"] assms(3) e l by simp
qed

lemma peeked_string:
  assumes "stream_inv s" "peeked s KString b n s1" "c = take n (st_r s1)" "\<not> (n = 1 \<and> c ! 0 < 128)"
  shows "length c = n" "reads s (rlp_string c) (adv n s1)"
proof -
  note p = peeked_inv [OF assms(1,2)]
  show l: "length c = n" using take_room_less [OF p(1,2)] assms(3) by simp
  have e: "rlp_string c = rlp_head 0x80 0xB7 n @ c" using assms(4) l by (auto simp: rlp_string_def)
  have r: "st_r s = rlp_head 0x80 0xB7 n @ st_r s1" "length (rlp_head 0x80 0xB7 n) + n \<le> room s"
    using assms(2) p(3) by (auto simp: peeked_def)
  have "st_r s1 = c @ drop n (st_r s1)" using assms(3) by simp
  then have "st_r s = rlp_string c @ drop (length (rlp_string c)) (st_r s)"
    using r(1) e by (metis append.assoc append_eq_conv_conj)
  then show "reads s (rlp_string c) (adv n s1)" using r(2) e l p(5) [of n] by (simp add: reads_def)
qed

lemma peeked_byte:
  assumes "stream_inv s" "peeked s KByte b n s1"
  shows "b < 128" "n = 0" "st_byteval s1 = b" "rlp_string [b] = [b]" "reads s [b] (s1\<lparr>st_kind := None\<rparr>)"
proof -
  have p: "b < 128 \<and> n = 0" "st_r s = [b] @ drop 1 (st_r s)" "1 \<le> room s" "st_byteval s1 = b"
    using assms(2) by (auto simp: peeked_def)
  then show "b < 128" "n = 0" "st_byteval s1 = b" "rlp_string [b] = [b]"
    by (simp_all add: rlp_string_def)
  show "reads s [b] (s1\<lparr>st_kind := None\<rparr>)"
    using p peeked_inv(6) [OF assms] by (simp add: reads_def)
qed

text \<open>Every operation that starts with \<open>Kind\<close> inherits its end-of-list signal.\<close>

lemma Kind_bind_EOL:
  assumes "stream_inv s" "st_kind s = None" "s_bind stream_Kind f s = (Inl EOL, s')"
    "\<And>k b n s1. peeked s k b n s1 \<Longrightarrow> stream_Kind s = (Inr (k, word_of_nat n), s1) \<Longrightarrow> fst (f (k, word_of_nat n) s1) \<noteq> Inl EOL"
  shows "at_eol s \<and> core s' = core s"
proof (cases rule: Kind_cases [OF assms(1,2)])
  case 1
  then show ?thesis using assms(3) by (auto simp: s_bind_def)
next
  case (2 e s1)
  then show ?thesis using assms(3) by (simp add: s_bind_def)
next
  case (3 k b n s1)
  then show ?thesis using assms(3) assms(4) [OF 3(2,1)] by (simp add: s_bind_def)
qed

lemma Kind_bind_Inr:
  assumes "stream_inv s" "st_kind s = None" "s_bind stream_Kind f s = (Inr x, s')"
  obtains k b n s1 where "stream_Kind s = (Inr (k, word_of_nat n), s1)" "peeked s k b n s1" "f (k, word_of_nat n) s1 = (Inr x, s')"
proof (cases rule: Kind_cases [OF assms(1,2)])
  case (3 k b n s1)
  then show ?thesis using assms(3) that [OF 3] by (simp add: s_bind_def)
qed (use assms(3) in \<open>auto simp: s_bind_def\<close>)

lemma unat_size: "peeked s k b n s1 \<Longrightarrow> unat (word_of_nat n :: u64) = n"
  by (cases k) (auto simp: peeked_def unat_of_nat)

interpretation bytes_dec: decoder stream_Bytes "\<lambda>_. True" "\<lambda>_. True" rlp_string
proof
  fix s s' c
  assume a: "stream_inv s" "st_kind s = None" "stream_Bytes s = (Inr c, s')"
  obtain k b n s1 where K: "stream_Kind s = (Inr (k, word_of_nat n), s1)" and k: "peeked s k b n s1"
    by (rule Kind_bind_Inr [OF a(1,2) a(3) [unfolded stream_Bytes_def]])
  note f = a(3) [unfolded stream_Bytes_def s_bind_def [of stream_Kind] K, simplified, unfolded unat_size [OF k]]
  note p = peeked_inv [OF a(1) k]
  show "True \<and> reads s (rlp_string c) s'"
  proof (cases k)
    case KByte
    then show ?thesis using f peeked_byte [OF a(1), of b n s1] k by auto
  next
    case KString
    have "\<not> (n = 1 \<and> c ! 0 < 128)" "c = take n (st_r s1)" "s' = adv n s1"
      using f KString readFull_ok [OF p(1,2)] by (auto simp: s_bind_def s_return_def s_fail_def split: if_splits)
    then show ?thesis using peeked_string [OF a(1), of b n s1 c] k KString by simp
  next
    case KList
    then show ?thesis using f by simp
  qed
next
  fix s c rest
  assume a: "stream_inv s" "st_kind s = None" "st_r s = rlp_string c @ rest" "length (rlp_string c) \<le> room s"
  show "\<exists>s'. stream_Bytes s = (Inr c, s') \<and> core s' = core (adv (length (rlp_string c)) s)"
  proof (cases rule: string_ahead [OF a])
    case (1 b s1)
    then show ?thesis using peeked_byte [OF a(1) 1(4)] by (simp add: stream_Bytes_def s_bind_def reads_def)
  next
    case (2 s1)
    note p = peeked_inv [OF a(1) 2(3)]
    have "\<not> (word_of_nat (length c) = (1 :: u64) \<and> c ! 0 < 128)"
      using 2(1,5) unat_size [OF 2(3)] by (metis unat_1)
    then have "stream_Bytes s = (Inr c, adv (length c) s1)"
      using 2 readFull_ok [OF p(1,2)] unat_size [OF 2(3)] by (auto simp: stream_Bytes_def s_bind_def s_return_def)
    then show ?thesis using 2(6) by simp
  qed
next
  fix s s'
  assume a: "stream_inv s" "st_kind s = None" "stream_Bytes s = (Inl EOL, s')"
  show "at_eol s \<and> core s' = core s"
  proof (rule Kind_bind_EOL [OF a(1,2) a(3) [unfolded stream_Bytes_def]])
    fix k b n s1
    assume k: "peeked s k b n s1"
    note p = peeked_inv [OF a(1) k]
    show "fst ((case (k, word_of_nat n) of (k, sz) \<Rightarrow> \<lambda>s. (case k of
        KByte \<Rightarrow> (Inr [st_byteval s], s\<lparr>st_kind := None\<rparr>)
      | KString \<Rightarrow> s_bind (readFull (unat sz)) (\<lambda>b.
          if sz = (1 :: u64) \<and> b ! 0 < 128 then s_fail ErrCanonSize else s_return b) s
      | KList \<Rightarrow> (Inl ErrExpectedString, s))) s1) \<noteq> Inl EOL"
      using readFull_ok [OF p(1,2)]
      by (cases k) (simp_all add: unat_size [OF k] s_bind_def s_fail_def s_return_def)
  qed
qed

end
