(* ===== verification/RLP_Decoders.thy ===== *)
theory RLP_Decoders
  imports RLP_Stream
begin

text \<open>
  The readers of \<^verbatim>\<open>pkg/rlp/decode.go\<close> for integers, booleans and lists, on the stream of
  \<open>RLP_Stream\<close>: \<open>uint\<close> and \<open>Bool\<close> are exact decoders, and \<open>List\<close> followed by the content and
  \<open>ListEnd\<close> reads exactly a canonical list.
\<close>

section \<open>Integers\<close>

lemma length_be_min_le: "length (be_min v) \<le> m \<longleftrightarrow> v < 256 ^ m"
proof
  assume "length (be_min v) \<le> m"
  then have "(256 :: nat) ^ length (be_min v) \<le> 256 ^ m" by (intro power_increasing) simp_all
  then show "v < 256 ^ m" using be_val_less [of "be_min v"] unfolding be_val_be_min by linarith
next
  show "v < 256 ^ m \<Longrightarrow> length (be_min v) \<le> m"
  proof (induction m arbitrary: v)
    case (Suc m)
    then have "v div 256 < 256 ^ m" by (simp add: less_mult_imp_div_less mult.commute)
    then show ?case using Suc.IH by (cases "v = 0") (simp_all add: be_min.simps [of v])
  qed simp
qed

lemma readUint_full:
  assumes "stream_inv s" "1 \<le> n" "n \<le> 8" "n \<le> room s" "bs = take n (st_r s)"
  shows "readUint (word_of_nat n) s =
    (if 1 < n \<and> bs ! 0 = 0 then Inl ErrCanonSize else Inr (word_of_nat (be_val bs)), adv n s)"
proof (cases "n = 1")
  case True
  then have "1 \<le> room s" using assms(4) by simp
  note b = readByte_ok [OF assms(1) this]
  then have "bs = [hd (st_r s)]" using assms(5) True by (cases "st_r s") auto
  then show ?thesis using b(1) True by (simp add: readUint_def s_bind_def s_return_def)
next
  case False
  have u: "unat (word_of_nat n :: byte) = n" using assms(3) by (simp add: unat_of_nat)
  then have "(word_of_nat n :: byte) \<noteq> 0" "(word_of_nat n :: byte) \<noteq> 1" using False assms(2) by fastforce+
  then show ?thesis using readFull_ok [OF assms(1,4)] u assms(2,5) False
    by (simp add: readUint_def s_bind_def s_return_def s_fail_def)
qed

lemma ucast_of_nat_byte: "(ucast (word_of_nat n :: u64) :: byte) = word_of_nat n"
  by transfer (simp add: take_bit_of_nat [symmetric])

text \<open>The body of \<open>uint\<close> once the tag of a string is known.\<close>

lemma uint_string:
  assumes "stream_inv s" "stream_Kind s = (Inr (KString, word_of_nat n), s1)" "peeked s KString b n s1"
    "1 \<le> m" "m \<le> 8" "bs = take n (st_r s1)"
  shows "stream_uint (8 * m) s =
    (if m < n then (Inl ErrUintOverflow, s1)
     else if n = 0 then (Inr 0, s1\<lparr>st_kind := None\<rparr>)
     else if 1 < n \<and> bs ! 0 = 0 then (Inl ErrCanonInt, adv n s1)
     else if be_val bs < 128 then (Inl ErrCanonSize, adv n s1)
     else (Inr (word_of_nat (be_val bs)), adv n s1))"
proof -
  note p = peeked_inv [OF assms(1,3)]
  have n64: "n < 2 ^ 64" using assms(3) by (simp add: peeked_def)
  have un: "unat (word_of_nat n :: u64) = n" by (rule unat_size [OF assms(3)])
  have gt: "(word_of_nat m :: u64) < word_of_nat n \<longleftrightarrow> m < n"
    using un assms(5) by (simp add: word_less_nat_alt unat_of_nat)
  have pos: "(0 :: u64) < word_of_nat n \<longleftrightarrow> 0 < n" using un by (simp add: word_less_nat_alt)
  show ?thesis
  proof (cases "n = 0 \<or> m < n")
    case True
    then show ?thesis using assms(2) gt pos
      by (auto simp: stream_uint_def s_bind_def readUint_def)
  next
    case False
    then have n: "1 \<le> n" "n \<le> 8" using assms(5) by simp_all
    have "length bs \<le> 8" using take_room_less [OF p(1,2)] assms(6) n(2) by simp
    then have v: "(word_of_nat (be_val bs) :: u64) < 128 \<longleftrightarrow> be_val bs < 128"
      using be_val_bound [of bs] by (simp add: word_less_nat_alt unat_of_nat)
    show ?thesis
      using False n(1) assms(2) gt pos v readUint_full [OF p(1) n p(2) assms(6)] ucast_of_nat_byte [of n]
      by (auto simp: stream_uint_def s_bind_def)
  qed
qed

lemma uint_byte:
  assumes "stream_Kind s = (Inr (KByte, word_of_nat n), s1)"
  shows "stream_uint bits s =
    (if st_byteval s1 = 0 then (Inl ErrCanonInt, s1) else (Inr (ucast (st_byteval s1)), s1\<lparr>st_kind := None\<rparr>))"
  using assms by (simp add: stream_uint_def s_bind_def)

lemma be_min_byte: "b \<noteq> 0 \<Longrightarrow> be_min (unat (b :: byte)) = [b]"
  using be_min_unique [of "[b]"] by simp

lemma uint_decoder:
  assumes "1 \<le> m" "m \<le> 8"
  shows "decoder (stream_uint (8 * m)) (\<lambda>v. unat v < 256 ^ m) (\<lambda>_. True) (\<lambda>v. rlp_string (be_min (unat v)))"
proof
  fix s s' v
  assume a: "stream_inv s" "st_kind s = None" "stream_uint (8 * m) s = (Inr v, s')"
  obtain k b n s1 where K: "stream_Kind s = (Inr (k, word_of_nat n), s1)" and k: "peeked s k b n s1"
    by (rule Kind_bind_Inr [OF a(1,2) a(3) [unfolded stream_uint_def]])
  note p = peeked_inv [OF a(1) k]
  show "unat v < 256 ^ m \<and> reads s (rlp_string (be_min (unat v))) s'"
  proof (cases k)
    case KByte
    note pb = peeked_byte [OF a(1) k [unfolded KByte]]
    have v: "b \<noteq> 0" "v = ucast b" "s' = s1\<lparr>st_kind := None\<rparr>"
      using a(3) uint_byte [of s n s1] K KByte pb(3) by (auto split: if_splits)
    have "(256 :: nat) ^ 1 \<le> 256 ^ m" using assms(1) by (intro power_increasing) simp_all
    then show ?thesis using pb v be_min_byte [of b] unat_byte_less [of b] by simp
  next
    case KString
    let ?bs = "take n (st_r s1)"
    note us = uint_string [OF a(1) K [unfolded KString] k [unfolded KString] assms refl]
    have mn: "\<not> m < n" using a(3) us by (auto split: if_splits)
    have len: "length ?bs = n" using take_room_less [OF p(1,2)] by simp
    show ?thesis
    proof (cases "n = 0")
      case True
      then have "v = 0" "s' = s1\<lparr>st_kind := None\<rparr>" using a(3) us mn by simp_all
      moreover have "reads s (rlp_string []) (adv 0 s1)"
        using peeked_string(2) [OF a(1) k [unfolded KString], of "[]"] True by simp
      moreover have "core (s1\<lparr>st_kind := None\<rparr>) = core (adv 0 s1)" using p(5) [of 0] p(6) by simp
      ultimately show ?thesis by (simp add: reads_def)
    next
      case False
      then have v: "\<not> (1 < n \<and> ?bs ! 0 = 0)" "128 \<le> be_val ?bs" "v = word_of_nat (be_val ?bs)" "s' = adv n s1"
        using a(3) us mn by (auto split: if_splits)
      have u: "unat v = be_val ?bs"
        using v(3) be_val_bound [of ?bs] len mn assms(2) by (simp add: unat_of_nat)
      obtain x xs where x: "?bs = x # xs" using len False by (cases ?bs) auto
      have "hd ?bs \<noteq> 0"
      proof (cases "n = 1")
        case True
        then have "?bs = [x]" using x len by simp
        then show ?thesis using v(2) by auto
      qed (use v(1) x len False in auto)
      then have bm: "be_min (unat v) = ?bs" using u be_min_unique [of ?bs] by simp
      have "\<not> (n = 1 \<and> ?bs ! 0 < 128)"
        using v(2) x len by (auto simp: word_less_nat_alt)
      then have "reads s (rlp_string ?bs) s'"
        using peeked_string(2) [OF a(1) k [unfolded KString] refl] v(4) by simp
      moreover have "unat v < 256 ^ m" using length_be_min_le [of "unat v" m] bm len mn by simp
      ultimately show ?thesis using bm by simp
    qed
  next
    case KList
    then show ?thesis using a(3) K by (simp add: stream_uint_def s_bind_def)
  qed
next
  fix s rest and v :: u64
  assume a: "stream_inv s" "st_kind s = None" "unat v < 256 ^ m" "st_r s = rlp_string (be_min (unat v)) @ rest"
    "length (rlp_string (be_min (unat v))) \<le> room s"
  show "\<exists>s'. stream_uint (8 * m) s = (Inr v, s') \<and> core s' = core (adv (length (rlp_string (be_min (unat v)))) s)"
  proof (cases rule: string_ahead [OF a(1,2,4,5)])
    case (1 b s1)
    then have "unat v = unat b" using be_val_be_min [of "unat v"] by simp
    then have "(word_of_nat (unat v) :: u64) = word_of_nat (unat b)" by simp
    then have "v = ucast b" by simp
    moreover have "b \<noteq> 0" using 1(1) hd_be_min [of "unat v"] by (cases "unat v = 0") auto
    ultimately show ?thesis
      using uint_byte [of s 0 s1] 1(1,3) peeked_byte [OF a(1) 1(4)] by (simp add: reads_def)
  next
    case (2 s1)
    let ?c = "be_min (unat v)"
    have le: "length ?c \<le> m" using length_be_min_le a(3) by blast
    have v: "word_of_nat (be_val ?c) = v" by simp
    have ne: "?c ! 0 \<noteq> 0" if "v \<noteq> 0" using hd_be_min [of "unat v"] that by (simp add: hd_conv_nth unat_gt_0)
    have "128 \<le> unat v" if "v \<noteq> 0"
    proof (rule ccontr)
      assume l: "\<not> ?thesis"
      then have "be_min (unat v) = [word_of_nat (unat v)]" using that by (simp add: be_min.simps [of "unat v"] unat_gt_0)
      then obtain x where x: "be_min (unat v) = [x]" by blast
      then have "unat x = unat v" using be_val_be_min [of "unat v"] by simp
      then show False using 2(1) l x by (simp add: word_less_nat_alt)
    qed
    note us = uint_string [OF a(1) 2(2,3) assms 2(4) [symmetric]]
    show ?thesis
    proof (cases "v = 0")
      case True
      have "core (s1\<lparr>st_kind := None\<rparr>) = core (adv 0 s1)"
        using peeked_inv(5) [OF a(1) 2(3), of 0] peeked_inv(6) [OF a(1) 2(3)] by simp
      then show ?thesis using us True 2(6) by simp
    next
      case False
      then show ?thesis using us le ne \<open>v \<noteq> 0 \<Longrightarrow> 128 \<le> unat v\<close> v 2(6) by simp
    qed
  qed
next
  fix s s'
  assume a: "stream_inv s" "st_kind s = None" "stream_uint (8 * m) s = (Inl EOL, s')"
  show "at_eol s \<and> core s' = core s"
  proof (cases rule: Kind_cases [OF a(1,2)])
    case 1
    then show ?thesis using a(3) by (auto simp: stream_uint_def s_bind_def)
  next
    case (2 e s1)
    then show ?thesis using a(3) by (simp add: stream_uint_def s_bind_def)
  next
    case (3 k b n s1)
    then show ?thesis
      using a(3) uint_byte [of s n s1] uint_string [OF a(1) _ _ assms refl, of n s1 b]
      by (cases k) (auto simp: stream_uint_def s_bind_def split: if_splits)
  qed
qed


interpretation uint_dec: decoder stream_Uint "\<lambda>_. True" "\<lambda>_. True" "\<lambda>v. rlp_string (be_min (unat v))"
proof -
  have "unat v < 256 ^ 8" for v :: u64 using unat_u64_less [of v] by simp
  then show "decoder stream_Uint (\<lambda>_. True) (\<lambda>_. True) (\<lambda>v. rlp_string (be_min (unat v)))"
    using uint_decoder [of 8] by (simp add: stream_Uint_def)
qed

lemma bool_decoder: "decoder stream_Bool (\<lambda>_. True) (\<lambda>_. True) (\<lambda>v. rlp_string (be_min (if v then 1 else 0)))"
proof -
  have u: "decoder (stream_uint 8) (\<lambda>v. unat v < 256) (\<lambda>_. True) (\<lambda>v. rlp_string (be_min (unat v)))"
    using uint_decoder [of 1] by simp
  show ?thesis
  proof
    fix s s' v
    assume a: "stream_inv s" "st_kind s = None" "stream_Bool s = (Inr v, s')"
    then obtain n where "stream_uint 8 s = (Inr n, s')" "n = (if v then 1 else 0)"
      by (auto simp: stream_Bool_def s_bind_def s_return_def s_fail_def split: prod.splits sum.splits if_splits)
    then show "True \<and> reads s (rlp_string (be_min (if v then 1 else 0))) s'"
      using decoder.sound [OF u a(1,2)] by (fastforce split: if_splits)
  next
    fix s v rest
    assume a: "stream_inv s" "st_kind s = None" "st_r s = rlp_string (be_min (if v then 1 else 0)) @ rest"
      "length (rlp_string (be_min (if v then 1 else 0))) \<le> room s"
    let ?n = "if v then 1 else 0 :: u64"
    have "unat ?n = (if v then 1 else 0)" by simp
    then obtain s' where "stream_uint 8 s = (Inr ?n, s')"
      "core s' = core (adv (length (rlp_string (be_min (if v then 1 else 0)))) s)"
      using decoder.complete [OF u a(1,2), of ?n rest] a(3,4) by (cases v) auto
    then show "\<exists>s'. stream_Bool s = (Inr v, s') \<and> core s' = core (adv (length (rlp_string (be_min (if v then 1 else 0)))) s)"
      by (auto simp: stream_Bool_def s_bind_def s_return_def split: if_splits)
  next
    fix s s'
    assume a: "stream_inv s" "st_kind s = None" "stream_Bool s = (Inl EOL, s')"
    then have "stream_uint 8 s = (Inl EOL, s')"
      by (auto simp: stream_Bool_def s_bind_def s_return_def s_fail_def split: prod.splits sum.splits if_splits)
    then show "at_eol s \<and> core s' = core s" using decoder.eol [OF u a(1,2)] by blast
  qed
qed

interpretation bool_dec: decoder stream_Bool "\<lambda>_. True" "\<lambda>_. True" "\<lambda>v. rlp_string (be_min (if v then 1 else 0))"
  by (rule bool_decoder)

section \<open>Lists\<close>

text \<open>The stream after \<open>List\<close> has entered a list with \<open>n\<close> bytes of content.\<close>

definition opened :: "stream \<Rightarrow> nat \<Rightarrow> stream \<Rightarrow> bool" where
  "opened s n s' \<longleftrightarrow> (let h = rlp_head 0xC0 0xF7 n in
     n < 2 ^ 64 \<and> length h + n \<le> room s \<and> st_r s = h @ drop (length h) (st_r s) \<and> \<not> at_eol s
     \<and> core s' = core ((adv (length h) s)\<lparr>st_stack := (0, word_of_nat n) # st_stack (adv (length h) s)\<rparr>))"

lemma List_Inr:
  assumes "stream_inv s" "st_kind s = None" "stream_List s = (Inr sz, s')"
  shows "opened s (unat sz) s'"
proof -
  obtain k b n s1 where K: "stream_Kind s = (Inr (k, word_of_nat n), s1)" and k: "peeked s k b n s1"
    by (rule Kind_bind_Inr [OF assms(1,2) assms(3) [unfolded stream_List_def]])
  have r: "k = KList" "sz = word_of_nat n" "s' = s1\<lparr>st_stack := (0, sz) # st_stack s1, st_kind := None, st_size := 0\<rparr>"
    using assms(3) K by (auto simp: stream_List_def s_bind_def split: if_splits)
  then have "unat sz = n" using unat_size [OF k] by simp
  then show ?thesis using k r by (auto simp: opened_def peeked_def core_def Let_def)
qed

lemma List_ok:
  assumes "stream_inv s" "st_kind s = None" "st_r s = rlp_list c @ rest" "length (rlp_list c) \<le> room s"
  shows "\<exists>s'. stream_List s = (Inr (word_of_nat (length c)), s') \<and> opened s (length c) s'"
proof -
  have l: "length c < 2 ^ 64"
    using assms(4) room_le [OF assms(1)] length_r_less [OF assms(1)] by (simp add: rlp_list_def)
  obtain s1 where K: "stream_Kind s = (Inr (KList, word_of_nat (length c)), s1)" "peeked s KList 0 (length c) s1"
    using Kind_ok [OF assms(1,2), of KList 0 "length c" "c @ rest"] assms(3,4) l by (auto simp: rlp_list_def)
  let ?s' = "s1\<lparr>st_stack := (0, word_of_nat (length c)) # st_stack s1, st_kind := None, st_size := 0\<rparr>"
  have "stream_List s = (Inr (word_of_nat (length c)), ?s')" using K(1) by (simp add: stream_List_def s_bind_def)
  then show ?thesis
    using List_Inr [OF assms(1,2)] unat_of_nat_le [OF assms(1), of "length c"] l by (fastforce simp: unat_of_nat)
qed

lemma List_EOL:
  assumes "stream_inv s" "st_kind s = None" "stream_List s = (Inl EOL, s')"
  shows "at_eol s \<and> core s' = core s"
  by (rule Kind_bind_EOL [OF assms(1,2) assms(3) [unfolded stream_List_def]]) auto

lemma opened_inv:
  assumes "stream_inv s" "opened s n s'"
  shows "stream_inv s'" "room s' = n" "st_kind s' = None" "st_stack s' \<noteq> []"
    "st_r s' = drop (length (rlp_head 0xC0 0xF7 n)) (st_r s)"
proof -
  let ?l = "length (rlp_head 0xC0 0xF7 n)"
  let ?a = "adv ?l s"
  have o: "n < 2 ^ 64" "?l + n \<le> room s" "core s' = core (?a\<lparr>st_stack := (0, word_of_nat n) # st_stack ?a\<rparr>)"
    using assms(2) by (auto simp: opened_def Let_def)
  then have l: "?l \<le> room s" by simp
  note ia = stream_inv_adv [OF assms(1) l]
  have u: "unat (word_of_nat n :: u64) = n" using o(1) by (simp add: unat_of_nat)
  have n: "n \<le> room ?a" using ia(2) o(2) by simp
  have "stack_ok (length (st_r ?a)) ((0, word_of_nat n) # st_stack ?a)"
  proof (cases "st_stack ?a")
    case Nil
    then show ?thesis using u n by (simp add: room_def)
  next
    case (Cons e rest)
    obtain pos sz where e: "e = (pos, sz)" by (cases e)
    have st: "stack_ok (length (st_r ?a)) ((pos, sz) # rest)" using ia(1) Cons e by (simp add: stream_inv_def)
    have ns: "n \<le> unat sz - unat pos" using n Cons e by (simp add: room_def)
    have "unat pos + n \<le> unat sz" using stack_ok_room [OF st] ns by linarith
    moreover have "stack_ok (length (st_r ?a) - n) ((pos + word_of_nat n, sz) # rest)"
      by (rule stack_ok_bump [OF st ns])
    moreover have "n \<le> length (st_r ?a)" using n room_le [OF ia(1)] by linarith
    ultimately show ?thesis using Cons e u by simp
  qed
  then show "stream_inv s'" using o(3) ia(1) stream_inv_core [OF o(3)] by (simp add: stream_inv_def)
  show "room s' = n" using room_core [OF o(3)] u by (simp add: room_def)
  show "st_kind s' = None" "st_stack s' \<noteq> []" "st_r s' = drop ?l (st_r s)" using o(3) by (simp_all add: core_def)
qed

lemma ListEnd_core:
  assumes "stream_inv s" "opened s n s'" "core s2 = core (adv m s')" "m \<le> n"
  shows "stream_ListEnd s2 = (if m = n then (Inr (), s2\<lparr>st_stack := bump n (st_stack (adv (length (rlp_head 0xC0 0xF7 n)) s)),
      st_kind := None, st_size := 0\<rparr>) else (Inl ErrNotAtEOL, s2))"
proof -
  let ?a = "adv (length (rlp_head 0xC0 0xF7 n)) s"
  have o: "n < 2 ^ 64" "core s' = core (?a\<lparr>st_stack := (0, word_of_nat n) # st_stack ?a\<rparr>)"
    using assms(2) by (auto simp: opened_def Let_def)
  have "st_stack s2 = (word_of_nat m, word_of_nat n) # st_stack ?a" using assms(3) o(2) by (simp add: core_def)
  moreover have "(word_of_nat m :: u64) = word_of_nat n \<longleftrightarrow> m = n"
    using assms(4) o(1) by (auto simp: word_of_nat_eq_iff take_bit_nat_eq_self)
  ultimately show ?thesis
    by (cases "st_stack ?a") (auto simp: stream_ListEnd_def)
qed

lemma ListEnd_ok:
  assumes "stream_inv s" "opened s n s'" "core s2 = core (adv n s')"
  shows "\<exists>s3. stream_ListEnd s2 = (Inr (), s3) \<and> core s3 = core (adv (length (rlp_head 0xC0 0xF7 n) + n) s)"
proof -
  let ?l = "length (rlp_head 0xC0 0xF7 n)"
  let ?a = "adv ?l s"
  have o: "core s' = core (?a\<lparr>st_stack := (0, word_of_nat n) # st_stack ?a\<rparr>)"
    using assms(2) by (auto simp: opened_def Let_def)
  have "core (s2\<lparr>st_stack := bump n (st_stack ?a), st_kind := None, st_size := 0\<rparr>) = core (adv n ?a)"
    using assms(3) o by (simp add: core_def adv_def)
  then show ?thesis using ListEnd_core [OF assms(1,2,3)] core_adv_adv [of n ?l s] by simp
qed

lemma opened_reads:
  assumes "stream_inv s" "opened s (length c) s'" "st_r s' = c @ drop (length c) (st_r s')"
    "core s3 = core (adv (length (rlp_head 0xC0 0xF7 (length c)) + length c) s)"
  shows "reads s (rlp_list c) s3"
proof -
  let ?h = "rlp_head 0xC0 0xF7 (length c)"
  have o: "length ?h + length c \<le> room s" "st_r s = ?h @ drop (length ?h) (st_r s)"
    using assms(2) by (auto simp: opened_def Let_def)
  have "st_r s = ?h @ st_r s'" using o(2) opened_inv(5) [OF assms(1,2)] by simp
  also have "\<dots> = rlp_list c @ drop (length c) (st_r s')" using assms(3) by (simp add: rlp_list_def)
  finally have "st_r s = rlp_list c @ drop (length (rlp_list c)) (st_r s)" by (metis append_eq_conv_conj)
  then show ?thesis using o(1) assms(4) by (simp add: reads_def rlp_list_def)
qed

lemma at_eol_iff: "stream_inv s \<Longrightarrow> st_stack s \<noteq> [] \<Longrightarrow> at_eol s \<longleftrightarrow> room s = 0"
  using stack_ok_room [of "length (st_r s)"]
  by (fastforce simp: at_eol_def room_def stream_inv_def word_unat_eq_iff split: list.splits)

lemma reads_refl: "st_kind s = None \<Longrightarrow> core s' = core s \<Longrightarrow> reads s [] s'"
  by (cases "st_stack s"; cases "hd (st_stack s)") (auto simp: reads_def core_def adv_def)

lemma reads_inv:
  assumes "stream_inv s" "reads s e s'"
  shows "stream_inv s'" "st_kind s' = None" "room s' = room s - length e" "st_r s' = drop (length e) (st_r s)"
    "st_stack s' = bump (length e) (st_stack s)"
  using assms stream_inv_adv [OF assms(1), of "length e"] stream_inv_core [of s' "adv (length e) s"]
    room_core [of s' "adv (length e) s"]
  by (auto simp: reads_def core_def)

lemma reads_trans:
  assumes "stream_inv s" "reads s e s1" "reads s1 f s2"
  shows "reads s (e @ f) s2"
proof -
  note r = reads_inv [OF assms(1,2)]
  have "st_r s = e @ f @ drop (length f) (st_r s1)" using assms(2,3) r(4) by (auto simp: reads_def)
  then have "st_r s = (e @ f) @ drop (length (e @ f)) (st_r s)" by (metis append.assoc append_eq_conv_conj)
  moreover have "core s2 = core (adv (length f) (adv (length e) s))"
    using assms(2,3) adv_core [of s1 "adv (length e) s" "length f"] by (simp add: reads_def)
  moreover have "length (e @ f) \<le> room s" using assms(2,3) r(3) unfolding reads_def length_append by linarith
  ultimately show ?thesis by (simp add: reads_def core_adv_adv)
qed

lemma reads_ahead:
  assumes "st_r s = e @ rest" "length e \<le> room s" "core s' = core (adv (length e) s)"
  shows "reads s e s'"
  using assms by (simp add: reads_def)

end
