(* ===== verification/RLP_Typed.thy ===== *)
theory RLP_Typed
  imports RLP_Decoders
begin

text \<open>
  Typed decoding, \<^verbatim>\<open>pkg/rlp/decode.go\<close>. Types are described by the datatype \<open>rlp_type\<close> in place of
  Go's reflection; the text that \<open>wrapStreamError\<close> and \<open>addErrorContext\<close> add to errors is dropped.
  The loops run on fuel. Shown: decoding inverts encoding for every type, only canonical encodings
  are accepted, and a type on which decoding does not end.
\<close>

section \<open>Typed decoding\<close>

text \<open>
  The types the decoders of \<open>makeDecoder\<close> handle. \<open>TOptPtr\<close> is a pointer field with the tag "nil",
  \<open>TTail\<close> a last slice field with the tag "tail"; \<open>TBytes\<close> is also Go's string.
\<close>

datatype rlp_type =
    TRaw
  | TUint nat
  | TBool
  | TBytes
  | TByteArray nat
  | TBigInt
  | TSlice rlp_type
  | TTail rlp_type
  | TArray nat rlp_type
  | TStruct "rlp_type list"
  | TPtr rlp_type
  | TOptPtr rlp_type
  | TInterface

datatype dval =
    DRaw bytes
  | DUint u64
  | DBool bool
  | DBytes bytes
  | DBig int
  | DList "dval list"
  | DNil

definition decodeBigInt :: "dval sm" where
  "decodeBigInt = s_bind stream_Bytes (\<lambda>b.
     if length b > 0 \<and> b ! 0 = 0 then s_fail ErrCanonInt else s_return (DBig (int (be_val b))))"

definition decodeByteArray :: "nat \<Rightarrow> dval sm" where
  "decodeByteArray vlen = s_bind stream_Kind (\<lambda>(k, sz) s.
     (case k of
        KByte \<Rightarrow>
          if vlen = 0 then (Inl ErrInputTooLong, s)
          else if vlen > 1 then (Inl ErrInputTooShort, s)
          else (case stream_Uint s of
              (Inl e, s') \<Rightarrow> (Inr (DBytes [0]), s')
            | (Inr bv, s') \<Rightarrow> (Inr (DBytes [ucast bv]), s'))
      | KString \<Rightarrow>
          if word_of_nat vlen < sz then (Inl ErrInputTooLong, s)
          else if word_of_nat vlen > sz then (Inl ErrInputTooShort, s)
          else s_bind (readFull vlen) (\<lambda>slice.
            if sz = 1 \<and> slice ! 0 < 128 then s_fail ErrCanonSize else s_return (DBytes slice)) s
      | KList \<Rightarrow> (Inl ErrExpectedString, s)))"

definition decodeRawValue :: "dval sm" where
  "decodeRawValue = s_bind stream_Raw (\<lambda>r. s_return (DRaw r))"

definition decodeUint :: "nat \<Rightarrow> dval sm" where
  "decodeUint bits = s_bind (stream_uint bits) (\<lambda>n. s_return (DUint n))"

definition decodeBool :: "dval sm" where
  "decodeBool = s_bind stream_Bool (\<lambda>b. s_return (DBool b))"

definition decodeByteSlice :: "dval sm" where
  "decodeByteSlice = s_bind stream_Bytes (\<lambda>b. s_return (DBytes b))"

text \<open>The decoders of composite types take the decoder of what is inside.\<close>

definition decodeListSlice :: "dval list sm \<Rightarrow> dval sm" where
  "decodeListSlice elems = s_bind stream_List (\<lambda>sz.
     if sz = 0 then s_bind stream_ListEnd (\<lambda>_. s_return (DList []))
     else s_bind elems (\<lambda>vs. s_bind stream_ListEnd (\<lambda>_. s_return (DList vs))))"

definition decodeListArray :: "nat \<Rightarrow> dval list sm \<Rightarrow> dval sm" where
  "decodeListArray n elems = s_bind stream_List (\<lambda>_. s_bind elems (\<lambda>vs.
     if length vs < n then s_fail ErrTooFewElements
     else s_bind stream_ListEnd (\<lambda>_. s_return (DList vs))))"

definition structDecoder :: "dval list sm \<Rightarrow> dval sm" where
  "structDecoder flds = s_bind stream_List (\<lambda>_. s_bind flds (\<lambda>vs.
     s_bind stream_ListEnd (\<lambda>_. s_return (DList vs))))"

definition optionalPtrDecoder :: "dval sm \<Rightarrow> dval sm" where
  "optionalPtrDecoder dec s =
     (case stream_Kind s of
        (Inl e, s') \<Rightarrow> (Inl e, s'\<lparr>st_kind := None\<rparr>)
      | (Inr (k, sz), s') \<Rightarrow>
          if sz = 0 \<and> k \<noteq> KByte then (Inr DNil, s'\<lparr>st_kind := None\<rparr>) else dec s')"

definition decodeInterface :: "dval sm \<Rightarrow> dval sm" where
  "decodeInterface sdec = s_bind stream_Kind (\<lambda>(k, sz).
     if k = KList then sdec else s_bind stream_Bytes (\<lambda>b. s_return (DBytes b)))"

text \<open>
  The recursive decoders. \<open>ErrOutOfFuel\<close> is the model's own; the loops of the code have no bound.
\<close>

fun decodeT :: "nat \<Rightarrow> rlp_type \<Rightarrow> dval sm"
  and decodeSliceElems :: "nat \<Rightarrow> rlp_type \<Rightarrow> dval list sm"
  and decodeArrayElems :: "nat \<Rightarrow> nat \<Rightarrow> rlp_type \<Rightarrow> dval list sm"
  and decodeFields :: "nat \<Rightarrow> rlp_type list \<Rightarrow> dval list sm" where
  "decodeT 0 t s = (Inl ErrOutOfFuel, s)"
| "decodeT (Suc f) TRaw s = decodeRawValue s"
| "decodeT (Suc f) (TUint bits) s = decodeUint bits s"
| "decodeT (Suc f) TBool s = decodeBool s"
| "decodeT (Suc f) TBytes s = decodeByteSlice s"
| "decodeT (Suc f) (TByteArray n) s = decodeByteArray n s"
| "decodeT (Suc f) TBigInt s = decodeBigInt s"
| "decodeT (Suc f) (TSlice t) s = decodeListSlice (decodeSliceElems f t) s"
| "decodeT (Suc f) (TTail t) s = s_bind (decodeSliceElems f t) (\<lambda>vs. s_return (DList vs)) s"
| "decodeT (Suc f) (TArray n t) s = decodeListArray n (decodeArrayElems f n t) s"
| "decodeT (Suc f) (TStruct ts) s = structDecoder (decodeFields f ts) s"
| "decodeT (Suc f) (TPtr t) s = decodeT f t s"
| "decodeT (Suc f) (TOptPtr t) s = optionalPtrDecoder (decodeT f t) s"
| "decodeT (Suc f) TInterface s = decodeInterface (decodeT f (TSlice TInterface)) s"
| "decodeSliceElems 0 t s = (Inl ErrOutOfFuel, s)"
| "decodeSliceElems (Suc f) t s =
     (case decodeT f t s of
        (Inl e, s') \<Rightarrow> if e = EOL then (Inr [], s') else (Inl e, s')
      | (Inr v, s') \<Rightarrow> s_bind (decodeSliceElems f t) (\<lambda>vs. s_return (v # vs)) s')"
| "decodeArrayElems f 0 t s = (Inr [], s)"
| "decodeArrayElems 0 (Suc n) t s = (Inl ErrOutOfFuel, s)"
| "decodeArrayElems (Suc f) (Suc n) t s =
     (case decodeT f t s of
        (Inl e, s') \<Rightarrow> if e = EOL then (Inr [], s') else (Inl e, s')
      | (Inr v, s') \<Rightarrow> s_bind (decodeArrayElems f n t) (\<lambda>vs. s_return (v # vs)) s')"
| "decodeFields f [] s = (Inr [], s)"
| "decodeFields 0 (t # ts) s = (Inl ErrOutOfFuel, s)"
| "decodeFields (Suc f) (t # ts) s =
     (case decodeT f t s of
        (Inl e, s') \<Rightarrow> if e = EOL then (Inl ErrTooFewElements, s') else (Inl e, s')
      | (Inr v, s') \<Rightarrow> s_bind (decodeFields f ts) (\<lambda>vs. s_return (v # vs)) s')"

text \<open>\<open>DecodeBytes\<close>, with the fuel for the decoders.\<close>

definition DecodeBytes :: "nat \<Rightarrow> rlp_type \<Rightarrow> bytes \<Rightarrow> rlp_error + dval" where
  "DecodeBytes fuel t b =
     (case decodeT fuel t (NewStream b True (word_of_nat (length b))) of
        (Inl e, s) \<Rightarrow> Inl e
      | (Inr v, s) \<Rightarrow> if length (st_r s) > 0 then Inl ErrMoreThanOneValue else Inr v)"



section \<open>Values of a type and their encoding\<close>

text \<open>
  The types covered by the theorems: every decoder except the raw, tail, optional and interface
  ones. Arrays of one byte are left out, see the last section.
\<close>

fun type_ok :: "rlp_type \<Rightarrow> bool" where
  "type_ok (TUint bits) \<longleftrightarrow> bits \<in> {8, 16, 32, 64}"
| "type_ok TBool \<longleftrightarrow> True"
| "type_ok TBytes \<longleftrightarrow> True"
| "type_ok (TByteArray n) \<longleftrightarrow> n \<noteq> 1 \<and> n < 2 ^ 64"
| "type_ok TBigInt \<longleftrightarrow> True"
| "type_ok (TSlice t) \<longleftrightarrow> type_ok t"
| "type_ok (TArray n t) \<longleftrightarrow> type_ok t"
| "type_ok (TStruct ts) \<longleftrightarrow> (\<forall>t \<in> set ts. type_ok t)"
| "type_ok (TPtr t) \<longleftrightarrow> type_ok t"
| "type_ok _ \<longleftrightarrow> False"

function (sequential) wt :: "rlp_type \<Rightarrow> dval \<Rightarrow> bool" where
  "wt (TUint bits) (DUint n) \<longleftrightarrow> unat n < 2 ^ bits"
| "wt TBool (DBool b) \<longleftrightarrow> True"
| "wt TBytes (DBytes b) \<longleftrightarrow> True"
| "wt (TByteArray n) (DBytes b) \<longleftrightarrow> length b = n"
| "wt TBigInt (DBig i) \<longleftrightarrow> 0 \<le> i"
| "wt (TSlice t) (DList vs) \<longleftrightarrow> (\<forall>v \<in> set vs. wt t v)"
| "wt (TArray n t) (DList vs) \<longleftrightarrow> length vs = n \<and> (\<forall>v \<in> set vs. wt t v)"
| "wt (TStruct ts) (DList vs) \<longleftrightarrow> length vs = length ts \<and> (\<forall>(t, v) \<in> set (zip ts vs). wt t v)"
| "wt (TPtr t) v \<longleftrightarrow> wt t v"
| "wt _ _ \<longleftrightarrow> False"
  by pat_completeness auto

termination
proof (relation "measure (\<lambda>(t, v). size t)")
  fix ts :: "rlp_type list" and vs :: "dval list" and x t v
  assume "x \<in> set (zip ts vs)" "(t, v) = x"
  then have "t \<in> set ts" by (auto dest: set_zip_leftD)
  then have "size t \<le> size_list size ts" by (rule size_list_estimation') simp
  then show "((t, v), TStruct ts, DList vs) \<in> measure (\<lambda>(t, v). size t)" by simp
qed simp_all

text \<open>The value as the encoder sees it (no value of the types above is \<open>DNil\<close> or \<open>DRaw\<close>).\<close>

fun to_val :: "dval \<Rightarrow> rlp_val" where
  "to_val (DRaw b) = RRaw b"
| "to_val (DUint n) = RUint n"
| "to_val (DBool b) = RBool b"
| "to_val (DBytes b) = RBytes b"
| "to_val (DBig i) = RBig i"
| "to_val (DList vs) = RList (map to_val vs)"
| "to_val DNil = RNilInterface"

definition venc :: "dval \<Rightarrow> bytes" where
  "venc v = rlp_enc (to_val v)"

fun tdepth :: "rlp_type \<Rightarrow> nat" where
  "tdepth (TSlice t) = Suc (tdepth t)"
| "tdepth (TArray n t) = Suc (tdepth t)"
| "tdepth (TStruct ts) = Suc (sum_list (map tdepth ts))"
| "tdepth (TPtr t) = Suc (tdepth t)"
| "tdepth _ = 1"

lemmas decoder_defs = decodeRawValue_def decodeUint_def decodeBool_def decodeByteSlice_def decodeListSlice_def
  decodeListArray_def structDecoder_def

lemma tdepth_pos: "1 \<le> tdepth t"
  by (cases t) auto

lemma venc_simps [simp]:
  "venc (DUint n) = rlp_string (be_min (unat n))"
  "venc (DBool v) = rlp_string (be_min (if v then 1 else 0))"
  "venc (DBytes b) = rlp_string b"
  "venc (DBig i) = rlp_string (be_min (nat i))"
  "venc (DList vs) = rlp_list (concat (map venc vs))"
  by (simp_all add: venc_def [abs_def] o_def)

lemma wt_cases:
  "wt (TUint bits) v \<Longrightarrow> \<exists>n. v = DUint n"
  "wt TBool v \<Longrightarrow> \<exists>b. v = DBool b"
  "wt TBytes v \<Longrightarrow> \<exists>b. v = DBytes b"
  "wt (TByteArray m) v \<Longrightarrow> \<exists>b. v = DBytes b"
  "wt TBigInt v \<Longrightarrow> \<exists>i. v = DBig i"
  "wt (TSlice t) v \<Longrightarrow> \<exists>vs. v = DList vs"
  "wt (TArray m t) v \<Longrightarrow> \<exists>vs. v = DList vs"
  "wt (TStruct ts) v \<Longrightarrow> \<exists>vs. v = DList vs"
  by (cases v; simp)+

lemma rlp_string_nonempty: "rlp_string b \<noteq> []"
  by (auto simp: rlp_string_def)

lemma rlp_list_nonempty: "rlp_list c \<noteq> []"
  by (simp add: rlp_list_def)

lemma venc_nonempty: "type_ok t \<Longrightarrow> wt t v \<Longrightarrow> venc v \<noteq> []"
proof (induction t arbitrary: v)
  case (TPtr t)
  then show ?case by simp
qed (auto dest!: wt_cases simp: rlp_string_nonempty rlp_list_nonempty)

section \<open>The decoders of the basic types\<close>

lemma big_decoder: "decoder decodeBigInt (wt TBigInt) (\<lambda>_. True) venc"
proof
  fix s s' v
  assume a: "stream_inv s" "st_kind s = None" "decodeBigInt s = (Inr v, s')"
  then obtain b where b: "stream_Bytes s = (Inr b, s')" "\<not> (b \<noteq> [] \<and> b ! 0 = 0)" "v = DBig (int (be_val b))"
    by (auto simp: decodeBigInt_def s_bind_def s_return_def s_fail_def split: prod.splits sum.splits if_splits)
  then have "be_min (be_val b) = b" using be_min_unique [of b] by (cases b) auto
  then show "wt TBigInt v \<and> reads s (venc v) s'" using bytes_dec.sound [OF a(1,2) b(1)] b(3) by simp
next
  fix s v rest
  assume a: "stream_inv s" "st_kind s = None" "wt TBigInt v" "st_r s = venc v @ rest" "length (venc v) \<le> room s"
  then obtain i where i: "v = DBig i" "0 \<le> i" by (cases v) auto
  obtain s' where s': "stream_Bytes s = (Inr (be_min (nat i)), s')" "core s' = core (adv (length (venc v)) s)"
    using bytes_dec.complete [OF a(1,2), of "be_min (nat i)" rest] a(4,5) i by auto
  have "be_min (nat i) ! 0 \<noteq> 0" if "be_min (nat i) \<noteq> []"
    using that hd_be_min [of "nat i"] by (simp add: hd_conv_nth)
  then show "\<exists>s'. decodeBigInt s = (Inr v, s') \<and> core s' = core (adv (length (venc v)) s)"
    using s' i by (auto simp: decodeBigInt_def s_bind_def s_return_def)
next
  fix s s'
  assume a: "stream_inv s" "st_kind s = None" "decodeBigInt s = (Inl EOL, s')"
  then have "stream_Bytes s = (Inl EOL, s')"
    by (auto simp: decodeBigInt_def s_bind_def s_return_def s_fail_def split: prod.splits sum.splits if_splits)
  then show "at_eol s \<and> core s' = core s" using bytes_dec.eol [OF a(1,2)] by blast
qed

lemma byteArray_string:
  assumes "stream_inv s" "stream_Kind s = (Inr (KString, word_of_nat n), s1)" "peeked s KString b n s1" "m < 2 ^ 64"
    "bs = take n (st_r s1)"
  shows "decodeByteArray m s =
    (if m < n then (Inl ErrInputTooLong, s1) else if n < m then (Inl ErrInputTooShort, s1)
     else if n = 1 \<and> bs ! 0 < 128 then (Inl ErrCanonSize, adv n s1) else (Inr (DBytes bs), adv n s1))"
proof -
  note p = peeked_inv [OF assms(1,3)]
  have un: "unat (word_of_nat n :: u64) = n" by (rule unat_size [OF assms(3)])
  have um: "unat (word_of_nat m :: u64) = m" using assms(4) by (simp add: unat_of_nat)
  have cmp: "(word_of_nat m :: u64) < word_of_nat n \<longleftrightarrow> m < n" "(word_of_nat n :: u64) < word_of_nat m \<longleftrightarrow> n < m"
    "(word_of_nat n :: u64) = 1 \<longleftrightarrow> n = 1"
    using un um by (auto simp: word_less_nat_alt word_unat_eq_iff)
  show ?thesis
    using assms(2,5) cmp readFull_ok [OF p(1,2)]
    by (auto simp: decodeByteArray_def s_bind_def s_return_def s_fail_def)
qed

lemma byteArray_decoder:
  assumes "m \<noteq> 1" "m < 2 ^ 64"
  shows "decoder (decodeByteArray m) (wt (TByteArray m)) (\<lambda>_. True) venc"
proof
  fix s s' v
  assume a: "stream_inv s" "st_kind s = None" "decodeByteArray m s = (Inr v, s')"
  obtain k b n s1 where K: "stream_Kind s = (Inr (k, word_of_nat n), s1)" and k: "peeked s k b n s1"
    by (rule Kind_bind_Inr [OF a(1,2) a(3) [unfolded decodeByteArray_def]])
  have "k = KString" using a(3) K assms(1) by (cases k) (auto simp: decodeByteArray_def s_bind_def split: if_splits)
  note K' = K [unfolded this] k [unfolded this]
  let ?bs = "take n (st_r s1)"
  have r: "m = n" "\<not> (n = 1 \<and> ?bs ! 0 < 128)" "v = DBytes ?bs" "s' = adv n s1"
    using a(3) byteArray_string [OF a(1) K' assms(2) refl] by (auto split: if_splits)
  note ps = peeked_string [OF a(1) K'(2) refl r(2)]
  show "wt (TByteArray m) v \<and> reads s (venc v) s'" using r ps by simp
next
  fix s v rest
  assume a: "stream_inv s" "st_kind s = None" "wt (TByteArray m) v" "st_r s = venc v @ rest" "length (venc v) \<le> room s"
  then obtain c where c: "v = DBytes c" "length c = m" by (cases v) auto
  have r: "st_r s = rlp_string c @ rest" "length (rlp_string c) \<le> room s" using a(4,5) c by simp_all
  show "\<exists>s'. decodeByteArray m s = (Inr v, s') \<and> core s' = core (adv (length (venc v)) s)"
  proof (cases rule: string_ahead [OF a(1,2) r])
    case (1 b s1)
    then show ?thesis using c assms(1) by simp
  next
    case (2 s1)
    show ?thesis using byteArray_string [OF a(1) 2(2,3) assms(2) 2(4) [symmetric]] 2(1,6) c by auto
  qed
next
  fix s s'
  assume a: "stream_inv s" "st_kind s = None" "decodeByteArray m s = (Inl EOL, s')"
  show "at_eol s \<and> core s' = core s"
  proof (cases rule: Kind_cases [OF a(1,2)])
    case 1
    then show ?thesis using a(3) by (auto simp: decodeByteArray_def s_bind_def)
  next
    case (2 e s1)
    then show ?thesis using a(3) by (simp add: decodeByteArray_def s_bind_def)
  next
    case (3 k b n s1)
    then show ?thesis
      using a(3) byteArray_string [OF a(1) _ _ assms(2) refl, of n s1 b] assms(1)
      by (cases k) (auto simp: decodeByteArray_def s_bind_def split: if_splits)
  qed
qed

section \<open>The recursive decoders\<close>

definition decoderT :: "nat \<Rightarrow> rlp_type \<Rightarrow> bool" where
  "decoderT f t \<longleftrightarrow> decoder (decodeT f t) (wt t) (\<lambda>v. length (venc v) + tdepth t \<le> f) venc"

lemma decoderT_sound:
  "decoderT f t \<Longrightarrow> stream_inv s \<Longrightarrow> st_kind s = None \<Longrightarrow> decodeT f t s = (Inr v, s') \<Longrightarrow> wt t v \<and> reads s (venc v) s'"
  unfolding decoderT_def by (rule decoder.sound)

lemma decoderT_complete:
  "decoderT f t \<Longrightarrow> stream_inv s \<Longrightarrow> st_kind s = None \<Longrightarrow> wt t v \<Longrightarrow> length (venc v) + tdepth t \<le> f \<Longrightarrow>
     st_r s = venc v @ rest \<Longrightarrow> length (venc v) \<le> room s \<Longrightarrow> \<exists>s'. decodeT f t s = (Inr v, s') \<and> reads s (venc v) s'"
  unfolding decoderT_def by (drule (6) decoder.complete) (auto intro: reads_ahead)

lemma decoderT_eol:
  "decoderT f t \<Longrightarrow> stream_inv s \<Longrightarrow> st_kind s = None \<Longrightarrow> decodeT f t s = (Inl EOL, s') \<Longrightarrow> at_eol s \<and> core s' = core s"
  unfolding decoderT_def by (rule decoder.eol)

text \<open>At the end of a list every decoder reports it.\<close>

lemma Kind_at_eol:
  "at_eol s \<Longrightarrow> st_kind s = None \<Longrightarrow> stream_Kind s = (Inl EOL, s\<lparr>st_kinderr := None\<rparr>)"
  by (simp add: stream_Kind_def at_eol_def Let_def)

lemma decodeT_at_eol:
  "at_eol s \<Longrightarrow> st_kind s = None \<Longrightarrow> type_ok t \<Longrightarrow> tdepth t \<le> f \<Longrightarrow> decodeT f t s = (Inl EOL, s\<lparr>st_kinderr := None\<rparr>)"
proof (induction t arbitrary: f)
  case (TPtr t)
  then show ?case by (cases f) auto
qed (case_tac f; simp add: s_bind_def Kind_at_eol stream_uint_def stream_Bool_def stream_Bytes_def decodeByteArray_def
      decodeBigInt_def stream_List_def decoder_defs)+

lemma elems_not_EOL:
  "decodeSliceElems f t s \<noteq> (Inl EOL, s')"
  "decodeArrayElems f n t s \<noteq> (Inl EOL, s')"
  "decodeFields f ts s \<noteq> (Inl EOL, s')"
proof -
  show "decodeSliceElems f t s \<noteq> (Inl EOL, s')" for s s'
    by (induction f arbitrary: s s') (auto simp: s_bind_def s_return_def split: prod.splits sum.splits if_splits)
  show "decodeArrayElems f n t s \<noteq> (Inl EOL, s')" for s s' n
  proof (induction f arbitrary: s s' n)
    case 0
    then show ?case by (cases n) auto
  next
    case (Suc f)
    then show ?case by (cases n) (auto simp: s_bind_def s_return_def split: prod.splits sum.splits if_splits)
  qed
  show "decodeFields f ts s \<noteq> (Inl EOL, s')" for s s' ts
  proof (induction f arbitrary: s s' ts)
    case 0
    then show ?case by (cases ts) auto
  next
    case (Suc f)
    then show ?case by (cases ts) (auto simp: s_bind_def s_return_def split: prod.splits sum.splits if_splits)
  qed
qed


text \<open>The loops over elements and fields, for decoders of less fuel that keep the contract.\<close>

lemma slice_sound:
  assumes "\<And>f'. f' < f \<Longrightarrow> decoderT f' t" "stream_inv s" "st_kind s = None" "decodeSliceElems f t s = (Inr vs, s')"
  shows "(\<forall>v \<in> set vs. wt t v) \<and> reads s (concat (map venc vs)) s' \<and> at_eol s'"
  using assms
proof (induction f arbitrary: s vs)
  case (Suc f)
  have D: "decoderT f t" using Suc.prems(1) by simp
  show ?case
  proof (cases "decodeT f t s")
    case (Pair r s1)
    show ?thesis
    proof (cases r)
      case (Inl e)
      then have e: "e = EOL" "vs = []" "s' = s1" using Suc.prems(4) Pair by (auto split: if_splits)
      then have "at_eol s" "core s1 = core s" using decoderT_eol [OF D Suc.prems(2,3)] Pair Inl by auto
      moreover from this have "at_eol s1" by (simp add: at_eol_def core_def)
      ultimately show ?thesis using e reads_refl Suc.prems(3) by simp
    next
      case (Inr v)
      have w: "wt t v" "reads s (venc v) s1" using decoderT_sound [OF D Suc.prems(2,3)] Pair Inr by auto
      obtain vs' where vs': "decodeSliceElems f t s1 = (Inr vs', s')" "vs = v # vs'"
        using Suc.prems(4) Pair Inr by (auto simp: s_bind_def s_return_def split: prod.splits sum.splits)
      note r = reads_inv [OF Suc.prems(2) w(2)]
      have "(\<forall>v \<in> set vs'. wt t v) \<and> reads s1 (concat (map venc vs')) s' \<and> at_eol s'"
        using Suc.IH [OF _ r(1,2) vs'(1)] Suc.prems(1) by simp
      then show ?thesis using w vs'(2) reads_trans [OF Suc.prems(2) w(2)] by simp
    qed
  qed
qed simp

lemma slice_complete:
  assumes "\<And>f'. f' < f \<Longrightarrow> decoderT f' t" "type_ok t" "stream_inv s" "st_kind s = None" "st_stack s \<noteq> []"
    "\<forall>v \<in> set vs. wt t v" "st_r s = concat (map venc vs) @ rest" "length (concat (map venc vs)) = room s"
    "room s + tdepth t < f"
  shows "\<exists>s'. decodeSliceElems f t s = (Inr vs, s') \<and> reads s (concat (map venc vs)) s'"
  using assms
proof (induction vs arbitrary: f s)
  case Nil
  then obtain f' where f: "f = Suc f'" by (cases f) auto
  have "at_eol s" using at_eol_iff Nil.prems(3,5,8) by simp
  then have "decodeT f' t s = (Inl EOL, s\<lparr>st_kinderr := None\<rparr>)"
    using decodeT_at_eol [of s t f'] Nil.prems(2,4,9) f by simp
  then show ?case using f reads_refl [OF Nil.prems(4), of "s\<lparr>st_kinderr := None\<rparr>"] by simp
next
  case (Cons v vs)
  obtain f' where f: "f = Suc f'" using Cons.prems(9) by (cases f) auto
  have len: "length (venc v) + length (concat (map venc vs)) = room s" using Cons.prems(8) by simp
  have v1: "1 \<le> length (venc v)"
    using venc_nonempty [OF Cons.prems(2), of v] Cons.prems(6) by (cases "venc v") auto
  have ahead: "st_r s = venc v @ concat (map venc vs) @ rest" using Cons.prems(7) by simp
  have "\<exists>s1. decodeT f' t s = (Inr v, s1) \<and> reads s (venc v) s1"
    by (rule decoderT_complete [OF _ Cons.prems(3,4) _ _ ahead]) (use Cons.prems(1,6,9) f len in auto)
  then obtain s1 where s1: "decodeT f' t s = (Inr v, s1)" "reads s (venc v) s1" by blast
  note r = reads_inv [OF Cons.prems(3) s1(2)]
  have st: "st_stack s1 \<noteq> []" using r(5) Cons.prems(5) by (cases "st_stack s"; cases "hd (st_stack s)") auto
  have "\<exists>s'. decodeSliceElems f' t s1 = (Inr vs, s') \<and> reads s1 (concat (map venc vs)) s'"
  proof (rule Cons.IH [OF _ Cons.prems(2) r(1,2) st])
    show "length (concat (map venc vs)) = room s1" using r(3) len by linarith
    show "room s1 + tdepth t < f'" using r(3) len v1 Cons.prems(9) f by linarith
  qed (use Cons.prems(1,6) f r(4) ahead in auto)
  then obtain s' where s': "decodeSliceElems f' t s1 = (Inr vs, s')" "reads s1 (concat (map venc vs)) s'" by blast
  then show ?case
    using s1 f reads_trans [OF Cons.prems(3) s1(2) s'(2)] by (simp add: s_bind_def s_return_def)
qed

lemma array_sound:
  assumes "\<And>f'. f' < f \<Longrightarrow> decoderT f' t" "stream_inv s" "st_kind s = None" "decodeArrayElems f n t s = (Inr vs, s')"
  shows "length vs \<le> n \<and> (\<forall>v \<in> set vs. wt t v) \<and> reads s (concat (map venc vs)) s'"
  using assms
proof (induction n arbitrary: f s vs)
  case 0
  then show ?case using reads_refl by simp
next
  case (Suc n)
  obtain f' where f: "f = Suc f'" using Suc.prems(4) by (cases f) auto
  have D: "decoderT f' t" using Suc.prems(1) f by simp
  show ?case
  proof (cases "decodeT f' t s")
    case (Pair r s1)
    show ?thesis
    proof (cases r)
      case (Inl e)
      then have e: "e = EOL" "vs = []" "s' = s1" using Suc.prems(4) Pair f by (auto split: if_splits)
      then have "core s1 = core s" using decoderT_eol [OF D Suc.prems(2,3)] Pair Inl by auto
      then show ?thesis using e reads_refl Suc.prems(3) by simp
    next
      case (Inr v)
      have w: "wt t v" "reads s (venc v) s1" using decoderT_sound [OF D Suc.prems(2,3)] Pair Inr by auto
      obtain vs' where vs': "decodeArrayElems f' n t s1 = (Inr vs', s')" "vs = v # vs'"
        using Suc.prems(4) Pair Inr f by (auto simp: s_bind_def s_return_def split: prod.splits sum.splits)
      note r = reads_inv [OF Suc.prems(2) w(2)]
      have "length vs' \<le> n \<and> (\<forall>v \<in> set vs'. wt t v) \<and> reads s1 (concat (map venc vs')) s'"
        using Suc.IH [OF _ r(1,2) vs'(1)] Suc.prems(1) f by simp
      then show ?thesis using w vs'(2) reads_trans [OF Suc.prems(2) w(2)] by simp
    qed
  qed
qed

text \<open>Elements that lie ahead are all read; shared by arrays and structs, whose loops run over \<open>ts\<close>.\<close>

lemma fields_complete:
  assumes "\<And>f' t. f' < f \<Longrightarrow> t \<in> set ts \<Longrightarrow> decoderT f' t" "\<forall>t \<in> set ts. type_ok t" "stream_inv s" "st_kind s = None"
    "length vs = length ts" "\<forall>(t, v) \<in> set (zip ts vs). wt t v" "st_r s = concat (map venc vs) @ rest"
    "length (concat (map venc vs)) \<le> room s" "length (concat (map venc vs)) + sum_list (map tdepth ts) < f"
  shows "\<exists>s'. decodeFields f ts s = (Inr vs, s') \<and> reads s (concat (map venc vs)) s'"
  using assms
proof (induction ts arbitrary: f s vs)
  case Nil
  then show ?case using reads_refl by simp
next
  case (Cons t ts)
  obtain v vs' where vs: "vs = v # vs'" using Cons.prems(5) by (cases vs) auto
  have w: "wt t v" "\<forall>(t, v) \<in> set (zip ts vs'). wt t v" "length vs' = length ts" using Cons.prems(5,6) vs by auto
  have v1: "1 \<le> length (venc v)"
    using venc_nonempty [of t v] Cons.prems(2) w(1) by (cases "venc v") auto
  obtain f' where f: "f = Suc f'" using Cons.prems(9) vs v1 by (cases f) auto
  have ahead: "st_r s = venc v @ concat (map venc vs') @ rest" using Cons.prems(7) vs by simp
  have len: "length (concat (map venc vs)) = length (venc v) + length (concat (map venc vs'))" using vs by simp
  have fu: "length (venc v) + tdepth t \<le> f'" using Cons.prems(9) f len by simp
  have "\<exists>s1. decodeT f' t s = (Inr v, s1) \<and> reads s (venc v) s1"
    by (rule decoderT_complete [OF _ Cons.prems(3,4) w(1) fu ahead]) (use Cons.prems(1,8) f vs in auto)
  then obtain s1 where s1: "decodeT f' t s = (Inr v, s1)" "reads s (venc v) s1" by blast
  note r = reads_inv [OF Cons.prems(3) s1(2)]
  have "\<exists>s'. decodeFields f' ts s1 = (Inr vs', s') \<and> reads s1 (concat (map venc vs')) s'"
  proof (rule Cons.IH [OF _ _ r(1,2) w(3,2)])
    show "length (concat (map venc vs')) \<le> room s1" using r(3) len Cons.prems(8) by linarith
    show "length (concat (map venc vs')) + sum_list (map tdepth ts) < f'" using len v1 Cons.prems(9) f by simp
  qed (use Cons.prems(1,2) f r(4) ahead in auto)
  then obtain s' where s': "decodeFields f' ts s1 = (Inr vs', s')" "reads s1 (concat (map venc vs')) s'" by blast
  then show ?case
    using s1 f vs reads_trans [OF Cons.prems(3) s1(2) s'(2)] by (simp add: s_bind_def s_return_def)
qed

lemma fields_sound:
  assumes "\<And>f' t. f' < f \<Longrightarrow> t \<in> set ts \<Longrightarrow> decoderT f' t" "stream_inv s" "st_kind s = None"
    "decodeFields f ts s = (Inr vs, s')"
  shows "length vs = length ts \<and> (\<forall>(t, v) \<in> set (zip ts vs). wt t v) \<and> reads s (concat (map venc vs)) s'"
  using assms
proof (induction ts arbitrary: f s vs)
  case Nil
  then show ?case using reads_refl by simp
next
  case (Cons t ts)
  obtain f' where f: "f = Suc f'" using Cons.prems(4) by (cases f) auto
  have D: "decoderT f' t" using Cons.prems(1) f by simp
  obtain v s1 where v: "decodeT f' t s = (Inr v, s1)"
    using Cons.prems(4) f by (auto split: prod.splits sum.splits if_splits)
  have w: "wt t v" "reads s (venc v) s1" using decoderT_sound [OF D Cons.prems(2,3) v] by auto
  obtain vs' where vs': "decodeFields f' ts s1 = (Inr vs', s')" "vs = v # vs'"
    using Cons.prems(4) v f by (auto simp: s_bind_def s_return_def split: prod.splits sum.splits)
  note r = reads_inv [OF Cons.prems(2) w(2)]
  have "length vs' = length ts \<and> (\<forall>(t, v) \<in> set (zip ts vs'). wt t v) \<and> reads s1 (concat (map venc vs')) s'"
    using Cons.IH [OF _ r(1,2) vs'(1)] Cons.prems(1) f by simp
  then show ?case using w vs'(2) reads_trans [OF Cons.prems(2) w(2)] by auto
qed

lemma array_complete:
  assumes "\<And>f'. f' < f \<Longrightarrow> decoderT f' t" "type_ok t" "stream_inv s" "st_kind s = None"
    "\<forall>v \<in> set vs. wt t v" "st_r s = concat (map venc vs) @ rest"
    "length (concat (map venc vs)) \<le> room s" "length (concat (map venc vs)) + tdepth t < f"
  shows "\<exists>s'. decodeArrayElems f (length vs) t s = (Inr vs, s') \<and> reads s (concat (map venc vs)) s'"
  using assms
proof (induction vs arbitrary: f s)
  case Nil
  then show ?case using reads_refl by simp
next
  case (Cons v vs)
  obtain f' where f: "f = Suc f'" using Cons.prems(8) by (cases f) auto
  have v1: "1 \<le> length (venc v)"
    using venc_nonempty [OF Cons.prems(2), of v] Cons.prems(5) by (cases "venc v") auto
  have ahead: "st_r s = venc v @ concat (map venc vs) @ rest" using Cons.prems(6) by simp
  have len: "length (concat (map venc (v # vs))) = length (venc v) + length (concat (map venc vs))" by simp
  have "\<exists>s1. decodeT f' t s = (Inr v, s1) \<and> reads s (venc v) s1"
    by (rule decoderT_complete [OF _ Cons.prems(3,4) _ _ ahead]) (use Cons.prems(1,5,7,8) f in auto)
  then obtain s1 where s1: "decodeT f' t s = (Inr v, s1)" "reads s (venc v) s1" by blast
  note r = reads_inv [OF Cons.prems(3) s1(2)]
  have "\<exists>s'. decodeArrayElems f' (length vs) t s1 = (Inr vs, s') \<and> reads s1 (concat (map venc vs)) s'"
  proof (rule Cons.IH [OF _ Cons.prems(2) r(1,2)])
    show "length (concat (map venc vs)) \<le> room s1" using r(3) len Cons.prems(7) by linarith
    show "length (concat (map venc vs)) + tdepth t < f'" using len v1 Cons.prems(8) f by linarith
  qed (use Cons.prems(1,5) f r(4) ahead in auto)
  then obtain s' where s': "decodeArrayElems f' (length vs) t s1 = (Inr vs, s')" "reads s1 (concat (map venc vs)) s'"
    by blast
  then show ?case
    using s1 f reads_trans [OF Cons.prems(3) s1(2) s'(2)] by (simp add: s_bind_def s_return_def)
qed


text \<open>Entering a list, reading its elements with \<open>inner\<close> and leaving it.\<close>

lemma list_decoder:
  assumes sound: "\<And>sz s vs s'. stream_inv s \<Longrightarrow> st_kind s = None \<Longrightarrow> room s = unat sz \<Longrightarrow> inner sz s = (Inr vs, s') \<Longrightarrow>
      Q vs \<and> reads s (concat (map venc vs)) s'"
    and complete: "\<And>sz s vs rest. stream_inv s \<Longrightarrow> st_kind s = None \<Longrightarrow> st_stack s \<noteq> [] \<Longrightarrow> room s = unat sz \<Longrightarrow> Q vs \<Longrightarrow>
      F vs \<Longrightarrow> st_r s = concat (map venc vs) @ rest \<Longrightarrow> length (concat (map venc vs)) = room s \<Longrightarrow>
      \<exists>s'. inner sz s = (Inr vs, s') \<and> reads s (concat (map venc vs)) s'"
    and eol: "\<And>sz s s'. inner sz s \<noteq> (Inl EOL, s')"
  shows "decoder (s_bind stream_List (\<lambda>sz. s_bind (inner sz) (\<lambda>vs. s_bind stream_ListEnd (\<lambda>_. s_return (DList vs)))))
    (\<lambda>v. \<exists>vs. v = DList vs \<and> Q vs) (\<lambda>v. \<exists>vs. v = DList vs \<and> F vs) venc"
    (is "decoder ?dec _ _ _")
proof
  fix s s' v
  assume a: "stream_inv s" "st_kind s = None" "?dec s = (Inr v, s')"
  then obtain sz s1 vs s2 where l: "stream_List s = (Inr sz, s1)" "inner sz s1 = (Inr vs, s2)"
      "stream_ListEnd s2 = (Inr (), s')" "v = DList vs"
    by (auto simp: s_bind_def s_return_def split: prod.splits sum.splits)
  note o = List_Inr [OF a(1,2) l(1)]
  note oi = opened_inv [OF a(1) o]
  let ?c = "concat (map venc vs)"
  have q: "Q vs" "reads s1 ?c s2" using sound [OF oi(1,3,2) l(2)] by auto
  have c: "length ?c \<le> unat sz" "core s2 = core (adv (length ?c) s1)" "st_r s1 = ?c @ drop (length ?c) (st_r s1)"
    using q(2) oi(2) by (auto simp: reads_def)
  have n: "length ?c = unat sz" using ListEnd_core [OF a(1) o c(2,1)] l(3) by (auto split: if_splits)
  have "core s' = core (adv (length (rlp_head 0xC0 0xF7 (length ?c)) + length ?c) s)"
    using ListEnd_ok [OF a(1) o, of s2] c(2) n l(3) by simp
  then have "reads s (rlp_list ?c) s'" using opened_reads [OF a(1) _ c(3)] o n by simp
  then show "(\<exists>vs. v = DList vs \<and> Q vs) \<and> reads s (venc v) s'" using q(1) l(4) by simp
next
  fix s v rest
  assume a: "stream_inv s" "st_kind s = None" "\<exists>vs. v = DList vs \<and> Q vs" "\<exists>vs. v = DList vs \<and> F vs"
    "st_r s = venc v @ rest" "length (venc v) \<le> room s"
  then obtain vs where v: "v = DList vs" "Q vs" "F vs" by auto
  let ?c = "concat (map venc vs)"
  have r: "st_r s = rlp_list ?c @ rest" "length (rlp_list ?c) \<le> room s" using a(5,6) v(1) by simp_all
  obtain s1 where l: "stream_List s = (Inr (word_of_nat (length ?c)), s1)" "opened s (length ?c) s1"
    using List_ok [OF a(1,2) r] by blast
  note oi = opened_inv [OF a(1) l(2)]
  have u: "room s1 = unat (word_of_nat (length ?c) :: u64)"
    using oi(2) l(2) by (simp add: opened_def Let_def unat_of_nat)
  have ahead: "st_r s1 = ?c @ rest" using oi(5) r(1) by (simp add: rlp_list_def)
  obtain s2 where s2: "inner (word_of_nat (length ?c)) s1 = (Inr vs, s2)" "reads s1 ?c s2"
    using complete [OF oi(1,3,4) u v(2,3) ahead] oi(2) by auto
  then obtain s3 where s3: "stream_ListEnd s2 = (Inr (), s3)"
      "core s3 = core (adv (length (rlp_head 0xC0 0xF7 (length ?c)) + length ?c) s)"
    using ListEnd_ok [OF a(1) l(2), of s2] by (auto simp: reads_def)
  then show "\<exists>s'. ?dec s = (Inr v, s') \<and> core s' = core (adv (length (venc v)) s)"
    using l(1) s2(1) v(1) by (simp add: s_bind_def s_return_def rlp_list_def)
next
  fix s s'
  assume a: "stream_inv s" "st_kind s = None" "?dec s = (Inl EOL, s')"
  have "stream_ListEnd s2 \<noteq> (Inl EOL, s')" for s2 by (auto simp: stream_ListEnd_def split: list.splits)
  then have "stream_List s = (Inl EOL, s')"
    using a(3) eol by (auto simp: s_bind_def s_return_def split: prod.splits sum.splits)
  then show "at_eol s \<and> core s' = core s" by (rule List_EOL [OF a(1,2)])
qed

lemma s_bind_assoc: "s_bind (s_bind m f) g = s_bind m (\<lambda>x. s_bind (f x) g)"
  by (rule ext) (auto simp: s_bind_def split: prod.splits sum.splits)

lemma s_bind_return [simp]: "s_bind (s_return x) f = f x"
  by (rule ext) (simp add: s_bind_def s_return_def)

text \<open>A weaker demand on the fuel, or another form of the set of values, keeps the contract.\<close>

lemma decoder_cong:
  assumes "decoder dec ok fit venc" "\<And>v. ok v = ok' v" "\<And>v. ok' v \<Longrightarrow> fit' v \<Longrightarrow> fit v" "dec = dec'"
  shows "decoder dec' ok' fit' venc"
proof -
  from assms(2) have "ok = ok'" by auto
  then show ?thesis using assms(1,3,4) unfolding decoder_def by blast
qed

lemma wt_list_iff:
  "wt (TSlice t) v \<longleftrightarrow> (\<exists>vs. v = DList vs \<and> (\<forall>v \<in> set vs. wt t v))"
  "wt (TArray n t) v \<longleftrightarrow> (\<exists>vs. v = DList vs \<and> length vs = n \<and> (\<forall>v \<in> set vs. wt t v))"
  "wt (TStruct ts) v \<longleftrightarrow> (\<exists>vs. v = DList vs \<and> length vs = length ts \<and> (\<forall>(t, v) \<in> set (zip ts vs). wt t v))"
  by (cases v; simp)+

lemma list_fuel: "length (rlp_list c) + d < Suc f \<Longrightarrow> length c + d < f"
proof -
  have "length c < length (rlp_list c)" by (simp add: rlp_list_def)
  then show "length (rlp_list c) + d < Suc f \<Longrightarrow> length c + d < f" by linarith
qed

lemma slice_decoder:
  assumes "\<And>f'. f' < f \<Longrightarrow> decoderT f' t" "type_ok t"
  shows "decoderT (Suc f) (TSlice t)"
proof -
  let ?inner = "\<lambda>sz :: u64. if sz = 0 then s_return [] else decodeSliceElems f t"
  let ?F = "\<lambda>vs. length (concat (map venc vs)) + tdepth t < f"
  have "decoder (s_bind stream_List (\<lambda>sz. s_bind (?inner sz) (\<lambda>vs. s_bind stream_ListEnd (\<lambda>_. s_return (DList vs)))))
    (\<lambda>v. \<exists>vs. v = DList vs \<and> (\<forall>v \<in> set vs. wt t v)) (\<lambda>v. \<exists>vs. v = DList vs \<and> ?F vs) venc"
  proof (rule list_decoder)
    fix sz s vs s'
    assume a: "stream_inv s" "st_kind s = None" "?inner sz s = (Inr vs, s')"
    then show "(\<forall>v \<in> set vs. wt t v) \<and> reads s (concat (map venc vs)) s'"
      using slice_sound [of f t s vs s'] assms(1) reads_refl by (cases "sz = 0") (auto simp: s_return_def)
  next
    fix s vs rest and sz :: u64
    assume a: "stream_inv s" "st_kind s = None" "st_stack s \<noteq> []" "room s = unat sz" "\<forall>v \<in> set vs. wt t v" "?F vs"
      "st_r s = concat (map venc vs) @ rest" "length (concat (map venc vs)) = room s"
    show "\<exists>s'. ?inner sz s = (Inr vs, s') \<and> reads s (concat (map venc vs)) s'"
    proof (cases "sz = 0")
      case True
      then have "vs = []" using a(4,5,8) venc_nonempty [OF assms(2)] by (cases vs) auto
      then show ?thesis using True a(2) reads_refl by (simp add: s_return_def)
    next
      case False
      then show ?thesis using slice_complete [OF assms a(1,2,3,5,7,8)] a(6,8) by simp
    qed
  next
    show "?inner sz s \<noteq> (Inl EOL, s')" for sz s s' using elems_not_EOL(1) by (simp add: s_return_def)
  qed
  then show ?thesis
    unfolding decoderT_def
    by (rule decoder_cong) (auto dest: list_fuel simp: decoder_defs wt_list_iff Suc_le_eq fun_eq_iff s_bind_def s_return_def split: prod.split sum.split)
qed

lemma array_decoder:
  assumes "\<And>f'. f' < f \<Longrightarrow> decoderT f' t" "type_ok t"
  shows "decoderT (Suc f) (TArray n t)"
proof -
  let ?inner = "\<lambda>sz :: u64. s_bind (decodeArrayElems f n t) (\<lambda>vs. if length vs < n then s_fail ErrTooFewElements else s_return vs)"
  let ?F = "\<lambda>vs. length (concat (map venc vs)) + tdepth t < f"
  have "decoder (s_bind stream_List (\<lambda>sz. s_bind (?inner sz) (\<lambda>vs. s_bind stream_ListEnd (\<lambda>_. s_return (DList vs)))))
    (\<lambda>v. \<exists>vs. v = DList vs \<and> length vs = n \<and> (\<forall>v \<in> set vs. wt t v)) (\<lambda>v. \<exists>vs. v = DList vs \<and> ?F vs) venc"
  proof (rule list_decoder)
    fix sz s vs s'
    assume a: "stream_inv s" "st_kind s = None" "?inner sz s = (Inr vs, s')"
    then have "decodeArrayElems f n t s = (Inr vs, s')" "\<not> length vs < n"
      by (auto simp: s_bind_def s_fail_def s_return_def split: prod.splits sum.splits if_splits)
    then show "(length vs = n \<and> (\<forall>v \<in> set vs. wt t v)) \<and> reads s (concat (map venc vs)) s'"
      using array_sound [OF assms(1) a(1,2)] by fastforce
  next
    fix s vs rest and sz :: u64
    assume a: "stream_inv s" "st_kind s = None" "length vs = n \<and> (\<forall>v \<in> set vs. wt t v)" "?F vs"
      "st_r s = concat (map venc vs) @ rest" "length (concat (map venc vs)) = room s"
    then have "\<exists>s'. decodeArrayElems f (length vs) t s = (Inr vs, s') \<and> reads s (concat (map venc vs)) s'"
      by (intro array_complete [OF assms a(1,2) _ a(5)]) auto
    then show "\<exists>s'. ?inner sz s = (Inr vs, s') \<and> reads s (concat (map venc vs)) s'"
      using a(3) by (auto simp: s_bind_def s_return_def)
  next
    show "?inner sz s \<noteq> (Inl EOL, s')" for sz s s'
      using elems_not_EOL(2) [of f n t s] by (auto simp: s_bind_def s_fail_def s_return_def split: prod.splits sum.splits)
  qed
  then show ?thesis
    unfolding decoderT_def
    by (rule decoder_cong) (auto dest: list_fuel simp: decoder_defs wt_list_iff Suc_le_eq fun_eq_iff s_bind_def s_return_def s_fail_def split: prod.split sum.split)
qed

lemma struct_decoder:
  assumes "\<And>f' t. f' < f \<Longrightarrow> t \<in> set ts \<Longrightarrow> decoderT f' t" "\<forall>t \<in> set ts. type_ok t"
  shows "decoderT (Suc f) (TStruct ts)"
proof -
  let ?F = "\<lambda>vs. length (concat (map venc vs)) + sum_list (map tdepth ts) < f"
  have "decoder (s_bind stream_List (\<lambda>sz. s_bind (decodeFields f ts) (\<lambda>vs. s_bind stream_ListEnd (\<lambda>_. s_return (DList vs)))))
    (\<lambda>v. \<exists>vs. v = DList vs \<and> length vs = length ts \<and> (\<forall>(t, v) \<in> set (zip ts vs). wt t v)) (\<lambda>v. \<exists>vs. v = DList vs \<and> ?F vs) venc"
  proof (rule list_decoder)
    fix s vs s'
    assume a: "stream_inv s" "st_kind s = None" "decodeFields f ts s = (Inr vs, s')"
    then show "(length vs = length ts \<and> (\<forall>(t, v) \<in> set (zip ts vs). wt t v)) \<and> reads s (concat (map venc vs)) s'"
      using fields_sound [OF assms(1) a] by simp
  next
    fix s vs rest
    assume a: "stream_inv s" "st_kind s = None" "length vs = length ts \<and> (\<forall>(t, v) \<in> set (zip ts vs). wt t v)" "?F vs"
      "st_r s = concat (map venc vs) @ rest" "length (concat (map venc vs)) = room s"
    show "\<exists>s'. decodeFields f ts s = (Inr vs, s') \<and> reads s (concat (map venc vs)) s'"
      by (rule fields_complete [OF assms a(1,2)]) (use a in auto)
  next
    show "decodeFields f ts s \<noteq> (Inl EOL, s')" for s s' using elems_not_EOL(3) .
  qed
  then show ?thesis
    unfolding decoderT_def
    by (rule decoder_cong) (auto dest: list_fuel simp: decoder_defs wt_list_iff Suc_le_eq fun_eq_iff)
qed


text \<open>Every decoder of a covered type keeps the contract, whatever the fuel.\<close>

lemma decoderT_ok: "type_ok t \<Longrightarrow> decoderT f t"
proof (induction f arbitrary: t rule: less_induct)
  case (less f)
  show ?case
  proof (cases f)
    case 0
    then show ?thesis
      using tdepth_pos [of t] by (auto simp: decoderT_def decoder_def)
  next
    case (Suc f')
    then have IH: "decoderT g t'" if "g \<le> f'" "type_ok t'" for g t' using less.IH that by simp
    show ?thesis
    proof (cases t)
      case (TUint bits)
      then obtain m where m: "bits = 8 * m" "1 \<le> m" "m \<le> 8"
        using less.prems by (auto intro: that [of 1] that [of 2] that [of 4] that [of 8])
      have "unat n < 256 ^ m \<longleftrightarrow> unat n < 2 ^ bits" for n :: u64 using m(1) by (simp add: power_mult)
      then have "wt (TUint bits) v \<longleftrightarrow> (\<exists>n. v = DUint n \<and> unat n < 256 ^ m)" for v by (cases v) simp_all
      note w = this
      have dt: "s_bind (stream_uint (8 * m)) (\<lambda>n. s_return (DUint n)) = decodeT f t"
        using TUint Suc m(1) by (simp add: decoder_defs fun_eq_iff)
      show ?thesis
        unfolding decoderT_def
        by (rule decoder_cong [OF decoder.mapped [OF uint_decoder [OF m(2,3)]] _ _ dt]) (simp_all add: TUint w)
    next
      case TBool
      have w: "wt TBool v \<longleftrightarrow> (\<exists>b. v = DBool b \<and> True)" for v by (cases v) simp_all
      have dt: "s_bind stream_Bool (\<lambda>b. s_return (DBool b)) = decodeT f t" using TBool Suc by (simp add: decoder_defs fun_eq_iff)
      show ?thesis
        unfolding decoderT_def
        by (rule decoder_cong [OF decoder.mapped [OF bool_decoder] _ _ dt]) (simp_all add: TBool w)
    next
      case TBytes
      have w: "wt TBytes v \<longleftrightarrow> (\<exists>b. v = DBytes b \<and> True)" for v by (cases v) simp_all
      have dt: "s_bind stream_Bytes (\<lambda>b. s_return (DBytes b)) = decodeT f t" using TBytes Suc by (simp add: decoder_defs fun_eq_iff)
      show ?thesis
        unfolding decoderT_def
        by (rule decoder_cong [OF bytes_dec.mapped _ _ dt]) (simp_all add: TBytes w)
    next
      case (TByteArray n)
      have dt: "decodeByteArray n = decodeT f t" using TByteArray Suc by (simp add: fun_eq_iff)
      show ?thesis
        unfolding decoderT_def
        by (rule decoder_cong [OF byteArray_decoder _ _ dt]) (use TByteArray less.prems in simp_all)
    next
      case TBigInt
      have dt: "decodeBigInt = decodeT f t" using TBigInt Suc by (simp add: fun_eq_iff)
      show ?thesis
        unfolding decoderT_def by (rule decoder_cong [OF big_decoder _ _ dt]) (simp_all add: TBigInt)
    next
      case (TSlice t')
      then show ?thesis using slice_decoder [of f' t'] IH less.prems Suc by simp
    next
      case (TArray n t')
      then show ?thesis using array_decoder [of f' t' n] IH less.prems Suc by simp
    next
      case (TStruct ts)
      then show ?thesis using struct_decoder [of f' ts] IH less.prems Suc by simp
    next
      case (TPtr t')
      have d: "decoder (decodeT f' t') (wt t') (\<lambda>v. length (venc v) + tdepth t' \<le> f') venc"
        using IH [of f' t'] less.prems TPtr by (simp add: decoderT_def)
      have dt: "decodeT f' t' = decodeT f t" using TPtr Suc by (simp add: fun_eq_iff)
      show ?thesis
        unfolding decoderT_def by (rule decoder_cong [OF d _ _ dt]) (use TPtr Suc in simp_all)
    qed (use less.prems in auto)
  qed
qed


section \<open>Decoding whole inputs\<close>

lemma NewStream_inv:
  assumes "length b < 2 ^ 64"
  shows "stream_inv (NewStream b True (word_of_nat (length b)))" "st_kind (NewStream b True (word_of_nat (length b))) = None"
    "st_r (NewStream b True (word_of_nat (length b))) = b" "room (NewStream b True (word_of_nat (length b))) = length b"
  using assms by (simp_all add: NewStream_def stream_Reset_def zero_stream_def stream_inv_def room_def unat_of_nat)

lemma length_venc_le: "v \<in> set vs \<Longrightarrow> length (venc v) \<le> length (concat (map venc vs))"
  by (induction vs) auto

lemma rlp_ok_to_val: "type_ok t \<Longrightarrow> wt t v \<Longrightarrow> length (venc v) < 2 ^ 64 \<Longrightarrow> rlp_ok (to_val v)"
proof (induction v arbitrary: t)
  case (DBytes b)
  then show ?case using rlp_string_length [of b] by simp
next
  case (DBig i)
  then show ?case using rlp_string_length [of "be_min (nat i)"] by (induction t) auto
next
  case (DList vs)
  have "\<exists>t. type_ok t \<and> wt t v" if "v \<in> set vs" for v
    using DList.prems(1,2) that
  proof (induction t)
    case (TStruct ts)
    then obtain i where "i < length vs" "vs ! i = v" "length vs = length ts" by (auto simp: in_set_conv_nth)
    then have "(ts ! i, v) \<in> set (zip ts vs)" by (auto simp: in_set_zip)
    then have "ts ! i \<in> set ts" "wt (ts ! i) v" using TStruct.prems by (auto dest: set_zip_leftD)
    then show ?case using TStruct.prems by auto
  qed auto
  moreover have l: "length (concat (map venc vs)) < 2 ^ 64" using DList.prems(3) by (simp add: rlp_list_def)
  moreover have "length (venc v) < 2 ^ 64" if "v \<in> set vs" for v
    using length_venc_le [OF that] l by linarith
  ultimately have "rlp_ok (to_val v)" if "v \<in> set vs" for v using DList.IH that by blast
  moreover have "map venc vs = map rlp_enc (map to_val vs)" by (simp add: venc_def)
  ultimately show ?case using l by (simp del: map_map)
qed simp_all

lemma decode_encode:
  assumes "type_ok t" "wt t v" "length (venc v) < 2 ^ 64" "length (venc v) + tdepth t \<le> fuel"
  shows "EncodeToBytes (to_val v) = Inr (Some (venc v)) \<and> DecodeBytes fuel t (venc v) = Inr v"
proof -
  let ?s = "NewStream (venc v) True (word_of_nat (length (venc v)))"
  note i = NewStream_inv [OF assms(3)]
  obtain s' where s': "decodeT fuel t ?s = (Inr v, s')" "reads ?s (venc v) s'"
    using decoderT_complete [OF decoderT_ok [OF assms(1)] i(1,2) assms(2,4), of "[]"] i(3,4) by auto
  have "st_r s' = []" using reads_inv(4) [OF i(1) s'(2)] i(3) by simp
  then have "DecodeBytes fuel t (venc v) = Inr v" using s'(1) by (simp add: DecodeBytes_def)
  moreover have "EncodeToBytes (to_val v) = Inr (Some (venc v))"
    using EncodeToBytes_enc [OF rlp_ok_to_val [OF assms(1,2,3)]] by (simp add: venc_def)
  ultimately show ?thesis by blast
qed



text \<open>
  C20. Only canonical encodings are accepted at a covered type: when decoding succeeds, the result is a
  value of the type and the input is byte for byte what the encoder writes for it. Covered by
  \<open>type_ok\<close> are unsigned integers, booleans, byte slices, byte arrays of a length other than one, big
  integers, and slices, arrays, structs and pointers of covered types.
\<close>

theorem DecodeBytes_canonical:
  assumes "type_ok t" "length b < 2 ^ 64" "DecodeBytes fuel t b = Inr v"
  shows "wt t v \<and> EncodeToBytes (to_val v) = Inr (Some b)"
proof -
  let ?s = "NewStream b True (word_of_nat (length b))"
  note i = NewStream_inv [OF assms(2)]
  obtain s' where s': "decodeT fuel t ?s = (Inr v, s')" "st_r s' = []"
    using assms(3) by (auto simp: DecodeBytes_def split: prod.splits sum.splits if_splits)
  have w: "wt t v" "reads ?s (venc v) s'" using decoderT_sound [OF decoderT_ok [OF assms(1)] i(1,2) s'(1)] by auto
  have "drop (length (venc v)) b = []" using reads_inv(4) [OF i(1) w(2)] s'(2) i(3) by simp
  then have b: "b = venc v" using w(2) i(3) by (simp add: reads_def)
  then show ?thesis
    using w(1) EncodeToBytes_enc [OF rlp_ok_to_val [OF assms(1) w(1)]] assms(2) by (simp add: venc_def)
qed

theorem DecodeBytes_canonical_witness:
  "DecodeBytes 9 (TSlice (TUint 8)) [0xC2, 0x01, 0x7F] = Inr (DList [DUint 1, DUint 127])
   \<and> EncodeToBytes (to_val (DList [DUint 1, DUint 127])) = Inr (Some [0xC2, 0x01, 0x7F])"
proof
  show d: "DecodeBytes 9 (TSlice (TUint 8)) [0xC2, 0x01, 0x7F] = Inr (DList [DUint 1, DUint 127])" by code_simp
  show "EncodeToBytes (to_val (DList [DUint 1, DUint 127])) = Inr (Some [0xC2, 0x01, 0x7F])"
    using DecodeBytes_canonical [OF _ _ d] by simp
qed

section \<open>A decoder that does not end\<close>

text \<open>
  The decoder of an array of one byte ignores the error of \<open>Uint\<close> on the byte zero, and \<open>Uint\<close>
  leaves the byte as the cached value ahead: the same byte is read again and again.
\<close>

definition stuck :: "stream \<Rightarrow> bool" where
  "stuck s \<longleftrightarrow> st_kind s = Some KByte \<and> st_kinderr s = None \<and> st_byteval s = 0"

lemma stuck_step: "stuck s \<Longrightarrow> decodeByteArray 1 s = (Inr (DBytes [0]), s)"
  by (simp add: stuck_def decodeByteArray_def s_bind_def stream_Kind_def stream_Uint_def stream_uint_def)

lemma stuck_loop: "stuck s \<Longrightarrow> decodeSliceElems f (TByteArray 1) s = (Inl ErrOutOfFuel, s)"
proof (induction f)
  case (Suc f)
  have "decodeT f (TByteArray 1) s = (if f = 0 then Inl ErrOutOfFuel else Inr (DBytes [0]), s)"
    using stuck_step [OF Suc.prems] by (cases f) simp_all
  then show ?case using Suc by (simp add: s_bind_def)
qed simp

text \<open>
  C37. A slice of one-byte arrays that contains a zero byte is never decoded: no amount of fuel gives
  a result for the input \<open>C1 00\<close>, the canonical encoding of that slice.
\<close>

theorem decode_byte_array_diverges:
  "DecodeBytes fuel (TSlice (TByteArray 1)) [0xC1, 0x00] = Inl ErrOutOfFuel"
proof (cases fuel)
  case (Suc f)
  obtain s1 where l: "stream_List (NewStream [0xC1, 0x00] True 2) = (Inr 1, s1)" "st_r s1 = [0]" "st_kind s1 = None"
      "st_stack s1 = [(0, 1)]" "st_limited s1" "st_remaining s1 = 1"
    by (simp add: NewStream_def stream_Reset_def zero_stream_def stream_List_def s_bind_def stream_Kind_def Let_def
        stream_readKind_def readByte_def willRead_def)
  have k: "\<exists>s2. stream_Kind s1 = (Inr (KByte, 0), s2) \<and> stuck s2"
    using l by (simp add: stream_Kind_def Let_def stream_readKind_def readByte_def willRead_def s_bind_def stuck_def)
  then obtain s2 where s2: "stream_Kind s1 = (Inr (KByte, 0), s2)" "stuck s2" by blast
  have b: "decodeByteArray 1 s1 = (Inr (DBytes [0]), s2)"
    using s2 Kind_again [OF s2(1)]
    by (simp add: stuck_def decodeByteArray_def s_bind_def stream_Uint_def stream_uint_def)
  have "decodeSliceElems f (TByteArray 1) s1 = (Inl ErrOutOfFuel, if f \<le> 1 then s1 else s2)"
  proof (cases f)
    case (Suc g)
    have "decodeT g (TByteArray 1) s1 = (if g = 0 then (Inl ErrOutOfFuel, s1) else (Inr (DBytes [0]), s2))"
      using b by (cases g) simp_all
    then show ?thesis using Suc stuck_loop [OF s2(2), of g] by (simp add: s_bind_def)
  qed simp
  then show ?thesis using Suc l(1) by (simp add: DecodeBytes_def decodeListSlice_def s_bind_def)
qed (simp add: DecodeBytes_def)

end
