(* ===== verification/Trie_Node.thy ===== *)
theory Trie_Node
  imports Trie_Encoding RLP_Raw
begin

text \<open>
  The nodes of a trie and their decoding, \<^verbatim>\<open>pkg/trie/node.go\<close>. The Go interface value nil is
  \<open>NilNode\<close>. A decoding error carries the path that \<open>wrapError\<close> collects; a panic of the code it
  calls is \<open>NodePanic\<close>. Shown: decoding satisfies the recursion of the source (the fuel is always
  enough); that it inverts the encoding of a node is shown with the commit, in \<^verbatim>\<open>Trie_Commit\<close>.
\<close>

section \<open>Nodes\<close>

record nodeFlag =
  nf_hash :: "bytes option"
  nf_gen :: u16
  nf_dirty :: bool

datatype node =
    NilNode
  | FullNode "node list" nodeFlag
  | ShortNode bytes node nodeFlag
  | HashNode bytes
  | ValueNode bytes

definition flag_canUnload :: "nodeFlag \<Rightarrow> u16 \<Rightarrow> u16 \<Rightarrow> bool" where
  "flag_canUnload n cachegen cachelimit \<longleftrightarrow> \<not> nf_dirty n \<and> cachegen - nf_gen n \<ge> cachelimit"

fun node_canUnload :: "node \<Rightarrow> u16 \<Rightarrow> u16 \<Rightarrow> bool" where
  "node_canUnload (FullNode cs fl) gen limit = flag_canUnload fl gen limit"
| "node_canUnload (ShortNode k v fl) gen limit = flag_canUnload fl gen limit"
| "node_canUnload _ gen limit = False"

fun node_cache :: "node \<Rightarrow> bytes option \<times> bool" where
  "node_cache (FullNode cs fl) = (nf_hash fl, nf_dirty fl)"
| "node_cache (ShortNode k v fl) = (nf_hash fl, nf_dirty fl)"
| "node_cache _ = (None, True)"

section \<open>Decoding\<close>

datatype node_error =
    NodeEOF
  | NodeRLP rlp_error
  | NodeListCount nat
  | NodeOversized nat
  | NodeRefSize nat
  | NodePanic
  | NodeOutOfFuel

datatype decode_ctx = CtxShort | CtxFull | CtxVal | CtxChild nat

type_synonym decodeError = "node_error \<times> decode_ctx list"

definition wrapError :: "decodeError + 'a \<Rightarrow> decode_ctx \<Rightarrow> decodeError + 'a" where
  "wrapError r ctx = (case r of Inl (what, stack) \<Rightarrow> Inl (what, stack @ [ctx]) | Inr x \<Rightarrow> Inr x)"

text \<open>An error of the splitter, as it surfaces in a decoding function.\<close>

definition lift_rlp :: "rlp_error + 'a \<Rightarrow> decodeError + 'a" where
  "lift_rlp r = (case r of
      Inl e \<Rightarrow> Inl (if e = ErrIndexPanic then NodePanic else NodeRLP e, [])
    | Inr x \<Rightarrow> Inr x)"

definition hashLen :: nat where
  "hashLen = 32"

text \<open>
  \<open>decodeNode\<close>, \<open>decodeShort\<close>, \<open>decodeFull\<close> and \<open>decodeRef\<close> call each other. The three helpers take
  the recursive call as an argument, and \<open>decodeNodeN\<close> closes the loop with fuel for the depth of
  embedded nodes; \<open>decodeNode\<close> starts it with the length of the buffer.
\<close>

type_synonym node_decoder = "bytes option \<Rightarrow> bytes \<Rightarrow> u16 \<Rightarrow> decodeError + node"

definition decodeRef :: "node_decoder \<Rightarrow> bytes \<Rightarrow> u16 \<Rightarrow> decodeError + node \<times> bytes" where
  "decodeRef dec buf cachegen =
     go_bind (lift_rlp (Split buf)) (\<lambda>(kind, val, rest).
       if kind = KList then
         (if length buf - length rest > hashLen then Inl (NodeOversized (length buf - length rest), [])
          else go_bind (dec None buf cachegen) (\<lambda>n. Inr (n, rest)))
       else if kind = KString \<and> length val = 0 then Inr (NilNode, rest)
       else if kind = KString \<and> length val = 32 then Inr (HashNode val, rest)
       else Inl (NodeRefSize (length val), []))"

definition decodeShort :: "node_decoder \<Rightarrow> bytes option \<Rightarrow> bytes \<Rightarrow> u16 \<Rightarrow> decodeError + node" where
  "decodeShort dec hash elems cachegen =
     go_bind (lift_rlp (SplitString elems)) (\<lambda>(kbuf, rest).
       let flag = \<lparr>nf_hash = hash, nf_gen = cachegen, nf_dirty = False\<rparr>
       in (case compactToHex kbuf of
             None \<Rightarrow> Inl (NodePanic, [])
           | Some key \<Rightarrow>
               if hasTerm key then
                 go_bind (lift_rlp (SplitString rest)) (\<lambda>(val, _). Inr (ShortNode key (ValueNode val) flag))
               else go_bind (wrapError (decodeRef dec rest cachegen) CtxVal) (\<lambda>(r, _).
                 Inr (ShortNode key r flag))))"

text \<open>The loop of \<open>decodeFull\<close> reads children \<open>i, ..., 15\<close>; \<open>m\<close> is how many are left.\<close>

fun decodeFull_loop :: "node_decoder \<Rightarrow> u16 \<Rightarrow> nat \<Rightarrow> nat \<Rightarrow> bytes \<Rightarrow> decodeError + node list \<times> bytes" where
  "decodeFull_loop dec cachegen i 0 elems = Inr ([], elems)"
| "decodeFull_loop dec cachegen i (Suc m) elems =
     go_bind (wrapError (decodeRef dec elems cachegen) (CtxChild i)) (\<lambda>(cld, rest).
       go_bind (decodeFull_loop dec cachegen (Suc i) m rest) (\<lambda>(cs, rest'). Inr (cld # cs, rest')))"

definition decodeFull :: "node_decoder \<Rightarrow> bytes option \<Rightarrow> bytes \<Rightarrow> u16 \<Rightarrow> decodeError + node" where
  "decodeFull dec hash elems cachegen =
     go_bind (decodeFull_loop dec cachegen 0 16 elems) (\<lambda>(cs, rest).
       go_bind (lift_rlp (SplitString rest)) (\<lambda>(val, _).
         Inr (FullNode (cs @ [if length val > 0 then ValueNode val else NilNode])
                \<lparr>nf_hash = hash, nf_gen = cachegen, nf_dirty = False\<rparr>)))"

text \<open>
  The error of \<open>CountValues\<close> is dropped by the code, which then sees the count 0; its index panic
  is not.
\<close>

definition decodeNode_body :: "node_decoder \<Rightarrow> node_decoder" where
  "decodeNode_body dec hash buf cachegen =
     (if length buf = 0 then Inl (NodeEOF, [])
      else go_bind (lift_rlp (SplitList buf)) (\<lambda>(elems, _).
        let count = (case CountValues elems of Inr c \<Rightarrow> Inr c
                     | Inl e \<Rightarrow> if e = ErrIndexPanic then Inl (NodePanic, []) else Inr 0)
        in go_bind count (\<lambda>c.
          if c = 2 then wrapError (decodeShort dec hash elems cachegen) CtxShort
          else if c = 17 then wrapError (decodeFull dec hash elems cachegen) CtxFull
          else Inl (NodeListCount c, []))))"

fun decodeNodeN :: "nat \<Rightarrow> node_decoder" where
  "decodeNodeN 0 hash buf cachegen = Inl (NodeOutOfFuel, [])"
| "decodeNodeN (Suc f) hash buf cachegen = decodeNode_body (decodeNodeN f) hash buf cachegen"

definition decodeNode :: node_decoder where
  "decodeNode hash buf cachegen = decodeNodeN (Suc (length buf)) hash buf cachegen"

text \<open>\<open>mustDecodeNode\<close> panics on every error.\<close>

definition mustDecodeNode :: "bytes option \<Rightarrow> bytes \<Rightarrow> u16 \<Rightarrow> node option" where
  "mustDecodeNode hash buf cachegen =
     (case decodeNode hash buf cachegen of Inl e \<Rightarrow> None | Inr n \<Rightarrow> Some n)"

section \<open>The fuel is enough\<close>

lemma Split_rest_shorter:
  assumes "Split b = Inr (k, c, rest)" "length b < 2 ^ 64"
  shows "length rest < length b" "length c \<le> length b"
proof -
  have "b = rlp_item k c @ rest" "item_ok k c" using Split_Inr [OF assms] by auto
  then show "length rest < length b" "length c \<le> length b"
    using rlp_item_nonempty [of k c] length_rlp_item [of c k] by auto
qed

lemma SplitString_rest_shorter:
  "SplitString b = Inr (c, rest) \<Longrightarrow> length b < 2 ^ 64 \<Longrightarrow> length rest < length b"
  using Split_rest_shorter(1) by (fastforce simp: SplitString_def go_bind_Inr_iff split: if_splits)

lemma SplitList_content_shorter:
  assumes "SplitList b = Inr (c, rest)" "length b < 2 ^ 64"
  shows "length c < length b"
proof -
  have "b = rlp_list c @ rest" using SplitList_Inr assms by blast
  then show ?thesis by (cases "rlp_head 0xC0 0xF7 (length c)") (auto simp: rlp_list_def)
qed

lemma lift_rlp_Inr [simp]: "lift_rlp r = Inr x \<longleftrightarrow> r = Inr x"
  by (cases r) (simp_all add: lift_rlp_def)

lemma wrapError_Inr [simp]: "wrapError r c = Inr x \<longleftrightarrow> r = Inr x"
  by (cases r) (auto simp: wrapError_def)

text \<open>Two decoders that agree on all inputs up to a length give the same results there.\<close>

definition agree_upto :: "nat \<Rightarrow> node_decoder \<Rightarrow> node_decoder \<Rightarrow> bool" where
  "agree_upto n d d' \<longleftrightarrow> (\<forall>h b g. length b \<le> n \<longrightarrow> d h b g = d' h b g)"

lemma decodeRef_cong: "agree_upto (length b) d d' \<Longrightarrow> decodeRef d b g = decodeRef d' b g"
proof -
  assume "agree_upto (length b) d d'"
  then have "d None b g = d' None b g" by (simp add: agree_upto_def)
  then show ?thesis by (simp only: decodeRef_def)
qed

lemma agree_upto_mono: "agree_upto n d d' \<Longrightarrow> m \<le> n \<Longrightarrow> agree_upto m d d'"
  by (simp add: agree_upto_def)

lemma go_bind_cong: "r = r' \<Longrightarrow> (\<And>x. r' = Inr x \<Longrightarrow> f x = f' x) \<Longrightarrow> go_bind r f = go_bind r' f'"
  by (cases r') (auto simp: go_bind_def)

lemma decodeRef_rest_shorter:
  "decodeRef d b g = Inr (n, rest) \<Longrightarrow> length b < 2 ^ 64 \<Longrightarrow> length rest < length b"
  using Split_rest_shorter(1) by (fastforce simp: decodeRef_def go_bind_Inr_iff split: if_splits)

lemma decodeFull_loop_cong:
  "agree_upto (length b) d d' \<Longrightarrow> length b < 2 ^ 64 \<Longrightarrow>
     decodeFull_loop d g i m b = decodeFull_loop d' g i m b"
proof (induction m arbitrary: i b)
  case (Suc m)
  have "decodeFull_loop d g (Suc i) m rest = decodeFull_loop d' g (Suc i) m rest"
    if "decodeRef d' b g = Inr (c, rest)" for c rest
  proof -
    have "length rest \<le> length b" using decodeRef_rest_shorter [OF that Suc.prems(2)] by simp
    then show ?thesis using Suc agree_upto_mono by auto
  qed
  then show ?case
    unfolding decodeFull_loop.simps
    by (intro go_bind_cong) (auto simp: decodeRef_cong [OF Suc.prems(1)])
qed simp

lemma decodeNode_body_cong:
  assumes "agree_upto (length b - 1) d d'" "length b < 2 ^ 64"
  shows "decodeNode_body d h b g = decodeNode_body d' h b g"
proof -
  have "decodeShort d h elems g = decodeShort d' h elems g \<and> decodeFull d h elems g = decodeFull d' h elems g"
    if "SplitList b = Inr (elems, r)" for elems r
  proof -
    have len: "length elems < length b" using SplitList_content_shorter that assms(2) by blast
    then have ag: "agree_upto (length elems) d d'" using assms(1) agree_upto_mono by auto
    have "decodeRef d rest g = decodeRef d' rest g" if "SplitString elems = Inr (k, rest)" for k rest
      using SplitString_rest_shorter [OF that] len assms(2) ag agree_upto_mono [OF ag]
      by (intro decodeRef_cong) auto
    then have "decodeShort d h elems g = decodeShort d' h elems g"
      unfolding decodeShort_def by (intro go_bind_cong) (auto simp: Let_def split: option.split)
    moreover have "decodeFull d h elems g = decodeFull d' h elems g"
      using decodeFull_loop_cong [OF ag] len assms(2) by (simp add: decodeFull_def)
    ultimately show ?thesis by blast
  qed
  then show ?thesis
    unfolding decodeNode_body_def Let_def by (auto intro!: go_bind_cong)
qed

lemma decodeNodeN_enough:
  "length b < f \<Longrightarrow> length b < f' \<Longrightarrow> length b < 2 ^ 64 \<Longrightarrow> decodeNodeN f h b g = decodeNodeN f' h b g"
proof (induction f arbitrary: f' h b g)
  case (Suc f)
  then obtain k where k: "f' = Suc k" by (cases f') auto
  show ?case
  proof (cases b)
    case Nil
    then show ?thesis by (simp add: k decodeNode_body_def)
  next
    case (Cons x xs)
    then have "agree_upto (length b - 1) (decodeNodeN f) (decodeNodeN k)"
      using Suc.prems k by (auto simp: agree_upto_def intro!: Suc.IH)
    then show ?thesis using decodeNode_body_cong Suc.prems(3) by (simp add: k)
  qed
qed simp

lemma decodeNode_unfold:
  assumes "length b < 2 ^ 64"
  shows "decodeNode h b g = decodeNode_body decodeNode h b g"
proof (cases b)
  case Nil
  then show ?thesis by (simp add: decodeNode_def decodeNode_body_def)
next
  case (Cons x xs)
  have "agree_upto (length b - 1) (decodeNodeN (length b)) decodeNode"
    using assms Cons unfolding agree_upto_def decodeNode_def
    by (auto simp del: decodeNodeN.simps intro!: decodeNodeN_enough)
  then show ?thesis
    using decodeNode_body_cong assms by (simp add: decodeNode_def)
qed

end
