(* ===== verification/Common_Types.thy ===== *)
theory Common_Types
  imports Go_Prelude
begin

text \<open>
  Hashes and addresses of \<^verbatim>\<open>pkg/common/types.go\<close>: fixed-size byte arrays, filled from the right
  with the last bytes of a slice. \<open>SetBytes\<close> leaves the bytes in front of a shorter slice as they
  are; the constructors start from the zero array.
\<close>

type_synonym hash = bytes
type_synonym address = bytes

definition HashLength :: nat where
  "HashLength = 32"

definition AddressLength :: nat where
  "AddressLength = 20"

definition array_SetBytes :: "nat \<Rightarrow> bytes \<Rightarrow> bytes \<Rightarrow> bytes" where
  "array_SetBytes n a b = (let b' = (if length b > n then drop (length b - n) b else b) in take (n - length b') a @ b')"

definition Hash_SetBytes :: "hash \<Rightarrow> bytes \<Rightarrow> hash" where
  "Hash_SetBytes h b = array_SetBytes HashLength h b"

definition Address_SetBytes :: "address \<Rightarrow> bytes \<Rightarrow> address" where
  "Address_SetBytes a b = array_SetBytes AddressLength a b"

definition BytesToHash :: "bytes \<Rightarrow> hash" where
  "BytesToHash b = Hash_SetBytes (replicate HashLength 0) b"

definition BytesToAddress :: "bytes \<Rightarrow> address" where
  "BytesToAddress b = Address_SetBytes (replicate AddressLength 0) b"

definition BigToHash :: "int \<Rightarrow> hash" where
  "BigToHash b = BytesToHash (be_min (nat \<bar>b\<bar>))"

definition BigToAddress :: "int \<Rightarrow> address" where
  "BigToAddress b = BytesToAddress (be_min (nat \<bar>b\<bar>))"

definition Hash_Big :: "hash \<Rightarrow> int" where
  "Hash_Big h = int (be_val h)"

definition Address_Hash :: "address \<Rightarrow> hash" where
  "Address_Hash a = BytesToHash a"

text \<open>The zero value of the Go type \<open>Hash\<close>.\<close>

definition zeroHash :: hash where
  "zeroHash = replicate 32 0"

definition EmptyHash :: "hash \<Rightarrow> bool" where
  "EmptyHash h \<longleftrightarrow> h = replicate HashLength 0"

lemma length_array_SetBytes: "length a = n \<Longrightarrow> length (array_SetBytes n a b) = n"
  by (auto simp: array_SetBytes_def Let_def)

lemma length_BytesToHash [simp]: "length (BytesToHash b) = 32"
  using length_array_SetBytes [of "replicate HashLength 0" HashLength b]
  by (simp add: BytesToHash_def Hash_SetBytes_def HashLength_def)

lemma length_BytesToAddress [simp]: "length (BytesToAddress b) = 20"
  using length_array_SetBytes [of "replicate AddressLength 0" AddressLength b]
  by (simp add: BytesToAddress_def Address_SetBytes_def AddressLength_def)

lemma BytesToHash_id [simp]: "length h = 32 \<Longrightarrow> BytesToHash h = h"
  by (simp add: BytesToHash_def Hash_SetBytes_def array_SetBytes_def HashLength_def)

lemma BytesToAddress_id [simp]: "length a = 20 \<Longrightarrow> BytesToAddress a = a"
  by (simp add: BytesToAddress_def Address_SetBytes_def array_SetBytes_def AddressLength_def)

lemma be_val_replicate_0: "be_val (replicate n 0 @ b) = be_val b"
  by (induction n) (simp_all add: be_val_append)

lemma Hash_Big_BytesToHash: "length b \<le> 32 \<Longrightarrow> Hash_Big (BytesToHash b) = int (be_val b)"
  by (simp add: Hash_Big_def BytesToHash_def Hash_SetBytes_def array_SetBytes_def HashLength_def
      Let_def be_val_replicate_0)

end
