(* ===== verification/KV_Store.thy ===== *)
theory KV_Store
  imports Go_Prelude
begin

text \<open>
  The interface of a key-value store whose operations may not return, may fail, or give a result,
  and what a client can rely on. The trie, the secure trie and the tries of the consensus context
  provide it; each interprets the locale in its own theory.
\<close>

type_synonym ('e, 'a) outcome = "('e + 'a) option"

definition out_bind :: "('e, 'a) outcome \<Rightarrow> ('a \<Rightarrow> ('e, 'b) outcome) \<Rightarrow> ('e, 'b) outcome" where
  "out_bind r f = Option.bind r (\<lambda>s. case s of Inl e \<Rightarrow> Some (Inl e) | Inr x \<Rightarrow> f x)"

text \<open>A sequence of operations and its run, on a store and on a map.\<close>

datatype ('k, 'v) store_op = OGet 'k | OUpdate 'k 'v | ODelete 'k

fun op_key :: "('k, 'v) store_op \<Rightarrow> 'k" where
  "op_key (OGet k) = k"
| "op_key (OUpdate k v) = k"
| "op_key (ODelete k) = k"

fun run_store ::
  "('s \<Rightarrow> 'k \<Rightarrow> ('e, 'v option \<times> 's) outcome) \<Rightarrow> ('s \<Rightarrow> 'k \<Rightarrow> 'v \<Rightarrow> ('e, 's) outcome) \<Rightarrow>
   ('s \<Rightarrow> 'k \<Rightarrow> ('e, 's) outcome) \<Rightarrow> 's \<Rightarrow> ('k, 'v) store_op list \<Rightarrow> ('e, 'v option list \<times> 's) outcome" where
  "run_store get upd del s [] = Some (Inr ([], s))"
| "run_store get upd del s (OGet k # ops) =
     out_bind (get s k) (\<lambda>(r, s'). out_bind (run_store get upd del s' ops) (\<lambda>(rs, s''). Some (Inr (r # rs, s''))))"
| "run_store get upd del s (OUpdate k v # ops) = out_bind (upd s k v) (\<lambda>s'. run_store get upd del s' ops)"
| "run_store get upd del s (ODelete k # ops) = out_bind (del s k) (\<lambda>s'. run_store get upd del s' ops)"

fun run_map :: "('v \<Rightarrow> bool) \<Rightarrow> ('k \<rightharpoonup> 'v) \<Rightarrow> ('k, 'v) store_op list \<Rightarrow> 'v option list \<times> ('k \<rightharpoonup> 'v)" where
  "run_map blank m [] = ([], m)"
| "run_map blank m (OGet k # ops) = (let (rs, m') = run_map blank m ops in (m k # rs, m'))"
| "run_map blank m (OUpdate k v # ops) = run_map blank (if blank v then m(k := None) else m(k \<mapsto> v)) ops"
| "run_map blank m (ODelete k # ops) = run_map blank (m(k := None)) ops"

lemma out_bind_simps [simp]:
  "out_bind (Some (Inr x)) f = f x"
  "out_bind (Some (Inl e)) f = Some (Inl e)"
  "out_bind None f = None"
  by (simp_all add: out_bind_def)

lemma out_bind_mono [partial_function_mono]:
  assumes "mono_option B" "\<And>y. mono_option (\<lambda>f. C y f)"
  shows "mono_option (\<lambda>f. out_bind (B f) (\<lambda>y. C y f))"
proof -
  have "mono_option (\<lambda>f. case s of Inl e \<Rightarrow> Some (Inl e) | Inr x \<Rightarrow> C x f)" for s
    using assms(2) by (cases s) (simp_all add: option.const_mono)
  then show ?thesis unfolding out_bind_def by (rule bind_mono [OF assms(1)])
qed

lemma out_bind_Inr_iff:
  "out_bind r f = Some (Inr y) \<longleftrightarrow> (\<exists>x. r = Some (Inr x) \<and> f x = Some (Inr y))"
  by (cases r) (auto simp: out_bind_def split: sum.splits)

text \<open>
  The interface. \<open>represents s m\<close>: the store holds the map; \<open>okk\<close> are the keys a client may use, and
  a blank value is one whose update is a deletion.
\<close>

locale kv_store =
  fixes represents :: "'s \<Rightarrow> ('k \<rightharpoonup> 'v) \<Rightarrow> bool"
    and get :: "'s \<Rightarrow> 'k \<Rightarrow> ('e, 'v option \<times> 's) outcome"
    and update :: "'s \<Rightarrow> 'k \<Rightarrow> 'v \<Rightarrow> ('e, 's) outcome"
    and delete :: "'s \<Rightarrow> 'k \<Rightarrow> ('e, 's) outcome"
    and blank :: "'v \<Rightarrow> bool"
    and okk :: "'k \<Rightarrow> bool"
  assumes get_law: "represents s m \<Longrightarrow> okk k \<Longrightarrow> \<exists>s'. get s k = Some (Inr (m k, s')) \<and> represents s' m"
    and update_law: "represents s m \<Longrightarrow> okk k \<Longrightarrow>
      \<exists>s'. update s k v = Some (Inr s') \<and> represents s' (if blank v then m(k := None) else m(k \<mapsto> v))"
    and delete_law: "represents s m \<Longrightarrow> okk k \<Longrightarrow>
      \<exists>s'. delete s k = Some (Inr s') \<and> represents s' (m(k := None))"
begin

lemma run_refines:
  "represents s m \<Longrightarrow> \<forall>a \<in> set ops. okk (op_key a) \<Longrightarrow>
     \<exists>s'. run_store get update delete s ops = Some (Inr (fst (run_map blank m ops), s'))
       \<and> represents s' (snd (run_map blank m ops))"
proof (induction ops arbitrary: s m)
  case (Cons a ops)
  show ?case
  proof (cases a)
    case (OGet k)
    obtain s1 where "get s k = Some (Inr (m k, s1))" "represents s1 m"
      using get_law Cons.prems OGet by fastforce
    with Cons.IH [of s1 m] Cons.prems OGet show ?thesis
      by (cases "run_map blank m ops") auto
  next
    case (OUpdate k v)
    obtain s1 where s1: "update s k v = Some (Inr s1)" "represents s1 (if blank v then m(k := None) else m(k \<mapsto> v))"
      using update_law Cons.prems OUpdate by fastforce
    have "\<forall>a \<in> set ops. okk (op_key a)" using Cons.prems by simp
    from Cons.IH [OF s1(2) this] s1(1) OUpdate show ?thesis by simp
  next
    case (ODelete k)
    obtain s1 where s1: "delete s k = Some (Inr s1)" "represents s1 (m(k := None))"
      using delete_law Cons.prems ODelete by fastforce
    have "\<forall>a \<in> set ops. okk (op_key a)" using Cons.prems by simp
    from Cons.IH [OF s1(2) this] show ?thesis
      unfolding ODelete by (simp only: run_store.simps run_map.simps s1 out_bind_simps)
  qed
qed simp

lemma get_after_update:
  assumes "represents s m" "okk k" "okk k'" "\<not> blank v"
  obtains s1 s2 where "update s k v = Some (Inr s1)"
    "get s1 k' = Some (Inr (if k' = k then Some v else m k', s2))"
proof -
  obtain s1 where s1: "update s k v = Some (Inr s1)" "represents s1 (m(k \<mapsto> v))"
    using update_law [OF assms(1,2), of v] assms(4) by auto
  then show ?thesis using get_law [OF s1(2) assms(3)] that by fastforce
qed

end

end
