(* ===== verification/Trie_Ops.thy ===== *)
theory Trie_Ops
  imports Trie_Pure Trie_Node Common_Types KV_Store
begin

text \<open>
  The operations of \<^verbatim>\<open>pkg/trie/trie.go\<close> on nodes with hash references and cache flags. The
  database the trie reads is a partial function from hashes to encodings. Recursion through the
  database need not end for an arbitrary one, so the recursive operations are partial functions:
  \<open>None\<close> is not returning. Shown: when the root stands for a canonical tree, each operation
  returns, without error, and refines the operation of \<open>Trie_Pure\<close>.
\<close>

section \<open>Definitions\<close>

record trie =
  t_root :: node
  t_db :: "bytes \<rightharpoonup> bytes"
  t_originalRoot :: bytes
  t_prefix :: "bytes option"
  t_cachegen :: u16
  t_cachelimit :: u16

datatype trie_error = MissingNodeError bytes bytes | PutFailed | TriePanic

type_synonym 'a trie_result = "(trie_error, 'a) outcome"

definition SetCacheLimit :: "u16 \<Rightarrow> trie \<Rightarrow> trie" where
  "SetCacheLimit l t = t\<lparr>t_cachelimit := l\<rparr>"

definition newFlag :: "trie \<Rightarrow> nodeFlag" where
  "newFlag t = \<lparr>nf_hash = None, nf_gen = t_cachegen t, nf_dirty = True\<rparr>"

definition resolveHash :: "trie \<Rightarrow> bytes \<Rightarrow> bytes \<Rightarrow> trie_error + node" where
  "resolveHash t n prefix =
     (case t_db t n of
        None \<Rightarrow> Inl (MissingNodeError (BytesToHash n) prefix)
      | Some enc \<Rightarrow> (case mustDecodeNode (Some n) enc (t_cachegen t) of
            None \<Rightarrow> Inl TriePanic
          | Some dec \<Rightarrow> Inr dec))"

definition resolve :: "trie \<Rightarrow> node \<Rightarrow> bytes \<Rightarrow> trie_error + node" where
  "resolve t n prefix = (case n of HashNode h \<Rightarrow> resolveHash t h prefix | _ \<Rightarrow> Inr n)"

partial_function (option) tryGet ::
  "trie \<Rightarrow> node \<Rightarrow> bytes \<Rightarrow> nat \<Rightarrow> (bytes option \<times> node \<times> bool) trie_result" where
  "tryGet t origNode key pos =
     (case origNode of
        NilNode \<Rightarrow> Some (Inr (None, NilNode, False))
      | ValueNode v \<Rightarrow> Some (Inr (Some v, ValueNode v, False))
      | ShortNode k val fl \<Rightarrow>
          if length key - pos < length k \<or> k \<noteq> take (length k) (drop pos key)
          then Some (Inr (None, origNode, False))
          else out_bind (tryGet t val key (pos + length k)) (\<lambda>(value, newnode, didResolve).
            Some (Inr (value,
              if didResolve then ShortNode k newnode (fl\<lparr>nf_gen := t_cachegen t\<rparr>) else origNode,
              didResolve)))
      | FullNode cs fl \<Rightarrow>
          if length key \<le> pos \<or> length cs \<le> unat (key ! pos) then Some (Inl TriePanic)
          else out_bind (tryGet t (cs ! unat (key ! pos)) key (pos + 1)) (\<lambda>(value, newnode, didResolve).
            Some (Inr (value,
              if didResolve then FullNode (cs [unat (key ! pos) := newnode]) (fl\<lparr>nf_gen := t_cachegen t\<rparr>)
              else origNode,
              didResolve)))
      | HashNode h \<Rightarrow>
          (case resolveHash t h (take pos key) of
             Inl e \<Rightarrow> Some (Inl e)
           | Inr child \<Rightarrow> out_bind (tryGet t child key pos) (\<lambda>(value, newnode, _).
               Some (Inr (value, newnode, True)))))"

definition branch_children :: "node list" where
  "branch_children = replicate 17 NilNode"

partial_function (option) trie_insert ::
  "trie \<Rightarrow> node \<Rightarrow> bytes \<Rightarrow> bytes \<Rightarrow> node \<Rightarrow> (bool \<times> node) trie_result" where
  "trie_insert t n prefix key value =
     (if key = [] then
        (case n of
           ValueNode v \<Rightarrow> (case value of ValueNode w \<Rightarrow> Some (Inr (v \<noteq> w, value)) | _ \<Rightarrow> Some (Inl TriePanic))
         | _ \<Rightarrow> Some (Inr (True, value)))
      else
        (case n of
           ShortNode k val fl \<Rightarrow>
             (let matchlen = prefixLen key k
              in if matchlen = length k then
                   out_bind (trie_insert t val (prefix @ take matchlen key) (drop matchlen key) value) (\<lambda>(dirty, nn).
                     if \<not> dirty then Some (Inr (False, n))
                     else Some (Inr (True, ShortNode k nn (newFlag t))))
                 else
                   out_bind (trie_insert t NilNode (prefix @ take (matchlen + 1) k) (drop (matchlen + 1) k) val) (\<lambda>(_, c1).
                     if 17 \<le> unat (k ! matchlen) \<or> length key \<le> matchlen \<or> 17 \<le> unat (key ! matchlen)
                     then Some (Inl TriePanic)
                     else out_bind (trie_insert t NilNode (prefix @ take (matchlen + 1) key) (drop (matchlen + 1) key) value) (\<lambda>(_, c2).
                       let branch = FullNode ((branch_children [unat (k ! matchlen) := c1]) [unat (key ! matchlen) := c2]) (newFlag t)
                       in if matchlen = 0 then Some (Inr (True, branch))
                          else Some (Inr (True, ShortNode (take matchlen key) branch (newFlag t))))))
         | FullNode cs fl \<Rightarrow>
             if length cs \<le> unat (hd key) then Some (Inl TriePanic)
             else out_bind (trie_insert t (cs ! unat (hd key)) (prefix @ [hd key]) (tl key) value) (\<lambda>(dirty, nn).
               if \<not> dirty then Some (Inr (False, n))
               else Some (Inr (True, FullNode (cs [unat (hd key) := nn]) (newFlag t))))
         | NilNode \<Rightarrow> Some (Inr (True, ShortNode key value (newFlag t)))
         | HashNode h \<Rightarrow>
             (case resolveHash t h prefix of
                Inl e \<Rightarrow> Some (Inl e)
              | Inr rn \<Rightarrow> out_bind (trie_insert t rn prefix key value) (\<lambda>(dirty, nn).
                  if \<not> dirty then Some (Inr (False, rn)) else Some (Inr (True, nn))))
         | ValueNode v \<Rightarrow> Some (Inl TriePanic)))"

text \<open>The loop over the children of a reduced branch: -1 no child, -2 several, else the only one.\<close>

fun child_pos :: "nat \<Rightarrow> int \<Rightarrow> node list \<Rightarrow> int" where
  "child_pos i pos [] = pos"
| "child_pos i pos (cld # cs) =
     (if cld \<noteq> NilNode then (if pos = -1 then child_pos (Suc i) (int i) cs else -2)
      else child_pos (Suc i) pos cs)"

partial_function (option) trie_delete ::
  "trie \<Rightarrow> node \<Rightarrow> bytes \<Rightarrow> bytes \<Rightarrow> (bool \<times> node) trie_result" where
  "trie_delete t n prefix key =
     (case n of
        ShortNode k val fl \<Rightarrow>
          (let matchlen = prefixLen key k
           in if matchlen < length k then Some (Inr (False, n))
              else if matchlen = length key then Some (Inr (True, NilNode))
              else out_bind (trie_delete t val (prefix @ take (length k) key) (drop (length k) key)) (\<lambda>(dirty, child).
                if \<not> dirty then Some (Inr (False, n))
                else (case child of
                    ShortNode ck cv cf \<Rightarrow> Some (Inr (True, ShortNode (trie_concat k ck) cv (newFlag t)))
                  | _ \<Rightarrow> Some (Inr (True, ShortNode k child (newFlag t))))))
      | FullNode cs fl \<Rightarrow>
          if key = [] \<or> length cs \<le> unat (hd key) then Some (Inl TriePanic)
          else out_bind (trie_delete t (cs ! unat (hd key)) (prefix @ [hd key]) (tl key)) (\<lambda>(dirty, nn).
            if \<not> dirty then Some (Inr (False, n))
            else
              (let cs' = cs [unat (hd key) := nn];
                   pos = child_pos 0 (-1) cs';
                   single = Some (Inr (True, ShortNode [word_of_int pos] (cs' ! nat pos) (newFlag t)))
               in if 0 \<le> pos then
                    (if pos \<noteq> 16 then
                       (case resolve t (cs' ! nat pos) prefix of
                          Inl e \<Rightarrow> Some (Inl e)
                        | Inr cnode \<Rightarrow> (case cnode of
                              ShortNode ck cv cf \<Rightarrow>
                                Some (Inr (True, ShortNode ([word_of_int pos] @ ck) cv (newFlag t)))
                            | _ \<Rightarrow> single))
                     else single)
                  else Some (Inr (True, FullNode cs' (newFlag t)))))
      | ValueNode v \<Rightarrow> Some (Inr (True, NilNode))
      | NilNode \<Rightarrow> Some (Inr (False, NilNode))
      | HashNode h \<Rightarrow>
          (case resolveHash t h prefix of
             Inl e \<Rightarrow> Some (Inl e)
           | Inr rn \<Rightarrow> out_bind (trie_delete t rn prefix key) (\<lambda>(dirty, nn).
               if \<not> dirty then Some (Inr (False, rn)) else Some (Inr (True, nn)))))"


section \<open>The tree a node stands for\<close>

text \<open>
  Hash references are followed in the database. The cache flags must satisfy the predicate \<open>F\<close> of
  the subtree at which they sit; the index says whether the node is the root of its trie.
\<close>

inductive expands :: "(bool \<Rightarrow> nodeFlag \<Rightarrow> ptrie \<Rightarrow> bool) \<Rightarrow> (bytes \<rightharpoonup> bytes) \<Rightarrow> u16 \<Rightarrow> bool \<Rightarrow> node \<Rightarrow> ptrie \<Rightarrow> bool"
  for F db g where
  exp_nil: "expands F db g b NilNode PNil"
| exp_val: "expands F db g b (ValueNode v) (PVal v)"
| exp_short: "expands F db g False n p \<Longrightarrow> F b fl (PShort k p) \<Longrightarrow> expands F db g b (ShortNode k n fl) (PShort k p)"
| exp_full: "length cs = length ps \<Longrightarrow> (\<And>i. i < length cs \<Longrightarrow> expands F db g False (cs ! i) (ps ! i)) \<Longrightarrow>
     F b fl (PFull ps) \<Longrightarrow> expands F db g b (FullNode cs fl) (PFull ps)"
| exp_hash: "db h = Some enc \<Longrightarrow> mustDecodeNode (Some h) enc g = Some n \<Longrightarrow> expands F db g b n p \<Longrightarrow>
     expands F db g b (HashNode h) p"

inductive_cases expands_HashE: "expands F db g b (HashNode h) p"
inductive_cases expands_PShortE: "expands F db g b n (PShort k p)"
inductive_simps expands_simps:
  "expands F db g b NilNode p"
  "expands F db g b (ValueNode v) p"
  "expands F db g b (ShortNode k n fl) p"
  "expands F db g b (FullNode cs fl) p"

text \<open>The flags of new nodes are acceptable, and stay so when their generation is renewed.\<close>

definition flags_fresh :: "(bool \<Rightarrow> nodeFlag \<Rightarrow> ptrie \<Rightarrow> bool) \<Rightarrow> trie \<Rightarrow> bool" where
  "flags_fresh F t \<longleftrightarrow> (\<forall>b p. F b (newFlag t) p) \<and> (\<forall>b fl p. F b fl p \<longrightarrow> F b (fl\<lparr>nf_gen := t_cachegen t\<rparr>) p)"

definition okkey :: "ptrie \<Rightarrow> bytes \<Rightarrow> bool" where
  "okkey p key \<longleftrightarrow> (pwf p \<and> hexkey key) \<or> (key = [] \<and> (p = PNil \<or> (\<exists>v. p = PVal v)))"

lemma okkey_PShort:
  assumes "okkey (PShort k p) (k @ r)"
  shows "okkey p r"
proof -
  from assms have "pnode (PShort k p)" "hexkey (k @ r)" by (auto simp: okkey_def pwf_def)
  from this(1) show ?thesis
  proof cases
    case (leaf v)
    then have "r = []" using hexkey_prefix_free \<open>hexkey (k @ r)\<close> by blast
    with leaf show ?thesis by (simp add: okkey_def)
  next
    case (ext cs)
    then show ?thesis using \<open>hexkey (k @ r)\<close> by (simp add: okkey_def pwf_def hexkey_append)
  qed
qed

lemma okkey_PFull:
  assumes "okkey (PFull cs) key"
  obtains x xs where "key = x # xs" "length cs = 17" "unat x < 17" "okkey (cs ! unat x) xs"
proof -
  from assms have p: "pnode (PFull cs)" and h: "hexkey key" by (auto simp: okkey_def pwf_def)
  from h obtain x xs where x: "key = x # xs" by (cases key) auto
  have b: "unat x < 17" using h x hexkey_hd by blast
  from p have cs: "length cs = 17" "cs ! unat x = PNil \<or> pslot (unat x) (cs ! unat x)"
    using b by (auto simp: pnode_PFull_iff)
  have "okkey (cs ! unat x) xs"
  proof (cases "x = 16")
    case True
    then show ?thesis using cs h x by (auto simp: okkey_def pslot_def)
  next
    case False
    then have "nibble x" "hexkey xs" using h x by auto
    then show ?thesis using cs unat_nibble [of x] by (auto simp: okkey_def pslot_def pwf_def)
  qed
  then show ?thesis using that x cs b by blast
qed

lemma okkey_hexkey: "pwf p \<Longrightarrow> hexkey key \<Longrightarrow> okkey p key"
  by (simp add: okkey_def)

lemma resolveHash_expands:
  assumes "expands F (t_db t) (t_cachegen t) b (HashNode h) p"
  obtains n where "resolveHash t h path = Inr n" "expands F (t_db t) (t_cachegen t) b n p"
  using assms by (cases rule: expands_HashE) (auto simp: resolveHash_def)

lemma fresh_newFlag: "flags_fresh F t \<Longrightarrow> F b (newFlag t) p"
  by (simp add: flags_fresh_def)

lemma fresh_gen: "flags_fresh F t \<Longrightarrow> F b fl p \<Longrightarrow> F b (fl\<lparr>nf_gen := t_cachegen t\<rparr>) p"
  by (simp add: flags_fresh_def)

section \<open>Lookup\<close>

lemma tryGet_expands:
  assumes "flags_fresh F t" "expands F (t_db t) (t_cachegen t) b n p" "okkey p (drop pos key)" "pos \<le> length key"
  shows "\<exists>nn res. tryGet t n key pos = Some (Inr (plookup p (drop pos key), nn, res))
    \<and> expands F (t_db t) (t_cachegen t) b nn p \<and> (\<not> res \<longrightarrow> nn = n)"
  using assms(2-)
proof (induction arbitrary: pos rule: expands.induct)
  case exp_nil
  then show ?case by (auto simp: tryGet.simps intro: expands.exp_nil)
next
  case (exp_val b v)
  then show ?case by (auto simp: tryGet.simps intro: expands.exp_val)
next
  case (exp_short n p b fl k)
  show ?case
  proof (cases "drop pos key" k rule: prefix_or_not)
    case (prefix r)
    have "length (drop pos key) = length (k @ r)" using prefix by (rule arg_cong)
    then have le: "pos + length k \<le> length key" using exp_short.prems by simp
    then have nl: "\<not> length key - pos < length k" by simp
    have "drop (length k) (drop pos key) = r" using prefix by simp
    then have dr: "drop (pos + length k) key = r" by (simp add: add.commute)
    have ok: "okkey p (drop (pos + length k) key)"
      unfolding dr using exp_short.prems prefix okkey_PShort by metis
    obtain nn res where IH: "tryGet t n key (pos + length k) = Some (Inr (plookup p r, nn, res))"
      "expands F (t_db t) (t_cachegen t) False nn p" "\<not> res \<longrightarrow> nn = n"
      using exp_short.IH [OF ok le] unfolding dr by blast
    have "tryGet t (ShortNode k n fl) key pos = Some (Inr (plookup p r,
        if res then ShortNode k nn (fl\<lparr>nf_gen := t_cachegen t\<rparr>) else ShortNode k n fl, res))"
      using IH(1) nl prefix by (subst tryGet.simps) simp
    moreover have "plookup (PShort k p) (drop pos key) = plookup p r"
      unfolding prefix by (rule plookup_PShort_append)
    ultimately show ?thesis
      using IH exp_short.hyps fresh_gen [OF assms(1)] by (auto intro!: expands.exp_short)
  next
    case other
    have "length key - pos < length k \<or> k \<noteq> take (length k) (drop pos key)"
      using other [of "drop (length k) (drop pos key)"] append_take_drop_id [of "length k" "drop pos key"] by auto
    then have "tryGet t (ShortNode k n fl) key pos = Some (Inr (None, ShortNode k n fl, False))"
      by (subst tryGet.simps) simp
    moreover have "plookup (PShort k p) (drop pos key) = None" using other by (rule plookup_PShort_other)
    ultimately show ?thesis using exp_short.hyps by (auto intro: expands.exp_short)
  qed
next
  case (exp_full cs ps b fl)
  from exp_full.prems(1) obtain x xs where x: "drop pos key = x # xs" "length ps = 17" "unat x < 17"
    "okkey (ps ! unat x) xs" by (rule okkey_PFull)
  have lt: "pos < length key" using x(1) by (metis drop_eq_Nil2 leI list.distinct(1))
  have at: "key ! pos = x" "drop (pos + 1) key = xs"
    using x(1) lt by (simp_all add: Cons_nth_drop_Suc [symmetric])
  obtain nn res where IH: "tryGet t (cs ! unat x) key (pos + 1) = Some (Inr (plookup (ps ! unat x) xs, nn, res))"
    "expands F (t_db t) (t_cachegen t) False nn (ps ! unat x)" "\<not> res \<longrightarrow> nn = cs ! unat x"
    using exp_full.IH [of "unat x" "pos + 1"] x exp_full.hyps(1) lt at by auto
  have "tryGet t (FullNode cs fl) key pos = Some (Inr (plookup (ps ! unat x) xs,
      if res then FullNode (cs [unat x := nn]) (fl\<lparr>nf_gen := t_cachegen t\<rparr>) else FullNode cs fl, res))"
    using IH(1) lt at x exp_full.hyps(1) by (subst tryGet.simps) simp
  moreover have "expands F (t_db t) (t_cachegen t) b (FullNode (cs [unat x := nn]) (fl\<lparr>nf_gen := t_cachegen t\<rparr>)) (PFull ps)"
    using IH(2) exp_full.hyps x fresh_gen [OF assms(1)] by (auto intro!: expands.exp_full simp: nth_list_update)
  moreover have "expands F (t_db t) (t_cachegen t) b (FullNode cs fl) (PFull ps)"
    using exp_full.hyps by (auto intro!: expands.exp_full)
  ultimately show ?case using x by auto
next
  case (exp_hash h enc n b p)
  then obtain nn res where IH: "tryGet t n key pos = Some (Inr (plookup p (drop pos key), nn, res))"
    "expands F (t_db t) (t_cachegen t) b nn p" by blast
  have "resolveHash t h (take pos key) = Inr n" using exp_hash.hyps by (simp add: resolveHash_def)
  then have "tryGet t (HashNode h) key pos = Some (Inr (plookup p (drop pos key), nn, True))"
    using IH(1) by (subst tryGet.simps) simp
  then show ?case using IH(2) by blast
qed


section \<open>Insertion\<close>

lemma trie_insert_NilNode:
  "trie_insert t NilNode prefix key value =
     Some (Inr (True, if key = [] then value else ShortNode key value (newFlag t)))"
  by (subst trie_insert.simps) simp

lemma expands_pextend:
  assumes "expands F db g b n p" "expands F db g False n p" "\<And>q. F b fl q"
  shows "expands F db g b (if k = [] then n else ShortNode k n fl) (pextend k p)"
  using assms by (simp add: pextend_def expands.exp_short)

lemma expands_branch:
  assumes "expands F db g False c p" "expands F db g False d q" "unat x < 17" "unat y < 17"
    "p = pextend xs p'" "q = pextend ys q'" "\<And>r. F b fl r"
  shows "expands F db g b (FullNode ((branch_children [unat x := c]) [unat y := d]) fl) (pbranch (x # xs) p' (y # ys) q')"
  unfolding pbranch_def using assms
  by (auto intro!: expands.exp_full simp: branch_children_def nth_list_update expands.exp_nil)

text \<open>The branch a mismatch in the key of a short node leads to.\<close>

lemma trie_insert_split:
  assumes "key = pre @ x # xs" "k = pre @ y # ys" "x \<noteq> y" "unat x < 17" "unat y < 17"
  shows "trie_insert t (ShortNode k n fl) prefix key value =
    (let branch = FullNode ((branch_children [unat y := if ys = [] then n else ShortNode ys n (newFlag t)])
                    [unat x := if xs = [] then value else ShortNode xs value (newFlag t)]) (newFlag t)
     in Some (Inr (True, if pre = [] then branch else ShortNode pre branch (newFlag t))))"
proof -
  have "prefixLen key k = length pre" using assms(3) by (simp add: assms(1,2))
  moreover have "key ! length pre = x" "k ! length pre = y" "drop (length pre + 1) key = xs"
    "drop (length pre + 1) k = ys" "take (length pre) key = pre" "key \<noteq> []"
    by (simp_all add: assms(1,2))
  moreover have "length pre \<noteq> length k" "\<not> length key \<le> length pre" by (simp_all add: assms(1,2))
  ultimately show ?thesis
    using assms(4,5) by (subst trie_insert.simps) (simp add: Let_def trie_insert_NilNode)
qed

lemma hexkey_second: "hexkey (pre @ x # xs) \<Longrightarrow> unat x < 17"
  by (induction pre) (auto dest: hexkey_hd unat_nibble)

lemma trie_insert_down:
  assumes "k @ r \<noteq> []" "trie_insert t n (prefix @ k) r value = Some (Inr (d, nn))"
  shows "trie_insert t (ShortNode k n fl) prefix (k @ r) value =
    Some (Inr (d, if d then ShortNode k nn (newFlag t) else ShortNode k n fl))"
  using assms by (subst trie_insert.simps) (auto simp: Let_def)

lemma trie_insert_expands:
  assumes "flags_fresh F t" "expands F (t_db t) (t_cachegen t) b n p" "okkey p key"
  shows "\<exists>d nn. trie_insert t n prefix key (ValueNode v) = Some (Inr (d, nn))
    \<and> expands F (t_db t) (t_cachegen t) b nn (pinsert p key v) \<and> (\<not> d \<longrightarrow> pinsert p key v = p)"
  using assms(2-)
proof (induction arbitrary: prefix key rule: expands.induct)
  case exp_nil
  then show ?case
    by (cases key) (auto simp: trie_insert_NilNode fresh_newFlag [OF assms(1)] expands.exp_val expands.exp_short)
next
  case (exp_val b w)
  then have "key = []" by (auto simp: okkey_def pwf_def)
  then show ?case by (subst trie_insert.simps) (auto intro: expands.intros)
next
  case (exp_short n p b fl k)
  have whole: "pnode (PShort k p)" "hexkey key" using exp_short.prems by (auto simp: okkey_def pwf_def)
  have kk: "hexkey k \<or> nibbles k" "k \<noteq> []" using whole(1) by (auto elim: pnode_ShortE)
  show ?case
  proof (cases "prefixLen key k = length k")
    case True
    then obtain r where r: "key = k @ r" using prefixLen_eq_right by blast
    then have "okkey p r" using exp_short.prems okkey_PShort by blast
    then obtain d nn where IH: "trie_insert t n (prefix @ k) r (ValueNode v) = Some (Inr (d, nn))"
      "expands F (t_db t) (t_cachegen t) False nn (pinsert p r v)" "\<not> d \<longrightarrow> pinsert p r v = p"
      using exp_short.IH by blast
    have ne: "k @ r \<noteq> []" using kk by simp
    have "pinsert (PShort k p) key v = PShort k (pinsert p r v)"
      unfolding r using ne by (rule pinsert_PShort_down)
    then have "expands F (t_db t) (t_cachegen t) b (if d then ShortNode k nn (newFlag t) else ShortNode k n fl)
        (pinsert (PShort k p) key v)" "\<not> d \<longrightarrow> pinsert (PShort k p) key v = PShort k p"
      using IH exp_short.hyps by (cases d; simp add: expands.exp_short fresh_newFlag [OF assms(1)])+
    then show ?thesis using trie_insert_down [OF ne IH(1), of fl] r by blast
  next
    case False
    with whole kk obtain pre x xs y ys where sp: "key = pre @ x # xs" "k = pre @ y # ys" "x \<noteq> y" "unat y < 17"
      "pinsert (PShort k p) key v = pextend pre (pbranch (y # ys) p (x # xs) (PVal v))"
      using pinsert_nonempty_split by metis
    have x: "unat x < 17" using whole(2) sp(1) hexkey_second by blast
    define B where "B = FullNode ((branch_children [unat y := if ys = [] then n else ShortNode ys n (newFlag t)])
          [unat x := if xs = [] then ValueNode v else ShortNode xs (ValueNode v) (newFlag t)]) (newFlag t)"
    have B: "expands F (t_db t) (t_cachegen t) b' B (pbranch (y # ys) p (x # xs) (PVal v))" for b'
      unfolding B_def using exp_short.hyps sp(4) x fresh_newFlag [OF assms(1)]
      by (intro expands_branch [OF expands_pextend expands_pextend]) (auto intro: expands.exp_val)
    have "expands F (t_db t) (t_cachegen t) b (if pre = [] then B else ShortNode pre B (newFlag t)) (pinsert (PShort k p) key v)"
      unfolding sp(5) by (rule expands_pextend [OF B B fresh_newFlag [OF assms(1)]])
    moreover have "trie_insert t (ShortNode k n fl) prefix key (ValueNode v) =
        Some (Inr (True, if pre = [] then B else ShortNode pre B (newFlag t)))"
      unfolding trie_insert_split [OF sp(1,2,3) x sp(4)] Let_def B_def by (rule refl)
    ultimately show ?thesis by blast
  qed
next
  case (exp_full cs ps b fl)
  from exp_full.prems obtain x xs where x: "key = x # xs" "length ps = 17" "unat x < 17"
    "okkey (ps ! unat x) xs" by (rule okkey_PFull)
  obtain d nn where IH: "trie_insert t (cs ! unat x) (prefix @ [x]) xs (ValueNode v) = Some (Inr (d, nn))"
    "expands F (t_db t) (t_cachegen t) False nn (pinsert (ps ! unat x) xs v)" "\<not> d \<longrightarrow> pinsert (ps ! unat x) xs v = ps ! unat x"
    using exp_full.IH [of "unat x" xs "prefix @ [x]"] x exp_full.hyps(1) by auto
  have "trie_insert t (FullNode cs fl) prefix key (ValueNode v) =
      Some (Inr (d, if d then FullNode (cs [unat x := nn]) (newFlag t) else FullNode cs fl))"
    using IH(1) x exp_full.hyps(1) by (subst trie_insert.simps) simp
  moreover have "expands F (t_db t) (t_cachegen t) b (FullNode (cs [unat x := nn]) (newFlag t))
      (PFull (ps [unat x := pinsert (ps ! unat x) xs v]))"
    using IH(2) exp_full.hyps x fresh_newFlag [OF assms(1)] by (auto intro!: expands.exp_full simp: nth_list_update)
  moreover have "expands F (t_db t) (t_cachegen t) b (FullNode cs fl) (PFull ps)"
    using exp_full.hyps by (auto intro!: expands.exp_full)
  ultimately show ?case using x IH(3) by (cases d) auto
next
  case (exp_hash h enc n b p)
  show ?case
  proof (cases "key = []")
    case True
    then show ?thesis by (subst trie_insert.simps) (auto intro: expands.intros)
  next
    case False
    obtain d nn where IH: "trie_insert t n prefix key (ValueNode v) = Some (Inr (d, nn))"
      "expands F (t_db t) (t_cachegen t) b nn (pinsert p key v)" "\<not> d \<longrightarrow> pinsert p key v = p"
      using exp_hash by blast
    have "resolveHash t h prefix = Inr n" using exp_hash.hyps by (simp add: resolveHash_def)
    then have "trie_insert t (HashNode h) prefix key (ValueNode v) = Some (Inr (d, if d then nn else n))"
      using IH(1) False by (subst trie_insert.simps) simp
    then show ?thesis using IH exp_hash.hyps by (cases d) auto
  qed
qed


section \<open>Deletion\<close>

text \<open>A decoded node is a short or a full node.\<close>

lemma decodeShort_form: "decodeShort d h e g = Inr n \<Longrightarrow> \<exists>k v fl. n = ShortNode k v fl"
  by (auto simp: decodeShort_def go_bind_Inr_iff Let_def split: option.splits if_splits)

lemma decodeFull_form: "decodeFull d h e g = Inr n \<Longrightarrow> \<exists>cs fl. n = FullNode cs fl"
  by (auto simp: decodeFull_def go_bind_Inr_iff)

lemma decodeNode_body_form:
  "decodeNode_body d h b g = Inr n \<Longrightarrow> \<exists>e. decodeShort d h e g = Inr n \<or> decodeFull d h e g = Inr n"
  by (auto simp: decodeNode_body_def go_bind_Inr_iff Let_def split: if_splits sum.splits)

lemma decodeNodeN_form:
  assumes "decodeNodeN f h b g = Inr n"
  shows "(\<exists>k v fl. n = ShortNode k v fl) \<or> (\<exists>cs fl. n = FullNode cs fl)"
proof (cases f)
  case (Suc m)
  then show ?thesis
    using assms decodeNode_body_form decodeShort_form decodeFull_form by (metis decodeNodeN.simps(2))
qed (use assms in simp)

lemma mustDecodeNode_form:
  "mustDecodeNode h b g = Some n \<Longrightarrow> (\<exists>k v fl. n = ShortNode k v fl) \<or> (\<exists>cs fl. n = FullNode cs fl)"
  unfolding mustDecodeNode_def decodeNode_def 
  by (auto split: sum.splits dest!: decodeNodeN_form simp del: decodeNodeN.simps)

lemma expands_nil_iff:
  assumes "expands F db g b n p"
  shows "n = NilNode \<longleftrightarrow> p = PNil"
  using assms
proof cases
  case (exp_hash h enc n')
  then show ?thesis using mustDecodeNode_form by (fastforce simp: expands_simps)
qed simp_all

lemma resolve_expands:
  assumes "expands F (t_db t) (t_cachegen t) b n p"
  obtains n' where "resolve t n path = Inr n'" "expands F (t_db t) (t_cachegen t) b n' p"
    "\<And>k q. p = PShort k q \<Longrightarrow> \<exists>v fl. n' = ShortNode k v fl \<and> expands F (t_db t) (t_cachegen t) False v q"
    "\<And>k v fl. n' = ShortNode k v fl \<Longrightarrow> \<exists>q. p = PShort k q"
proof -
  have "\<exists>n'. resolve t n path = Inr n' \<and> expands F (t_db t) (t_cachegen t) b n' p \<and> (\<forall>h. n' \<noteq> HashNode h)"
  proof (cases "\<exists>h. n = HashNode h")
    case True
    then obtain h enc n' where n': "n = HashNode h" "t_db t h = Some enc" "mustDecodeNode (Some h) enc (t_cachegen t) = Some n'"
      "expands F (t_db t) (t_cachegen t) b n' p"
      using assms by (auto elim: expands_HashE)
    then show ?thesis using mustDecodeNode_form [OF n'(3)] by (auto simp: resolve_def resolveHash_def)
  next
    case False
    then show ?thesis using assms by (cases n) (auto simp: resolve_def)
  qed
  then obtain n' where n': "resolve t n path = Inr n'" "expands F (t_db t) (t_cachegen t) b n' p" "\<And>h. n' \<noteq> HashNode h"
    by blast
  show ?thesis
  proof (rule that [OF n'(1,2)])
    show "\<exists>v fl. n' = ShortNode k v fl \<and> expands F (t_db t) (t_cachegen t) False v q" if "p = PShort k q" for k q
      using n'(2) unfolding that by (rule expands_PShortE) (use n'(3) in auto)
    show "\<exists>q. p = PShort k q" if "n' = ShortNode k v fl" for k v fl
      using n'(2) unfolding that by (auto simp: expands_simps)
  qed
qed

text \<open>The loop finds the only live child, if there is just one.\<close>

lemma child_pos_found: "0 \<le> pos \<Longrightarrow> child_pos i pos cs = (if \<forall>c \<in> set cs. c = NilNode then pos else -2)"
  by (induction cs arbitrary: i) auto

lemma filter_upt_shift:
  "filter P [i..<i + length (c # cs)] = (if P i then [i] else []) @ filter P [Suc i..<Suc i + length cs]"
proof -
  have "[i..<i + length (c # cs)] = i # [Suc i..<Suc i + length cs]"
    by (subst upt_conv_Cons) simp_all
  then show ?thesis by (simp del: upt_Suc)
qed

lemma child_pos_live:
  "child_pos i (-1) cs = (case filter (\<lambda>j. cs ! (j - i) \<noteq> NilNode) [i..<i + length cs] of
     [] \<Rightarrow> -1 | [j] \<Rightarrow> int j | _ \<Rightarrow> -2)"
proof (induction cs arbitrary: i)
  case (Cons c cs)
  let ?P = "\<lambda>j. cs ! (j - Suc i) \<noteq> NilNode"
  let ?F = "filter ?P [Suc i..<Suc i + length cs]"
  have sh: "filter (\<lambda>j. (c # cs) ! (j - i) \<noteq> NilNode) [Suc i..<Suc i + length cs] = ?F"
    by (rule filter_cong) (auto simp: nth_Cons' Suc_diff_le)
  have F: "filter (\<lambda>j. (c # cs) ! (j - i) \<noteq> NilNode) [i..<i + length (c # cs)] =
      (if c \<noteq> NilNode then [i] else []) @ ?F"
    unfolding filter_upt_shift sh by simp
  show ?case
  proof (cases "c = NilNode")
    case True
    then show ?thesis using Cons.IH [of "Suc i"] unfolding F by simp
  next
    case False
    have "?F = [] \<longleftrightarrow> (\<forall>j \<in> {Suc i..<Suc i + length cs}. cs ! (j - Suc i) = NilNode)"
      by (simp only: filter_empty_conv set_upt not_not)
    also have "\<dots> \<longleftrightarrow> (\<forall>m < length cs. cs ! m = NilNode)"
      by (metis add.commute add_diff_cancel_left' add_less_cancel_left atLeastLessThan_iff le_add1 le_add_diff_inverse less_diff_conv2)
    finally have "?F = [] \<longleftrightarrow> (\<forall>d \<in> set cs. d = NilNode)" by (simp add: all_set_conv_all_nth)
    then show ?thesis using False unfolding F by (cases ?F) (simp_all add: child_pos_found del: upt_Suc)
  qed
qed simp

lemma child_pos_pure:
  assumes "length cs = length ps" "\<And>i. i < length cs \<Longrightarrow> expands F db g b (cs ! i) (ps ! i)"
  shows "child_pos 0 (-1) cs = (case live ps of [] \<Rightarrow> -1 | [j] \<Rightarrow> int j | _ \<Rightarrow> -2)"
proof -
  have "filter (\<lambda>j. cs ! (j - 0) \<noteq> NilNode) [0..<0 + length cs] = live ps"
    unfolding live_def assms(1) [symmetric]
    by (rule filter_cong) (use assms(2) expands_nil_iff in \<open>auto, blast+\<close>)
  then show ?thesis using child_pos_live [of 0 cs] by simp
qed


text \<open>The reduction of a branch after a deletion, as the code does it and on the tree.\<close>

lemma reduce_expands:
  assumes "length cs = 17" "length ps = 17" "\<And>i. i < 17 \<Longrightarrow> expands F (t_db t) (t_cachegen t) False (cs ! i) (ps ! i)"
    "\<forall>i < 17. ps ! i = PNil \<or> pslot i (ps ! i)" "live ps = [i]"
    "\<And>q. F b fl q"
  shows "child_pos 0 (-1) cs = int i \<and> i < 17 \<and>
    (i = 16 \<longrightarrow> expands F (t_db t) (t_cachegen t) b (ShortNode [16] (cs ! 16) fl) (pcontract ps)) \<and>
    (i \<noteq> 16 \<longrightarrow> (\<exists>c. resolve t (cs ! i) path = Inr c \<and>
       ((\<exists>k v f. c = ShortNode k v f \<and> expands F (t_db t) (t_cachegen t) b (ShortNode (word_of_nat i # k) v fl) (pcontract ps)) \<or>
        ((\<forall>k v f. c \<noteq> ShortNode k v f) \<and> expands F (t_db t) (t_cachegen t) b (ShortNode [word_of_nat i] (cs ! i) fl) (pcontract ps)))))"
proof -
  note l = live_single [OF assms(5)]
  have i: "i < 17" using l(1) assms(2) by simp
  have pos: "child_pos 0 (-1) cs = int i"
    using child_pos_pure [of cs ps F "t_db t" "t_cachegen t" False] assms by simp
  have e: "expands F (t_db t) (t_cachegen t) False (cs ! i) (ps ! i)" using assms(3) i by blast
  have last: "expands F (t_db t) (t_cachegen t) b (ShortNode [16] (cs ! 16) fl) (pcontract ps)" if "i = 16"
    using e that assms(5) assms(6) by (simp add: pcontract_def expands.exp_short)
  have inner: "\<exists>c. resolve t (cs ! i) path = Inr c \<and>
       ((\<exists>k v f. c = ShortNode k v f \<and> expands F (t_db t) (t_cachegen t) b (ShortNode (word_of_nat i # k) v fl) (pcontract ps)) \<or>
        ((\<forall>k v f. c \<noteq> ShortNode k v f) \<and> expands F (t_db t) (t_cachegen t) b (ShortNode [word_of_nat i] (cs ! i) fl) (pcontract ps)))"
    if "i \<noteq> 16"
  proof -
    have pc: "pcontract ps = pmerge [word_of_nat i] (ps ! i)" using that assms(5) by (simp add: pcontract_def)
    from e obtain c where c: "resolve t (cs ! i) path = Inr c"
      "\<And>k q. ps ! i = PShort k q \<Longrightarrow> \<exists>v fl. c = ShortNode k v fl \<and> expands F (t_db t) (t_cachegen t) False v q"
      "\<And>k v fl. c = ShortNode k v fl \<Longrightarrow> \<exists>q. ps ! i = PShort k q"
      by (rule resolve_expands) blast
    show ?thesis
    proof (cases "\<exists>k q. ps ! i = PShort k q")
      case True
      then obtain k q v f where "ps ! i = PShort k q" "c = ShortNode k v f" "expands F (t_db t) (t_cachegen t) False v q"
        using c(2) by metis
      then show ?thesis using c(1) by (auto simp: pc pmerge_def intro!: expands.exp_short assms(6))
    next
      case False
      then have "pmerge [word_of_nat i] (ps ! i) = PShort [word_of_nat i] (ps ! i)"
        by (cases "ps ! i") (auto simp: pmerge_def)
      moreover have "\<forall>k v f. c \<noteq> ShortNode k v f" using False c(3) by blast
      ultimately show ?thesis using c(1) e by (auto simp: pc intro!: expands.exp_short assms(6))
    qed
  qed
  show ?thesis using pos i last inner by blast
qed

lemma trie_delete_full:
  assumes "key = x # xs" "length cs = 17" "unat x < 17"
    "trie_delete t (cs ! unat x) (prefix @ [x]) xs = Some (Inr (d, nn))" "\<not> d"
  shows "trie_delete t (FullNode cs fl) prefix key = Some (Inr (False, FullNode cs fl))"
  using assms by (subst trie_delete.simps) simp

lemma trie_delete_full_dirty:
  assumes "key = x # xs" "length cs = 17" "unat x < 17"
    "trie_delete t (cs ! unat x) (prefix @ [x]) xs = Some (Inr (True, nn))"
  shows "trie_delete t (FullNode cs fl) prefix key =
    (let cs' = cs [unat x := nn];
         pos = child_pos 0 (-1) cs';
         single = Some (Inr (True, ShortNode [word_of_int pos] (cs' ! nat pos) (newFlag t)))
     in if 0 \<le> pos then
          (if pos \<noteq> 16 then
             (case resolve t (cs' ! nat pos) prefix of
                Inl e \<Rightarrow> Some (Inl e)
              | Inr cnode \<Rightarrow> (case cnode of
                    ShortNode ck cv cf \<Rightarrow> Some (Inr (True, ShortNode ([word_of_int pos] @ ck) cv (newFlag t)))
                  | _ \<Rightarrow> single))
           else single)
        else Some (Inr (True, FullNode cs' (newFlag t))))"
  using assms by (subst trie_delete.simps) simp

text \<open>The outcome of deleting in a branch whose child changed.\<close>

lemma trie_delete_reduce:
  assumes "flags_fresh F t" "key = x # xs" "length cs = 17" "length ps = 17" "unat x < 17"
    "trie_delete t (cs ! unat x) (prefix @ [x]) xs = Some (Inr (True, nn))"
    "\<And>i. i < 17 \<Longrightarrow> expands F (t_db t) (t_cachegen t) False (cs [unat x := nn] ! i) (ps ! i)"
    "\<forall>i < 17. ps ! i = PNil \<or> pslot i (ps ! i)"
    "j < 17" "ps ! j \<noteq> PNil"
  shows "\<exists>n. trie_delete t (FullNode cs fl) prefix key = Some (Inr (True, n)) \<and>
    expands F (t_db t) (t_cachegen t) b n (pcontract ps) \<and> (\<forall>h. n \<noteq> HashNode h)"
proof (cases "\<exists>i. live ps = [i]")
  case True
  then obtain i where i: "live ps = [i]" by blast
  have len: "length (cs [unat x := nn]) = 17" using assms(3) by simp
  note r = reduce_expands [OF len assms(4,7,8) i fresh_newFlag [OF assms(1)], where path = prefix and b = b]
  show ?thesis
  proof (cases "i = 16")
    case True
    then show ?thesis using r trie_delete_full_dirty [OF assms(2,3,5,6)] by (simp add: Let_def)
  next
    case False
    then obtain c where "resolve t (cs [unat x := nn] ! i) prefix = Inr c"
      "(\<exists>k v f. c = ShortNode k v f \<and> expands F (t_db t) (t_cachegen t) b (ShortNode (word_of_nat i # k) v (newFlag t)) (pcontract ps)) \<or>
        ((\<forall>k v f. c \<noteq> ShortNode k v f) \<and> expands F (t_db t) (t_cachegen t) b (ShortNode [word_of_nat i] (cs [unat x := nn] ! i) (newFlag t)) (pcontract ps))"
      using r by blast
    then show ?thesis
      using r False trie_delete_full_dirty [OF assms(2,3,5,6), of fl]
      by (cases c) (auto simp: Let_def)
  qed
next
  case False
  have "j \<in> set (live ps)" using assms(4,9,10) by (simp add: live_mem)
  then obtain a a' l where l: "live ps = a # a' # l"
    using False by (cases "live ps" rule: remdups_adj.cases) auto
  then have "child_pos 0 (-1) (cs [unat x := nn]) = -2"
    using child_pos_pure [of "cs [unat x := nn]" ps F "t_db t" "t_cachegen t" False] assms by simp
  then have "trie_delete t (FullNode cs fl) prefix key = Some (Inr (True, FullNode (cs [unat x := nn]) (newFlag t)))"
    using trie_delete_full_dirty [OF assms(2,3,5,6), of fl] by (simp add: Let_def)
  moreover have "pcontract ps = PFull ps" using l by (simp add: pcontract_def)
  moreover have "expands F (t_db t) (t_cachegen t) b (FullNode (cs [unat x := nn]) (newFlag t)) (PFull ps)"
    using assms fresh_newFlag [OF assms(1)] by (intro expands.exp_full) auto
  ultimately show ?thesis by auto
qed


lemma pdelete_slots:
  assumes "pnode (PFull cs)" "hexkey (x # xs)" "plookup (cs ! unat x) xs \<noteq> None"
  shows "\<forall>i < 17. cs [unat x := pdelete (cs ! unat x) xs] ! i = PNil
    \<or> pslot i (cs [unat x := pdelete (cs ! unat x) xs] ! i)"
proof -
  have b: "unat x < 17" using assms(2) hexkey_hd by blast
  have cs: "length cs = 17" "\<forall>i < 17. cs ! i = PNil \<or> pslot i (cs ! i)"
    using assms(1) by (simp_all add: pnode_PFull_iff)
  have slot: "pslot (unat x) (cs ! unat x)" using cs b assms(3) by fastforce
  have "pdelete (cs ! unat x) xs = PNil \<or> pslot (unat x) (pdelete (cs ! unat x) xs)"
  proof (cases "x = 16")
    case True
    then show ?thesis using slot by (auto simp: pslot_def)
  next
    case False
    then have h: "nibble x" "hexkey xs" using assms(2) by auto
    then have "pwf (pdelete (cs ! unat x) xs)"
      using slot unat_nibble [of x] by (intro pwf_pdelete) (auto simp: pslot_def pwf_def)
    then show ?thesis using h unat_nibble by (auto simp: pwf_def pslot_def)
  qed
  then show ?thesis using cs b by (auto simp: nth_list_update)
qed

lemma trie_delete_short:
  assumes "r \<noteq> []" "trie_delete t n (prefix @ k) r = Some (Inr (d, c))"
  shows "trie_delete t (ShortNode k n fl) prefix (k @ r) =
    (if \<not> d then Some (Inr (False, ShortNode k n fl))
     else (case c of
         ShortNode ck cv cf \<Rightarrow> Some (Inr (True, ShortNode (trie_concat k ck) cv (newFlag t)))
       | _ \<Rightarrow> Some (Inr (True, ShortNode k c (newFlag t)))))"
  using assms by (subst trie_delete.simps) (simp add: Let_def)

lemma expands_pmerge:
  assumes "expands F db g False c p" "\<forall>h. c \<noteq> HashNode h" "\<And>q. F b fl q"
  shows "\<exists>n. (case c of ShortNode ck cv cf \<Rightarrow> ShortNode (k @ ck) cv fl | _ \<Rightarrow> ShortNode k c fl) = n
    \<and> expands F db g b n (pmerge k p) \<and> (\<forall>h. n \<noteq> HashNode h)"
  using assms(1)
proof cases
  case (exp_short n q f l)
  then show ?thesis using assms(3) by (simp add: pmerge_def expands.exp_short)
next
  case (exp_full cs ps f)
  then show ?thesis using assms(1,3) by (simp add: pmerge_def expands.exp_short)
qed (use assms in \<open>auto simp: pmerge_def expands_simps\<close>)

lemma trie_delete_expands:
  assumes "flags_fresh F t" "expands F (t_db t) (t_cachegen t) b n p" "okkey p key"
  shows "\<exists>d nn. trie_delete t n prefix key = Some (Inr (d, nn))
    \<and> expands F (t_db t) (t_cachegen t) b nn (pdelete p key) \<and> (d \<longleftrightarrow> plookup p key \<noteq> None)
    \<and> (d \<longrightarrow> (\<forall>h. nn \<noteq> HashNode h))"
  using assms(2-)
proof (induction arbitrary: prefix key rule: expands.induct)
  case exp_nil
  then show ?case by (subst trie_delete.simps) (auto intro: expands.intros)
next
  case (exp_val b w)
  then show ?case by (subst trie_delete.simps) (auto intro: expands.intros)
next
  case (exp_short n p b fl k)
  have whole: "pnode (PShort k p)" "hexkey key" using exp_short.prems by (auto simp: okkey_def pwf_def)
  have e: "expands F (t_db t) (t_cachegen t) b (ShortNode k n fl) (PShort k p)"
    using exp_short.hyps by (intro expands.exp_short)
  show ?case
  proof (cases key k rule: prefix_or_not)
    case other
    then have "prefixLen key k < length k"
      using prefixLen_le(2) [of key k] prefixLen_eq_right [of key k] by (metis le_neq_implies_less)
    then have "trie_delete t (ShortNode k n fl) prefix key = Some (Inr (False, ShortNode k n fl)) \<and>
      pdelete (PShort k p) key = PShort k p"
      by (subst trie_delete.simps) (simp add: Let_def)
    moreover have "plookup (PShort k p) key = None" using other by (rule plookup_PShort_other)
    ultimately show ?thesis using e by auto
  next
    case (prefix r)
    have ok: "okkey p r" using exp_short.prems prefix okkey_PShort by blast
    have look: "plookup (PShort k p) key = plookup p r" unfolding prefix by (rule plookup_PShort_append)
    show ?thesis
    proof (cases "r = []")
      case True
      then obtain v where "p = PVal v" using whole prefix by (auto elim!: pnode_ShortE simp: hexkey_def)
      moreover have "trie_delete t (ShortNode k n fl) prefix key = Some (Inr (True, NilNode)) \<and>
        pdelete (PShort k p) key = PNil"
        using prefix True prefixLen_extend [of k "[]"] by (subst trie_delete.simps) (simp add: Let_def)
      ultimately show ?thesis using look by (auto intro: expands.intros)
    next
      case False
      obtain d c where IH: "trie_delete t n (prefix @ k) r = Some (Inr (d, c))"
        "expands F (t_db t) (t_cachegen t) False c (pdelete p r)" "d \<longleftrightarrow> plookup p r \<noteq> None" "d \<longrightarrow> (\<forall>h. c \<noteq> HashNode h)"
        using exp_short.IH [OF ok] by blast
      have pd: "pdelete (PShort k p) key = (if d then pmerge k (pdelete p r) else PShort k p)"
        using False IH(3) by (simp add: prefix Let_def)
      show ?thesis
      proof (cases d)
        case True
        then show ?thesis
          using trie_delete_short [OF False IH(1), of fl] expands_pmerge [OF IH(2) _ fresh_newFlag [OF assms(1)], where k = k and b = b] IH(3,4) look pd
          by (auto simp: prefix trie_concat_def split: node.splits simp del: plookup.simps)
      next
        case F: False
        then show ?thesis
          using trie_delete_short [OF False IH(1), of fl] IH(3) look pd e by (auto simp: prefix simp del: plookup.simps)
      qed
    qed
  qed
next
  case (exp_full cs ps b fl)
  have whole: "pnode (PFull ps)" "hexkey key" using exp_full.prems by (auto simp: okkey_def pwf_def)
  have e: "expands F (t_db t) (t_cachegen t) b (FullNode cs fl) (PFull ps)"
    using exp_full.hyps by (auto intro!: expands.exp_full)
  from exp_full.prems obtain x xs where x: "key = x # xs" "length ps = 17" "unat x < 17"
    "okkey (ps ! unat x) xs" by (rule okkey_PFull)
  have len: "length cs = 17" using x exp_full.hyps(1) by simp
  obtain d nn where IH: "trie_delete t (cs ! unat x) (prefix @ [x]) xs = Some (Inr (d, nn))"
    "expands F (t_db t) (t_cachegen t) False nn (pdelete (ps ! unat x) xs)" "d \<longleftrightarrow> plookup (ps ! unat x) xs \<noteq> None"
    using exp_full.IH [of "unat x" xs "prefix @ [x]"] x len by auto
  show ?case
  proof (cases d)
    case False
    then show ?thesis
      using trie_delete_full [OF x(1) len x(3) IH(1) False, of fl] IH(3) e x False by auto
  next
    case True
    let ?ps = "ps [unat x := pdelete (ps ! unat x) xs]"
    obtain j where j: "j < 17" "j \<noteq> unat x" "ps ! j \<noteq> PNil" using whole(1) pnode_other_child by blast
    have ex: "\<And>i. i < 17 \<Longrightarrow> expands F (t_db t) (t_cachegen t) False (cs [unat x := nn] ! i) (?ps ! i)"
      using IH(2) exp_full.hyps x len by (auto simp: nth_list_update)
    have "plookup (ps ! unat x) xs \<noteq> None" using True IH(3) by simp
    moreover from this have slots: "\<forall>i < 17. ?ps ! i = PNil \<or> pslot i (?ps ! i)"
      using whole x pdelete_slots by blast
    ultimately show ?thesis
      using trie_delete_reduce [OF assms(1) x(1) len _ x(3) _ ex slots j(1), where prefix = prefix and b = b and fl = fl] IH(1) True j x
      by auto
  qed
next
  case (exp_hash h enc n b p)
  obtain d nn where IH: "trie_delete t n prefix key = Some (Inr (d, nn))"
    "expands F (t_db t) (t_cachegen t) b nn (pdelete p key)" "d \<longleftrightarrow> plookup p key \<noteq> None" "d \<longrightarrow> (\<forall>h. nn \<noteq> HashNode h)"
    using exp_hash.IH [OF exp_hash.prems] by blast
  have "resolveHash t h prefix = Inr n" using exp_hash.hyps by (simp add: resolveHash_def)
  then have del: "trie_delete t (HashNode h) prefix key = Some (Inr (d, if d then nn else n))"
    using IH(1) by (subst trie_delete.simps) simp
  show ?case
  proof (cases d)
    case False
    then have "pdelete p key = p"
      using IH(3) exp_hash.prems pdelete_absent by (auto simp: okkey_def)
    then show ?thesis using del False IH(3) exp_hash.hyps(3) by (intro exI [of _ False] exI [of _ n]) simp
  next
    case True
    then show ?thesis using del IH by (intro exI [of _ True] exI [of _ nn]) simp
  qed
qed


section \<open>The public operations\<close>

definition emptyRoot :: bytes where
  "emptyRoot =
    [0x56, 0xe8, 0x1f, 0x17, 0x1b, 0xcc, 0x55, 0xa6, 0xff, 0x83, 0x45, 0xe6, 0x92, 0xc0, 0xf8, 0x6e,
     0x5b, 0x48, 0xe0, 0x1b, 0x99, 0x6c, 0xad, 0xc0, 0x01, 0x62, 0x2f, 0xb5, 0xe3, 0x63, 0xb4, 0x21]"

definition trie_New :: "bytes \<Rightarrow> (bytes \<rightharpoonup> bytes) \<Rightarrow> trie_error + trie" where
  "trie_New root db =
     (let trie = \<lparr>t_root = NilNode, t_db = db, t_originalRoot = root, t_prefix = None,
                  t_cachegen = 0, t_cachelimit = 0\<rparr>
      in if root \<noteq> replicate 32 0 \<and> root \<noteq> emptyRoot
         then go_bind (resolveHash trie root []) (\<lambda>rootnode. Inr (trie\<lparr>t_root := rootnode\<rparr>))
         else Inr trie)"

definition NewTrieWithPrefix :: "bytes \<Rightarrow> bytes \<Rightarrow> (bytes \<rightharpoonup> bytes) \<Rightarrow> trie_error + trie" where
  "NewTrieWithPrefix root prefix db = go_bind (trie_New root db) (\<lambda>trie. Inr (trie\<lparr>t_prefix := Some prefix\<rparr>))"

text \<open>The key with the prefix of the trie in front of it, as the code's \<open>append\<close> builds it.\<close>

definition full_key :: "trie \<Rightarrow> bytes \<Rightarrow> bytes" where
  "full_key t key = (case t_prefix t of None \<Rightarrow> key | Some p \<Rightarrow> p @ key)"

definition TryGet :: "trie \<Rightarrow> bytes \<Rightarrow> (bytes option \<times> trie) trie_result" where
  "TryGet t key =
     out_bind (tryGet t (t_root t) (keybytesToHex (full_key t key)) 0) (\<lambda>(value, newroot, didResolve).
       Some (Inr (value, if didResolve then t\<lparr>t_root := newroot\<rparr> else t)))"

definition TryUpdate :: "trie \<Rightarrow> bytes \<Rightarrow> bytes \<Rightarrow> trie trie_result" where
  "TryUpdate t key value =
     (let k = keybytesToHex (full_key t key)
      in if length value \<noteq> 0
         then out_bind (trie_insert t (t_root t) [] k (ValueNode value)) (\<lambda>(_, n). Some (Inr (t\<lparr>t_root := n\<rparr>)))
         else out_bind (trie_delete t (t_root t) [] k) (\<lambda>(_, n). Some (Inr (t\<lparr>t_root := n\<rparr>))))"

definition TryDelete :: "trie \<Rightarrow> bytes \<Rightarrow> trie trie_result" where
  "TryDelete t key =
     out_bind (trie_delete t (t_root t) [] (keybytesToHex (full_key t key))) (\<lambda>(_, n). Some (Inr (t\<lparr>t_root := n\<rparr>)))"

text \<open>\<open>Get\<close>, \<open>Update\<close> and \<open>Delete\<close> log an error and drop it; a panic is not an error.\<close>

definition drop_error :: "'a \<Rightarrow> 'a trie_result \<Rightarrow> 'a trie_result" where
  "drop_error dflt r = (case r of Some (Inl (MissingNodeError h p)) \<Rightarrow> Some (Inr dflt) | _ \<Rightarrow> r)"

definition trie_Get :: "trie \<Rightarrow> bytes \<Rightarrow> (bytes option \<times> trie) trie_result" where
  "trie_Get t key = drop_error (None, t) (TryGet t key)"

definition trie_Update :: "trie \<Rightarrow> bytes \<Rightarrow> bytes \<Rightarrow> trie trie_result" where
  "trie_Update t key value = drop_error t (TryUpdate t key value)"

definition trie_Delete :: "trie \<Rightarrow> bytes \<Rightarrow> trie trie_result" where
  "trie_Delete t key = drop_error t (TryDelete t key)"

text \<open>
  A trie stands for a canonical tree all of whose entries are at keys of the trie, and that for
  a map on keys.
\<close>

definition addressable :: "trie \<Rightarrow> ptrie \<Rightarrow> bool" where
  "addressable t p \<longleftrightarrow> (\<forall>k. hexkey k \<and> plookup p k \<noteq> None \<longrightarrow> (\<exists>key. k = keybytesToHex (full_key t key)))"

definition trie_treeF :: "(bool \<Rightarrow> nodeFlag \<Rightarrow> ptrie \<Rightarrow> bool) \<Rightarrow> trie \<Rightarrow> ptrie \<Rightarrow> bool" where
  "trie_treeF F t p \<longleftrightarrow> pwf p \<and> addressable t p \<and> expands F (t_db t) (t_cachegen t) True (t_root t) p"

definition trie_tree :: "trie \<Rightarrow> ptrie \<Rightarrow> bool" where
  "trie_tree = trie_treeF (\<lambda>_ _ _. True)"

definition trie_map :: "trie \<Rightarrow> (bytes \<rightharpoonup> bytes) \<Rightarrow> bool" where
  "trie_map t m \<longleftrightarrow> (\<exists>p. trie_tree t p \<and> m = (\<lambda>key. plookup p (keybytesToHex (full_key t key))))"

lemma full_key_root [simp]: "full_key (t\<lparr>t_root := n\<rparr>) key = full_key t key"
  by (simp add: full_key_def)

lemma full_key_inj [simp]: "full_key t a = full_key t b \<longleftrightarrow> a = b"
  by (simp add: full_key_def split: option.split)

lemma addressable_root [simp]: "addressable (t\<lparr>t_root := n\<rparr>) p \<longleftrightarrow> addressable t p"
  by (simp add: addressable_def)

lemma addressable_update:
  assumes "pwf p" "addressable t p"
  shows "addressable t (pdelete p (keybytesToHex (full_key t key)))"
    "addressable t (pinsert p (keybytesToHex (full_key t key)) v)"
  using assms by (auto simp: addressable_def plookup_pdelete plookup_pinsert split: if_splits)

lemma trie_mapI:
  "trie_tree t p \<Longrightarrow> (\<And>key. m key = plookup p (keybytesToHex (full_key t key))) \<Longrightarrow> trie_map t m"
  by (auto simp: trie_map_def)

lemma TryGet_treeF:
  assumes "flags_fresh F t" "trie_treeF F t p"
  shows "\<exists>t'. TryGet t key = Some (Inr (plookup p (keybytesToHex (full_key t key)), t'))
    \<and> trie_treeF F t' p \<and> (\<exists>n. t' = t\<lparr>t_root := n\<rparr>)"
proof -
  let ?k = "keybytesToHex (full_key t key)"
  have ok: "okkey p (drop 0 ?k)" using assms(2) by (simp add: trie_treeF_def okkey_hexkey)
  from assms(2) have "expands F (t_db t) (t_cachegen t) True (t_root t) p" by (simp add: trie_treeF_def)
  from tryGet_expands [OF assms(1) this ok] obtain nn res where
    "tryGet t (t_root t) ?k 0 = Some (Inr (plookup p ?k, nn, res))"
    "expands F (t_db t) (t_cachegen t) True nn p"
    by auto
  then have "TryGet t key = Some (Inr (plookup p ?k, if res then t\<lparr>t_root := nn\<rparr> else t))"
    "trie_treeF F (if res then t\<lparr>t_root := nn\<rparr> else t) p"
    using assms by (simp_all add: TryGet_def trie_treeF_def)
  moreover have "\<exists>n. (if res then t\<lparr>t_root := nn\<rparr> else t) = t\<lparr>t_root := n\<rparr>"
    by (cases res) (auto intro: exI [of _ "t_root t"])
  ultimately show ?thesis by blast
qed

lemma TryDelete_treeF:
  assumes "flags_fresh F t" "trie_treeF F t p"
  shows "\<exists>n. TryDelete t key = Some (Inr (t\<lparr>t_root := n\<rparr>))
    \<and> trie_treeF F (t\<lparr>t_root := n\<rparr>) (pdelete p (keybytesToHex (full_key t key)))"
proof -
  have ok: "okkey p (keybytesToHex (full_key t key))" using assms by (simp add: trie_treeF_def okkey_hexkey)
  from assms have "expands F (t_db t) (t_cachegen t) True (t_root t) p" by (simp add: trie_treeF_def)
  from trie_delete_expands [OF assms(1) this ok] obtain d nn where
    "trie_delete t (t_root t) [] (keybytesToHex (full_key t key)) = Some (Inr (d, nn))"
    "expands F (t_db t) (t_cachegen t) True nn (pdelete p (keybytesToHex (full_key t key)))"
    by blast
  then show ?thesis using assms by (auto simp: TryDelete_def trie_treeF_def addressable_update intro!: pwf_pdelete)
qed

lemma TryUpdate_treeF:
  assumes "flags_fresh F t" "trie_treeF F t p"
  shows "\<exists>n. TryUpdate t key v = Some (Inr (t\<lparr>t_root := n\<rparr>))
    \<and> trie_treeF F (t\<lparr>t_root := n\<rparr>)
        (if v = [] then pdelete p (keybytesToHex (full_key t key)) else pinsert p (keybytesToHex (full_key t key)) v)"
proof (cases "v = []")
  case True
  then show ?thesis using TryDelete_treeF [OF assms, of key] by (simp add: TryUpdate_def TryDelete_def)
next
  case False
  have ok: "okkey p (keybytesToHex (full_key t key))" using assms by (simp add: trie_treeF_def okkey_hexkey)
  from assms have "expands F (t_db t) (t_cachegen t) True (t_root t) p" by (simp add: trie_treeF_def)
  from trie_insert_expands [OF assms(1) this ok] obtain d nn where
    "trie_insert t (t_root t) [] (keybytesToHex (full_key t key)) (ValueNode v) = Some (Inr (d, nn))"
    "expands F (t_db t) (t_cachegen t) True nn (pinsert p (keybytesToHex (full_key t key)) v)"
    by blast
  then show ?thesis
    using assms False pwf_pinsert [of p "keybytesToHex (full_key t key)" v]
    by (auto simp: TryUpdate_def trie_treeF_def pwf_def addressable_update)
qed

lemma flags_fresh_True [simp]: "flags_fresh (\<lambda>_ _ _. True) t"
  by (simp add: flags_fresh_def)

lemmas TryGet_tree = TryGet_treeF [OF flags_fresh_True, folded trie_tree_def]
  and TryUpdate_tree = TryUpdate_treeF [OF flags_fresh_True, folded trie_tree_def]
  and TryDelete_tree = TryDelete_treeF [OF flags_fresh_True, folded trie_tree_def]

text \<open>The same for every predicate on the cached flags that fresh flags satisfy.\<close>

definition trie_mapF :: "(bool \<Rightarrow> nodeFlag \<Rightarrow> ptrie \<Rightarrow> bool) \<Rightarrow> trie \<Rightarrow> (bytes \<rightharpoonup> bytes) \<Rightarrow> bool" where
  "trie_mapF F t m \<longleftrightarrow> (\<exists>p. trie_treeF F t p \<and> (\<forall>key. m key = plookup p (keybytesToHex (full_key t key))))"

lemma trie_mapFI: "trie_treeF F t p \<Longrightarrow> (\<And>key. m key = plookup p (keybytesToHex (full_key t key))) \<Longrightarrow> trie_mapF F t m"
  by (auto simp: trie_mapF_def)

lemma trie_map_mapF: "trie_map = trie_mapF (\<lambda>_ _ _. True)"
  by (auto simp: fun_eq_iff trie_map_def trie_mapF_def trie_tree_def)

lemma trie_mapF_prefix_kv:
  assumes "\<And>t. flags_fresh F t"
  shows "kv_store (\<lambda>t m. trie_mapF F t m \<and> t_prefix t = pre) TryGet TryUpdate TryDelete (\<lambda>v. v = []) (\<lambda>k. True)"
proof
  fix t m k
  assume m: "trie_mapF F t m \<and> t_prefix t = pre"
  then obtain p where p: "trie_treeF F t p" "\<And>key. m key = plookup p (keybytesToHex (full_key t key))"
    by (auto simp: trie_mapF_def)
  have wf: "pwf p" using p(1) by (simp add: trie_treeF_def)
  obtain n where n: "TryGet t k = Some (Inr (m k, t\<lparr>t_root := n\<rparr>))" "trie_treeF F (t\<lparr>t_root := n\<rparr>) p"
    using TryGet_treeF [OF assms p(1), of k] p(2) by auto
  have "trie_mapF F (t\<lparr>t_root := n\<rparr>) m" using p(2) by (intro trie_mapFI [OF n(2)]) simp
  then show "\<exists>t'. TryGet t k = Some (Inr (m k, t')) \<and> trie_mapF F t' m \<and> t_prefix t' = pre" using n(1) m by auto
  obtain n where n: "TryDelete t k = Some (Inr (t\<lparr>t_root := n\<rparr>))"
    "trie_treeF F (t\<lparr>t_root := n\<rparr>) (pdelete p (keybytesToHex (full_key t k)))"
    using TryDelete_treeF [OF assms p(1)] by blast
  have "trie_mapF F (t\<lparr>t_root := n\<rparr>) (m(k := None))"
    using wf p(2) by (intro trie_mapFI [OF n(2)]) (simp add: plookup_pdelete)
  then show "\<exists>t'. TryDelete t k = Some (Inr t') \<and> trie_mapF F t' (m(k := None)) \<and> t_prefix t' = pre" using n(1) m by auto
  show "\<exists>t'. TryUpdate t k v = Some (Inr t') \<and> trie_mapF F t' (if v = [] then m(k := None) else m(k \<mapsto> v)) \<and> t_prefix t' = pre" for v
  proof -
    obtain n where n: "TryUpdate t k v = Some (Inr (t\<lparr>t_root := n\<rparr>))"
      "trie_treeF F (t\<lparr>t_root := n\<rparr>) (if v = [] then pdelete p (keybytesToHex (full_key t k)) else pinsert p (keybytesToHex (full_key t k)) v)"
      using TryUpdate_treeF [OF assms p(1)] by blast
    have "trie_mapF F (t\<lparr>t_root := n\<rparr>) (if v = [] then m(k := None) else m(k \<mapsto> v))"
      using wf p(2) by (intro trie_mapFI [OF n(2)]) (simp add: plookup_pdelete plookup_pinsert)
    then show ?thesis using n(1) m by auto
  qed
qed

lemma trie_mapF_kv:
  assumes "\<And>t. flags_fresh F t"
  shows "kv_store (trie_mapF F) TryGet TryUpdate TryDelete (\<lambda>v. v = []) (\<lambda>k. True)"
proof
  fix t m k v
  assume m: "trie_mapF F t m"
  note kv = trie_mapF_prefix_kv [OF assms, of "t_prefix t"] conjI [OF m refl]
  show "\<exists>t'. TryGet t k = Some (Inr (m k, t')) \<and> trie_mapF F t' m" using kv_store.get_law [OF kv TrueI, of k] by blast
  show "\<exists>t'. TryUpdate t k v = Some (Inr t') \<and> trie_mapF F t' (if v = [] then m(k := None) else m(k \<mapsto> v))"
    using kv_store.update_law [OF kv TrueI, of k v] by blast
  show "\<exists>t'. TryDelete t k = Some (Inr t') \<and> trie_mapF F t' (m(k := None))" using kv_store.delete_law [OF kv TrueI, of k] by blast
qed

interpretation trie_kv: kv_store trie_map TryGet TryUpdate TryDelete "\<lambda>v. v = []" "\<lambda>k. True"
  unfolding trie_map_mapF by (rule trie_mapF_kv) simp

interpretation prefix_kv: kv_store "\<lambda>t m. trie_map t m \<and> t_prefix t = pre" TryGet TryUpdate TryDelete "\<lambda>v. v = []" "\<lambda>k. True"
  unfolding trie_map_mapF by (rule trie_mapF_prefix_kv) simp

lemma TryUpdate_map:
  assumes "trie_map t m" "v \<noteq> []"
  shows "\<exists>n. TryUpdate t k v = Some (Inr (t\<lparr>t_root := n\<rparr>)) \<and> trie_map (t\<lparr>t_root := n\<rparr>) (m(k \<mapsto> v))"
proof -
  from assms(1) obtain p where "trie_tree t p" by (auto simp: trie_map_def)
  then obtain n where "TryUpdate t k v = Some (Inr (t\<lparr>t_root := n\<rparr>))" using TryUpdate_tree by blast
  then show ?thesis using trie_kv.update_law [OF assms(1), of k v] assms(2) by auto
qed

lemma trie_map_unique_tree:
  assumes "trie_tree t p" "trie_tree u q" "t_prefix t = t_prefix u"
    "\<And>key. plookup p (keybytesToHex (full_key t key)) = plookup q (keybytesToHex (full_key u key))"
  shows "p = q"
proof (rule pwf_unique)
  show "pwf p" "pwf q" using assms(1,2) by (simp_all add: trie_tree_def trie_treeF_def)
  have full: "full_key u key = full_key t key" for key using assms(3) by (simp add: full_key_def)
  show "same_contents p q"
    unfolding same_contents_def
  proof (intro allI impI)
    fix k assume k: "hexkey k"
    show "plookup p k = plookup q k"
    proof (cases "\<exists>key. k = keybytesToHex (full_key t key)")
      case True
      then show ?thesis using assms(4) full by auto
    next
      case False
      then have "plookup p k = None" "plookup q k = None"
        using assms(1,2) k full unfolding trie_tree_def trie_treeF_def addressable_def by metis+
      then show ?thesis by simp
    qed
  qed
qed

definition empty_trie :: "(bytes \<rightharpoonup> bytes) \<Rightarrow> trie" where
  "empty_trie db = \<lparr>t_root = NilNode, t_db = db, t_originalRoot = replicate 32 0, t_prefix = None,
     t_cachegen = 0, t_cachelimit = 0\<rparr>"

lemma empty_trie_New: "trie_New (replicate 32 0) db = Inr (empty_trie db)"
  by (simp add: trie_New_def empty_trie_def Let_def)

lemma empty_trie_map: "trie_map (empty_trie db) Map.empty"
  by (rule trie_mapI [of _ PNil]) (simp_all add: trie_tree_def trie_treeF_def addressable_def
    pwf_def empty_trie_def expands.exp_nil)

section \<open>Properties\<close>

text \<open>
  C1. A trie implements a finite map. Whatever mixture of in-memory nodes and unresolved hash
  references a trie consists of, as long as it stands for a canonical tree, every sequence of
  \<open>TryGet\<close>, \<open>TryUpdate\<close> and \<open>TryDelete\<close> returns, without missing-node error and without panic, with
  the results of the same sequence on the map (an update with an empty value being a deletion),
  and the trie afterwards holds the map afterwards.
\<close>

theorem trie_implements_map:
  assumes "trie_map t m"
  shows "\<exists>t'. run_store TryGet TryUpdate TryDelete t ops = Some (Inr (fst (run_map (\<lambda>v. v = []) m ops), t'))
    \<and> trie_map t' (snd (run_map (\<lambda>v. v = []) m ops))"
  using assms by (intro trie_kv.run_refines) simp_all

theorem trie_implements_map_witness:
  "\<exists>t'. run_store TryGet TryUpdate TryDelete (empty_trie Map.empty)
      [OUpdate [0x12, 0x34] [1], OUpdate [0x12, 0x56] [2], OGet [0x12, 0x34], ODelete [0x12, 0x34],
       OGet [0x12, 0x34], OUpdate [0x12, 0x56] [], OGet [0x12, 0x56]] =
    Some (Inr ([Some [1], None, None], t'))"
  using trie_implements_map [OF empty_trie_map, of Map.empty
      "[OUpdate [0x12, 0x34] [1], OUpdate [0x12, 0x56] [2], OGet [0x12, 0x34], ODelete [0x12, 0x34],
       OGet [0x12, 0x34], OUpdate [0x12, 0x56] [], OGet [0x12, 0x56]]"]
  by auto

text \<open>
  C2. The tree depends on the contents only. Run two sequences of \<open>TryGet\<close>, \<open>TryUpdate\<close> and \<open>TryDelete\<close>
  on two tries with the same key prefix: if they lead to the same map, the two tries afterwards stand
  for the same canonical tree, whatever the order of the operations, the detours through other keys,
  and however much of each trie is still in the database.
\<close>

theorem trie_history_independent:
  assumes "trie_map t m" "trie_map u n" "t_prefix t = t_prefix u"
    "snd (run_map (\<lambda>v. v = []) m ops) = snd (run_map (\<lambda>v. v = []) n ops')"
  shows "\<exists>rs t' rs' u' p. run_store TryGet TryUpdate TryDelete t ops = Some (Inr (rs, t'))
    \<and> run_store TryGet TryUpdate TryDelete u ops' = Some (Inr (rs', u')) \<and> trie_tree t' p \<and> trie_tree u' p"
proof -
  obtain t' where t': "run_store TryGet TryUpdate TryDelete t ops = Some (Inr (fst (run_map (\<lambda>v. v = []) m ops), t'))"
      "trie_map t' (snd (run_map (\<lambda>v. v = []) m ops))" "t_prefix t' = t_prefix t"
    using prefix_kv.run_refines [of t m "t_prefix t" ops] assms(1) by blast
  obtain u' where u': "run_store TryGet TryUpdate TryDelete u ops' = Some (Inr (fst (run_map (\<lambda>v. v = []) n ops'), u'))"
      "trie_map u' (snd (run_map (\<lambda>v. v = []) n ops'))" "t_prefix u' = t_prefix u"
    using prefix_kv.run_refines [of u n "t_prefix u" ops'] assms(2) by blast
  have "\<exists>p. trie_tree t' p \<and> trie_tree u' p"
    using t'(2,3) u'(2,3) assms(3,4) trie_map_unique_tree [of t' _ u'] unfolding trie_map_def by metis
  then show ?thesis using t'(1) u'(1) by blast
qed

theorem trie_history_independent_witness:
  "\<exists>rs t rs' u p. run_store TryGet TryUpdate TryDelete (empty_trie Map.empty) [OUpdate [1] [5], OUpdate [2] [6]] = Some (Inr (rs, t))
    \<and> run_store TryGet TryUpdate TryDelete (empty_trie Map.empty) [OUpdate [2] [6], OUpdate [3] [7], OUpdate [1] [5], ODelete [3]] = Some (Inr (rs', u))
    \<and> trie_tree t p \<and> trie_tree u p"
  by (rule trie_history_independent [OF empty_trie_map empty_trie_map]) (auto simp: fun_eq_iff)

end
