(* ===== verification/Trie_Service.thy ===== *)
theory Trie_Service
  imports Trie_Ops
begin

text \<open>
  The trie as its clients see it: the methods of the Go interface \<open>Trie\<close>
  (\<^verbatim>\<open>pkg/core/state/database.go\<close>) as a record of functions on an abstract trie state, since a lookup
  may replace resolved nodes. Two locales state what clients rely on: reads do not disturb later
  reads, and a trie that represents a map reads and updates it, for the keys of a set, which a trie
  that hashes its keys needs to be free of collisions. The trie of \<open>Trie_Ops\<close> provides both.
\<close>

record 't trie_api =
  api_TryGet :: "'t \<Rightarrow> bytes \<Rightarrow> (trie_error + bytes option) \<times> 't"
  api_TryUpdate :: "'t \<Rightarrow> bytes \<Rightarrow> bytes \<Rightarrow> trie_error option \<times> 't"
  api_TryDelete :: "'t \<Rightarrow> bytes \<Rightarrow> trie_error option \<times> 't"
  api_Hash :: "'t \<Rightarrow> hash \<times> 't"

locale trie_reader =
  fixes T :: "'t trie_api"
  assumes read_law: "fst (api_TryGet T (snd (api_TryGet T t k)) k') = fst (api_TryGet T t k')"

locale trie_service = trie_reader T for T :: "'t trie_api" +
  fixes represents :: "'t \<Rightarrow> (bytes \<rightharpoonup> bytes) \<Rightarrow> bool"
    and okk :: "bytes \<Rightarrow> bool"
  assumes get_law: "represents t m \<Longrightarrow> okk k \<Longrightarrow> fst (api_TryGet T t k) = Inr (m k) \<and> represents (snd (api_TryGet T t k)) m"
    and update_law: "represents t m \<Longrightarrow> okk k \<Longrightarrow> fst (api_TryUpdate T t k v) = None
      \<and> represents (snd (api_TryUpdate T t k v)) (if v = [] then m(k := None) else m(k \<mapsto> v))"
    and delete_law: "represents t m \<Longrightarrow> okk k \<Longrightarrow> fst (api_TryDelete T t k) = None
      \<and> represents (snd (api_TryDelete T t k)) (m(k := None))"
    and hash_law: "represents t m \<Longrightarrow> represents (snd (api_Hash T t)) m"

section \<open>A sorted list of entries\<close>

text \<open>The simplest provider, executable: the entries in the order of their hexadecimal keys.\<close>

type_synonym store = "(bytes \<times> bytes) list"

fun bytes_less :: "bytes \<Rightarrow> bytes \<Rightarrow> bool" where
  "bytes_less [] [] \<longleftrightarrow> False"
| "bytes_less [] (y # ys) \<longleftrightarrow> True"
| "bytes_less (x # xs) [] \<longleftrightarrow> False"
| "bytes_less (x # xs) (y # ys) \<longleftrightarrow> x < y \<or> (x = y \<and> bytes_less xs ys)"

text \<open>
  The order in which a trie is iterated: that of the hexadecimal keys, in which a key comes after its
  extensions because of its terminator. Iteration from a start key leaves out the keys before the
  start without its terminator, so it also visits the keys of which the start is an extension.
\<close>

definition hex_less :: "bytes \<Rightarrow> bytes \<Rightarrow> bool" where
  "hex_less a b \<longleftrightarrow> bytes_less (keybytesToHex a) (keybytesToHex b)"

definition not_before :: "bytes \<Rightarrow> bytes \<Rightarrow> bool" where
  "not_before start key \<longleftrightarrow> \<not> bytes_less (keybytesToHex key) (butlast (keybytesToHex start))"

definition key_prefixed :: "bytes \<Rightarrow> bytes \<Rightarrow> bool" where
  "key_prefixed prefix key \<longleftrightarrow> take (length prefix) key = prefix"

lemma bytes_less_irrefl [simp]: "\<not> bytes_less k k"
  by (induction k) auto

lemma bytes_less_trans: "bytes_less a b \<Longrightarrow> bytes_less b c \<Longrightarrow> bytes_less a c"
proof (induction a b arbitrary: c rule: bytes_less.induct)
  case (4 x xs y ys)
  then show ?case by (cases c) auto
qed (auto elim: bytes_less.elims)

lemma bytes_less_linear: "a = b \<or> bytes_less a b \<or> bytes_less b a"
  by (induction a b rule: bytes_less.induct) auto

lemma bytes_less_append [simp]: "bytes_less (p @ a) (p @ b) \<longleftrightarrow> bytes_less a b"
  by (induction p) auto

lemma bytes_less_extend [simp]: "bytes_less p (p @ a) \<longleftrightarrow> a \<noteq> []"
  using bytes_less_append [of p "[]" a] by (cases a) auto

lemma bytes_less_Nil [simp]: "\<not> bytes_less a []"
  by (cases a) auto

lemma keybytesToHex_nonempty [simp]: "keybytesToHex k \<noteq> []"
  by (cases k) auto

lemma keybytesToHex_join: "keybytesToHex (p @ k) = butlast (keybytesToHex p) @ keybytesToHex k"
  by (induction p) auto

lemma not_before_extend: "not_before p (p @ r)"
  using bytes_less_append [of "butlast (keybytesToHex p)" "keybytesToHex r" "[]"] by (simp add: not_before_def keybytesToHex_join)

lemma hex_less_irrefl [simp]: "\<not> hex_less k k"
  by (simp add: hex_less_def)

lemma hex_less_trans: "hex_less a b \<Longrightarrow> hex_less b c \<Longrightarrow> hex_less a c"
  using bytes_less_trans by (auto simp: hex_less_def)

lemma hex_less_linear: "a = b \<or> hex_less a b \<or> hex_less b a"
  using bytes_less_linear [of "keybytesToHex a" "keybytesToHex b"] by (auto simp: hex_less_def)

fun store_put :: "store \<Rightarrow> bytes \<Rightarrow> bytes \<Rightarrow> store" where
  "store_put [] k v = [(k, v)]"
| "store_put ((k', v') # st) k v =
     (if k = k' then (k, v) # st else if hex_less k k' then (k, v) # (k', v') # st else (k', v') # store_put st k v)"

definition store_del :: "store \<Rightarrow> bytes \<Rightarrow> store" where
  "store_del st k = filter (\<lambda>(k', v). k' \<noteq> k) st"

definition store_api :: "(store \<Rightarrow> hash) \<Rightarrow> store trie_api" where
  "store_api root =
     \<lparr>api_TryGet = (\<lambda>st k. (Inr (map_of st k), st)),
      api_TryUpdate = (\<lambda>st k v. (None, if v = [] then store_del st k else store_put st k v)),
      api_TryDelete = (\<lambda>st k. (None, store_del st k)),
      api_Hash = (\<lambda>st. (root st, st))\<rparr>"

fun store_sorted :: "store \<Rightarrow> bool" where
  "store_sorted [] \<longleftrightarrow> True"
| "store_sorted ((k, v) # st) \<longleftrightarrow> (\<forall>k' \<in> fst ` set st. hex_less k k') \<and> store_sorted st"

definition store_represents :: "store \<Rightarrow> (bytes \<rightharpoonup> bytes) \<Rightarrow> bool" where
  "store_represents st m \<longleftrightarrow> store_sorted st \<and> map_of st = m"

lemma map_of_store_put: "map_of (store_put st k v) = (map_of st)(k \<mapsto> v)"
  by (induction st k v rule: store_put.induct) auto

lemma fst_store_put: "fst ` set (store_put st k v) = insert k (fst ` set st)"
  by (induction st k v rule: store_put.induct) auto

lemma store_sorted_put: "store_sorted st \<Longrightarrow> store_sorted (store_put st k v)"
proof (induction st)
  case (Cons a st)
  obtain k' v' where a: "a = (k', v')" by (cases a)
  have hd: "\<forall>x \<in> fst ` set st. hex_less k' x" "store_sorted st" using Cons.prems a by auto
  show ?case
  proof (cases "k = k' \<or> hex_less k k'")
    case True
    then show ?thesis using hd a hex_less_trans [of k k'] by auto
  next
    case False
    then have "hex_less k' k" using hex_less_linear by blast
    then have "\<forall>x \<in> fst ` set (store_put st k v). hex_less k' x" using hd fst_store_put by auto
    then show ?thesis using Cons.IH hd(2) a False by simp
  qed
qed simp

lemma map_of_store_del: "map_of (store_del st k) = (map_of st)(k := None)"
  by (induction st) (auto simp: store_del_def)

lemma store_sorted_del: "store_sorted st \<Longrightarrow> store_sorted (store_del st k)"
  by (induction st) (auto simp: store_del_def)

interpretation store_srv: trie_service "store_api root" store_represents "\<lambda>_. True"
  by unfold_locales
    (auto simp: store_api_def store_represents_def map_of_store_put map_of_store_del store_sorted_put store_sorted_del)

section \<open>The trie as a provider\<close>

text \<open>
  The methods of \<open>trie\<close> in this interface. A lookup that fails leaves the trie as it is; a call that
  does not return is mapped to the panic, which a trie that represents a map never reaches.
\<close>

definition trie_api_of :: "(trie \<Rightarrow> hash \<times> trie) \<Rightarrow> trie trie_api" where
  "trie_api_of hash =
     \<lparr>api_TryGet = (\<lambda>t k. case TryGet t k of Some (Inr (v, t')) \<Rightarrow> (Inr v, t') | Some (Inl e) \<Rightarrow> (Inl e, t) | None \<Rightarrow> (Inl TriePanic, t)),
      api_TryUpdate = (\<lambda>t k v. case TryUpdate t k v of Some (Inr t') \<Rightarrow> (None, t') | Some (Inl e) \<Rightarrow> (Some e, t) | None \<Rightarrow> (Some TriePanic, t)),
      api_TryDelete = (\<lambda>t k. case TryDelete t k of Some (Inr t') \<Rightarrow> (None, t') | Some (Inl e) \<Rightarrow> (Some e, t) | None \<Rightarrow> (Some TriePanic, t)),
      api_Hash = hash\<rparr>"


text \<open>A read that resolves nodes leaves every later read as it was, failing reads included.\<close>

definition read_result :: "(bytes option \<times> node \<times> bool) trie_result \<Rightarrow> bytes option trie_result" where
  "read_result r = out_bind r (\<lambda>(v, _). Some (Inr v))"

lemma read_result_bind: "read_result (out_bind r (\<lambda>(v, n, d). Some (Inr (v, f n d, g d)))) = read_result r"
  by (cases r) (auto simp: read_result_def out_bind_def split: sum.splits)

lemma read_result_hash: "read_result (case r of Inl e \<Rightarrow> Some (Inl e) | Inr child \<Rightarrow> out_bind (f child) (\<lambda>(v, n, _). Some (Inr (v, n, True)))) =
    (case r of Inl e \<Rightarrow> Some (Inl e) | Inr child \<Rightarrow> read_result (f child))"
  using read_result_bind [of _ "\<lambda>n d. n" "\<lambda>d. True"] by (cases r) (simp_all add: read_result_def)

lemma read_result_step:
  "read_result (tryGet t NilNode key pos) = Some (Inr None)"
  "read_result (tryGet t (ValueNode v) key pos) = Some (Inr (Some v))"
  "read_result (tryGet t (ShortNode k val fl) key pos) =
     (if length key - pos < length k \<or> k \<noteq> take (length k) (drop pos key) then Some (Inr None)
      else read_result (tryGet t val key (pos + length k)))"
  "read_result (tryGet t (FullNode cs fl') key pos) =
     (if length key \<le> pos \<or> length cs \<le> unat (key ! pos) then Some (Inl TriePanic)
      else read_result (tryGet t (cs ! unat (key ! pos)) key (pos + 1)))"
  "read_result (tryGet t (HashNode h) key pos) =
     (case resolveHash t h (take pos key) of Inl e \<Rightarrow> Some (Inl e) | Inr child \<Rightarrow> read_result (tryGet t child key pos))"
  by (subst tryGet.simps; simp add: read_result_bind read_result_hash; simp add: read_result_def split: sum.split)+

lemma resolveHash_prefix: "resolveHash t h p = Inr n \<Longrightarrow> resolveHash t h p' = Inr n"
  by (auto simp: resolveHash_def split: option.splits)

lemma tryGet_stable:
  assumes "tryGet t n key pos = Some (Inr (v, n', d))"
  shows "read_result (tryGet t n' key2 pos2) = read_result (tryGet t n key2 pos2)"
proof -
  have "\<forall>v n' d key2 pos2. y = Inr (v, n', d) \<longrightarrow> read_result (tryGet t n' key2 pos2) = read_result (tryGet t n key2 pos2)"
    if "tryGet t n key pos = Some y" for y
  proof (rule tryGet.raw_induct [OF _ that])
    fix f t n key pos y
    assume IH: "\<And>t n key pos y. f t n key pos = Some y \<Longrightarrow> \<forall>v n' d key2 pos2. y = Inr (v, n', d) \<longrightarrow>
        read_result (tryGet t n' key2 pos2) = read_result (tryGet t n key2 pos2)"
      and y: "(case n of
        NilNode \<Rightarrow> Some (Inr (None, NilNode, False))
      | FullNode cs fl \<Rightarrow>
          if length key \<le> pos \<or> length cs \<le> unat (key ! pos) then Some (Inl TriePanic)
          else out_bind (f t (cs ! unat (key ! pos)) key (pos + 1)) (\<lambda>(value, newnode, didResolve).
            Some (Inr (value,
              if didResolve then FullNode (cs [unat (key ! pos) := newnode]) (fl\<lparr>nf_gen := t_cachegen t\<rparr>)
              else n,
              didResolve)))
      | ShortNode k val fl \<Rightarrow>
          if length key - pos < length k \<or> k \<noteq> take (length k) (drop pos key)
          then Some (Inr (None, n, False))
          else out_bind (f t val key (pos + length k)) (\<lambda>(value, newnode, didResolve).
            Some (Inr (value,
              if didResolve then ShortNode k newnode (fl\<lparr>nf_gen := t_cachegen t\<rparr>) else n,
              didResolve)))
      | HashNode h \<Rightarrow>
          (case resolveHash t h (take pos key) of
             Inl e \<Rightarrow> Some (Inl e)
           | Inr child \<Rightarrow> out_bind (f t child key pos) (\<lambda>(value, newnode, _).
               Some (Inr (value, newnode, True))))
      | ValueNode v \<Rightarrow> Some (Inr (Some v, ValueNode v, False))) = Some y"
    show "\<forall>v n' d key2 pos2. y = Inr (v, n', d) \<longrightarrow>
        read_result (tryGet t n' key2 pos2) = read_result (tryGet t n key2 pos2)"
    proof (intro allI impI)
      fix v n' d key2 pos2
      assume y': "y = Inr (v, n', d)"
      show "read_result (tryGet t n' key2 pos2) = read_result (tryGet t n key2 pos2)"
      proof (cases n)
        case (HashNode h)
        obtain child d' where c: "resolveHash t h (take pos key) = Inr child" "f t child key pos = Some (Inr (v, n', d'))"
          using y y' HashNode by (auto simp: out_bind_Inr_iff split: sum.splits)
        then show ?thesis
          using IH [OF c(2), rule_format, OF refl] resolveHash_prefix [OF c(1), of "take pos2 key2"] HashNode by (simp add: read_result_step)
      next
        case (ShortNode k val fl)
        show ?thesis
        proof (cases "n' = n")
          case False
          then obtain nn where c: "f t val key (pos + length k) = Some (Inr (v, nn, True))" "n' = ShortNode k nn (fl\<lparr>nf_gen := t_cachegen t\<rparr>)"
            using y y' ShortNode by (auto simp: out_bind_Inr_iff split: if_splits)
          then show ?thesis using IH [OF c(1), rule_format, OF refl] ShortNode by (simp add: read_result_step)
        qed simp
      next
        case (FullNode cs fl)
        show ?thesis
        proof (cases "n' = n")
          case False
          then obtain nn where c: "f t (cs ! unat (key ! pos)) key (pos + 1) = Some (Inr (v, nn, True))"
              "n' = FullNode (cs [unat (key ! pos) := nn]) (fl\<lparr>nf_gen := t_cachegen t\<rparr>)"
            using y y' FullNode by (auto simp: out_bind_Inr_iff split: if_splits)
          then show ?thesis
            using IH [OF c(1), rule_format, OF refl] FullNode by (cases "unat (key ! pos) = unat (key2 ! pos2)") (simp_all add: read_result_step)
        qed simp
      qed (use y y' in auto)
    qed
  qed
  then show ?thesis using assms by blast
qed


lemma out_bind_lift:
  "out_bind r g = Some y \<Longrightarrow> (\<And>z. r = Some z \<Longrightarrow> r' = Some z) \<Longrightarrow> out_bind r' g = Some y"
  by (cases r) auto

lemma t_cachegen_root: "t_cachegen (t\<lparr>t_root := r\<rparr>) = t_cachegen t"
  by simp

lemma resolveHash_root [simp]: "resolveHash (t\<lparr>t_root := r\<rparr>) = resolveHash t"
  unfolding resolveHash_def fun_eq_iff t_cachegen_root by simp

lemma tryGet_root_Some: "tryGet t n key pos = Some y \<Longrightarrow> tryGet (t\<lparr>t_root := r\<rparr>) n key pos = Some y"
proof (rule tryGet.raw_induct [where P = "\<lambda>t n key pos y. tryGet (t\<lparr>t_root := r\<rparr>) n key pos = Some y"])
  fix f :: "trie \<Rightarrow> node \<Rightarrow> bytes \<Rightarrow> nat \<Rightarrow> (bytes option \<times> node \<times> bool) trie_result" and t n key pos y
  assume IH: "\<And>t n key pos y. f t n key pos = Some y \<Longrightarrow> tryGet (t\<lparr>t_root := r\<rparr>) n key pos = Some y"
    and y: "(case n of
        NilNode \<Rightarrow> Some (Inr (None, NilNode, False))
      | FullNode cs fl \<Rightarrow>
          if length key \<le> pos \<or> length cs \<le> unat (key ! pos) then Some (Inl TriePanic)
          else out_bind (f t (cs ! unat (key ! pos)) key (pos + 1)) (\<lambda>(value, newnode, didResolve).
            Some (Inr (value,
              if didResolve then FullNode (cs [unat (key ! pos) := newnode]) (fl\<lparr>nf_gen := t_cachegen t\<rparr>)
              else n,
              didResolve)))
      | ShortNode k val fl \<Rightarrow>
          if length key - pos < length k \<or> k \<noteq> take (length k) (drop pos key)
          then Some (Inr (None, n, False))
          else out_bind (f t val key (pos + length k)) (\<lambda>(value, newnode, didResolve).
            Some (Inr (value,
              if didResolve then ShortNode k newnode (fl\<lparr>nf_gen := t_cachegen t\<rparr>) else n,
              didResolve)))
      | HashNode h \<Rightarrow>
          (case resolveHash t h (take pos key) of
             Inl e \<Rightarrow> Some (Inl e)
           | Inr child \<Rightarrow> out_bind (f t child key pos) (\<lambda>(value, newnode, _).
               Some (Inr (value, newnode, True))))
      | ValueNode v \<Rightarrow> Some (Inr (Some v, ValueNode v, False))) = Some y"
  show "tryGet (t\<lparr>t_root := r\<rparr>) n key pos = Some y"
  proof (cases n)
    case (HashNode h)
    then show ?thesis
      using y by (subst tryGet.simps, unfold t_cachegen_root) (auto split: sum.splits intro: IH elim!: out_bind_lift)
  next
    case (ShortNode k val fl)
    then show ?thesis
      using y by (subst tryGet.simps, unfold t_cachegen_root) (auto split: if_splits intro: IH elim!: out_bind_lift)
  next
    case (FullNode cs fl)
    then show ?thesis
      using y by (subst tryGet.simps, unfold t_cachegen_root) (auto split: if_splits intro: IH elim!: out_bind_lift)
  qed (use y in \<open>subst tryGet.simps, simp\<close>)+
qed

lemma tryGet_root [simp]: "tryGet (t\<lparr>t_root := r\<rparr>) n key pos = tryGet t n key pos"
proof (cases "tryGet t n key pos")
  case (Some y)
  then show ?thesis using tryGet_root_Some by simp
next
  case None
  then show ?thesis
    using tryGet_root_Some [of "t\<lparr>t_root := r\<rparr>" n key pos _ "t_root t"] by (cases "tryGet (t\<lparr>t_root := r\<rparr>) n key pos") auto
qed

lemma fst_api_TryGet:
  "fst (api_TryGet (trie_api_of h) t k) =
    (case read_result (tryGet t (t_root t) (keybytesToHex (full_key t k)) 0) of Some (Inr v) \<Rightarrow> Inr v | Some (Inl e) \<Rightarrow> Inl e | None \<Rightarrow> Inl TriePanic)"
  by (cases "tryGet t (t_root t) (keybytesToHex (full_key t k)) 0")
    (auto simp: trie_api_of_def TryGet_def read_result_def out_bind_def split: sum.splits)

lemma trie_read_law:
  "fst (api_TryGet (trie_api_of h) (snd (api_TryGet (trie_api_of h) t k)) k') = fst (api_TryGet (trie_api_of h) t k')"
proof (cases "tryGet t (t_root t) (keybytesToHex (full_key t k)) 0")
  case None
  then show ?thesis by (simp add: trie_api_of_def TryGet_def)
next
  case (Some r)
  show ?thesis
  proof (cases r)
    case (Inl e)
    then show ?thesis using Some by (simp add: trie_api_of_def TryGet_def)
  next
    case (Inr x)
    obtain v n d where x: "x = (v, n, d)" by (cases x)
    then have "snd (api_TryGet (trie_api_of h) t k) = (if d then t\<lparr>t_root := n\<rparr> else t)"
      using Some Inr by (simp add: trie_api_of_def TryGet_def)
    then show ?thesis
      using tryGet_stable [OF Some [unfolded Inr x]] by (simp add: fst_api_TryGet)
  qed
qed

lemma trie_mapF_service:
  assumes "\<And>t. flags_fresh F t" "\<And>t m. trie_mapF F t m \<Longrightarrow> trie_mapF F (snd (h t)) m"
  shows "trie_service (trie_api_of h) (trie_mapF F) (\<lambda>_. True)"
proof
  fix t m k v
  show "fst (api_TryGet (trie_api_of h) (snd (api_TryGet (trie_api_of h) t' k)) k') = fst (api_TryGet (trie_api_of h) t' k')" for t' k'
    by (rule trie_read_law)
  assume m: "trie_mapF F t m"
  note kv = trie_mapF_kv [OF assms(1)]
  show "fst (api_TryGet (trie_api_of h) t k) = Inr (m k) \<and> trie_mapF F (snd (api_TryGet (trie_api_of h) t k)) m"
    using kv_store.get_law [OF kv m TrueI, of k] by (auto simp: trie_api_of_def fun_upd_def)
  show "fst (api_TryUpdate (trie_api_of h) t k v) = None
      \<and> trie_mapF F (snd (api_TryUpdate (trie_api_of h) t k v)) (if v = [] then m(k := None) else m(k \<mapsto> v))"
    using kv_store.update_law [OF kv m TrueI, of k v] by (auto simp: trie_api_of_def fun_upd_def)
  show "fst (api_TryDelete (trie_api_of h) t k) = None \<and> trie_mapF F (snd (api_TryDelete (trie_api_of h) t k)) (m(k := None))"
    using kv_store.delete_law [OF kv m TrueI, of k] by (auto simp: trie_api_of_def fun_upd_def)
  show "trie_mapF F (snd (api_Hash (trie_api_of h) t)) m" using assms(2) [OF m] by (simp add: trie_api_of_def)
qed

interpretation trie_srv: trie_service "trie_api_of (\<lambda>t. (root t, t))" trie_map "\<lambda>_. True"
  unfolding trie_map_mapF by (rule trie_mapF_service) simp_all

end
