(* ===== verification/RLP_Values.thy ===== *)
theory RLP_Values
  imports RLP_Typed Common_Types
begin

text \<open>
  Reading the fields of a decoded value, and the two ways the code turns a value into bytes for a
  hash: \<open>rlp.Encode\<close> to a hasher, which writes nothing when the encoding fails, and \<open>rlpHash\<close>.
\<close>

text \<open>The fields of a decoded value; a value of a type has the shape that the type names.\<close>

fun dval_bytes :: "dval \<Rightarrow> bytes" where
  "dval_bytes (DBytes b) = b"
| "dval_bytes _ = []"

fun dval_uint :: "dval \<Rightarrow> u64" where
  "dval_uint (DUint n) = n"
| "dval_uint _ = 0"

fun dval_big :: "dval \<Rightarrow> int" where
  "dval_big (DBig i) = i"
| "dval_big _ = 0"

fun dval_list :: "dval \<Rightarrow> dval list" where
  "dval_list (DList vs) = vs"
| "dval_list _ = []"

section \<open>Hashing an encoding\<close>

definition rlp_Encode :: "rlp_val \<Rightarrow> bytes" where
  "rlp_Encode v = (case EncodeToBytes v of Inr (Some b) \<Rightarrow> b | _ \<Rightarrow> [])"

text \<open>Keccak-256 is a parameter; the hash is the array of its 32 bytes.\<close>

definition rlpHash :: "(bytes \<Rightarrow> hash) \<Rightarrow> rlp_val \<Rightarrow> hash" where
  "rlpHash keccak v = keccak (rlp_Encode v)"

lemma rlp_Encode_enc: "rlp_ok v \<Longrightarrow> rlp_Encode v = rlp_enc v"
  using EncodeToBytes_enc by (simp add: rlp_Encode_def)

section \<open>Big integers as 64-bit words\<close>

text \<open>\<open>Uint64\<close> and \<open>Int64\<close> of a \<open>big.Int\<close> take the low 64 bits of the absolute value.\<close>

definition big_Uint64 :: "int \<Rightarrow> u64" where
  "big_Uint64 x = word_of_int \<bar>x\<bar>"

definition big_Int64 :: "int \<Rightarrow> int" where
  "big_Int64 x = (if x < 0 then i64 (- i64 \<bar>x\<bar>) else i64 \<bar>x\<bar>)"

lemma big_Int64_id: "0 \<le> x \<Longrightarrow> x < 2 ^ 63 \<Longrightarrow> big_Int64 x = x"
  by (simp add: big_Int64_def i64_id i64_range_def)

lemma unat_big_Uint64: "0 \<le> x \<Longrightarrow> unat (big_Uint64 x) = nat (x mod 2 ^ 64)"
  by (simp add: big_Uint64_def unsigned_of_int take_bit_eq_mod nat_mod_distrib)

end
