(* ===== verification/Trie_Hasher.thy ===== *)
theory Trie_Hasher
  imports Trie_Service RLP_Values
begin

text \<open>
  Hashing and committing a trie, \<^verbatim>\<open>pkg/trie/hasher.go\<close> with \<open>Hash\<close> and \<open>CommitTo\<close> of
  \<^verbatim>\<open>trie.go\<close>. Keccak-256 is a parameter, and so is the writer of the database, whose \<open>Put\<close> says
  whether it succeeded. Shown here: encoding a node never panics, and \<open>hash\<close> in terms of
  \<open>hashChildren\<close>; what the hashes mean is in \<open>Trie_Hashing\<close> and \<open>Trie_Commit\<close>.
\<close>

section \<open>Encoding never panics\<close>

text \<open>
  The buffer of \<open>toBytes\<close> is large enough for every value, also for one too large for a 64-bit
  size: the space reserved for a header is never smaller than the header.
\<close>

definition reserves :: "encbuf \<Rightarrow> encbuf \<Rightarrow> bool" where
  "reserves w w' \<longleftrightarrow> (\<exists>s hs. heads_ok 0 (length s) hs \<and> eb_str w' = eb_str w @ s
     \<and> eb_lheads w' = eb_lheads w @ map (shift_head (length (eb_str w))) hs
     \<and> eb_lhsize w + heads_len hs \<le> eb_lhsize w')"

lemma reserves_refl: "reserves w w"
  unfolding reserves_def by (rule exI [of _ "[]"], rule exI [of _ "[]"]) simp

lemma reserves_put: "reserves w (encbuf_put b w)"
  unfolding reserves_def encbuf_put_def by (rule exI [of _ b], rule exI [of _ "[]"]) simp

lemma reserves_trans:
  assumes "reserves w w1" "reserves w1 w2"
  shows "reserves w w2"
proof -
  obtain s hs where 1: "heads_ok 0 (length s) hs"
    "eb_str w1 = eb_str w @ s" "eb_lheads w1 = eb_lheads w @ map (shift_head (length (eb_str w))) hs"
    "eb_lhsize w + heads_len hs \<le> eb_lhsize w1"
    using assms(1) by (auto simp: reserves_def)
  obtain t gs where 2: "heads_ok 0 (length t) gs"
    "eb_str w2 = eb_str w1 @ t" "eb_lheads w2 = eb_lheads w1 @ map (shift_head (length (eb_str w1))) gs"
    "eb_lhsize w1 + heads_len gs \<le> eb_lhsize w2"
    using assms(2) by (auto simp: reserves_def)
  let ?hs = "hs @ map (shift_head (length s)) gs"
  have "heads_ok 0 (length (s @ t)) ?hs"
    using 1(1) heads_ok_shift [OF 2(1), of "length s"] by (auto intro: heads_ok_append)
  then show ?thesis
    unfolding reserves_def using 1 2
    by (intro exI [of _ "s @ t"] exI [of _ ?hs]) (simp add: add.commute)
qed

lemma length_listhead_encode_le:
  "length (listhead_encode \<lparr>lh_offset = i, lh_size = n\<rparr>) \<le> (if n < 56 then 1 else 1 + intsize (word_of_nat n))"
proof -
  have "length (listhead_encode \<lparr>lh_offset = i, lh_size = n\<rparr>) = headsize (word_of_nat n)"
    by (simp add: listhead_encode_def length_puthead)
  also have "\<dots> \<le> (if n < 56 then 1 else 1 + intsize (word_of_nat n))"
    using u64_of_nat_less_56 [of n] by (auto simp: headsize_def)
  finally show ?thesis .
qed

lemma reserves_list:
  assumes "encbuf_list w = (lh, w1)" "reserves w1 w2"
  shows "reserves w (encbuf_listEnd lh w2)"
proof -
  let ?n = "length (eb_str w)"
  have w1: "lh = length (eb_lheads w)" "eb_str w1 = eb_str w" "eb_lhsize w1 = eb_lhsize w"
    "eb_lheads w1 = eb_lheads w @ [\<lparr>lh_offset = ?n, lh_size = eb_lhsize w\<rparr>]"
    using assms(1) by (auto simp: encbuf_list_def Let_def)
  obtain s hs where 2: "heads_ok 0 (length s) hs"
    "eb_str w2 = eb_str w @ s" "eb_lheads w2 = eb_lheads w1 @ map (shift_head ?n) hs"
    "eb_lhsize w + heads_len hs \<le> eb_lhsize w2"
    using assms(2) by (auto simp: reserves_def w1)
  let ?sz = "encbuf_size w2 - ?n - eb_lhsize w"
  let ?h = "\<lparr>lh_offset = 0, lh_size = ?sz\<rparr>"
  have sz: "length (listhead_encode ?h) \<le> (if ?sz < 56 then 1 else 1 + intsize (word_of_nat ?sz))"
    by (rule length_listhead_encode_le)
  have end_eq: "eb_lheads (encbuf_listEnd lh w2) = eb_lheads w @ map (shift_head ?n) (?h # hs)"
    "eb_lhsize (encbuf_listEnd lh w2) = eb_lhsize w2 + (if ?sz < 56 then 1 else 1 + intsize (word_of_nat ?sz))"
    "eb_str (encbuf_listEnd lh w2) = eb_str w @ s"
    using 2 w1
    by (simp_all add: encbuf_listEnd_def Let_def nth_append list_update_append shift_head_def)
  have "heads_ok 0 (length s) (?h # hs)" using 2(1) by simp
  moreover have "eb_lhsize w + heads_len (?h # hs) \<le> eb_lhsize (encbuf_listEnd lh w2)"
    unfolding end_eq(2) using 2(4) sz by simp
  ultimately show ?thesis
    unfolding reserves_def using end_eq by (intro exI [of _ s] exI [of _ "?h # hs"]) blast
qed

lemma rlp_write_reserves:
  "\<not> has_negative v \<Longrightarrow> \<exists>w'. rlp_write v w = Inr w' \<and> reserves w w'"
  "(\<forall>v \<in> set vs. \<not> has_negative v) \<Longrightarrow> \<exists>w'. rlp_write_list vs w = Inr w' \<and> reserves w w'"
proof (induction v w and vs w rule: rlp_write_rlp_write_list.induct)
  case (8 vs w)
  obtain lh w1 where l: "encbuf_list w = (lh, w1)" by fastforce
  with 8 obtain w2 where "rlp_write_list vs w1 = Inr w2" "reserves w1 w2" by fastforce
  with l show ?case by (auto intro: reserves_list)
next
  case (10 v vs w)
  then obtain w1 where w1: "rlp_write v w = Inr w1" "reserves w w1" by auto
  with 10 obtain w2 where "rlp_write_list vs w1 = Inr w2" "reserves w1 w2" by auto
  with w1 show ?case by (auto intro: reserves_trans)
qed (auto simp: encodeString_def encodeStringHeader_def writeUint_def writeBool_def writeBigInt_def Let_def reserves_refl
      intro: reserves_put reserves_trans)

lemma toBytes_loop_total:
  assumes "heads_ok strpos (length str) hs" "pos + length (toWriter_loop str hs strpos) \<le> length out"
  shows "\<exists>b. toBytes_loop str hs out strpos pos = Some b"
  using assms
proof (induction hs arbitrary: out strpos pos)
  case (Cons h hs)
  define src where "src = take (lh_offset h - strpos) (drop strpos str)"
  define enc where "enc = listhead_encode h"
  from Cons.prems(1) have off: "strpos \<le> lh_offset h" "lh_offset h \<le> length str"
    and ok: "heads_ok (lh_offset h) (length str) hs" by auto
  have src: "strpos + length src = lh_offset h" using off by (simp add: src_def)
  have len: "pos + length src + length enc + length (toWriter_loop str hs (lh_offset h)) \<le> length out"
    using Cons.prems(2) off by (simp add: src_def enc_def max_def)
  define out1 where "out1 = take pos out @ src @ drop (pos + length src) out"
  have c1: "copy_at out pos src = (length src, out1)" using len by (simp add: copy_at_fits out1_def)
  have l1: "length out1 = length out" using len by (simp add: out1_def)
  obtain m out2 where c2: "copy_at out1 (pos + length src) enc = (m, out2)" by (cases "copy_at out1 (pos + length src) enc")
  have l2: "length out2 = length out" using c2 len l1 by (auto simp: copy_at_def Let_def)
  have "\<exists>b. toBytes_loop str hs out2 (lh_offset h) (pos + length src + length enc) = Some b"
    using ok len l2 by (intro Cons.IH) simp_all
  then show ?case using c1 c2 l1 len src by (simp add: Let_def flip: src_def enc_def)
qed simp

lemma EncodeToBytes_total:
  assumes "\<not> has_negative v"
  shows "\<exists>b. EncodeToBytes v = Inr (Some b)"
proof -
  obtain w where w: "rlp_write v encbuf_reset = Inr w" "reserves encbuf_reset w" using rlp_write_reserves(1) [OF assms] by blast
  then obtain s hs where s: "heads_ok 0 (length s) hs" "eb_str w = s" "eb_lheads w = hs" "heads_len hs \<le> eb_lhsize w"
    by (auto simp: reserves_def encbuf_reset_def)
  have "0 + length (toWriter_loop s hs 0) \<le> length (replicate (encbuf_size w) (0 :: byte))"
    using length_toWriter_loop [OF s(1)] s by (simp add: encbuf_size_def)
  then have "\<exists>b. toBytes w = Some b" using toBytes_loop_total [OF s(1)] s by (simp add: toBytes_def)
  then show ?thesis using w by (auto simp: EncodeToBytes_def)
qed

section \<open>The hasher\<close>

record 'w hasher =
  hs_keccak :: "bytes \<Rightarrow> bytes"
  hs_Put :: "'w \<Rightarrow> bytes \<Rightarrow> bytes \<Rightarrow> bool \<times> 'w"
  hs_cachegen :: u16
  hs_cachelimit :: u16

text \<open>The value that the encoder sees: the flags are not exported, and a full node encodes its children.\<close>

fun node_val :: "node \<Rightarrow> rlp_val" where
  "node_val NilNode = RNilInterface"
| "node_val (HashNode h) = RBytes h"
| "node_val (ValueNode v) = RBytes v"
| "node_val (ShortNode k v fl) = RList [RBytes k, node_val v]"
| "node_val (FullNode cs fl) = RList (map node_val cs)"

definition hasher_store :: "'w hasher \<Rightarrow> node \<Rightarrow> 'w option \<Rightarrow> bool \<Rightarrow> (trie_error + node) \<times> 'w option" where
  "hasher_store h n db force =
     (case n of
        NilNode \<Rightarrow> (Inr n, db)
      | HashNode x \<Rightarrow> (Inr n, db)
      | _ \<Rightarrow>
          (case EncodeToBytes (node_val n) of
             Inr (Some enc) \<Rightarrow>
               if length enc < 32 \<and> \<not> force then (Inr n, db)
               else
                 (let hash = (case fst (node_cache n) of None \<Rightarrow> hs_keccak h enc | Some x \<Rightarrow> x)
                  in case db of
                       None \<Rightarrow> (Inr (HashNode hash), None)
                     | Some w \<Rightarrow> (let (ok, w') = hs_Put h w hash enc in (if ok then Inr (HashNode hash) else Inl PutFailed, Some w')))
           | _ \<Rightarrow> (Inl TriePanic, db)))"

definition set_cached :: "bool \<Rightarrow> node \<Rightarrow> node \<Rightarrow> node" where
  "set_cached commit hashed cached =
     (let cachedHash = (case hashed of HashNode x \<Rightarrow> Some x | _ \<Rightarrow> None);
          upd = (\<lambda>fl. fl\<lparr>nf_hash := cachedHash, nf_dirty := (if commit then False else nf_dirty fl)\<rparr>)
      in case cached of
           ShortNode k v fl \<Rightarrow> ShortNode k v (upd fl)
         | FullNode cs fl \<Rightarrow> FullNode cs (upd fl)
         | _ \<Rightarrow> cached)"

text \<open>The first part of \<open>hash\<close>, which uses the cached hash, and the last, which stores and caches.\<close>

definition hash_shortcut :: "'w hasher \<Rightarrow> node \<Rightarrow> 'w option \<Rightarrow> (node \<times> node) option" where
  "hash_shortcut h n db =
     (case node_cache n of
        (None, dirty) \<Rightarrow> None
      | (Some x, dirty) \<Rightarrow>
          if db = None then Some (HashNode x, n)
          else if node_canUnload n (hs_cachegen h) (hs_cachelimit h) then Some (HashNode x, HashNode x)
          else if \<not> dirty then Some (HashNode x, n)
          else None)"

definition hash_finish :: "'w hasher \<Rightarrow> node \<Rightarrow> node \<Rightarrow> 'w option \<Rightarrow> bool \<Rightarrow> (trie_error + node \<times> node) \<times> 'w option" where
  "hash_finish h collapsed cached db force =
     (case hasher_store h collapsed db force of
        (Inl e, db1) \<Rightarrow> (Inl e, db1)
      | (Inr hashed, db1) \<Rightarrow> (Inr (hashed, set_cached (db \<noteq> None) hashed cached), db1))"

fun is_valueNode :: "node \<Rightarrow> bool" where
  "is_valueNode (ValueNode v) \<longleftrightarrow> True"
| "is_valueNode _ \<longleftrightarrow> False"

lemma is_valueNode_iff: "is_valueNode n \<longleftrightarrow> (\<exists>v. n = ValueNode v)"
  by (cases n) auto

text \<open>
  \<open>hash\<close> and \<open>hashChildren\<close>; a method call on a nil node panics. In \<open>hash_children\<close> the number says
  how many of the children are still to be hashed: the last child of a full node is kept.
\<close>

fun hasher_hash :: "'w hasher \<Rightarrow> node \<Rightarrow> 'w option \<Rightarrow> bool \<Rightarrow> (trie_error + node \<times> node) \<times> 'w option"
  and hash_children :: "'w hasher \<Rightarrow> nat \<Rightarrow> node list \<Rightarrow> 'w option \<Rightarrow> (trie_error + node list \<times> node list) \<times> 'w option" where
  "hasher_hash h NilNode db force = (Inl TriePanic, db)"
| "hasher_hash h (HashNode x) db force = hash_finish h (HashNode x) (HashNode x) db force"
| "hasher_hash h (ValueNode v) db force = hash_finish h (ValueNode v) (ValueNode v) db force"
| "hasher_hash h (ShortNode k v fl) db force =
     (case hash_shortcut h (ShortNode k v fl) db of
        Some r \<Rightarrow> (Inr r, db)
      | None \<Rightarrow>
          (case hexToCompact k of
             None \<Rightarrow> (Inl TriePanic, db)
           | Some ck \<Rightarrow>
               (case (if is_valueNode v then (Inr (v, v), db) else hasher_hash h v db False) of
                  (Inl e, db1) \<Rightarrow> (Inl e, db1)
                | (Inr (cv, nv), db1) \<Rightarrow>
                    hash_finish h (ShortNode ck (if cv = NilNode then ValueNode [] else cv) fl) (ShortNode k nv fl) db1 force)))"
| "hasher_hash h (FullNode cs fl) db force =
     (case hash_shortcut h (FullNode cs fl) db of
        Some r \<Rightarrow> (Inr r, db)
      | None \<Rightarrow>
          (case hash_children h 16 cs db of
             (Inl e, db1) \<Rightarrow> (Inl e, db1)
           | (Inr (ccs, ncs), db1) \<Rightarrow> hash_finish h (FullNode ccs fl) (FullNode ncs fl) db1 force))"
| "hash_children h n [] db = (Inr ([], []), db)"
| "hash_children h n (c # cs) db =
     (case (if n = 0 \<or> c = NilNode then (Inr (if c = NilNode then ValueNode [] else c, c), db) else hasher_hash h c db False) of
        (Inl e, db1) \<Rightarrow> (Inl e, db1)
      | (Inr (cc, nc), db1) \<Rightarrow>
          (case hash_children h (n - 1) cs db1 of
             (Inl e, db2) \<Rightarrow> (Inl e, db2)
           | (Inr (ccs, ncs), db2) \<Rightarrow> (Inr (cc # ccs, nc # ncs), db2)))"

text \<open>\<open>hashChildren\<close> alone, as the proofs use it, and \<open>hash\<close> in terms of it.\<close>

definition hashChildren :: "'w hasher \<Rightarrow> node \<Rightarrow> 'w option \<Rightarrow> (trie_error + node \<times> node) \<times> 'w option" where
  "hashChildren h original db =
     (case original of
        ShortNode k v fl \<Rightarrow>
          (case hexToCompact k of
             None \<Rightarrow> (Inl TriePanic, db)
           | Some ck \<Rightarrow>
               (case (if is_valueNode v then (Inr (v, v), db) else hasher_hash h v db False) of
                  (Inl e, db1) \<Rightarrow> (Inl e, db1)
                | (Inr (cv, nv), db1) \<Rightarrow>
                    (Inr (ShortNode ck (if cv = NilNode then ValueNode [] else cv) fl, ShortNode k nv fl), db1)))
      | FullNode cs fl \<Rightarrow>
          (case hash_children h 16 cs db of
             (Inl e, db1) \<Rightarrow> (Inl e, db1)
           | (Inr (ccs, ncs), db1) \<Rightarrow> (Inr (FullNode ccs fl, FullNode ncs fl), db1))
      | _ \<Rightarrow> (Inr (original, original), db))"

lemma hasher_hash_hashChildren:
  assumes "n \<noteq> NilNode"
  shows "hasher_hash h n db force =
    (case hash_shortcut h n db of
       Some r \<Rightarrow> (Inr r, db)
     | None \<Rightarrow>
         (case hashChildren h n db of
            (Inl e, db1) \<Rightarrow> (Inl e, db1)
          | (Inr (collapsed, cached), db1) \<Rightarrow> hash_finish h collapsed cached db1 force))"
  using assms
  by (cases n) (auto simp: hashChildren_def hash_shortcut_def split: prod.split sum.split option.split)

definition newHasher :: "(bytes \<Rightarrow> bytes) \<Rightarrow> ('w \<Rightarrow> bytes \<Rightarrow> bytes \<Rightarrow> bool \<times> 'w) \<Rightarrow> u16 \<Rightarrow> u16 \<Rightarrow> 'w hasher" where
  "newHasher keccak put cachegen cachelimit =
     \<lparr>hs_keccak = keccak, hs_Put = put, hs_cachegen = cachegen, hs_cachelimit = cachelimit\<rparr>"

definition hashRoot :: "(bytes \<Rightarrow> bytes) \<Rightarrow> ('w \<Rightarrow> bytes \<Rightarrow> bytes \<Rightarrow> bool \<times> 'w) \<Rightarrow> trie \<Rightarrow> 'w option \<Rightarrow> (trie_error + node \<times> node) \<times> 'w option" where
  "hashRoot keccak put t db =
     (if t_root t = NilNode then (Inr (HashNode emptyRoot, NilNode), db)
      else hasher_hash (newHasher keccak put (t_cachegen t) (t_cachelimit t)) (t_root t) db True)"

text \<open>Hashing without a writer; the result is always a hash node, and an error is impossible.\<close>

definition trie_Hash :: "(bytes \<Rightarrow> bytes) \<Rightarrow> trie \<Rightarrow> trie_error + hash \<times> trie" where
  "trie_Hash keccak t =
     (case fst (hashRoot keccak (\<lambda>w _ _. (True, w)) t (None :: unit option)) of
        Inl e \<Rightarrow> Inl e
      | Inr (HashNode x, cached) \<Rightarrow> Inr (BytesToHash x, t\<lparr>t_root := cached\<rparr>)
      | Inr _ \<Rightarrow> Inl TriePanic)"

definition trie_CommitTo :: "(bytes \<Rightarrow> bytes) \<Rightarrow> ('w \<Rightarrow> bytes \<Rightarrow> bytes \<Rightarrow> bool \<times> 'w) \<Rightarrow> trie \<Rightarrow> 'w \<Rightarrow> (trie_error + hash) \<times> trie \<times> 'w" where
  "trie_CommitTo keccak put t w =
     (let (r, w1) = hashRoot keccak put t (Some w) in
      case r of
        Inl e \<Rightarrow> (Inl e, t, the w1)
      | Inr (HashNode x, cached) \<Rightarrow> (Inr (BytesToHash x), t\<lparr>t_root := cached, t_cachegen := t_cachegen t + 1\<rparr>, the w1)
      | Inr _ \<Rightarrow> (Inl TriePanic, t, the w1))"

end
