(* ===== verification/Trie_Hashing.thy ===== *)
theory Trie_Hashing
  imports Trie_Hasher
begin

text \<open>
  What the hasher computes. The reference is a function of the tree alone: each subtree is collapsed
  to an RLP value in which a child of at least 32 bytes is replaced by its hash. Shown: \<open>Hash\<close> of any
  trie that stands for a tree is the hash of that reference, however much of the trie is in memory and
  whichever hashes are cached; and, when no two of the encodings involved collide, the hash determines
  the tree.
\<close>

section \<open>The reference\<close>

definition pref_of :: "(bytes \<Rightarrow> bytes) \<Rightarrow> ptrie \<Rightarrow> rlp_val \<Rightarrow> rlp_val" where
  "pref_of K p v =
     (case p of
        PNil \<Rightarrow> RBytes []
      | PVal w \<Rightarrow> RBytes w
      | _ \<Rightarrow> if length (rlp_Encode v) < 32 then v else RBytes (K (rlp_Encode v)))"

fun pcoll :: "(bytes \<Rightarrow> bytes) \<Rightarrow> ptrie \<Rightarrow> rlp_val" where
  "pcoll K PNil = RBytes []"
| "pcoll K (PVal v) = RBytes v"
| "pcoll K (PShort k p) = RList [RBytes (the (hexToCompact k)), pref_of K p (pcoll K p)]"
| "pcoll K (PFull ps) = RList (map (\<lambda>p. pref_of K p (pcoll K p)) ps)"

definition penc :: "(bytes \<Rightarrow> bytes) \<Rightarrow> ptrie \<Rightarrow> bytes" where
  "penc K p = rlp_Encode (pcoll K p)"

definition pref :: "(bytes \<Rightarrow> bytes) \<Rightarrow> ptrie \<Rightarrow> rlp_val" where
  "pref K p = pref_of K p (pcoll K p)"

lemma pref_simps [simp]:
  "pref K PNil = RBytes []"
  "pref K (PVal v) = RBytes v"
  by (simp_all add: pref_def pref_of_def)

lemma pcoll_fold [simp]:
  "pcoll K (PShort k p) = RList [RBytes (the (hexToCompact k)), pref K p]"
  "pcoll K (PFull ps) = RList (map (pref K) ps)"
  by (simp_all add: pref_def)

declare pcoll.simps(3,4) [simp del]

lemma pref_pnode: "pnode p \<Longrightarrow> pref K p = (if length (penc K p) < 32 then pcoll K p else RBytes (K (penc K p)))"
  by (cases p) (auto simp: pref_def pref_of_def penc_def simp del: pcoll_fold)

lemma pref_cases:
  "(\<exists>v. pref K p = RBytes v) \<or> pref K p = pcoll K p"
  by (cases p) (auto simp: pref_def pref_of_def simp del: pcoll_fold split: if_splits)

lemma pcoll_not_negative: "\<not> has_negative (pcoll K p)"
proof (induction p)
  case (PShort k p)
  then show ?case using pref_cases [of K p] by auto
next
  case (PFull ps)
  have "\<not> has_negative (pref K p)" if "p \<in> set ps" for p
    using PFull [OF that] pref_cases [of K p] by auto
  then show ?case by auto
qed simp_all

lemma EncodeToBytes_pcoll: "EncodeToBytes (pcoll K p) = Inr (Some (penc K p))"
  using EncodeToBytes_total [OF pcoll_not_negative, of K p] by (auto simp: penc_def rlp_Encode_def)

text \<open>A cached hash is the hash of the subtree, and only the root may have one when it is small.\<close>

definition hflag :: "(bytes \<Rightarrow> bytes) \<Rightarrow> bool \<Rightarrow> nodeFlag \<Rightarrow> ptrie \<Rightarrow> bool" where
  "hflag K b fl p \<longleftrightarrow> (\<forall>x. nf_hash fl = Some x \<longrightarrow> x = K (penc K p) \<and> (b \<or> 32 \<le> length (penc K p)))"

lemma hflag_fresh: "flags_fresh (hflag K) t"
  by (simp add: flags_fresh_def hflag_def newFlag_def)

lemma pnode_child:
  "pnode (PShort k p) \<Longrightarrow> pnode p \<or> (\<exists>v. v \<noteq> [] \<and> p = PVal v)"
  "pnode (PFull ps) \<Longrightarrow> i < 17 \<Longrightarrow> ps ! i = PNil \<or> pslot i (ps ! i)"
  by (auto elim: pnode_ShortE simp: pnode_PFull_iff)

lemma pnode_hexToCompact: "pnode (PShort k p) \<Longrightarrow> \<exists>c. hexToCompact k = Some c \<and> compactToHex c = Some k"
  by (auto elim!: pnode_ShortE simp: hexkey_def intro: compact_roundtrip)

lemma decoded_flag:
  assumes "mustDecodeNode (Some x) enc g = Some n"
  shows "(\<exists>k v. n = ShortNode k v \<lparr>nf_hash = Some x, nf_gen = g, nf_dirty = False\<rparr>)
    \<or> (\<exists>cs. n = FullNode cs \<lparr>nf_hash = Some x, nf_gen = g, nf_dirty = False\<rparr>)"
proof -
  obtain f where "decodeNodeN (Suc f) (Some x) enc g = Inr n"
    using assms by (auto simp: mustDecodeNode_def decodeNode_def simp del: decodeNodeN.simps split: sum.splits)
  then obtain e where "decodeShort (decodeNodeN f) (Some x) e g = Inr n \<or> decodeFull (decodeNodeN f) (Some x) e g = Inr n"
    using decodeNode_body_form by fastforce
  then show ?thesis by (auto simp: decodeShort_def decodeFull_def go_bind_Inr_iff Let_def split: option.splits if_splits)
qed

text \<open>A reference to the database carries the hash of the tree behind it.\<close>

lemma expands_HashNode_hash:
  assumes "expands (hflag K) db g b (HashNode x) p"
  shows "x = K (penc K p) \<and> (b \<or> 32 \<le> length (penc K p))"
proof -
  obtain enc n where n: "mustDecodeNode (Some x) enc g = Some n" "expands (hflag K) db g b n p"
    using assms by (auto elim: expands_HashE)
  show ?thesis using decoded_flag [OF n(1)] n(2) by (auto simp: expands_simps hflag_def)
qed

text \<open>A value is always in memory.\<close>

lemma expands_PVal: "expands F db g b n (PVal v) \<Longrightarrow> n = ValueNode v"
proof (cases n)
  case (HashNode x)
  assume "expands F db g b n (PVal v)"
  then obtain enc n' where "mustDecodeNode (Some x) enc g = Some n'" "expands F db g b n' (PVal v)"
    using HashNode by (auto elim: expands_HashE)
  then show ?thesis using mustDecodeNode_form by (fastforce simp: expands_simps)
qed (auto simp: expands_simps)

lemma expands_unique: "expands F db g b n p \<Longrightarrow> expands G db g c n q \<Longrightarrow> p = q"
proof (induction arbitrary: c q rule: expands.induct)
  case (exp_full cs ps b fl)
  then obtain qs where "q = PFull qs" "length cs = length qs" "\<And>i. i < length cs \<Longrightarrow> expands G db g False (cs ! i) (qs ! i)"
    by (auto simp: expands_simps)
  then show ?case using exp_full.IH exp_full.hyps(1) by (metis nth_equalityI)
next
  case (exp_hash h enc n b p)
  then show ?case by (auto elim!: expands_HashE)
qed (auto simp: expands_simps)

section \<open>Hashing without a database\<close>

text \<open>What a call of \<open>hash\<close> returns for a subtree: the reference, and a node that stands for the same tree.\<close>

definition hash_result :: "(bytes \<Rightarrow> bytes) \<Rightarrow> bool \<Rightarrow> ptrie \<Rightarrow> node \<Rightarrow> bool" where
  "hash_result K b p hashed \<longleftrightarrow>
     (if b \<or> 32 \<le> length (penc K p) then hashed = HashNode (K (penc K p))
      else node_val hashed = pcoll K p \<and> hashed \<noteq> NilNode \<and> (\<forall>x. hashed \<noteq> HashNode x))"

lemma hash_result_val: "pnode p \<Longrightarrow> hash_result K False p hashed \<Longrightarrow> node_val hashed = pref K p"
  by (auto simp: hash_result_def pref_pnode split: if_splits)

lemma hash_result_not_nil: "hash_result K b p hashed \<Longrightarrow> hashed \<noteq> NilNode"
  by (auto simp: hash_result_def split: if_splits)

lemma hasher_store_none:
  assumes "node_val n = pcoll K p" "n \<noteq> NilNode" "\<And>x. n \<noteq> HashNode x" "hs_keccak h = K"
    "\<And>x. fst (node_cache n) = Some x \<Longrightarrow> x = K (penc K p)"
  shows "\<exists>hashed. hasher_store h n None b = (Inr hashed, None) \<and> hash_result K b p hashed"
proof -
  have "(case fst (node_cache n) of None \<Rightarrow> hs_keccak h (penc K p) | Some x \<Rightarrow> x) = K (penc K p)"
    using assms(4,5) by (cases "fst (node_cache n)") auto
  then show ?thesis
    using assms(1-3) EncodeToBytes_pcoll [of K p] by (cases n) (auto simp: hasher_store_def hash_result_def Let_def)
qed

lemma hash_finish_none:
  assumes "node_val n = pcoll K p" "n \<noteq> NilNode" "\<And>x. n \<noteq> HashNode x" "hs_keccak h = K"
    "fst (node_cache n) = None"
  obtains hashed where "hash_finish h n cached None b = (Inr (hashed, set_cached False hashed cached), None)" "hash_result K b p hashed"
proof -
  obtain hashed where "hasher_store h n None b = (Inr hashed, None)" "hash_result K b p hashed"
    using hasher_store_none [OF assms(1-4)] assms(5) by fastforce
  then show ?thesis using that by (simp add: hash_finish_def)
qed

lemma set_cached_hflag:
  assumes "hash_result K b p hashed" "nf_hash fl = (case hashed of HashNode x \<Rightarrow> Some x | _ \<Rightarrow> None)"
  shows "hflag K b fl p"
  using assms by (auto simp: hash_result_def hflag_def split: if_splits node.splits)

text \<open>The children of a branch: each is empty, the value of the last slot, or a subtree.\<close>

definition hash_spec :: "(bytes \<Rightarrow> bytes) \<Rightarrow> (bytes \<rightharpoonup> bytes) \<Rightarrow> u16 \<Rightarrow> 'w hasher \<Rightarrow> bool \<Rightarrow> node \<Rightarrow> ptrie \<Rightarrow> bool" where
  "hash_spec K db g h b n p \<longleftrightarrow> (\<exists>hashed cached. hasher_hash h n None b = (Inr (hashed, cached), None)
     \<and> expands (hflag K) db g b cached p \<and> hash_result K b p hashed)"

lemma hash_children_none:
  assumes "length cs = length ps" "\<And>i. i < length cs \<Longrightarrow> expands (hflag K) db g False (cs ! i) (ps ! i)"
    "\<And>i. i < length cs \<Longrightarrow> ps ! i = PNil \<or> (if i < m then pnode (ps ! i) \<and> hash_spec K db g h False (cs ! i) (ps ! i)
        else \<exists>v. ps ! i = PVal v)"
  shows "\<exists>ccs ncs. hash_children h m cs None = (Inr (ccs, ncs), None) \<and> map node_val ccs = map (pref K) ps
    \<and> length ncs = length ps \<and> (\<forall>i < length ps. expands (hflag K) db g False (ncs ! i) (ps ! i))"
  using assms
proof (induction cs arbitrary: ps m)
  case (Cons c cs)
  obtain p ps' where ps: "ps = p # ps'" using Cons.prems(1) by (cases ps) auto
  have "\<exists>ccs ncs. hash_children h (m - 1) cs None = (Inr (ccs, ncs), None) \<and> map node_val ccs = map (pref K) ps'
    \<and> length ncs = length ps' \<and> (\<forall>i < length ps'. expands (hflag K) db g False (ncs ! i) (ps' ! i))"
  proof (rule Cons.IH)
    show "length cs = length ps'" using Cons.prems(1) ps by simp
    fix i assume i: "i < length cs"
    show "expands (hflag K) db g False (cs ! i) (ps' ! i)" using Cons.prems(2) [of "Suc i"] i ps by simp
    show "ps' ! i = PNil \<or> (if i < m - 1 then pnode (ps' ! i) \<and> hash_spec K db g h False (cs ! i) (ps' ! i) else \<exists>v. ps' ! i = PVal v)"
      using Cons.prems(3) [of "Suc i"] i ps by (auto simp: less_diff_conv split: if_splits)
  qed
  then obtain ccs ncs where rest: "hash_children h (m - 1) cs None = (Inr (ccs, ncs), None)" "map node_val ccs = map (pref K) ps'"
    "length ncs = length ps'" "\<And>i. i < length ps' \<Longrightarrow> expands (hflag K) db g False (ncs ! i) (ps' ! i)" by blast
  have hd_exp: "expands (hflag K) db g False c p" using Cons.prems(2) [of 0] ps by simp
  have hd_slot: "p = PNil \<or> (if 0 < m then pnode p \<and> hash_spec K db g h False c p else \<exists>v. p = PVal v)"
    using Cons.prems(3) [of 0] ps by (auto split: if_splits)
  have nil: "c = NilNode \<longleftrightarrow> p = PNil" using expands_nil_iff [OF hd_exp] .
  have "\<exists>cc nc. (if m = 0 \<or> c = NilNode then (Inr (if c = NilNode then ValueNode [] else c, c), None) else hasher_hash h c None False)
      = (Inr (cc, nc), None) \<and> node_val cc = pref K p \<and> expands (hflag K) db g False nc p"
  proof (cases "m = 0 \<or> c = NilNode")
    case True
    moreover have "node_val c = pref K p" if ne: "c \<noteq> NilNode"
    proof -
      obtain v where v: "p = PVal v" using ne True nil hd_slot by (auto split: if_splits)
      then have "c = ValueNode v" using hd_exp expands_PVal by blast
      then show ?thesis using v by simp
    qed
    ultimately show ?thesis using hd_exp nil by auto
  next
    case False
    then show ?thesis using hd_slot nil hash_result_val by (auto simp: hash_spec_def)
  qed
  then obtain cc nc where hd: "(if m = 0 \<or> c = NilNode then (Inr (if c = NilNode then ValueNode [] else c, c), None) else hasher_hash h c None False)
      = (Inr (cc, nc), None)" "node_val cc = pref K p" "expands (hflag K) db g False nc p" by blast
  have "hash_children h m (c # cs) None = (Inr (cc # ccs, nc # ncs), None)"
    unfolding hash_children.simps hd(1) using rest(1) by simp
  moreover have "expands (hflag K) db g False ((nc # ncs) ! i) (ps ! i)" if "i < length ps" for i
    using that hd(3) rest(4) ps by (cases i) auto
  ultimately show ?case using hd(2) rest(2,3) ps by auto
qed simp

text \<open>Collapsing a short or full node, given that its children hash as specified.\<close>

definition collapse_spec :: "(bytes \<Rightarrow> bytes) \<Rightarrow> (bytes \<rightharpoonup> bytes) \<Rightarrow> u16 \<Rightarrow> 'w hasher \<Rightarrow> bool \<Rightarrow> node \<Rightarrow> ptrie \<Rightarrow> bool" where
  "collapse_spec K db g h b n p \<longleftrightarrow> (\<exists>collapsed cached. hashChildren h n None = (Inr (collapsed, cached), None)
     \<and> node_val collapsed = pcoll K p \<and> collapsed \<noteq> NilNode \<and> (\<forall>x. collapsed \<noteq> HashNode x) \<and> fst (node_cache collapsed) = fst (node_cache n)
     \<and> (\<forall>hashed. hash_result K b p hashed \<longrightarrow> expands (hflag K) db g b (set_cached False hashed cached) p))"

lemma collapse_short:
  assumes "pnode (PShort k p)" "expands (hflag K) db g False n p" "pnode p \<Longrightarrow> hash_spec K db g h False n p"
  shows "collapse_spec K db g h b (ShortNode k n fl) (PShort k p)"
proof -
  obtain c where c: "hexToCompact k = Some c" using pnode_hexToCompact [OF assms(1)] by blast
  have "\<exists>cv nv. (if is_valueNode n then (Inr (n, n), None) else hasher_hash h n None False) = (Inr (cv, nv), None)
      \<and> node_val cv = pref K p \<and> cv \<noteq> NilNode \<and> expands (hflag K) db g False nv p"
  proof (cases "is_valueNode n")
    case True
    then show ?thesis using assms(2) by (auto simp: expands_simps is_valueNode_iff)
  next
    case False
    then have "pnode p" using pnode_child(1) [OF assms(1)] assms(2) expands_PVal is_valueNode_iff by blast
    then show ?thesis using assms(3) False hash_result_val hash_result_not_nil by (auto simp: hash_spec_def)
  qed
  then obtain cv nv where v: "(if is_valueNode n then (Inr (n, n), None) else hasher_hash h n None False) = (Inr (cv, nv), None)"
    "node_val cv = pref K p" "cv \<noteq> NilNode" "expands (hflag K) db g False nv p" by blast
  have "hashChildren h (ShortNode k n fl) None = (Inr (ShortNode c cv fl, ShortNode k nv fl), None)"
    unfolding hashChildren_def node.case v(1) c using v(3) by simp
  moreover have "expands (hflag K) db g b (set_cached False hashed (ShortNode k nv fl)) (PShort k p)" if "hash_result K b (PShort k p) hashed" for hashed
    using set_cached_hflag [OF that] v(4) by (auto simp: set_cached_def expands_simps)
  ultimately show ?thesis using v(2) c unfolding collapse_spec_def by auto
qed

lemma collapse_full:
  assumes "pnode (PFull ps)" "length cs = length ps" "\<And>i. i < length cs \<Longrightarrow> expands (hflag K) db g False (cs ! i) (ps ! i)"
    "\<And>i. i < length cs \<Longrightarrow> pnode (ps ! i) \<Longrightarrow> hash_spec K db g h False (cs ! i) (ps ! i)"
  shows "collapse_spec K db g h b (FullNode cs fl) (PFull ps)"
proof -
  have len: "length ps = 17" using assms(1) by (simp add: pnode_PFull_iff)
  have slot: "ps ! i = PNil \<or> (if i < 16 then pnode (ps ! i) \<and> hash_spec K db g h False (cs ! i) (ps ! i) else \<exists>v. ps ! i = PVal v)"
    if "i < length cs" for i
    using pnode_child(2) [OF assms(1), of i] assms(4) [OF that] that len assms(2) by (auto simp: pslot_def)
  obtain ccs ncs where c: "hash_children h 16 cs None = (Inr (ccs, ncs), None)" "map node_val ccs = map (pref K) ps"
    "length ncs = length ps" "\<And>i. i < length ps \<Longrightarrow> expands (hflag K) db g False (ncs ! i) (ps ! i)"
    using hash_children_none [OF assms(2,3) slot] by blast
  have "hashChildren h (FullNode cs fl) None = (Inr (FullNode ccs fl, FullNode ncs fl), None)"
    unfolding hashChildren_def using c(1) by simp
  moreover have "expands (hflag K) db g b (set_cached False hashed (FullNode ncs fl)) (PFull ps)" if "hash_result K b (PFull ps) hashed" for hashed
    using set_cached_hflag [OF that] c(3,4) by (auto simp: set_cached_def expands_simps)
  ultimately show ?thesis using c(2) unfolding collapse_spec_def by auto
qed

text \<open>From the collapsed node to the hash: the cached hash if there is one, else the hash of the encoding.\<close>

lemma collapse_hash:
  assumes "collapse_spec K db g h b n p" "expands (hflag K) db g b n p" "n = ShortNode k v fl \<or> n = FullNode cs fl" "hs_keccak h = K"
  shows "hash_spec K db g h b n p"
proof (cases "nf_hash fl")
  case (Some x)
  then have "hasher_hash h n None b = (Inr (HashNode x, n), None)" using assms(3) by (auto simp: hash_shortcut_def)
  moreover have "hflag K b fl p" using assms(2,3) by (auto simp: expands_simps)
  ultimately show ?thesis using assms(2) Some by (auto simp: hash_spec_def hash_result_def hflag_def)
next
  case None
  obtain collapsed cached where c: "hashChildren h n None = (Inr (collapsed, cached), None)" "node_val collapsed = pcoll K p"
    "collapsed \<noteq> NilNode" "\<And>x. collapsed \<noteq> HashNode x" "fst (node_cache collapsed) = fst (node_cache n)"
    "\<And>hashed. hash_result K b p hashed \<Longrightarrow> expands (hflag K) db g b (set_cached False hashed cached) p"
    using assms(1) unfolding collapse_spec_def by blast
  have nc: "fst (node_cache n) = None" using None assms(3) by auto
  obtain hashed where f: "hash_finish h collapsed cached None b = (Inr (hashed, set_cached False hashed cached), None)" "hash_result K b p hashed"
    using hash_finish_none [OF c(2-4) assms(4)] c(5) nc by metis
  have "hasher_hash h n None b = (Inr (hashed, set_cached False hashed cached), None)"
    using assms(3) None c(1) f(1) by (subst hasher_hash_hashChildren) (auto simp: hash_shortcut_def)
  then show ?thesis using f(2) c(6) by (auto simp: hash_spec_def)
qed

theorem hasher_hash_none:
  assumes "expands (hflag K) db g b n p" "pnode p" "hs_keccak h = K"
  shows "hash_spec K db g h b n p"
  using assms(1,2)
proof (induction rule: expands.induct)
  case (exp_short n p b fl k)
  have "collapse_spec K db g h b (ShortNode k n fl) (PShort k p)" using exp_short by (intro collapse_short)
  moreover have "expands (hflag K) db g b (ShortNode k n fl) (PShort k p)" using exp_short.hyps by (rule expands.exp_short)
  ultimately show ?case using collapse_hash assms(3) by blast
next
  case (exp_full cs ps b fl)
  have "collapse_spec K db g h b (FullNode cs fl) (PFull ps)" using exp_full by (intro collapse_full)
  moreover have "expands (hflag K) db g b (FullNode cs fl) (PFull ps)" using exp_full.hyps by (intro expands.exp_full)
  ultimately show ?case using collapse_hash assms(3) by blast
next
  case (exp_hash x enc n b p)
  have e: "expands (hflag K) db g b (HashNode x) p" using exp_hash.hyps by (auto intro: expands.exp_hash)
  then show ?case
    using expands_HashNode_hash [OF e]
    by (auto simp: hash_spec_def hash_finish_def hasher_store_def set_cached_def hash_result_def)
qed simp_all

lemma collapse_none:
  assumes "expands (hflag K) db g b n p" "pnode p" "hs_keccak h = K" "\<And>x. n \<noteq> HashNode x"
  shows "collapse_spec K db g h b n p"
  using assms(1)
proof cases
  case (exp_short m q fl k)
  then show ?thesis using assms collapse_short hasher_hash_none by blast
next
  case (exp_full cs ps fl)
  have "collapse_spec K db g h b (FullNode cs fl) (PFull ps)"
    by (rule collapse_full) (use exp_full assms(2,3) hasher_hash_none in blast)+
  then show ?thesis using exp_full by simp
qed (use assms in auto)

section \<open>The root hash of a trie\<close>

definition proot :: "(bytes \<Rightarrow> bytes) \<Rightarrow> ptrie \<Rightarrow> bytes" where
  "proot K p = (if p = PNil then emptyRoot else K (penc K p))"

lemma trie_treeF_parts:
  "trie_treeF F t p \<longleftrightarrow> expands F (t_db t) (t_cachegen t) True (t_root t) p \<and> pwf p \<and> addressable t p"
  by (auto simp: trie_treeF_def)

lemma trie_Hash_tree:
  assumes "trie_treeF (hflag K) t p"
  shows "\<exists>c. trie_Hash K t = Inr (BytesToHash (proot K p), t\<lparr>t_root := c\<rparr>) \<and> trie_treeF (hflag K) (t\<lparr>t_root := c\<rparr>) p"
proof (cases "t_root t = NilNode")
  case True
  then have "p = PNil" using assms expands_nil_iff unfolding trie_treeF_parts by blast
  then show ?thesis
    using assms True by (auto simp: trie_Hash_def hashRoot_def proot_def trie_treeF_parts intro!: exI [of _ NilNode])
next
  case False
  have e: "expands (hflag K) (t_db t) (t_cachegen t) True (t_root t) p" and wf: "pwf p" "addressable t p"
    using assms by (auto simp: trie_treeF_parts)
  then have p: "pnode p" using False expands_nil_iff by (auto simp: pwf_def)
  let ?h = "newHasher K (\<lambda>w _ _. (True, w)) (t_cachegen t) (t_cachelimit t) :: unit hasher"
  obtain c where c: "hasher_hash ?h (t_root t) None True = (Inr (HashNode (K (penc K p)), c), None)"
    "expands (hflag K) (t_db t) (t_cachegen t) True c p"
    using hasher_hash_none [OF e p, of ?h] by (auto simp: newHasher_def hash_spec_def hash_result_def)
  then show ?thesis
    using False p wf by (auto simp: trie_Hash_def hashRoot_def proot_def trie_treeF_parts)
qed

text \<open>A trie whose cached hashes are right, and the map it holds.\<close>

definition trie_hashed :: "(bytes \<Rightarrow> bytes) \<Rightarrow> trie \<Rightarrow> (bytes \<rightharpoonup> bytes) \<Rightarrow> bool" where
  "trie_hashed K = trie_mapF (hflag K)"

lemma trie_hashed_iff: "trie_hashed K t m \<longleftrightarrow> (\<exists>p. trie_treeF (hflag K) t p \<and> (\<forall>key. m key = plookup p (keybytesToHex (full_key t key))))"
  by (simp add: trie_hashed_def trie_mapF_def)


lemma trie_hashed_same_tree:
  assumes "trie_hashed K t m" "trie_treeF (hflag K) t p" "trie_treeF (hflag K) (t\<lparr>t_root := c\<rparr>) p"
  shows "trie_hashed K (t\<lparr>t_root := c\<rparr>) m"
proof -
  obtain q where q: "trie_treeF (hflag K) t q" "\<And>key. m key = plookup q (keybytesToHex (full_key t key))"
    using assms(1) by (auto simp: trie_hashed_iff)
  have "expands (hflag K) (t_db t) (t_cachegen t) True (t_root t) q" "expands (hflag K) (t_db t) (t_cachegen t) True (t_root t) p"
    using q(1) assms(2) by (simp_all add: trie_treeF_parts)
  then have "q = p" by (rule expands_unique)
  then show ?thesis using q(2) assms(3) by (auto simp: trie_hashed_iff)
qed

lemma expands_mono: "expands F db g b n p \<Longrightarrow> (\<And>b fl p. F b fl p \<Longrightarrow> G b fl p) \<Longrightarrow> expands G db g b n p"
  by (induction rule: expands.induct) (auto intro: expands.intros)

lemma trie_treeF_tree: "trie_treeF F t p \<Longrightarrow> trie_tree t p"
  by (auto simp: trie_tree_def trie_treeF_parts elim: expands_mono)

lemma trie_hashed_map: "trie_hashed K t m \<Longrightarrow> trie_map t m"
  unfolding trie_hashed_iff trie_map_def using trie_treeF_tree by fast

lemma trie_hashed_unique:
  assumes "trie_hashed K t m" "trie_hashed K u m" "t_prefix t = t_prefix u"
  obtains p where "trie_treeF (hflag K) t p" "trie_treeF (hflag K) u p"
proof -
  obtain p q where pq: "trie_treeF (hflag K) t p" "trie_treeF (hflag K) u q"
    "\<And>key. m key = plookup p (keybytesToHex (full_key t key))" "\<And>key. m key = plookup q (keybytesToHex (full_key u key))"
    using assms(1,2) by (auto simp: trie_hashed_iff)
  then have "p = q" using trie_map_unique_tree [OF _ _ assms(3)] trie_treeF_tree by metis
  then show ?thesis using pq that by blast
qed

section \<open>The hash determines the tree\<close>

text \<open>Values of strings and lists only are determined by their encoding.\<close>

fun rlp_plain :: "rlp_val \<Rightarrow> bool" where
  "rlp_plain (RBytes b) \<longleftrightarrow> True"
| "rlp_plain (RList vs) \<longleftrightarrow> (\<forall>v \<in> set vs. rlp_plain v)"
| "rlp_plain _ \<longleftrightarrow> False"

lemma rlp_plain_item:
  assumes "rlp_plain v"
  obtains k c where "rlp_enc v = rlp_item k c" "item_ok k c"
    "k = KList \<Longrightarrow> \<exists>vs. v = RList vs \<and> c = concat (map rlp_enc vs)" "k \<noteq> KList \<Longrightarrow> v = RBytes c"
proof (cases v)
  case (RBytes b)
  then show ?thesis
    using that [of KByte b] that [of KString b] by (cases "length b = 1 \<and> b ! 0 < 128") (auto simp: rlp_string_item)
next
  case (RList vs)
  then show ?thesis using that [of KList "concat (map rlp_enc vs)"] by (simp add: rlp_list_item)
qed (use assms in auto)

lemma rlp_plain_split:
  assumes "rlp_enc v @ r = rlp_enc w @ s" "rlp_plain v" "rlp_plain w" "length (rlp_enc v @ r) < 2 ^ 64"
  shows "r = s \<and> ((\<exists>b. v = RBytes b \<and> w = RBytes b)
    \<or> (\<exists>vs ws. v = RList vs \<and> w = RList ws \<and> concat (map rlp_enc vs) = concat (map rlp_enc ws)))"
proof -
  obtain k c where v: "rlp_enc v = rlp_item k c" "item_ok k c"
    "k = KList \<Longrightarrow> \<exists>vs. v = RList vs \<and> c = concat (map rlp_enc vs)" "k \<noteq> KList \<Longrightarrow> v = RBytes c"
    using rlp_plain_item [OF assms(2)] by metis
  obtain l d where w: "rlp_enc w = rlp_item l d" "item_ok l d"
    "l = KList \<Longrightarrow> \<exists>ws. w = RList ws \<and> d = concat (map rlp_enc ws)" "l \<noteq> KList \<Longrightarrow> w = RBytes d"
    using rlp_plain_item [OF assms(3)] by metis
  have "Split (rlp_enc v @ r) = Inr (k, c, r)" using Split_item [OF v(2), of r] assms(4) v(1) by simp
  moreover have "Split (rlp_enc w @ s) = Inr (l, d, s)" using Split_item [OF w(2), of s] assms(1,4) w(1) by simp
  ultimately have "k = l" "c = d" "r = s" using assms(1) by auto
  then show ?thesis using v(3,4) w(3,4) by (cases "k = KList") auto
qed

lemma length_rlp_enc_list: "length (concat (map rlp_enc vs)) \<le> length (rlp_enc (RList vs))"
  by (simp add: rlp_list_item length_rlp_item)

lemma rlp_enc_plain_inj:
  "rlp_enc v @ r = rlp_enc w @ s \<Longrightarrow> rlp_plain v \<Longrightarrow> rlp_plain w \<Longrightarrow> length (rlp_enc v @ r) < 2 ^ 64 \<Longrightarrow> v = w \<and> r = s"
proof (induction v arbitrary: w r s rule: rlp_plain.induct)
  case (2 vs)
  obtain ws where w: "w = RList ws" "concat (map rlp_enc vs) = concat (map rlp_enc ws)" "r = s"
    using rlp_plain_split [OF 2(2,3,4,5)] by auto
  have len: "length (concat (map rlp_enc vs)) < 2 ^ 64" using 2(5) length_rlp_enc_list [of vs] by simp
  have "us = zs" if "concat (map rlp_enc us) = concat (map rlp_enc zs)" "set us \<subseteq> set vs" "\<forall>z \<in> set zs. rlp_plain z"
    "length (concat (map rlp_enc us)) < 2 ^ 64" for us zs
    using that
  proof (induction us arbitrary: zs)
    case Nil
    then show ?case using rlp_plain_item rlp_item_nonempty by (cases zs) (auto, metis)
  next
    case (Cons u us)
    have u: "rlp_enc u \<noteq> []" "rlp_plain u" using Cons.prems(2) 2(3) rlp_plain_item rlp_item_nonempty by (auto, metis)
    then obtain z zs' where zs: "zs = z # zs'" using Cons.prems(1) by (cases zs) auto
    have "u = z \<and> concat (map rlp_enc us) = concat (map rlp_enc zs')"
      using Cons.prems zs u by (intro 2(1)) auto
    then show ?case using Cons zs by auto
  qed
  then have "vs = ws" using w 2(4) len by auto
  then show ?case using w by simp
next
  case (1 b)
  then show ?case using rlp_plain_split [OF 1(1,2,3,4)] by auto
qed auto

text \<open>The subtrees that have an encoding of their own.\<close>

fun psubs :: "ptrie \<Rightarrow> ptrie list" where
  "psubs (PShort k p) = PShort k p # psubs p"
| "psubs (PFull ps) = PFull ps # concat (map psubs ps)"
| "psubs _ = []"

lemma psubs_self: "pnode p \<Longrightarrow> p \<in> set (psubs p)"
  by (cases p) auto

lemma psubs_pnode: "pnode p \<Longrightarrow> q \<in> set (psubs p) \<Longrightarrow> pnode q"
proof (induction arbitrary: q rule: pnode.induct)
  case (branch cs)
  have whole: "pnode (PFull cs)" using branch by (auto intro: pnode.branch)
  show ?case
  proof (cases "q = PFull cs")
    case False
    then obtain i where i: "i < 17" "q \<in> set (psubs (cs ! i))"
      using branch.prems branch.hyps(1) by (auto simp: in_set_conv_nth [of _ cs])
    then have "i < 16" using branch.hyps(2) by (cases "i = 16") auto
    then show ?thesis using branch.IH i(2) by (metis empty_iff list.set(1) psubs.simps(3))
  qed (use whole in simp)
qed (auto intro: pnode.intros)

lemma psubs_branch: "c \<in> set ps \<Longrightarrow> set (psubs c) \<subseteq> set (psubs (PFull ps))"
  by auto

lemma psubs_trans: "q \<in> set (psubs p) \<Longrightarrow> set (psubs q) \<subseteq> set (psubs p)"
  by (induction p rule: psubs.induct) auto

text \<open>The encodings fit: below \<open>2 ^ 63\<close> bytes, which every Go slice is.\<close>

definition pfits :: "(bytes \<Rightarrow> bytes) \<Rightarrow> ptrie \<Rightarrow> bool" where
  "pfits K p \<longleftrightarrow> (\<forall>q \<in> set (psubs p). length (rlp_enc (pcoll K q)) < 2 ^ 63)"

lemma pref_plain: "rlp_plain (pcoll K p) \<Longrightarrow> rlp_plain (pref K p)"
  using pref_cases [of K p] by auto

lemma pcoll_plain: "rlp_plain (pcoll K p)"
  by (induction p) (auto intro: pref_plain)

lemma rlp_plain_ok: "rlp_plain v \<Longrightarrow> length (rlp_enc v) < 2 ^ 64 \<Longrightarrow> rlp_ok v"
proof (induction v rule: rlp_plain.induct)
  case (1 b)
  then show ?case using length_rlp_item [of b] by (auto simp: rlp_string_item intro: le_less_trans)
next
  case (2 vs)
  have "length (concat (map rlp_enc vs)) < 2 ^ 64" using 2(3) length_rlp_enc_list [of vs] by simp
  moreover have "length (rlp_enc v) \<le> length (concat (map rlp_enc vs))" if "v \<in> set vs" for v
    using member_le_sum_list [of "length (rlp_enc v)" "map (length \<circ> rlp_enc) vs"] that by (simp add: length_concat)
  ultimately show ?case using 2 by fastforce
qed auto

lemma penc_enc: "pfits K p \<Longrightarrow> pnode p \<Longrightarrow> penc K p = rlp_enc (pcoll K p)"
  using rlp_plain_ok [OF pcoll_plain, of K p] psubs_self [of p] by (auto simp: pfits_def penc_def rlp_Encode_enc)

lemma pfits_sub: "pfits K p \<Longrightarrow> q \<in> set (psubs p) \<Longrightarrow> pfits K q"
  using psubs_trans by (auto simp: pfits_def)

lemma pfits_child:
  "pfits K (PShort k p) \<Longrightarrow> pfits K p"
  "pfits K (PFull ps) \<Longrightarrow> p \<in> set ps \<Longrightarrow> pfits K p"
  by (auto simp: pfits_def)

text \<open>Keccak gives 32 bytes, and no two different encodings of a set of trees have the same hash.\<close>

definition hash_free :: "(bytes \<Rightarrow> bytes) \<Rightarrow> ptrie set \<Rightarrow> bool" where
  "hash_free K T \<longleftrightarrow> (\<forall>x. length (K x) = 32) \<and> (\<forall>p \<in> T. \<forall>q \<in> T. K (penc K p) = K (penc K q) \<longrightarrow> penc K p = penc K q)
     \<and> (\<forall>p \<in> T. K (penc K p) \<noteq> emptyRoot)"

lemma hexToCompact_inj:
  assumes "pnode (PShort k p)" "pnode (PShort l q)" "the (hexToCompact k) = the (hexToCompact l)"
  shows "k = l"
  using pnode_hexToCompact [OF assms(1)] pnode_hexToCompact [OF assms(2)] assms(3) by auto

lemma pcoll_list: "pnode p \<Longrightarrow> \<exists>vs. pcoll K p = RList vs"
  by (cases p) auto

lemma pref_inj:
  assumes "pref K p = pref K q" "pnode p" "pnode q" "hash_free K T" "p \<in> T" "q \<in> T" "pfits K p" "pfits K q"
  shows "pcoll K p = pcoll K q"
proof -
  have notbytes: "pcoll K r \<noteq> RBytes b" if "pnode r" for r b using pcoll_list [OF that, of K] by auto
  show ?thesis
  proof (cases "length (penc K p) < 32")
    case True
    then have "pref K q = pcoll K p" using assms(1,2) by (simp add: pref_pnode)
    then show ?thesis
      using notbytes [OF assms(2)] by (cases "length (penc K q) < 32") (metis pref_pnode [OF assms(3)])+
  next
    case False
    then have "pref K q = RBytes (K (penc K p))" using assms(1,2) by (simp add: pref_pnode)
    then have "K (penc K p) = K (penc K q)"
      using notbytes [OF assms(3)] by (cases "length (penc K q) < 32") (simp_all add: pref_pnode [OF assms(3)])
    then have "penc K p = penc K q" using assms(4-6) by (auto simp: hash_free_def)
    then have "rlp_enc (pcoll K p) @ [] = rlp_enc (pcoll K q) @ []" using penc_enc assms by simp
    then show ?thesis
      using rlp_enc_plain_inj pcoll_plain assms(2,7) psubs_self [of p] by (fastforce simp: pfits_def)
  qed
qed

lemma pcoll_PShort_PFull: "pcoll K (PShort k p) = pcoll K (PFull cs) \<Longrightarrow> length cs = 2"
proof -
  assume "pcoll K (PShort k p) = pcoll K (PFull cs)"
  then have "map (pref K) cs = [RBytes (the (hexToCompact k)), pref K p]" by simp
  then have "length (map (pref K) cs) = 2" by simp
  then show ?thesis by simp
qed

lemma pref_nonempty: "pnode p \<Longrightarrow> hash_free K T \<Longrightarrow> pref K p \<noteq> RBytes []"
proof
  assume p: "pnode p" "hash_free K T" and e: "pref K p = RBytes []"
  then have "K (penc K p) = []" using pcoll_list [OF p(1), of K] by (auto simp: pref_pnode split: if_splits)
  moreover have "length (K (penc K p)) = 32" using p(2) by (simp add: hash_free_def)
  ultimately show False by simp
qed

text \<open>The trees of \<open>T\<close> whose encodings fit.\<close>

definition pwithin :: "(bytes \<Rightarrow> bytes) \<Rightarrow> ptrie set \<Rightarrow> ptrie \<Rightarrow> bool" where
  "pwithin K T p \<longleftrightarrow> set (psubs p) \<subseteq> T \<and> pfits K p"

lemma pwithin_short: "pwithin K T (PShort k p) \<Longrightarrow> pwithin K T p"
  by (auto simp: pwithin_def pfits_def)

lemma pwithin_full: "pwithin K T (PFull ps) \<Longrightarrow> i < length ps \<Longrightarrow> pwithin K T (ps ! i)"
  unfolding pwithin_def using psubs_branch pfits_child(2) by (metis nth_mem subset_trans)

lemma pwithin_self: "pnode p \<Longrightarrow> pwithin K T p \<Longrightarrow> p \<in> T \<and> pfits K p"
  using psubs_self unfolding pwithin_def by blast

text \<open>The references of two children at the same slot.\<close>

lemma slot_pref_inj:
  assumes "pref K c = pref K d" "c = PNil \<or> pslot i c" "d = PNil \<or> pslot i d" "hash_free K T" "pwithin K T c" "pwithin K T d"
  shows "c = d \<or> (i < 16 \<and> pnode c \<and> pnode d \<and> pcoll K c = pcoll K d)"
proof (cases "pnode c \<and> pnode d")
  case True
  then have "pcoll K c = pcoll K d"
    using pref_inj [OF assms(1) _ _ assms(4)] assms(5,6) psubs_self unfolding pwithin_def by blast
  then show ?thesis using True assms(2) by (auto simp: pslot_def)
next
  case False
  then show ?thesis using assms(1-3) pref_nonempty [of c K T] pref_nonempty [of d K T] assms(4) by (auto simp: pslot_def)
qed

lemma pcoll_inj:
  assumes "hash_free K T"
  shows "pnode p \<Longrightarrow> pnode q \<Longrightarrow> pcoll K p = pcoll K q \<Longrightarrow> pwithin K T p \<Longrightarrow> pwithin K T q \<Longrightarrow> p = q"
proof (induction arbitrary: q rule: pnode.induct)
  case (leaf k v)
  from leaf.prems(1) show ?case
  proof cases
    case l: (leaf k' v')
    have "k = k'" using leaf.hyps leaf.prems(2) l hexToCompact_inj [of k "PVal v" k' "PVal v'"] by (simp add: pnode.leaf)
    then show ?thesis using leaf.prems(2) l by simp
  next
    case l: (ext k' cs)
    have "k = k'" using leaf l hexToCompact_inj [of k "PVal v" k' "PFull cs"] by (simp add: pnode.leaf pnode.ext)
    then show ?thesis using l leaf.hyps by (auto simp: hexkey_def)
  next
    case l: (branch cs)
    then show ?thesis using leaf.prems(2) pcoll_PShort_PFull by fastforce
  qed
next
  case (ext k cs)
  from ext.prems(1) show ?case
  proof cases
    case l: (leaf k' v)
    have "k = k'" using ext l hexToCompact_inj [of k "PFull cs" k' "PVal v"] by (simp add: pnode.leaf pnode.ext)
    then show ?thesis using l ext.hyps by (auto simp: hexkey_def)
  next
    case l: (ext k' ds)
    have k: "k = k'" using ext l hexToCompact_inj [of k "PFull cs" k' "PFull ds"] by (simp add: pnode.ext)
    have w: "pwithin K T (PFull cs)" "pwithin K T (PFull ds)" using ext.prems(3,4) l pwithin_short by blast+
    have "pref K (PFull cs) = pref K (PFull ds)" using ext.prems(2) l by simp
    then have "pcoll K (PFull cs) = pcoll K (PFull ds)"
      using pref_inj [OF _ ext.hyps(3) l(4) assms] pwithin_self [OF ext.hyps(3) w(1)] pwithin_self [OF l(4) w(2)] by blast
    then have "PFull cs = PFull ds" using ext.IH l w by blast
    then show ?thesis using k l by simp
  next
    case l: (branch cs)
    then show ?thesis using ext.prems(2) pcoll_PShort_PFull by fastforce
  qed
next
  case (branch cs)
  have whole: "pnode (PFull cs)" using branch by (auto intro: pnode.branch)
  from branch.prems(1) show ?case
  proof cases
    case l: (branch ds)
    have "cs ! i = ds ! i" if i: "i < 17" for i
    proof -
      have "map (pref K) cs = map (pref K) ds" using branch.prems(2) l(1) by simp
      then have "map (pref K) cs ! i = map (pref K) ds ! i" by simp
      then have pr: "pref K (cs ! i) = pref K (ds ! i)" using i branch.hyps(1) l(2) by simp
      have w: "pwithin K T (cs ! i)" "pwithin K T (ds ! i)" using pwithin_full branch.prems(3,4) l i branch.hyps(1) by simp_all
      have slot: "cs ! i = PNil \<or> pslot i (cs ! i)" "ds ! i = PNil \<or> pslot i (ds ! i)"
        using pnode_child(2) whole branch.prems(1) l i by blast+
      show ?thesis
        using slot_pref_inj [OF pr slot assms w] branch.IH w by (metis pnode_simps(1))
    qed
    then show ?thesis using l branch.hyps(1) by (auto intro: nth_equalityI)
  next
    case (leaf k v)
    then show ?thesis using pcoll_PShort_PFull [OF branch.prems(2) [unfolded leaf(1), symmetric]] branch.hyps(1) by simp
  next
    case (ext k ds)
    then show ?thesis using pcoll_PShort_PFull [OF branch.prems(2) [unfolded ext(1), symmetric]] branch.hyps(1) by simp
  qed
qed

lemma penc_inj:
  assumes "hash_free K T" "pnode p" "pnode q" "pwithin K T p" "pwithin K T q" "penc K p = penc K q"
  shows "p = q"
proof -
  have fits: "pfits K p" "pfits K q" using assms(2-5) pwithin_self by blast+
  then have "rlp_enc (pcoll K p) @ [] = rlp_enc (pcoll K q) @ []" using assms penc_enc by simp
  moreover have "length (rlp_enc (pcoll K p) @ []) < 2 ^ 64" using fits(1) psubs_self [OF assms(2)] by (auto simp: pfits_def)
  ultimately have "pcoll K p = pcoll K q" using rlp_enc_plain_inj pcoll_plain by blast
  then show ?thesis using pcoll_inj assms by blast
qed

lemma proot_inj:
  assumes "hash_free K T" "pwf p" "pwf q" "pwithin K T p" "pwithin K T q" "proot K p = proot K q"
  shows "p = q"
proof (cases "p = PNil \<or> q = PNil")
  case True
  have "K (penc K r) \<noteq> emptyRoot" if "pnode r" "pwithin K T r" for r
    using pwithin_self [OF that] assms(1) by (auto simp: hash_free_def)
  then show ?thesis using True assms(2-6) unfolding pwf_def proot_def by metis
next
  case False
  then have pq: "pnode p" "pnode q" using assms(2,3) by (auto simp: pwf_def)
  moreover have "K (penc K p) = K (penc K q)" using assms(6) False by (simp add: proot_def)
  ultimately have "penc K p = penc K q"
    using assms(1) pwithin_self [OF pq(1) assms(4)] pwithin_self [OF pq(2) assms(5)] by (auto simp: hash_free_def)
  then show ?thesis using penc_inj assms pq by blast
qed

section \<open>Properties\<close>

text \<open>A stand-in for Keccak to evaluate examples: the first 32 bytes, padded.\<close>

definition pad_hash :: "bytes \<Rightarrow> bytes" where
  "pad_hash x = take 32 (x @ replicate 32 0)"

lemma length_pad_hash [simp]: "length (pad_hash x) = 32"
  by (simp add: pad_hash_def)

lemma TryUpdate_hashed:
  assumes "trie_hashed K t m" "v \<noteq> []"
  shows "\<exists>n. TryUpdate t k v = Some (Inr (t\<lparr>t_root := n\<rparr>)) \<and> trie_hashed K (t\<lparr>t_root := n\<rparr>) (m(k \<mapsto> v))"
proof -
  obtain p where p: "trie_treeF (hflag K) t p" "\<And>key. m key = plookup p (keybytesToHex (full_key t key))"
    using assms(1) by (auto simp: trie_hashed_iff)
  obtain n where n: "TryUpdate t k v = Some (Inr (t\<lparr>t_root := n\<rparr>))"
    "trie_treeF (hflag K) (t\<lparr>t_root := n\<rparr>) (pinsert p (keybytesToHex (full_key t k)) v)"
    using TryUpdate_treeF [OF hflag_fresh p(1), of k v] assms(2) by auto
  have "pwf p" using p(1) by (simp add: trie_treeF_parts)
  then have "\<forall>key. (m(k \<mapsto> v)) key = plookup (pinsert p (keybytesToHex (full_key t k)) v) (keybytesToHex (full_key t key))"
    using p(2) assms(2) by (simp add: plookup_pinsert)
  then show ?thesis using n by (auto simp: trie_hashed_iff)
qed

text \<open>A trie of one entry, for the examples.\<close>

definition sample_leaf :: ptrie where
  "sample_leaf = PShort [0, 1, 16] (PVal [5])"

lemma sample_trie:
  assumes "\<And>t. flags_fresh F t"
  shows "\<exists>n. TryUpdate (empty_trie Map.empty) [1] [5] = Some (Inr (empty_trie Map.empty\<lparr>t_root := n\<rparr>))
    \<and> trie_treeF F (empty_trie Map.empty\<lparr>t_root := n\<rparr>) sample_leaf"
proof -
  have "trie_treeF F (empty_trie Map.empty) PNil"
    by (simp add: trie_treeF_def addressable_def pwf_def empty_trie_def expands.exp_nil)
  moreover have "keybytesToHex (full_key (empty_trie Map.empty) [1]) = [0, 1, 16]" by (simp add: full_key_def empty_trie_def)
  ultimately show ?thesis
    using TryUpdate_treeF [OF assms, of "empty_trie Map.empty" PNil "[1]" "[5]"] by (auto simp: sample_leaf_def)
qed

lemma sample_leaf_facts:
  "pnode sample_leaf" "sample_leaf \<noteq> PNil" "psubs sample_leaf = [sample_leaf]" "pfits pad_hash sample_leaf"
  "penc pad_hash sample_leaf = [0xC4, 0x82, 0x20, 1, 5]" "hash_free pad_hash (set (psubs sample_leaf))"
proof -
  have enc: "rlp_enc (pcoll pad_hash sample_leaf) = [0xC4, 0x82, 0x20, 1, 5]" by code_simp
  show p: "pnode sample_leaf" by (auto intro!: pnode.leaf simp: nibble_def sample_leaf_def)
  show s: "psubs sample_leaf = [sample_leaf]" "sample_leaf \<noteq> PNil" by (simp_all add: sample_leaf_def)
  show f: "pfits pad_hash sample_leaf" by (simp add: pfits_def enc s)
  show "penc pad_hash sample_leaf = [0xC4, 0x82, 0x20, 1, 5]" using penc_enc [OF f p] enc by simp
  then show "hash_free pad_hash (set (psubs sample_leaf))" by (auto simp: hash_free_def emptyRoot_def pad_hash_def min_def s)
qed

lemma empty_trie_hashed: "trie_hashed K (empty_trie db) Map.empty"
  unfolding trie_hashed_iff
  by (rule exI [of _ PNil]) (simp add: trie_treeF_def addressable_def pwf_def empty_trie_def expands.exp_nil)

text \<open>
  C4. The root hash is a function of the contents. Two tries with the same key prefix that hold the
  same map have the same hash, whatever operations led to them, however much of each is in memory and
  whichever hashes are cached; computing it neither panics nor changes the map.
\<close>

theorem Hash_history_independent:
  assumes "trie_hashed K t m" "trie_hashed K u m" "t_prefix t = t_prefix u"
  shows "\<exists>h t' u'. trie_Hash K t = Inr (h, t') \<and> trie_Hash K u = Inr (h, u') \<and> trie_hashed K t' m \<and> trie_hashed K u' m"
proof -
  obtain p where p: "trie_treeF (hflag K) t p" "trie_treeF (hflag K) u p"
    using trie_hashed_unique [OF assms] by blast
  obtain c where c: "trie_Hash K t = Inr (BytesToHash (proot K p), t\<lparr>t_root := c\<rparr>)" "trie_treeF (hflag K) (t\<lparr>t_root := c\<rparr>) p"
    using trie_Hash_tree [OF p(1)] by blast
  obtain d where d: "trie_Hash K u = Inr (BytesToHash (proot K p), u\<lparr>t_root := d\<rparr>)" "trie_treeF (hflag K) (u\<lparr>t_root := d\<rparr>) p"
    using trie_Hash_tree [OF p(2)] by blast
  have "trie_hashed K (t\<lparr>t_root := c\<rparr>) m" "trie_hashed K (u\<lparr>t_root := d\<rparr>) m"
    using trie_hashed_same_tree [OF assms(1) p(1)] trie_hashed_same_tree [OF assms(2) p(2)] c(2) d(2) by simp_all
  then show ?thesis using c(1) d(1) by blast
qed

theorem Hash_history_independent_witness:
  "\<exists>t1 t2 u1 u2 h t' u'. TryUpdate (empty_trie Map.empty) [1] [5] = Some (Inr t1) \<and> TryUpdate t1 [2] [6] = Some (Inr t2)
    \<and> TryUpdate (empty_trie Map.empty) [2] [6] = Some (Inr u1) \<and> TryUpdate u1 [1] [5] = Some (Inr u2)
    \<and> trie_Hash pad_hash t2 = Inr (h, t') \<and> trie_Hash pad_hash u2 = Inr (h, u')"
proof -
  let ?K = "pad_hash" and ?e = "empty_trie Map.empty"
  obtain n1 where t1: "TryUpdate ?e [1] [5] = Some (Inr (?e\<lparr>t_root := n1\<rparr>))" "trie_hashed ?K (?e\<lparr>t_root := n1\<rparr>) [[1] \<mapsto> [5]]"
    using TryUpdate_hashed [OF empty_trie_hashed, of "[5]" Map.empty "[1]" ?K] by auto
  obtain n2 where t2: "TryUpdate (?e\<lparr>t_root := n1\<rparr>) [2] [6] = Some (Inr (?e\<lparr>t_root := n2\<rparr>))"
    "trie_hashed ?K (?e\<lparr>t_root := n2\<rparr>) [[1] \<mapsto> [5], [2] \<mapsto> [6]]"
    using TryUpdate_hashed [OF t1(2), of "[6]" "[2]"] by auto
  obtain m1 where u1: "TryUpdate ?e [2] [6] = Some (Inr (?e\<lparr>t_root := m1\<rparr>))" "trie_hashed ?K (?e\<lparr>t_root := m1\<rparr>) [[2] \<mapsto> [6]]"
    using TryUpdate_hashed [OF empty_trie_hashed, of "[6]" Map.empty "[2]" ?K] by auto
  obtain m2 where u2: "TryUpdate (?e\<lparr>t_root := m1\<rparr>) [1] [5] = Some (Inr (?e\<lparr>t_root := m2\<rparr>))"
    "trie_hashed ?K (?e\<lparr>t_root := m2\<rparr>) [[2] \<mapsto> [6], [1] \<mapsto> [5]]"
    using TryUpdate_hashed [OF u1(2), of "[5]" "[1]"] by auto
  have "[[2] \<mapsto> [6], [1] \<mapsto> [5]] = [[1 :: byte] \<mapsto> [5 :: byte], [2] \<mapsto> [6]]" by auto
  then have "\<exists>h t' u'. trie_Hash ?K (?e\<lparr>t_root := n2\<rparr>) = Inr (h, t') \<and> trie_Hash ?K (?e\<lparr>t_root := m2\<rparr>) = Inr (h, u')"
    using Hash_history_independent [OF t2(2), of "?e\<lparr>t_root := m2\<rparr>"] u2(2) by auto
  then show ?thesis using t1(1) t2(1) u1(1) u2(1) by blast
qed

text \<open>
  C5. The root hash binds the contents. If no two of the node encodings of two tries collide, none of
  them hashes to the hash of the empty trie, and Keccak yields 32 bytes, then equal root hashes mean
  equal trees.
\<close>

theorem Hash_binds_tree:
  assumes "trie_treeF (hflag K) t p" "trie_treeF (hflag K) u q"
    "hash_free K (set (psubs p) \<union> set (psubs q))" "pfits K p" "pfits K q"
    "trie_Hash K t = Inr (h, t')" "trie_Hash K u = Inr (h, u')"
  shows "p = q"
proof -
  have "BytesToHash (proot K p) = BytesToHash (proot K q)"
    using trie_Hash_tree [OF assms(1)] trie_Hash_tree [OF assms(2)] assms(6,7) by auto
  moreover have "length (proot K r) = 32" for r
    using assms(3) by (simp add: proot_def hash_free_def emptyRoot_def)
  ultimately have "proot K p = proot K q" by (simp add: BytesToHash_id)
  then show ?thesis
    using proot_inj [OF assms(3)] assms(1,2,4,5) by (auto simp: trie_treeF_parts pwithin_def)
qed

theorem Hash_binds_tree_witness:
  "\<exists>t u h t' u'. TryUpdate (empty_trie Map.empty) [1] [5] = Some (Inr t) \<and> trie_New (replicate 32 0) Map.empty = Inr u
    \<and> trie_Hash pad_hash t = Inr (h, t') \<and> (\<forall>u'. trie_Hash pad_hash u \<noteq> Inr (h, u'))"
proof -
  let ?e = "empty_trie Map.empty"
  have e: "trie_treeF (hflag pad_hash) ?e PNil"
    by (simp add: trie_treeF_def addressable_def pwf_def empty_trie_def expands.exp_nil)
  obtain n where t: "TryUpdate ?e [1] [5] = Some (Inr (?e\<lparr>t_root := n\<rparr>))" "trie_treeF (hflag pad_hash) (?e\<lparr>t_root := n\<rparr>) sample_leaf"
    using sample_trie [OF hflag_fresh] by blast
  have free: "hash_free pad_hash (set (psubs sample_leaf) \<union> set (psubs PNil))" "pfits pad_hash PNil"
    using sample_leaf_facts by (simp_all add: pfits_def)
  obtain h t' where h: "trie_Hash pad_hash (?e\<lparr>t_root := n\<rparr>) = Inr (h, t')"
    using trie_Hash_tree [OF t(2)] by blast
  have "trie_Hash pad_hash ?e \<noteq> Inr (h, u')" for u'
    using Hash_binds_tree [OF t(2) e free(1) sample_leaf_facts(4) free(2) h] sample_leaf_facts(2) by blast
  then show ?thesis using t(1) h empty_trie_New by blast
qed

end
