(* ===== verification/Mem_Database.thy ===== *)
theory Mem_Database
  imports KV_Store Go_Prelude
begin

text \<open>
  Key-value databases, \<^verbatim>\<open>pkg/ethdb\<close>: the in-memory database and its write batches of
  \<^verbatim>\<open>memory_database.go\<close>, and the tables of \<^verbatim>\<open>database.go\<close> that put a prefix in front of every key. The
  Go map of the in-memory database is a partial function. Shown: the writers keep the contract that a
  trie relies on when it commits, and a table sees and touches the keys with its prefix only.
\<close>

section \<open>The in-memory database\<close>

record MemDatabase =
  md_db :: "bytes \<rightharpoonup> bytes"

datatype db_error = ErrDbNotFound

definition NewMemDatabase :: MemDatabase where
  "NewMemDatabase = \<lparr>md_db = Map.empty\<rparr>"

definition mem_Put :: "MemDatabase \<Rightarrow> bytes \<Rightarrow> bytes \<Rightarrow> bool \<times> MemDatabase" where
  "mem_Put db key value = (True, db\<lparr>md_db := (md_db db)(key \<mapsto> value)\<rparr>)"

definition mem_Has :: "MemDatabase \<Rightarrow> bytes \<Rightarrow> bool" where
  "mem_Has db key \<longleftrightarrow> md_db db key \<noteq> None"

definition mem_Get :: "MemDatabase \<Rightarrow> bytes \<Rightarrow> db_error + bytes" where
  "mem_Get db key = (case md_db db key of Some entry \<Rightarrow> Inr entry | None \<Rightarrow> Inl ErrDbNotFound)"

definition mem_Delete :: "MemDatabase \<Rightarrow> bytes \<Rightarrow> MemDatabase" where
  "mem_Delete db key = db\<lparr>md_db := (md_db db)(key := None)\<rparr>"

section \<open>Batches\<close>

text \<open>A batch refers to its database, which changes when the batch is written.\<close>

record memBatch =
  mb_db :: MemDatabase
  mb_writes :: "(bytes \<times> bytes) list"
  mb_size :: nat

definition mem_NewBatch :: "MemDatabase \<Rightarrow> memBatch" where
  "mem_NewBatch db = \<lparr>mb_db = db, mb_writes = [], mb_size = 0\<rparr>"

definition batch_Put :: "memBatch \<Rightarrow> bytes \<Rightarrow> bytes \<Rightarrow> bool \<times> memBatch" where
  "batch_Put b key value = (True, b\<lparr>mb_writes := mb_writes b @ [(key, value)], mb_size := mb_size b + length value\<rparr>)"

fun write_all :: "(bytes \<times> bytes) list \<Rightarrow> MemDatabase \<Rightarrow> MemDatabase" where
  "write_all [] db = db"
| "write_all ((k, v) # kvs) db = write_all kvs (db\<lparr>md_db := (md_db db)(k \<mapsto> v)\<rparr>)"

definition batch_Write :: "memBatch \<Rightarrow> memBatch" where
  "batch_Write b = b\<lparr>mb_db := write_all (mb_writes b) (mb_db b)\<rparr>"

definition batch_ValueSize :: "memBatch \<Rightarrow> nat" where
  "batch_ValueSize b = mb_size b"

section \<open>Tables\<close>

record table =
  tb_db :: MemDatabase
  tb_prefix :: bytes

definition NewTable :: "MemDatabase \<Rightarrow> bytes \<Rightarrow> table" where
  "NewTable db prefix = \<lparr>tb_db = db, tb_prefix = prefix\<rparr>"

definition table_Put :: "table \<Rightarrow> bytes \<Rightarrow> bytes \<Rightarrow> bool \<times> table" where
  "table_Put dt key value = (let (ok, db) = mem_Put (tb_db dt) (tb_prefix dt @ key) value in (ok, dt\<lparr>tb_db := db\<rparr>))"

definition table_Has :: "table \<Rightarrow> bytes \<Rightarrow> bool" where
  "table_Has dt key \<longleftrightarrow> mem_Has (tb_db dt) (tb_prefix dt @ key)"

definition table_Get :: "table \<Rightarrow> bytes \<Rightarrow> db_error + bytes" where
  "table_Get dt key = mem_Get (tb_db dt) (tb_prefix dt @ key)"

definition table_Delete :: "table \<Rightarrow> bytes \<Rightarrow> table" where
  "table_Delete dt key = dt\<lparr>tb_db := mem_Delete (tb_db dt) (tb_prefix dt @ key)\<rparr>"

record tableBatch =
  tbb_batch :: memBatch
  tbb_prefix :: bytes

definition NewTableBatch :: "MemDatabase \<Rightarrow> bytes \<Rightarrow> tableBatch" where
  "NewTableBatch db prefix = \<lparr>tbb_batch = mem_NewBatch db, tbb_prefix = prefix\<rparr>"

definition table_NewBatch :: "table \<Rightarrow> tableBatch" where
  "table_NewBatch dt = \<lparr>tbb_batch = mem_NewBatch (tb_db dt), tbb_prefix = tb_prefix dt\<rparr>"

definition tableBatch_Put :: "tableBatch \<Rightarrow> bytes \<Rightarrow> bytes \<Rightarrow> bool \<times> tableBatch" where
  "tableBatch_Put tb key value =
     (let (ok, b) = batch_Put (tbb_batch tb) (tbb_prefix tb @ key) value in (ok, tb\<lparr>tbb_batch := b\<rparr>))"

definition tableBatch_Write :: "tableBatch \<Rightarrow> tableBatch" where
  "tableBatch_Write tb = tb\<lparr>tbb_batch := batch_Write (tbb_batch tb)\<rparr>"

definition tableBatch_ValueSize :: "tableBatch \<Rightarrow> nat" where
  "tableBatch_ValueSize tb = batch_ValueSize (tbb_batch tb)"

section \<open>The contract of a writer\<close>

text \<open>
  What a trie relies on: \<open>Put\<close> succeeds, and changes the entry of its key only. The contents are what a
  reader of the database finds, for a batch what it finds once the batch is written.
\<close>

locale trie_writer =
  fixes get :: "'w \<Rightarrow> bytes \<Rightarrow> bytes option"
    and put :: "'w \<Rightarrow> bytes \<Rightarrow> bytes \<Rightarrow> bool \<times> 'w"
  assumes put_ok: "fst (put w k v)"
    and put_get: "get (snd (put w k v)) = (get w)(k \<mapsto> v)"

definition batch_view :: "memBatch \<Rightarrow> bytes \<Rightarrow> bytes option" where
  "batch_view b = md_db (mb_db (batch_Write b))"

definition table_view :: "table \<Rightarrow> bytes \<Rightarrow> bytes option" where
  "table_view dt key = md_db (tb_db dt) (tb_prefix dt @ key)"

definition tableBatch_view :: "tableBatch \<Rightarrow> bytes \<Rightarrow> bytes option" where
  "tableBatch_view tb key = md_db (mb_db (tbb_batch (tableBatch_Write tb))) (tbb_prefix tb @ key)"

lemma write_all_append: "write_all (xs @ ys) db = write_all ys (write_all xs db)"
  by (induction xs db rule: write_all.induct) auto

lemma batch_view_Put: "batch_view (snd (batch_Put b k v)) = (batch_view b)(k \<mapsto> v)"
  by (simp add: batch_view_def batch_Put_def batch_Write_def write_all_append)

interpretation mem_writer: trie_writer md_db mem_Put
  by unfold_locales (simp_all add: mem_Put_def)

interpretation batch_writer: trie_writer batch_view batch_Put
  by unfold_locales (simp_all add: batch_view_Put, simp add: batch_Put_def)

interpretation table_writer: trie_writer table_view table_Put
  by unfold_locales (auto simp: table_Put_def mem_Put_def table_view_def)

interpretation tableBatch_writer: trie_writer tableBatch_view tableBatch_Put
  by unfold_locales
    (auto simp: tableBatch_Put_def batch_Put_def tableBatch_view_def tableBatch_Write_def batch_Write_def write_all_append)

text \<open>Reading through the interface agrees with the contents; a table leaves other keys alone.\<close>

lemma table_Get_view: "table_Get dt k = (case table_view dt k of Some v \<Rightarrow> Inr v | None \<Rightarrow> Inl ErrDbNotFound)"
  by (simp add: table_Get_def mem_Get_def table_view_def)

lemma table_Put_frame:
  "(\<And>r. k' \<noteq> tb_prefix dt @ r) \<Longrightarrow> md_db (tb_db (snd (table_Put dt k v))) k' = md_db (tb_db dt) k'"
  by (auto simp: table_Put_def mem_Put_def)

lemma batch_size: "mb_size b = sum_list (map (length \<circ> snd) (mb_writes b)) \<Longrightarrow>
  mb_size (snd (batch_Put b k v)) = sum_list (map (length \<circ> snd) (mb_writes (snd (batch_Put b k v))))"
  by (simp add: batch_Put_def)

end
