(* ===== verification/Trie_Commit.thy ===== *)
theory Trie_Commit
  imports Trie_Hashing Mem_Database
begin

text \<open>
  Writing a trie to the database and reading it back, \<open>CommitTo\<close> and \<open>New\<close> of \<^verbatim>\<open>pkg/trie/trie.go\<close> over
  \<open>hash\<close> and \<open>store\<close> of \<^verbatim>\<open>hasher.go\<close> and the decoding of \<^verbatim>\<open>node.go\<close>. Shown: a node decodes to what was
  encoded; after a commit every subtree of 32 bytes or more, and the root, is in the database under its
  hash; a trie opened at the returned root holds the map that was committed, and so does the trie in
  memory, whichever of its nodes the commit has unloaded.
\<close>

section \<open>The node an encoding decodes to\<close>

definition dref_of :: "(bytes \<Rightarrow> bytes) \<Rightarrow> ptrie \<Rightarrow> node \<Rightarrow> node" where
  "dref_of K p n =
     (case p of
        PNil \<Rightarrow> NilNode
      | PVal v \<Rightarrow> ValueNode v
      | _ \<Rightarrow> if length (penc K p) < 32 then n else HashNode (K (penc K p)))"

fun dnode :: "(bytes \<Rightarrow> bytes) \<Rightarrow> bytes option \<Rightarrow> u16 \<Rightarrow> ptrie \<Rightarrow> node" where
  "dnode K h g PNil = NilNode"
| "dnode K h g (PVal v) = ValueNode v"
| "dnode K h g (PShort k p) =
     ShortNode k (dref_of K p (dnode K None g p)) \<lparr>nf_hash = h, nf_gen = g, nf_dirty = False\<rparr>"
| "dnode K h g (PFull ps) =
     FullNode (map (\<lambda>p. dref_of K p (dnode K None g p)) ps) \<lparr>nf_hash = h, nf_gen = g, nf_dirty = False\<rparr>"

definition dref :: "(bytes \<Rightarrow> bytes) \<Rightarrow> u16 \<Rightarrow> ptrie \<Rightarrow> node" where
  "dref K g p = dref_of K p (dnode K None g p)"

lemma dref_simps [simp]:
  "dref K g PNil = NilNode"
  "dref K g (PVal v) = ValueNode v"
  by (simp_all add: dref_def dref_of_def)

lemma dnode_fold [simp]:
  "dnode K h g (PShort k p) = ShortNode k (dref K g p) \<lparr>nf_hash = h, nf_gen = g, nf_dirty = False\<rparr>"
  "dnode K h g (PFull ps) = FullNode (map (dref K g) ps) \<lparr>nf_hash = h, nf_gen = g, nf_dirty = False\<rparr>"
  by (simp_all add: dref_def)

declare dnode.simps(3,4) [simp del]

lemma dref_pnode: "pnode p \<Longrightarrow> dref K g p = (if length (penc K p) < 32 then dnode K None g p else HashNode (K (penc K p)))"
  by (cases p) (auto simp: dref_def dref_of_def simp del: dnode_fold)

definition hash_len :: "(bytes \<Rightarrow> bytes) \<Rightarrow> bool" where
  "hash_len K \<longleftrightarrow> (\<forall>x. length (K x) = 32)"

lemma hash_lenD: "hash_len K \<Longrightarrow> length (K x) = 32"
  by (simp add: hash_len_def)

lemma plain_items:
  "\<forall>v \<in> set vs. rlp_plain v \<Longrightarrow> \<exists>xs. (\<forall>(k, c) \<in> set xs. item_ok k c) \<and> concat (map rlp_enc vs) = items xs \<and> length xs = length vs"
proof (induction vs)
  case (Cons v vs)
  obtain k c where kc: "rlp_enc v = rlp_item k c" "item_ok k c" using rlp_plain_item Cons.prems by (metis list.set_intros(1))
  obtain xs where "\<forall>(k, c) \<in> set xs. item_ok k c" "concat (map rlp_enc vs) = items xs" "length xs = length vs" using Cons by auto
  then show ?case using kc by (intro exI [of _ "(k, c) # xs"]) simp
qed simp

lemma CountValues_plain:
  assumes "\<forall>v \<in> set vs. rlp_plain v" "length (concat (map rlp_enc vs)) < 2 ^ 63"
  shows "CountValues (concat (map rlp_enc vs)) = Inr (length vs)"
  using plain_items [OF assms(1)] CountValues_items assms(2) by metis

lemma decodeNode_list:
  assumes "\<forall>v \<in> set vs. rlp_plain v" "length (rlp_enc (RList vs) @ rest) < 2 ^ 63"
  shows "decodeNode h (rlp_enc (RList vs) @ rest) g =
    (if length vs = 2 then wrapError (decodeShort decodeNode h (concat (map rlp_enc vs)) g) CtxShort
     else if length vs = 17 then wrapError (decodeFull decodeNode h (concat (map rlp_enc vs)) g) CtxFull
     else Inl (NodeListCount (length vs), []))"
proof -
  have len: "length (rlp_enc (RList vs) @ rest) < 2 ^ 64" using assms(2) by simp
  have ne: "rlp_enc (RList vs) \<noteq> []" by (simp add: rlp_list_def)
  have "length (concat (map rlp_enc vs)) < 2 ^ 63" using assms(2) length_rlp_enc_list [of vs] by simp
  then have "CountValues (concat (map rlp_enc vs)) = Inr (length vs)" using CountValues_plain assms(1) by blast
  moreover have "SplitList (rlp_enc (RList vs) @ rest) = Inr (concat (map rlp_enc vs), rest)"
    using SplitList_enc len by simp
  ultimately show ?thesis
    unfolding decodeNode_unfold [OF len] using ne by (simp add: decodeNode_body_def lift_rlp_def)
qed

lemma decodeRef_pref:
  assumes "p = PNil \<or> (pnode p \<and> (\<forall>rest. length (penc K p @ rest) < 2 ^ 63 \<longrightarrow> decodeNode None (penc K p @ rest) g = Inr (dnode K None g p)))"
    "pfits K p" "hash_len K" "length (rlp_enc (pref K p) @ rest) < 2 ^ 63"
  shows "decodeRef decodeNode (rlp_enc (pref K p) @ rest) g = Inr (dref K g p, rest)"
proof (cases "p = PNil")
  case True
  have "Split (rlp_item KString [] @ rest) = Inr (KString, [], rest)"
    using assms(4) True by (intro Split_item) (simp_all add: rlp_string_item)
  then show ?thesis using True by (simp add: rlp_string_item decodeRef_def lift_rlp_def)
next
  case False
  then have p: "pnode p" "\<And>rest. length (penc K p @ rest) < 2 ^ 63 \<Longrightarrow> decodeNode None (penc K p @ rest) g = Inr (dnode K None g p)"
    using assms(1) by auto
  obtain vs where vs: "pcoll K p = RList vs" using pcoll_list [OF p(1)] by blast
  show ?thesis
  proof (cases "length (penc K p) < 32")
    case True
    then have pr: "rlp_enc (pref K p) = penc K p" using p(1) penc_enc [OF assms(2) p(1)] by (simp add: pref_pnode)
    have it: "penc K p = rlp_item KList (concat (map rlp_enc vs))" using penc_enc [OF assms(2) p(1)] vs by (simp add: rlp_list_item)
    have "Split (penc K p @ rest) = Inr (KList, concat (map rlp_enc vs), rest)"
      unfolding it using assms(4) pr it by (intro Split_item) simp_all
    then show ?thesis using True p assms(4) pr by (simp add: decodeRef_def lift_rlp_def hashLen_def dref_pnode)
  next
    case F: False
    let ?h = "K (penc K p)"
    have pr: "rlp_enc (pref K p) = rlp_item KString ?h" using F p(1) hash_lenD [OF assms(3), of "penc K p"] by (simp add: pref_pnode rlp_string_item)
    have "Split (rlp_item KString ?h @ rest) = Inr (KString, ?h, rest)"
      using assms(4) pr hash_lenD [OF assms(3), of "penc K p"] by (intro Split_item) simp_all
    moreover have "?h \<noteq> []" using hash_lenD [OF assms(3), of "penc K p"] by auto
    ultimately show ?thesis using F p(1) pr hash_lenD [OF assms(3), of "penc K p"] by (simp add: decodeRef_def lift_rlp_def dref_pnode)
  qed
qed

lemma decodeFull_loop_prefs:
  assumes "\<And>p rest. p \<in> set ps \<Longrightarrow> length (rlp_enc (pref K p) @ rest) < 2 ^ 63 \<Longrightarrow>
      decodeRef decodeNode (rlp_enc (pref K p) @ rest) g = Inr (dref K g p, rest)"
    "length (concat (map (\<lambda>p. rlp_enc (pref K p)) ps) @ rest) < 2 ^ 63"
  shows "decodeFull_loop decodeNode g i (length ps) (concat (map (\<lambda>p. rlp_enc (pref K p)) ps) @ rest) = Inr (map (dref K g) ps, rest)"
  using assms
proof (induction ps arbitrary: i)
  case (Cons p ps)
  have "decodeRef decodeNode (rlp_enc (pref K p) @ concat (map (\<lambda>p. rlp_enc (pref K p)) ps) @ rest) g
      = Inr (dref K g p, concat (map (\<lambda>p. rlp_enc (pref K p)) ps) @ rest)"
    using Cons.prems(2) by (intro Cons.prems(1)) simp_all
  moreover have "decodeFull_loop decodeNode g (Suc i) (length ps) (concat (map (\<lambda>p. rlp_enc (pref K p)) ps) @ rest) = Inr (map (dref K g) ps, rest)"
    using Cons.prems by (intro Cons.IH) simp_all
  ultimately show ?case by (simp add: wrapError_def)
qed simp

theorem decodeNode_penc:
  assumes "hash_len K"
  shows "pnode p \<Longrightarrow> pfits K p \<Longrightarrow> length (penc K p @ rest) < 2 ^ 63 \<Longrightarrow> decodeNode h (penc K p @ rest) g = Inr (dnode K h g p)"
proof (induction arbitrary: h rest rule: pnode.induct)
  case (leaf k v)
  have p: "pnode (PShort k (PVal v))" using leaf.hyps by (rule pnode.leaf)
  obtain c where c: "hexToCompact k = Some c" "compactToHex c = Some k" using pnode_hexToCompact [OF p] by blast
  have enc: "penc K (PShort k (PVal v)) = rlp_enc (RList [RBytes c, RBytes v])" using penc_enc [OF leaf.prems(1) p] c by simp
  have len: "length (rlp_string c @ rlp_string v) < 2 ^ 63" using leaf.prems(2) enc length_rlp_enc_list [of "[RBytes c, RBytes v]"] by simp
  have "hasTerm k" using leaf.hyps by (auto simp: hexkey_def)
  moreover have "SplitString (rlp_string c @ rlp_string v) = Inr (c, rlp_string v)" "SplitString (rlp_string v @ []) = Inr (v, [])"
    using len SplitString_enc [of c "rlp_string v"] SplitString_enc [of v "[]"] by simp_all
  ultimately show ?case
    unfolding enc using leaf.prems(2) enc c by (subst decodeNode_list) (simp_all add: decodeShort_def lift_rlp_def wrapError_def Let_def)
next
  case (ext k cs)
  have p: "pnode (PShort k (PFull cs))" using ext.hyps by (simp add: pnode.ext)
  have fits: "pfits K (PFull cs)" using ext.prems(1) pfits_child(1) by blast
  obtain c where c: "hexToCompact k = Some c" "compactToHex c = Some k" using pnode_hexToCompact [OF p] by blast
  have enc: "penc K (PShort k (PFull cs)) = rlp_enc (RList [RBytes c, pref K (PFull cs)])" using penc_enc [OF ext.prems(1) p] c by simp
  have len: "length (rlp_string c @ rlp_enc (pref K (PFull cs))) < 2 ^ 63"
    using ext.prems(2) enc length_rlp_enc_list [of "[RBytes c, pref K (PFull cs)]"] by simp
  have "\<not> hasTerm k" using ext.hyps by simp
  moreover have "SplitString (rlp_string c @ rlp_enc (pref K (PFull cs))) = Inr (c, rlp_enc (pref K (PFull cs)))"
    using len SplitString_enc [of c "rlp_enc (pref K (PFull cs))"] by simp
  moreover have "decodeRef decodeNode (rlp_enc (pref K (PFull cs)) @ []) g = Inr (dref K g (PFull cs), [])"
    by (rule decodeRef_pref) (use ext.IH ext.hyps fits assms len in auto)
  ultimately show ?case
    unfolding enc using ext.prems(2) enc c pref_plain [OF pcoll_plain, of K "PFull cs"]
    by (subst decodeNode_list) (simp_all add: decodeShort_def lift_rlp_def wrapError_def Let_def)
next
  case (branch cs)
  have p: "pnode (PFull cs)" using branch by (auto intro: pnode.branch)
  have enc: "penc K (PFull cs) = rlp_enc (RList (map (pref K) cs))" using penc_enc [OF branch.prems(1) p] by simp
  obtain c where c: "cs = take 16 cs @ [c]" "c = cs ! 16"
    using branch.hyps(1) take_Suc_conv_app_nth [of 16 cs] by auto
  define front where "front = take 16 cs"
  have cs: "cs = front @ [c]" "length front = 16" using c(1) branch.hyps(1) by (simp_all add: front_def)
  have elems: "concat (map rlp_enc (map (pref K) cs)) = concat (map (\<lambda>p. rlp_enc (pref K p)) front) @ rlp_enc (pref K c)"
    by (subst cs(1)) (simp add: comp_def)
  have len: "length (concat (map (\<lambda>p. rlp_enc (pref K p)) front) @ rlp_enc (pref K c)) < 2 ^ 63"
    using branch.prems(2) enc length_rlp_enc_list [of "map (pref K) cs"] elems by simp
  have "decodeRef decodeNode (rlp_enc (pref K q) @ r) g = Inr (dref K g q, r)"
    if mem: "q \<in> set front" and fit: "length (rlp_enc (pref K q) @ r) < 2 ^ 63" for q r
  proof (rule decodeRef_pref [OF _ _ assms fit])
    have q: "q \<in> set cs" using mem cs(1) by (metis Un_iff set_append)
    show "pfits K q" using pfits_child(2) branch.prems(1) q by blast
    obtain i where "i < 16" "q = cs ! i" using mem cs by (metis in_set_conv_nth nth_append)
    then show "q = PNil \<or> (pnode q \<and> (\<forall>rest. length (penc K q @ rest) < 2 ^ 63 \<longrightarrow> decodeNode None (penc K q @ rest) g = Inr (dnode K None g q)))"
      using branch.IH \<open>pfits K q\<close> by blast
  qed
  then have "decodeFull_loop decodeNode g 0 (length front) (concat (map (\<lambda>p. rlp_enc (pref K p)) front) @ rlp_enc (pref K c))
      = Inr (map (dref K g) front, rlp_enc (pref K c))" using len by (intro decodeFull_loop_prefs)
  then have loop: "decodeFull_loop decodeNode g 0 16 (concat (map (\<lambda>p. rlp_enc (pref K p)) front) @ rlp_enc (pref K c))
      = Inr (map (dref K g) front, rlp_enc (pref K c))" using cs(2) by simp
  obtain w where w: "pref K c = RBytes w" "dref K g c = (if length w > 0 then ValueNode w else NilNode)"
    using branch.hyps(2) c(2) by auto
  have dn: "map (dref K g) cs = map (dref K g) front @ [dref K g c]" by (subst cs(1)) simp
  have "SplitString (rlp_string w @ []) = Inr (w, [])" using len w(1) by (intro SplitString_enc) simp
  then have "decodeFull decodeNode h (concat (map rlp_enc (map (pref K) cs))) g = Inr (dnode K h g (PFull cs))"
    unfolding elems decodeFull_def using loop w dn by (simp add: lift_rlp_def)
  then show ?case
    unfolding enc using branch.prems(2) enc branch.hyps(1) pref_plain [OF pcoll_plain, of K]
    by (subst decodeNode_list) (simp_all add: wrapError_def)
qed

section \<open>Subtrees in the database\<close>

text \<open>Every subtree of 32 bytes or more, and the tree itself when it is the root, is stored under its hash.\<close>

definition node_stored :: "(bytes \<Rightarrow> bytes) \<Rightarrow> (bytes \<rightharpoonup> bytes) \<Rightarrow> bool \<Rightarrow> ptrie \<Rightarrow> bool" where
  "node_stored K D b p \<longleftrightarrow> (\<forall>q \<in> set (psubs p). 32 \<le> length (penc K q) \<longrightarrow> D (K (penc K q)) = Some (penc K q))
     \<and> (b \<longrightarrow> D (K (penc K p)) = Some (penc K p))"

text \<open>Cached hashes are right, and a node with one that is not dirty is stored.\<close>

definition cflag :: "(bytes \<Rightarrow> bytes) \<Rightarrow> (bytes \<rightharpoonup> bytes) \<Rightarrow> bool \<Rightarrow> nodeFlag \<Rightarrow> ptrie \<Rightarrow> bool" where
  "cflag K D b fl p \<longleftrightarrow> hflag K b fl p \<and> (nf_hash fl \<noteq> None \<and> \<not> nf_dirty fl \<longrightarrow> node_stored K D b p)"

lemma cflag_hflag: "cflag K D b fl p \<Longrightarrow> hflag K b fl p"
  by (simp add: cflag_def)

lemma cflag_fresh: "flags_fresh (cflag K D) t"
  by (simp add: flags_fresh_def cflag_def hflag_def newFlag_def)

lemma stored_mono: "node_stored K D b p \<Longrightarrow> D \<subseteq>\<^sub>m D' \<Longrightarrow> node_stored K D' b p"
  unfolding node_stored_def map_le_def dom_def by (metis (mono_tags, lifting) mem_Collect_eq option.distinct(1))

lemma cflag_mono: "cflag K D b fl p \<Longrightarrow> D \<subseteq>\<^sub>m D' \<Longrightarrow> cflag K D' b fl p"
  using stored_mono by (auto simp: cflag_def)

lemma stored_leafless [simp]: "node_stored K D False PNil" "node_stored K D False (PVal v)"
  by (simp_all add: node_stored_def)

lemma stored_child:
  "node_stored K D b (PShort k p) \<Longrightarrow> node_stored K D False p"
  "node_stored K D b (PFull ps) \<Longrightarrow> p \<in> set ps \<Longrightarrow> node_stored K D False p"
  by (auto simp: node_stored_def)

lemma stored_False: "node_stored K D b p \<Longrightarrow> node_stored K D False p"
  by (simp add: node_stored_def)

lemma stored_self: "node_stored K D b p \<Longrightarrow> pnode p \<Longrightarrow> b \<or> 32 \<le> length (penc K p) \<Longrightarrow> D (K (penc K p)) = Some (penc K p)"
  using psubs_self by (auto simp: node_stored_def)

lemma mustDecodeNode_penc:
  assumes "hash_len K" "pnode p" "pfits K p"
  shows "mustDecodeNode h (penc K p) g = Some (dnode K h g p)"
proof -
  have "length (penc K p @ []) < 2 ^ 63" using penc_enc [OF assms(3,2)] assms(3) psubs_self [OF assms(2)] by (auto simp: pfits_def)
  then have "decodeNode h (penc K p @ []) g = Inr (dnode K h g p)" using decodeNode_penc assms by blast
  then show ?thesis by (simp add: mustDecodeNode_def)
qed

text \<open>The decoded node of a stored tree stands for the tree.\<close>

definition dnode_ok :: "(bytes \<Rightarrow> bytes) \<Rightarrow> (bytes \<rightharpoonup> bytes) \<Rightarrow> u16 \<Rightarrow> ptrie \<Rightarrow> bool" where
  "dnode_ok K D g p \<longleftrightarrow> expands (cflag K D) D g False (dnode K None g p) p
     \<and> (\<forall>b. b \<or> 32 \<le> length (penc K p) \<longrightarrow> node_stored K D b p \<longrightarrow> expands (cflag K D) D g b (dnode K (Some (K (penc K p))) g p) p)"

lemma dref_expands:
  assumes "p = PNil \<or> (\<exists>v. p = PVal v) \<or> (pnode p \<and> dnode_ok K D g p)" "node_stored K D False p" "pfits K p" "hash_len K"
  shows "expands (cflag K D) D g False (dref K g p) p"
proof (cases "pnode p \<and> 32 \<le> length (penc K p)")
  case True
  then have "expands (cflag K D) D g False (dnode K (Some (K (penc K p))) g p) p"
    using assms(1,2) by (auto simp: dnode_ok_def)
  then have "expands (cflag K D) D g False (HashNode (K (penc K p))) p"
    using True assms stored_self [OF assms(2)] mustDecodeNode_penc [OF assms(4)] by (intro expands.exp_hash) auto
  then show ?thesis using True by (simp add: dref_pnode)
next
  case False
  show ?thesis
  proof (cases "pnode p")
    case True
    then show ?thesis using False assms(1) by (auto simp: dnode_ok_def dref_pnode)
  next
    case False
    then show ?thesis using assms(1) by (auto intro: expands.exp_nil expands.exp_val)
  qed
qed

lemma stored_dnode:
  assumes "hash_len K"
  shows "pnode p \<Longrightarrow> pfits K p \<Longrightarrow> node_stored K D False p \<Longrightarrow> dnode_ok K D g p"
proof (induction rule: pnode.induct)
  case (leaf k v)
  then show ?case by (auto simp: dnode_ok_def cflag_def hflag_def expands_simps)
next
  case (ext k cs)
  have "expands (cflag K D) D g False (dref K g (PFull cs)) (PFull cs)"
    by (rule dref_expands) (use ext stored_child(1) pfits_child(1) assms in blast)+
  then show ?case by (auto simp: dnode_ok_def cflag_def hflag_def expands_simps)
next
  case (branch cs)
  have "expands (cflag K D) D g False (dref K g c) c" if "c \<in> set cs" for c
  proof (rule dref_expands [OF _ _ _ assms])
    show "pfits K c" "node_stored K D False c" using branch.prems that pfits_child(2) stored_child(2) by blast+
    obtain i where "i < 17" "c = cs ! i" using \<open>c \<in> set cs\<close> branch.hyps(1) by (metis in_set_conv_nth)
    then show "c = PNil \<or> (\<exists>v. c = PVal v) \<or> (pnode c \<and> dnode_ok K D g c)"
      using branch.IH branch.hyps(2) \<open>pfits K c\<close> \<open>node_stored K D False c\<close> less_17 by blast
  qed
  then have "\<And>i. i < length cs \<Longrightarrow> expands (cflag K D) D g False (map (dref K g) cs ! i) (cs ! i)" by simp
  then show ?case by (auto simp: dnode_ok_def cflag_def hflag_def expands_simps)
qed

lemma stored_HashNode:
  assumes "hash_len K" "pnode p" "pfits K p" "node_stored K D b p" "b \<or> 32 \<le> length (penc K p)"
  shows "expands (cflag K D) D g b (HashNode (K (penc K p))) p"
proof (rule expands.exp_hash)
  show "D (K (penc K p)) = Some (penc K p)" using stored_self assms by blast
  show "mustDecodeNode (Some (K (penc K p))) (penc K p) g = Some (dnode K (Some (K (penc K p))) g p)"
    using mustDecodeNode_penc assms by blast
  show "expands (cflag K D) D g b (dnode K (Some (K (penc K p))) g p) p"
    using stored_dnode [OF assms(1-3) stored_False [OF assms(4)], of g] assms(4,5) unfolding dnode_ok_def by blast
qed

text \<open>A reference is to a stored tree, so it survives every growth of the database and a change of generation.\<close>

lemma expands_HashNode_stored:
  assumes "expands (cflag K D) D g b (HashNode x) p"
  shows "x = K (penc K p) \<and> (b \<or> 32 \<le> length (penc K p)) \<and> node_stored K D b p"
proof -
  obtain enc n where n: "mustDecodeNode (Some x) enc g = Some n" "expands (cflag K D) D g b n p"
    using assms by (auto elim: expands_HashE)
  show ?thesis using decoded_flag [OF n(1)] n(2) by (auto simp: expands_simps cflag_def hflag_def)
qed

definition pok :: "ptrie \<Rightarrow> bool" where
  "pok p \<longleftrightarrow> p = PNil \<or> (\<exists>v. p = PVal v) \<or> pnode p"

lemma pok_child:
  "pok (PShort k p) \<Longrightarrow> pok p"
  "pok (PFull ps) \<Longrightarrow> i < length ps \<Longrightarrow> pok (ps ! i)"
  using pnode_child(1) [of k p] pnode_child(2) [of ps i] by (auto simp: pok_def pslot_def pnode_PFull_iff)

lemma reexpand:
  assumes "hash_len K" "D \<subseteq>\<^sub>m D'"
  shows "expands (cflag K D) D g b n p \<Longrightarrow> pok p \<Longrightarrow> pfits K p \<Longrightarrow> expands (cflag K D') D' g' b n p"
proof (induction rule: expands.induct)
  case (exp_short n p b fl k)
  then show ?case using cflag_mono assms(2) pok_child(1) pfits_child(1) by (metis expands.exp_short)
next
  case (exp_full cs ps b fl)
  then have "expands (cflag K D') D' g' False (cs ! i) (ps ! i)" if "i < length cs" for i
    using that pok_child(2) [of ps i] pfits_child(2) [of K ps "ps ! i"] by simp
  then show ?case using exp_full.hyps cflag_mono [OF _ assms(2)] by (auto intro!: expands.exp_full)
next
  case (exp_hash x enc n b p)
  have e: "expands (cflag K D) D g b (HashNode x) p" using exp_hash.hyps by (auto intro: expands.exp_hash)
  have "pnode p"
    using exp_hash.prems(1) exp_hash.hyps(2,3) mustDecodeNode_form [OF exp_hash.hyps(2)] by (auto simp: pok_def expands_simps)
  then show ?case
    using expands_HashNode_stored [OF e] stored_mono [OF _ assms(2)] stored_HashNode [OF assms(1)] exp_hash.prems(2) by blast
qed (auto intro: expands.exp_nil expands.exp_val)

section \<open>Writing the subtrees\<close>

text \<open>The database holds nothing else under the hash of a tree of \<open>T\<close>.\<close>

definition db_safe :: "(bytes \<Rightarrow> bytes) \<Rightarrow> (bytes \<rightharpoonup> bytes) \<Rightarrow> ptrie set \<Rightarrow> bool" where
  "db_safe K D T \<longleftrightarrow> (\<forall>q \<in> T. \<forall>e. D (K (penc K q)) = Some e \<longrightarrow> e = penc K q)"

lemma db_safe_put:
  assumes "db_safe K D T" "hash_free K T" "q \<in> T"
  shows "db_safe K (D(K (penc K q) \<mapsto> penc K q)) T" "D \<subseteq>\<^sub>m D(K (penc K q) \<mapsto> penc K q)"
  using assms by (auto simp: db_safe_def hash_free_def map_le_def)

text \<open>What a call of \<open>hash\<close> with a database does for a subtree.\<close>

definition commit_spec :: "('w \<Rightarrow> bytes \<Rightarrow> bytes option) \<Rightarrow> (bytes \<Rightarrow> bytes) \<Rightarrow> ptrie set \<Rightarrow> u16 \<Rightarrow> 'w hasher \<Rightarrow> ptrie \<Rightarrow> bool" where
  "commit_spec get K T g h p \<longleftrightarrow> (\<forall>b n w. expands (cflag K (get w)) (get w) g b n p \<longrightarrow> db_safe K (get w) T \<longrightarrow>
     (\<exists>hashed cached w'. hasher_hash h n (Some w) b = (Inr (hashed, cached), Some w')
        \<and> get w \<subseteq>\<^sub>m get w' \<and> db_safe K (get w') T \<and> expands (cflag K (get w')) (get w') g b cached p
        \<and> hash_result K b p hashed \<and> node_stored K (get w') b p))"

context trie_writer
begin

lemma hasher_store_some:
  assumes "node_val n = pcoll K p" "n \<noteq> NilNode" "\<And>x. n \<noteq> HashNode x" "hs_keccak h = K" "hs_Put h = put"
    "\<And>x. fst (node_cache n) = Some x \<Longrightarrow> x = K (penc K p)" "pnode p" "p \<in> T" "db_safe K (get w) T" "hash_free K T"
    "\<And>q. q \<in> set (psubs p) \<Longrightarrow> q \<noteq> p \<Longrightarrow> 32 \<le> length (penc K q) \<Longrightarrow> get w (K (penc K q)) = Some (penc K q)"
  shows "\<exists>hashed w'. hasher_store h n (Some w) b = (Inr hashed, Some w') \<and> hash_result K b p hashed
    \<and> get w \<subseteq>\<^sub>m get w' \<and> db_safe K (get w') T \<and> node_stored K (get w') b p"
proof (cases "length (penc K p) < 32 \<and> \<not> b")
  case True
  have "hasher_store h n (Some w) b = (Inr n, Some w)"
    using assms(1-3) EncodeToBytes_pcoll [of K p] True by (cases n) (simp_all add: hasher_store_def)
  moreover have "node_stored K (get w) b p" unfolding node_stored_def using assms(11) True by (metis leD)
  ultimately show ?thesis using assms(1-3,9) True by (auto simp: hash_result_def)
next
  case False
  let ?x = "K (penc K p)" and ?e = "penc K p"
  have x: "(case fst (node_cache n) of None \<Rightarrow> hs_keccak h ?e | Some x \<Rightarrow> x) = ?x"
    using assms(4,6) by (cases "fst (node_cache n)") auto
  obtain w' where w': "put w ?x ?e = (True, w')" using put_ok by (metis prod.collapse)
  then have get': "get w' = (get w)(?x \<mapsto> ?e)" using put_get [of w ?x ?e] by simp
  have "hasher_store h n (Some w) b = (Inr (HashNode ?x), Some w')"
    using assms(1-3,5) EncodeToBytes_pcoll [of K p] False x w' by (cases n) (auto simp: hasher_store_def Let_def)
  moreover have safe: "get w \<subseteq>\<^sub>m get w'" "db_safe K (get w') T" using db_safe_put [OF assms(9,10,8)] get' by simp_all
  moreover have "node_stored K (get w') b p"
    unfolding node_stored_def
  proof (intro conjI ballI impI)
    fix q assume q: "q \<in> set (psubs p)" "32 \<le> length (penc K q)"
    show "get w' (K (penc K q)) = Some (penc K q)"
    proof (cases "q = p")
      case False
      then have "get w (K (penc K q)) = Some (penc K q)" using assms(11) q by blast
      then show ?thesis using safe(1) by (metis domI map_le_def)
    qed (simp add: get')
  qed (simp add: get')
  moreover have "hash_result K b p (HashNode ?x)" using False by (auto simp: hash_result_def)
  ultimately show ?thesis by blast
qed

lemma hash_child_some:
  fixes m :: nat
  assumes "expands (cflag K (get w)) (get w) g False c p" "db_safe K (get w) T"
    "p = PNil \<or> (if 0 < m then pnode p \<and> commit_spec get K T g h p else \<exists>v. p = PVal v)"
  shows "\<exists>cc nc w'. (if m = 0 \<or> c = NilNode then (Inr (if c = NilNode then ValueNode [] else c, c), Some w) else hasher_hash h c (Some w) False)
      = (Inr (cc, nc), Some w') \<and> node_val cc = pref K p \<and> get w \<subseteq>\<^sub>m get w' \<and> db_safe K (get w') T
      \<and> expands (cflag K (get w')) (get w') g False nc p \<and> node_stored K (get w') False p"
proof (cases "m = 0 \<or> c = NilNode")
  case True
  have nil: "c = NilNode \<longleftrightarrow> p = PNil" using expands_nil_iff [OF assms(1)] .
  show ?thesis
  proof (cases "c = NilNode")
    case True
    then show ?thesis using nil assms(1,2) by auto
  next
    case False
    then obtain v where "p = PVal v" using True assms(3) nil by (auto split: if_splits)
    moreover then have "c = ValueNode v" using assms(1) expands_PVal by blast
    ultimately show ?thesis using True assms(1,2) by auto
  qed
next
  case False
  then have "pnode p" "commit_spec get K T g h p" using assms(3) expands_nil_iff [OF assms(1)] by (auto split: if_splits)
  then show ?thesis using False assms(1,2) hash_result_val unfolding commit_spec_def by (metis (no_types, lifting))
qed

lemma hash_children_some:
  assumes "length cs = length ps" "\<And>i. i < length cs \<Longrightarrow> expands (cflag K (get w)) (get w) g False (cs ! i) (ps ! i)"
    "\<And>i. i < length cs \<Longrightarrow> ps ! i = PNil \<or> (if i < m then pnode (ps ! i) \<and> commit_spec get K T g h (ps ! i) else \<exists>v. ps ! i = PVal v)"
    "\<forall>p \<in> set ps. pok p \<and> pfits K p" "db_safe K (get w) T" "hash_len K"
  shows "\<exists>ccs ncs w'. hash_children h m cs (Some w) = (Inr (ccs, ncs), Some w') \<and> map node_val ccs = map (pref K) ps
    \<and> length ncs = length ps \<and> get w \<subseteq>\<^sub>m get w' \<and> db_safe K (get w') T
    \<and> (\<forall>i < length ps. expands (cflag K (get w')) (get w') g False (ncs ! i) (ps ! i)) \<and> (\<forall>p \<in> set ps. node_stored K (get w') False p)"
  using assms(1-5)
proof (induction cs arbitrary: ps m w)
  case (Cons c cs)
  obtain p ps' where ps: "ps = p # ps'" using Cons.prems(1) by (cases ps) auto
  have "\<exists>cc nc w'. (if m = 0 \<or> c = NilNode then (Inr (if c = NilNode then ValueNode [] else c, c), Some w) else hasher_hash h c (Some w) False)
      = (Inr (cc, nc), Some w') \<and> node_val cc = pref K p \<and> get w \<subseteq>\<^sub>m get w' \<and> db_safe K (get w') T
      \<and> expands (cflag K (get w')) (get w') g False nc p \<and> node_stored K (get w') False p"
    by (rule hash_child_some) (use Cons.prems(2) [of 0] Cons.prems(3) [of 0] Cons.prems(5) ps in \<open>auto split: if_splits\<close>)
  then obtain cc nc w1 where hd: "(if m = 0 \<or> c = NilNode then (Inr (if c = NilNode then ValueNode [] else c, c), Some w) else hasher_hash h c (Some w) False)
      = (Inr (cc, nc), Some w1)" "node_val cc = pref K p" "get w \<subseteq>\<^sub>m get w1" "db_safe K (get w1) T"
      "expands (cflag K (get w1)) (get w1) g False nc p" "node_stored K (get w1) False p" by blast
  have "\<exists>ccs ncs w'. hash_children h (m - 1) cs (Some w1) = (Inr (ccs, ncs), Some w') \<and> map node_val ccs = map (pref K) ps'
    \<and> length ncs = length ps' \<and> get w1 \<subseteq>\<^sub>m get w' \<and> db_safe K (get w') T
    \<and> (\<forall>i < length ps'. expands (cflag K (get w')) (get w') g False (ncs ! i) (ps' ! i)) \<and> (\<forall>p \<in> set ps'. node_stored K (get w') False p)"
  proof (rule Cons.IH)
    show "length cs = length ps'" "\<forall>p \<in> set ps'. pok p \<and> pfits K p" "db_safe K (get w1) T" using Cons.prems(1,4) ps hd(4) by simp_all
    fix i assume i: "i < length cs"
    have "expands (cflag K (get w)) (get w) g False (cs ! i) (ps' ! i)" using Cons.prems(2) [of "Suc i"] i ps by simp
    then show "expands (cflag K (get w1)) (get w1) g False (cs ! i) (ps' ! i)"
      using reexpand [OF assms(6) hd(3)] Cons.prems(1,4) ps i by simp
    show "ps' ! i = PNil \<or> (if i < m - 1 then pnode (ps' ! i) \<and> commit_spec get K T g h (ps' ! i) else \<exists>v. ps' ! i = PVal v)"
      using Cons.prems(3) [of "Suc i"] i ps by (auto simp: less_diff_conv split: if_splits)
  qed
  then obtain ccs ncs w' where rest: "hash_children h (m - 1) cs (Some w1) = (Inr (ccs, ncs), Some w')" "map node_val ccs = map (pref K) ps'"
    "length ncs = length ps'" "get w1 \<subseteq>\<^sub>m get w'" "db_safe K (get w') T"
    "\<And>i. i < length ps' \<Longrightarrow> expands (cflag K (get w')) (get w') g False (ncs ! i) (ps' ! i)" "\<forall>p \<in> set ps'. node_stored K (get w') False p" by blast
  have "hash_children h m (c # cs) (Some w) = (Inr (cc # ccs, nc # ncs), Some w')"
    unfolding hash_children.simps hd(1) using rest(1) by simp
  moreover have "expands (cflag K (get w')) (get w') g False ((nc # ncs) ! i) (ps ! i)" if "i < length ps" for i
    using that reexpand [OF assms(6) rest(4) hd(5)] Cons.prems(4) rest(6) ps by (cases i) auto
  moreover have "get w \<subseteq>\<^sub>m get w'" using hd(3) rest(4) map_le_trans by blast
  moreover have "node_stored K (get w') False p" using stored_mono hd(6) rest(4) by blast
  ultimately show ?case using hd(2) rest(2,3,5,7) ps by auto
qed simp

text \<open>A cached hash is used when the node is unloaded or already written.\<close>

lemma hash_shortcut_some:
  assumes "expands (cflag K (get w)) (get w) g b n p" "hash_shortcut h n (Some w) = Some (hashed, cached)"
    "pnode p" "pfits K p" "hash_len K"
  shows "expands (cflag K (get w)) (get w) g b cached p \<and> hash_result K b p hashed \<and> node_stored K (get w) b p"
proof -
  obtain x where x: "fst (node_cache n) = Some x" "\<not> snd (node_cache n)" "hashed = HashNode x" "cached = n \<or> cached = HashNode x"
    using assms(2) by (cases n)
      (auto simp: hash_shortcut_def flag_canUnload_def split: option.splits if_splits)
  then obtain fl where fl: "nf_hash fl = Some x" "\<not> nf_dirty fl" "cflag K (get w) b fl p"
    using assms(1) by (cases n) (auto simp: expands_simps)
  then have p: "x = K (penc K p)" "b \<or> 32 \<le> length (penc K p)" "node_stored K (get w) b p"
    by (auto simp: cflag_def hflag_def)
  then show ?thesis
    using x(3,4) assms(1) stored_HashNode [OF assms(5,3,4) p(3,2), of g] by (auto simp: hash_result_def)
qed

lemma set_cached_cflag:
  assumes "hash_result K b p hashed" "node_stored K D b p" "nf_hash fl = (case hashed of HashNode x \<Rightarrow> Some x | _ \<Rightarrow> None)"
  shows "cflag K D b fl p"
  using set_cached_hflag [OF assms(1,3)] assms(2) by (simp add: cflag_def)

lemma hash_reference:
  assumes "n = HashNode x" "expands (cflag K (get w)) (get w) g b n p" "db_safe K (get w) T"
  shows "\<exists>hashed cached w'. hasher_hash h n (Some w) b = (Inr (hashed, cached), Some w')
        \<and> get w \<subseteq>\<^sub>m get w' \<and> db_safe K (get w') T \<and> expands (cflag K (get w')) (get w') g b cached p
        \<and> hash_result K b p hashed \<and> node_stored K (get w') b p"
  using expands_HashNode_stored [OF assms(2) [unfolded assms(1)]] assms
  by (auto simp: hash_finish_def hasher_store_def set_cached_def hash_result_def)

lemma commit_short:
  assumes "pnode (PShort k p)" "pwithin K T (PShort k p)" "(\<exists>v. p = PVal v) \<or> (pnode p \<and> commit_spec get K T g h p)"
    "hash_free K T" "hash_len K" "hs_keccak h = K" "hs_Put h = put"
  shows "commit_spec get K T g h (PShort k p)"
  unfolding commit_spec_def
proof (intro allI impI)
  fix b n w
  assume e: "expands (cflag K (get w)) (get w) g b n (PShort k p)" and safe: "db_safe K (get w) T"
  have fits: "pfits K (PShort k p)" "PShort k p \<in> T" "pfits K p" "pok p"
    using pwithin_self [OF assms(1,2)] pfits_child(1) assms(3) by (auto simp: pok_def)
  show "\<exists>hashed cached w'. hasher_hash h n (Some w) b = (Inr (hashed, cached), Some w')
        \<and> get w \<subseteq>\<^sub>m get w' \<and> db_safe K (get w') T \<and> expands (cflag K (get w')) (get w') g b cached (PShort k p)
        \<and> hash_result K b (PShort k p) hashed \<and> node_stored K (get w') b (PShort k p)"
  proof (cases "\<exists>x. n = HashNode x")
    case True
    then show ?thesis using hash_reference [OF _ e safe] by blast
  next
    case nohash: False
    then obtain v fl where n: "n = ShortNode k v fl" and v: "expands (cflag K (get w)) (get w) g False v p" and fl: "cflag K (get w) b fl (PShort k p)"
      using e by (cases n) (auto simp: expands_simps)
    show ?thesis
    proof (cases "hash_shortcut h n (Some w)")
      case (Some r)
      then show ?thesis
        using hash_shortcut_some [OF e _ assms(1) fits(1) assms(5)] safe n by (cases r) auto
    next
      case None
      obtain c where c: "hexToCompact k = Some c" using pnode_hexToCompact [OF assms(1)] by blast
      have "\<exists>cv nv w'. (if is_valueNode v then (Inr (v, v), Some w) else hasher_hash h v (Some w) False) = (Inr (cv, nv), Some w')
          \<and> node_val cv = pref K p \<and> cv \<noteq> NilNode \<and> get w \<subseteq>\<^sub>m get w' \<and> db_safe K (get w') T
          \<and> expands (cflag K (get w')) (get w') g False nv p \<and> node_stored K (get w') False p"
      proof (cases "is_valueNode v")
        case True
        then show ?thesis using v safe by (auto simp: expands_simps is_valueNode_iff)
      next
        case False
        then have "pnode p \<and> commit_spec get K T g h p" using assms(3) v expands_PVal is_valueNode_iff by blast
        then show ?thesis
          using False v safe hash_result_val hash_result_not_nil unfolding commit_spec_def by (metis (no_types, lifting))
      qed
      then obtain cv nv w1 where cv: "(if is_valueNode v then (Inr (v, v), Some w) else hasher_hash h v (Some w) False) = (Inr (cv, nv), Some w1)"
          "node_val cv = pref K p" "cv \<noteq> NilNode" "get w \<subseteq>\<^sub>m get w1" "db_safe K (get w1) T"
          "expands (cflag K (get w1)) (get w1) g False nv p" "node_stored K (get w1) False p" by blast
      have "node_val (ShortNode c cv fl) = pcoll K (PShort k p)" using cv(2) c by simp
      then have "\<exists>hashed w'. hasher_store h (ShortNode c cv fl) (Some w1) b = (Inr hashed, Some w') \<and> hash_result K b (PShort k p) hashed
          \<and> get w1 \<subseteq>\<^sub>m get w' \<and> db_safe K (get w') T \<and> node_stored K (get w') b (PShort k p)"
        by (rule hasher_store_some)
          (use assms fits(2) cv(5,7) fl in \<open>auto simp: cflag_def hflag_def node_stored_def\<close>)
      then obtain hashed w' where st: "hasher_store h (ShortNode c cv fl) (Some w1) b = (Inr hashed, Some w')" "hash_result K b (PShort k p) hashed"
          "get w1 \<subseteq>\<^sub>m get w'" "db_safe K (get w') T" "node_stored K (get w') b (PShort k p)" by blast
      have "hasher_hash h n (Some w) b = (Inr (hashed, set_cached True hashed (ShortNode k nv fl)), Some w')"
        unfolding n hasher_hash.simps cv(1) using None c cv(3) st(1) n by (simp add: hash_finish_def)
      moreover have "expands (cflag K (get w')) (get w') g b (set_cached True hashed (ShortNode k nv fl)) (PShort k p)"
        using set_cached_cflag [OF st(2,5)] reexpand [OF assms(5) st(3) cv(6) fits(4,3), of g] by (auto simp: set_cached_def expands_simps)
      ultimately show ?thesis using st(2,4,5) map_le_trans [OF cv(4) st(3)] by blast
    qed
  qed
qed

lemma commit_full:
  assumes "pnode (PFull ps)" "pwithin K T (PFull ps)" "\<And>i. i < 16 \<Longrightarrow> ps ! i = PNil \<or> commit_spec get K T g h (ps ! i)"
    "hash_free K T" "hash_len K" "hs_keccak h = K" "hs_Put h = put"
  shows "commit_spec get K T g h (PFull ps)"
  unfolding commit_spec_def
proof (intro allI impI)
  fix b n w
  assume e: "expands (cflag K (get w)) (get w) g b n (PFull ps)" and safe: "db_safe K (get w) T"
  have len: "length ps = 17" using assms(1) by (simp add: pnode_PFull_iff)
  have fits: "pfits K (PFull ps)" "PFull ps \<in> T" using pwithin_self [OF assms(1,2)] by auto
  have child: "\<forall>p \<in> set ps. pok p \<and> pfits K p"
    using pfits_child(2) [OF fits(1)] pok_child(2) [of ps] assms(1) unfolding pok_def by (metis in_set_conv_nth)
  show "\<exists>hashed cached w'. hasher_hash h n (Some w) b = (Inr (hashed, cached), Some w')
        \<and> get w \<subseteq>\<^sub>m get w' \<and> db_safe K (get w') T \<and> expands (cflag K (get w')) (get w') g b cached (PFull ps)
        \<and> hash_result K b (PFull ps) hashed \<and> node_stored K (get w') b (PFull ps)"
  proof (cases "\<exists>x. n = HashNode x")
    case True
    then show ?thesis using hash_reference [OF _ e safe] by blast
  next
    case nohash: False
    then obtain cs fl where n: "n = FullNode cs fl" and cs: "length cs = length ps"
        "\<And>i. i < length cs \<Longrightarrow> expands (cflag K (get w)) (get w) g False (cs ! i) (ps ! i)" and fl: "cflag K (get w) b fl (PFull ps)"
      using e by (cases n) (auto simp: expands_simps)
    show ?thesis
    proof (cases "hash_shortcut h n (Some w)")
      case (Some r)
      then show ?thesis
        using hash_shortcut_some [OF e _ assms(1) fits(1) assms(5)] safe n by (cases r) auto
    next
      case None
      have slot: "ps ! i = PNil \<or> (if i < 16 then pnode (ps ! i) \<and> commit_spec get K T g h (ps ! i) else \<exists>v. ps ! i = PVal v)"
        if "i < length cs" for i
        using pnode_child(2) [OF assms(1), of i] assms(3) [of i] that cs(1) len by (auto simp: pslot_def)
      obtain ccs ncs w1 where c: "hash_children h 16 cs (Some w) = (Inr (ccs, ncs), Some w1)" "map node_val ccs = map (pref K) ps"
          "length ncs = length ps" "get w \<subseteq>\<^sub>m get w1" "db_safe K (get w1) T"
          "\<And>i. i < length ps \<Longrightarrow> expands (cflag K (get w1)) (get w1) g False (ncs ! i) (ps ! i)" "\<forall>p \<in> set ps. node_stored K (get w1) False p"
        using hash_children_some [OF cs slot child safe assms(5)] by blast
      have "node_val (FullNode ccs fl) = pcoll K (PFull ps)" using c(2) by simp
      then have "\<exists>hashed w'. hasher_store h (FullNode ccs fl) (Some w1) b = (Inr hashed, Some w') \<and> hash_result K b (PFull ps) hashed
          \<and> get w1 \<subseteq>\<^sub>m get w' \<and> db_safe K (get w') T \<and> node_stored K (get w') b (PFull ps)"
        by (rule hasher_store_some)
          (use assms fits(2) c(5,7) fl in \<open>auto simp: cflag_def hflag_def node_stored_def\<close>)
      then obtain hashed w' where st: "hasher_store h (FullNode ccs fl) (Some w1) b = (Inr hashed, Some w')" "hash_result K b (PFull ps) hashed"
          "get w1 \<subseteq>\<^sub>m get w'" "db_safe K (get w') T" "node_stored K (get w') b (PFull ps)" by blast
      have "hasher_hash h n (Some w) b = (Inr (hashed, set_cached True hashed (FullNode ncs fl)), Some w')"
        unfolding n hasher_hash.simps c(1) using None st(1) n by (simp add: hash_finish_def)
      moreover have "expands (cflag K (get w')) (get w') g False (ncs ! i) (ps ! i)" if "i < length ps" for i
        using reexpand [OF assms(5) st(3) c(6) [OF that], of g] child that by simp
      then have "expands (cflag K (get w')) (get w') g b (set_cached True hashed (FullNode ncs fl)) (PFull ps)"
        using set_cached_cflag [OF st(2,5)] c(3) by (auto simp: set_cached_def expands_simps)
      ultimately show ?thesis using st(2,4,5) map_le_trans [OF c(4) st(3)] by blast
    qed
  qed
qed

theorem commit_hash:
  assumes "hash_free K T" "hash_len K" "hs_keccak h = K" "hs_Put h = put"
  shows "pnode p \<Longrightarrow> pwithin K T p \<Longrightarrow> commit_spec get K T g h p"
proof (induction rule: pnode.induct)
  case (leaf k v)
  then show ?case using assms by (intro commit_short) (auto intro: pnode.leaf)
next
  case (ext k cs)
  then show ?case using assms pwithin_short by (intro commit_short) (auto intro: pnode.ext)
next
  case (branch cs)
  have p: "pnode (PFull cs)" using branch by (auto intro: pnode.branch)
  have "cs ! i = PNil \<or> commit_spec get K T g h (cs ! i)" if "i < 16" for i
    using branch.IH pwithin_full [OF branch.prems] branch.hyps(1) that by auto
  then show ?case using assms branch.prems p by (intro commit_full)
qed

text \<open>The whole commit.\<close>

theorem CommitTo_tree:
  assumes "trie_treeF (cflag K (get w)) t p" "t_db t = get w" "hash_free K T" "pwithin K T p" "db_safe K (get w) T"
  shows "\<exists>c w'. trie_CommitTo K put t w = (Inr (BytesToHash (proot K p)), t\<lparr>t_root := c, t_cachegen := t_cachegen t + 1\<rparr>, w')
    \<and> get w \<subseteq>\<^sub>m get w' \<and> db_safe K (get w') T \<and> (p = PNil \<or> node_stored K (get w') True p)
    \<and> expands (cflag K (get w')) (get w') g True c p"
proof (cases "t_root t = NilNode")
  case True
  then have "p = PNil" using assms(1) expands_nil_iff unfolding trie_treeF_parts by blast
  then show ?thesis
    using True assms(5) by (auto simp: trie_CommitTo_def hashRoot_def proot_def intro!: exI [of _ NilNode] expands.exp_nil)
next
  case False
  have e: "expands (cflag K (get w)) (get w) (t_cachegen t) True (t_root t) p" and wf: "pwf p"
    using assms(1,2) by (auto simp: trie_treeF_parts)
  then have p: "pnode p" using False expands_nil_iff by (auto simp: pwf_def)
  have len: "hash_len K" using assms(3) by (simp add: hash_free_def hash_len_def)
  let ?h = "newHasher K put (t_cachegen t) (t_cachelimit t)"
  have "commit_spec get K T (t_cachegen t) ?h p"
    by (rule commit_hash [OF assms(3) len _ _ p assms(4)]) (simp_all add: newHasher_def)
  then obtain hashed c w' where c: "hasher_hash ?h (t_root t) (Some w) True = (Inr (hashed, c), Some w')"
      "get w \<subseteq>\<^sub>m get w'" "expands (cflag K (get w')) (get w') (t_cachegen t) True c p" "hash_result K True p hashed" "node_stored K (get w') True p"
      "db_safe K (get w') T"
    using e assms(5) unfolding commit_spec_def by blast
  have "trie_CommitTo K put t w = (Inr (BytesToHash (proot K p)), t\<lparr>t_root := c, t_cachegen := t_cachegen t + 1\<rparr>, w')"
    using False c(1,4) p by (auto simp: trie_CommitTo_def hashRoot_def proot_def hash_result_def)
  moreover have "expands (cflag K (get w')) (get w') g True c p"
    using reexpand [OF len map_le_refl c(3)] p pwithin_self [OF p assms(4)] by (auto simp: pok_def)
  ultimately show ?thesis using c(2,5,6) by blast
qed

end

section \<open>Properties\<close>

text \<open>Opening a trie the way it was opened: with its prefix, if it has one.\<close>

definition trie_reopen :: "trie \<Rightarrow> hash \<Rightarrow> (bytes \<rightharpoonup> bytes) \<Rightarrow> trie_error + trie" where
  "trie_reopen t root db = (case t_prefix t of None \<Rightarrow> trie_New root db | Some pre \<Rightarrow> NewTrieWithPrefix root pre db)"

lemma addressable_prefix: "t_prefix u = t_prefix t \<Longrightarrow> addressable u p \<longleftrightarrow> addressable t p"
  by (simp add: addressable_def full_key_def)

lemma trie_reopen_New:
  assumes "trie_New root db = Inr u"
  shows "trie_reopen t root db = Inr (u\<lparr>t_prefix := t_prefix t\<rparr>)"
proof -
  have "t_prefix u = None"
    using assms by (auto simp: trie_New_def Let_def go_bind_Inr_iff split: if_splits)
  then show ?thesis using assms by (cases "t_prefix t") (simp_all add: trie_reopen_def NewTrieWithPrefix_def)
qed

lemma trie_reopen_stored:
  assumes "hash_free K (set (psubs p))" "pfits K p" "pwf p" "addressable t p" "p = PNil \<or> node_stored K D True p" "proot K p \<noteq> replicate 32 0"
  shows "\<exists>u. trie_reopen t (proot K p) D = Inr u \<and> t_db u = D \<and> t_prefix u = t_prefix t \<and> trie_treeF (cflag K D) u p"
proof -
  have "\<exists>u. trie_New (proot K p) D = Inr u \<and> t_db u = D \<and> expands (cflag K D) D (t_cachegen u) True (t_root u) p"
  proof (cases "p = PNil")
    case True
    then show ?thesis by (simp add: trie_New_def proot_def Let_def expands.exp_nil)
  next
    case False
    have p: "pnode p" using assms(3) False by (simp add: pwf_def)
    have len: "hash_len K" using assms(1) by (simp add: hash_free_def hash_len_def)
    have st: "node_stored K D True p" using assms(5) False by simp
    have ne: "K (penc K p) \<noteq> emptyRoot" using assms(1) psubs_self [OF p] by (auto simp: hash_free_def)
    have e: "expands (cflag K D) D 0 True (dnode K (Some (K (penc K p))) 0 p) p"
      using stored_dnode [OF len p assms(2) stored_False [OF st], of 0] st unfolding dnode_ok_def by blast
    show ?thesis
      using False ne assms(6) e stored_self [OF st p] mustDecodeNode_penc [OF len p assms(2)]
      by (simp add: trie_New_def proot_def Let_def resolveHash_def)
  qed
  then obtain u where u: "trie_New (proot K p) D = Inr u" "t_db u = D" "expands (cflag K D) D (t_cachegen u) True (t_root u) p" by blast
  have "trie_treeF (cflag K D) (u\<lparr>t_prefix := t_prefix t\<rparr>) p"
    using u(2,3) assms(3,4) addressable_prefix [of "u\<lparr>t_prefix := t_prefix t\<rparr>" t p] by (simp add: trie_treeF_parts)
  then show ?thesis using trie_reopen_New [OF u(1)] u(2) by simp
qed

text \<open>
  C3. A committed trie can be read back. When \<open>CommitTo\<close> writes a trie to the in-memory database from
  which it was read, it succeeds; opening a trie at the root it returns, over the database it leaves,
  gives the same map; and the trie in memory, of which the commit may have unloaded nodes, still holds
  that map over that database. Both are ready to be changed and committed again. The assumptions: no two
  node encodings of the trie collide, none collides with another entry of the database or with the
  hashes that stand for the empty trie, and they fit in memory.
\<close>

theorem Commit_reopen:
  assumes "trie_treeF (cflag K (md_db w)) t p" "t_db t = md_db w"
    "hash_free K (set (psubs p))" "pfits K p" "db_safe K (md_db w) (set (psubs p))" "proot K p \<noteq> replicate 32 0"
  shows "\<exists>root t' w' u. trie_CommitTo K mem_Put t w = (Inr root, t', w') \<and> trie_reopen t root (md_db w') = Inr u
    \<and> trie_treeF (cflag K (md_db w')) u p \<and> trie_treeF (cflag K (md_db w')) (t'\<lparr>t_db := md_db w'\<rparr>) p"
proof -
  have within: "pwithin K (set (psubs p)) p" using assms(4) by (simp add: pwithin_def)
  have wf: "pwf p" "addressable t p" using assms(1) by (simp_all add: trie_treeF_parts)
  obtain c w' where c: "trie_CommitTo K mem_Put t w = (Inr (BytesToHash (proot K p)), t\<lparr>t_root := c, t_cachegen := t_cachegen t + 1\<rparr>, w')"
      "p = PNil \<or> node_stored K (md_db w') True p" "expands (cflag K (md_db w')) (md_db w') (t_cachegen t + 1) True c p"
    using mem_writer.CommitTo_tree [OF assms(1,2,3) within assms(5)] by blast
  have root: "BytesToHash (proot K p) = proot K p"
    using assms(3) by (intro BytesToHash_id) (simp add: proot_def hash_free_def emptyRoot_def)
  obtain u where u: "trie_reopen t (proot K p) (md_db w') = Inr u" "trie_treeF (cflag K (md_db w')) u p"
    using trie_reopen_stored [OF assms(3,4) wf c(2) assms(6)] by blast
  have "trie_treeF (cflag K (md_db w')) (t\<lparr>t_root := c, t_cachegen := t_cachegen t + 1, t_db := md_db w'\<rparr>) p"
    using c(3) wf addressable_prefix [of "t\<lparr>t_root := c, t_cachegen := t_cachegen t + 1, t_db := md_db w'\<rparr>" t p]
    by (simp add: trie_treeF_parts)
  then show ?thesis using c(1) root u by auto
qed

theorem Commit_reopen_witness:
  "\<exists>t root t' w' u. TryUpdate (empty_trie Map.empty) [1] [5] = Some (Inr t)
    \<and> trie_CommitTo pad_hash mem_Put t NewMemDatabase = (Inr root, t', w') \<and> trie_New root (md_db w') = Inr u
    \<and> trie_treeF (cflag pad_hash (md_db w')) u sample_leaf"
proof -
  let ?e = "empty_trie Map.empty"
  obtain n where t: "TryUpdate ?e [1] [5] = Some (Inr (?e\<lparr>t_root := n\<rparr>))" "trie_treeF (cflag pad_hash Map.empty) (?e\<lparr>t_root := n\<rparr>) sample_leaf"
    using sample_trie [OF cflag_fresh] by blast
  have nz: "pad_hash [0xC4, 0x82, 0x20, 1, 5] \<noteq> replicate 32 0" by code_simp
  have "db_safe pad_hash (md_db NewMemDatabase) (set (psubs sample_leaf))" "proot pad_hash sample_leaf \<noteq> replicate 32 0"
    "md_db NewMemDatabase = Map.empty" "t_db (?e\<lparr>t_root := n\<rparr>) = md_db NewMemDatabase" "t_prefix (?e\<lparr>t_root := n\<rparr>) = None"
    using sample_leaf_facts nz by (simp_all add: db_safe_def NewMemDatabase_def proot_def empty_trie_def)
  then show ?thesis
    using Commit_reopen [of pad_hash NewMemDatabase "?e\<lparr>t_root := n\<rparr>" sample_leaf] t sample_leaf_facts by (auto simp: trie_reopen_def)
qed

end
