(* ===== verification/Trie_Proof.thy ===== *)
theory Trie_Proof
  imports Trie_Commit
begin

text \<open>
  Merkle proofs, \<^verbatim>\<open>pkg/trie/proof.go\<close>. \<open>Prove\<close> writes the encoded nodes on the path to a key;
  \<open>VerifyProof\<close> follows the path from a root hash through such a set of nodes. Both follow hashes, so
  both are partial functions: \<open>None\<close> is not returning. Shown: verification of any set of nodes against
  the root of a tree returns, and either reports a missing node or gives the entry of the tree; with
  the nodes of \<open>Prove\<close> none is missing.
\<close>

section \<open>Definitions\<close>

text \<open>The loop of \<open>Prove\<close> that collects the nodes on the path.\<close>

partial_function (option) prove_path :: "trie \<Rightarrow> node \<Rightarrow> bytes \<Rightarrow> node list trie_result" where
  "prove_path t tn key =
     (if key = [] then Some (Inr [])
      else
        (case tn of
           NilNode \<Rightarrow> Some (Inr [])
         | ShortNode k val fl \<Rightarrow>
             if length key < length k \<or> k \<noteq> take (length k) key then Some (Inr [tn])
             else out_bind (prove_path t val (drop (length k) key)) (\<lambda>nodes. Some (Inr (tn # nodes)))
         | FullNode cs fl \<Rightarrow>
             if length cs \<le> unat (hd key) then Some (Inl TriePanic)
             else out_bind (prove_path t (cs ! unat (hd key)) (tl key)) (\<lambda>nodes. Some (Inr (tn # nodes)))
         | HashNode h \<Rightarrow> (case resolveHash t h [] of Inl e \<Rightarrow> Some (Inl e) | Inr rn \<Rightarrow> prove_path t rn key)
         | ValueNode v \<Rightarrow> Some (Inl TriePanic)))"

text \<open>
  The loop that writes them, from the node at position \<open>i\<close>. The errors of \<open>hashChildren\<close>, \<open>store\<close> and
  \<open>Put\<close> are dropped by the code; without a database the first two can only panic.
\<close>

fun prove_nodes :: "(bytes \<Rightarrow> bytes) \<Rightarrow> ('w \<Rightarrow> bytes \<Rightarrow> bytes \<Rightarrow> bool \<times> 'w) \<Rightarrow> nat \<Rightarrow> nat \<Rightarrow> node list \<Rightarrow> 'w \<Rightarrow> trie_error + 'w" where
  "prove_nodes keccak put i fromLevel [] w = Inr w"
| "prove_nodes keccak put i fromLevel (n # ns) w =
     (let h = newHasher keccak (\<lambda>w _ _. (True, w)) 0 0 :: unit hasher in
      case fst (hashChildren h n None) of
        Inl e \<Rightarrow> Inl e
      | Inr (collapsed, _) \<Rightarrow>
          (case fst (hasher_store h collapsed None False) of
             Inl e \<Rightarrow> Inl e
           | Inr hn \<Rightarrow>
               (let enc = rlp_Encode (node_val collapsed);
                    elem = (case hn of HashNode x \<Rightarrow> Some x | _ \<Rightarrow> if i = 0 then Some (keccak enc) else None)
                in case elem of
                     None \<Rightarrow> prove_nodes keccak put (Suc i) fromLevel ns w
                   | Some hash \<Rightarrow>
                       if 0 < fromLevel then prove_nodes keccak put (Suc i) (fromLevel - 1) ns w
                       else prove_nodes keccak put (Suc i) fromLevel ns (snd (put w hash enc)))))"

definition Prove :: "(bytes \<Rightarrow> bytes) \<Rightarrow> ('w \<Rightarrow> bytes \<Rightarrow> bytes \<Rightarrow> bool \<times> 'w) \<Rightarrow> trie \<Rightarrow> bytes \<Rightarrow> nat \<Rightarrow> 'w \<Rightarrow> 'w trie_result" where
  "Prove keccak put t key fromLevel proofDb =
     out_bind (prove_path t (t_root t) (keybytesToHex key)) (\<lambda>nodes. Some (prove_nodes keccak put 0 fromLevel nodes proofDb))"

text \<open>\<open>get\<close> of \<^verbatim>\<open>proof.go\<close>: follow a decoded node as far as it goes.\<close>

function (sequential) proof_get :: "node \<Rightarrow> bytes \<Rightarrow> trie_error + bytes \<times> node" where
  "proof_get (ShortNode k val fl) key =
     (if length key < length k \<or> k \<noteq> take (length k) key then Inr ([], NilNode) else proof_get val (drop (length k) key))"
| "proof_get (FullNode cs fl) key =
     (if key = [] \<or> length cs \<le> unat (hd key) then Inl TriePanic else proof_get (cs ! unat (hd key)) (tl key))"
| "proof_get (HashNode h) key = Inr (key, HashNode h)"
| "proof_get NilNode key = Inr (key, NilNode)"
| "proof_get (ValueNode v) key = Inr ([], ValueNode v)"
  by pat_completeness auto
termination
proof (relation "measure (size \<circ> fst)")
  fix cs :: "node list" and fl and key :: bytes
  assume "\<not> (key = [] \<or> length cs \<le> unat (hd key))"
  then have "size (cs ! unat (hd key)) \<le> size_list size cs" by (intro size_list_estimation' [OF nth_mem order_refl]) simp
  then show "((cs ! unat (hd key), tl key), FullNode cs fl, key) \<in> measure (size \<circ> fst)" by simp
qed auto

datatype proof_error = ProofMissing nat bytes | BadProofNode nat decodeError | ProofPanic

partial_function (option) verify_loop ::
  "(bytes \<rightharpoonup> bytes) \<Rightarrow> bytes \<Rightarrow> bytes \<Rightarrow> nat \<Rightarrow> ((proof_error + bytes option) \<times> nat) option" where
  "verify_loop proofDb wantHash key i =
     (case proofDb wantHash of
        None \<Rightarrow> Some (Inl (ProofMissing i wantHash), i)
      | Some buf \<Rightarrow>
          (case decodeNode (Some wantHash) buf 0 of
             Inl (what, ctx) \<Rightarrow> Some (Inl (if what = NodePanic then ProofPanic else BadProofNode i (what, ctx)), i)
           | Inr n \<Rightarrow>
               (case proof_get n key of
                  Inl e \<Rightarrow> Some (Inl ProofPanic, i)
                | Inr (keyrest, cld) \<Rightarrow>
                    (case cld of
                       NilNode \<Rightarrow> Some (Inr None, i)
                     | HashNode h \<Rightarrow> verify_loop proofDb h keyrest (i + 1)
                     | ValueNode v \<Rightarrow> Some (Inr (Some v), i + 1)
                     | _ \<Rightarrow> Some (Inl ProofPanic, i)))))"

definition VerifyProof :: "hash \<Rightarrow> bytes \<Rightarrow> (bytes \<rightharpoonup> bytes) \<Rightarrow> ((proof_error + bytes option) \<times> nat) option" where
  "VerifyProof rootHash key proofDb = verify_loop proofDb rootHash (keybytesToHex key) 0"

section \<open>Verification\<close>

text \<open>The subtrees on the path to a key.\<close>

fun ppath :: "ptrie \<Rightarrow> bytes \<Rightarrow> ptrie list" where
  "ppath (PShort k p) key =
     PShort k p # (if length k \<le> length key \<and> take (length k) key = k then ppath p (drop (length k) key) else [])"
| "ppath (PFull cs) [] = [PFull cs]"
| "ppath (PFull cs) (x # xs) = PFull cs # (if unat x < length cs then ppath (cs ! unat x) xs else [])"
| "ppath _ key = []"

lemma ppath_subs: "set (ppath p key) \<subseteq> set (psubs p)"
proof (induction p key rule: ppath.induct)
  case (3 cs x xs)
  show ?case
  proof (cases "unat x < length cs")
    case True
    then have "set (ppath (cs ! unat x) xs) \<subseteq> set (psubs (PFull cs))"
      using 3 psubs_branch [OF nth_mem [OF True]] by (meson subset_trans)
    then show ?thesis using True by simp
  qed simp
qed auto

text \<open>Where following a decoded node ends: at the entry of the tree, or at the hash of a subtree further down.\<close>

inductive get_ends :: "(bytes \<Rightarrow> bytes) \<Rightarrow> nat \<Rightarrow> ptrie \<Rightarrow> bytes \<Rightarrow> trie_error + bytes \<times> node \<Rightarrow> bool" for K m p key where
  absent: "plookup p key = None \<Longrightarrow> get_ends K m p key (Inr (kr, NilNode))"
| found: "plookup p key = Some v \<Longrightarrow> get_ends K m p key (Inr (kr, ValueNode v))"
| deeper: "pnode q \<Longrightarrow> okkey q kr \<Longrightarrow> plookup p key = plookup q kr \<Longrightarrow> 32 \<le> length (penc K q) \<Longrightarrow>
    set (ppath q kr) \<subseteq> set (ppath p key) \<Longrightarrow> set (psubs q) \<subseteq> set (psubs p) \<Longrightarrow> size q < m \<Longrightarrow>
    get_ends K m p key (Inr (kr, HashNode (K (penc K q))))"

lemma get_ends_up:
  assumes "get_ends K m p r res" "plookup p' key = plookup p r" "set (ppath p r) \<subseteq> set (ppath p' key)"
    "set (psubs p) \<subseteq> set (psubs p')" "m \<le> n"
  shows "get_ends K n p' key res"
  using assms(1)
proof cases
  case (deeper q kr)
  then show ?thesis using assms(2-5) by (auto intro!: get_ends.deeper)
qed (use assms(2) in \<open>auto intro: get_ends.absent get_ends.found\<close>)

lemma get_ends_dref:
  assumes "p = PNil \<or> (\<exists>v. p = PVal v) \<or> (pnode p \<and> get_ends K (size p) p key (proof_get (dnode K None g p) key))" "okkey p key"
  shows "get_ends K (Suc (size p)) p key (proof_get (dref K g p) key)"
proof (cases "pnode p")
  case True
  then have "get_ends K (size p) p key (proof_get (dnode K None g p) key)" using assms(1) by (cases p) simp_all
  then have "get_ends K (Suc (size p)) p key (proof_get (dnode K None g p) key)" by (rule get_ends_up) simp_all
  moreover have "get_ends K (Suc (size p)) p key (Inr (key, HashNode (K (penc K p))))" if "32 \<le> length (penc K p)"
    using that True assms(2) by (intro get_ends.deeper) simp_all
  ultimately show ?thesis using True by (simp add: dref_pnode)
next
  case False
  then show ?thesis using assms(1) get_ends.absent [of PNil key] get_ends.found [of "p" key] by auto
qed

lemma size_child: "c \<in> set cs \<Longrightarrow> size c < size (PFull cs)"
  using size_list_estimation' [of c cs "size c" size] by simp

lemma proof_get_dnode:
  "pnode p \<Longrightarrow> okkey p key \<Longrightarrow> get_ends K (size p) p key (proof_get (dnode K h g p) key)"
proof (induction arbitrary: key h rule: pnode.induct)
  case (leaf k v)
  then show ?case by (auto intro: get_ends.absent get_ends.found)
next
  case (ext k cs)
  show ?case
  proof (cases key k rule: prefix_or_not)
    case (prefix r)
    have ok: "okkey (PFull cs) r" using okkey_PShort ext.prems prefix by blast
    have "get_ends K (Suc (size (PFull cs))) (PFull cs) r (proof_get (dref K g (PFull cs)) r)"
      using ext.IH [OF ok] ext.hyps ok by (intro get_ends_dref) blast+
    then have "get_ends K (size (PShort k (PFull cs))) (PShort k (PFull cs)) key (proof_get (dref K g (PFull cs)) r)"
      by (rule get_ends_up) (auto simp: prefix)
    then show ?thesis using prefix by simp
  next
    case other
    then have "length key < length k \<or> k \<noteq> take (length k) key" by (metis append_take_drop_id leI)
    then show ?thesis using plookup_PShort_other [OF other] by (auto intro: get_ends.absent)
  qed
next
  case (branch cs)
  have p: "pnode (PFull cs)" using branch by (auto intro: pnode.branch)
  obtain x xs where x: "key = x # xs" "length cs = 17" "unat x < 17" "okkey (cs ! unat x) xs"
    using okkey_PFull [OF branch.prems] by blast
  have mem: "cs ! unat x \<in> set cs" using x(2,3) by simp
  have "get_ends K (Suc (size (cs ! unat x))) (cs ! unat x) xs (proof_get (dref K g (cs ! unat x)) xs)"
  proof (rule get_ends_dref [OF _ x(4)])
    show "cs ! unat x = PNil \<or> (\<exists>v. cs ! unat x = PVal v) \<or>
        (pnode (cs ! unat x) \<and> get_ends K (size (cs ! unat x)) (cs ! unat x) xs (proof_get (dnode K None g (cs ! unat x)) xs))"
    proof (cases "unat x = 16")
      case False
      then have "unat x < 16" using x(3) by simp
      then show ?thesis using branch.IH x(4) by blast
    qed (use branch.hyps(2) in auto)
  qed
  then have "get_ends K (size (PFull cs)) (PFull cs) key (proof_get (dref K g (cs ! unat x)) xs)"
    by (rule get_ends_up) (use x mem psubs_branch [OF mem] size_child [OF mem] in auto)
  then show ?case using x by simp
qed

theorem verify_loop_sound:
  assumes "hash_len K"
  shows "pnode p \<Longrightarrow> pfits K p \<Longrightarrow> okkey p key \<Longrightarrow> db_safe K D (set (psubs p)) \<Longrightarrow>
    \<exists>r j. verify_loop D (K (penc K p)) key i = Some (r, j) \<and> ((\<exists>m h. r = Inl (ProofMissing m h)) \<or> r = Inr (plookup p key))
      \<and> (D (K (penc K p)) \<noteq> None \<longrightarrow> (\<forall>q \<in> set (ppath p key). 32 \<le> length (penc K q) \<longrightarrow> D (K (penc K q)) \<noteq> None) \<longrightarrow> r = Inr (plookup p key))"
proof (induction "size p" arbitrary: p key i rule: less_induct)
  case less
  show ?case
  proof (cases "D (K (penc K p))")
    case None
    then show ?thesis by (subst verify_loop.simps) simp
  next
    case (Some buf)
    then have buf: "buf = penc K p" using less.prems(1,4) psubs_self by (auto simp: db_safe_def)
    have len: "length (penc K p @ []) < 2 ^ 63"
      using penc_enc [OF less.prems(2,1)] less.prems(2) psubs_self [OF less.prems(1)] by (auto simp: pfits_def)
    have dec: "decodeNode (Some (K (penc K p))) buf 0 = Inr (dnode K (Some (K (penc K p))) 0 p)"
      using decodeNode_penc [OF assms less.prems(1,2) len, of "Some (K (penc K p))" 0] buf by simp
    let ?r = "proof_get (dnode K (Some (K (penc K p))) 0 p) key"
    have "get_ends K (size p) p key ?r" using proof_get_dnode less.prems(1,3) by blast
    then show ?thesis
    proof cases
      case (deeper q kr)
      have step: "verify_loop D (K (penc K p)) key i = verify_loop D (K (penc K q)) kr (i + 1)"
        using Some dec deeper(1) by (subst verify_loop.simps) simp
      have "pfits K q" "db_safe K D (set (psubs q))" using less.prems(2,4) deeper(7) by (auto simp: pfits_def db_safe_def)
      then obtain r j where r: "verify_loop D (K (penc K q)) kr (i + 1) = Some (r, j)" "(\<exists>m h. r = Inl (ProofMissing m h)) \<or> r = Inr (plookup q kr)"
          "D (K (penc K q)) \<noteq> None \<longrightarrow> (\<forall>q \<in> set (ppath q kr). 32 \<le> length (penc K q) \<longrightarrow> D (K (penc K q)) \<noteq> None) \<longrightarrow> r = Inr (plookup q kr)"
        using less.hyps [OF deeper(8,2) _ deeper(3)] by blast
      have "q \<in> set (ppath q kr)" using deeper(2) by (cases q; cases kr) auto
      then show ?thesis using r step deeper(4-6) by auto
    qed (use Some dec in \<open>subst verify_loop.simps, simp\<close>)+
  qed
qed

section \<open>Making a proof\<close>

text \<open>The nodes that \<open>prove_path\<close> collects stand for the subtrees on the path.\<close>

definition node_for :: "(bytes \<Rightarrow> bytes) \<Rightarrow> trie \<Rightarrow> node \<Rightarrow> ptrie \<Rightarrow> bool" where
  "node_for K t n q \<longleftrightarrow> pnode q \<and> (\<forall>x. n \<noteq> HashNode x) \<and> (\<exists>b. expands (hflag K) (t_db t) (t_cachegen t) b n q)"

lemma prove_path_expands:
  assumes "expands (hflag K) (t_db t) (t_cachegen t) b n p" "okkey p key"
  shows "\<exists>ns. prove_path t n key = Some (Inr ns) \<and> list_all2 (node_for K t) ns (if key = [] then [] else ppath p key)"
  using assms
proof (induction arbitrary: key rule: expands.induct)
  case (exp_nil b)
  then show ?case by (subst prove_path.simps) simp
next
  case (exp_val b v)
  then have "key = []" by (auto simp: okkey_def pwf_def)
  then show ?case by (subst prove_path.simps) simp
next
  case (exp_short n p b fl k)
  have p: "pnode (PShort k p)" "key \<noteq> []" using exp_short.prems by (auto simp: okkey_def pwf_def)
  have n: "node_for K t (ShortNode k n fl) (PShort k p)"
    using exp_short.hyps p by (auto simp: node_for_def intro!: exI [of _ b] expands.exp_short)
  show ?case
  proof (cases key k rule: prefix_or_not)
    case (prefix r)
    obtain ns where ns: "prove_path t n r = Some (Inr ns)" "list_all2 (node_for K t) ns (if r = [] then [] else ppath p r)"
      using exp_short.IH okkey_PShort exp_short.prems prefix by blast
    have "ppath p [] = []" if "r = []"
      using p(1) that exp_short.prems prefix by (auto elim!: pnode_ShortE simp: okkey_def pwf_def hexkey_def)
    then show ?thesis using ns n prefix p(2) by (subst prove_path.simps) (auto split: if_splits)
  next
    case other
    then have "length key < length k \<or> k \<noteq> take (length k) key" by (metis append_take_drop_id leI)
    then show ?thesis using n p(2) by (subst prove_path.simps) auto
  qed
next
  case (exp_full cs ps b fl)
  have p: "pnode (PFull ps)" using exp_full.prems by (auto simp: okkey_def pwf_def)
  have n: "node_for K t (FullNode cs fl) (PFull ps)"
    using exp_full.hyps p by (auto simp: node_for_def intro!: exI [of _ b] expands.exp_full)
  obtain x xs where x: "key = x # xs" "length ps = 17" "unat x < 17" "okkey (ps ! unat x) xs"
    using okkey_PFull [OF exp_full.prems] by blast
  obtain ns where ns: "prove_path t (cs ! unat x) xs = Some (Inr ns)" "list_all2 (node_for K t) ns (if xs = [] then [] else ppath (ps ! unat x) xs)"
    using exp_full.IH [of "unat x" xs] exp_full.hyps(1) x by auto
  have "ppath (ps ! unat x) [] = []" if "xs = []"
    using x(4) that by (auto simp: okkey_def)
  then show ?case using ns n x exp_full.hyps(1) by (subst prove_path.simps) (auto split: if_splits)
next
  case (exp_hash x enc n b p)
  have p: "key \<noteq> []"
    using exp_hash.prems exp_hash.hyps(3) mustDecodeNode_form [OF exp_hash.hyps(2)] by (auto simp: okkey_def expands_simps)
  have "resolveHash t x [] = Inr n" using exp_hash.hyps by (simp add: resolveHash_def)
  then have "prove_path t (HashNode x) key = prove_path t n key" using p by (subst prove_path.simps) simp
  then show ?case using exp_hash by simp
qed

lemma prove_collapse:
  fixes h :: "'w hasher"
  assumes "node_for K t n q" "hs_keccak h = K"
  obtains collapsed cached hn where "fst (hashChildren h n None) = Inr (collapsed, cached)" "rlp_Encode (node_val collapsed) = penc K q"
    "fst (hasher_store h collapsed None False) = Inr hn" "hash_result K False q hn"
proof -
  obtain b where q: "pnode q" "\<And>x. n \<noteq> HashNode x" "expands (hflag K) (t_db t) (t_cachegen t) b n q"
    using assms(1) by (auto simp: node_for_def)
  obtain collapsed cached where c: "hashChildren h n None = (Inr (collapsed, cached), None)" "node_val collapsed = pcoll K q"
      "collapsed \<noteq> NilNode" "\<And>x. collapsed \<noteq> HashNode x" "fst (node_cache collapsed) = fst (node_cache n)"
    using collapse_none [OF q(3,1) assms(2) q(2)] unfolding collapse_spec_def by blast
  have "x = K (penc K q)" if "fst (node_cache collapsed) = Some x" for x
    using that c(5) q(2,3) by (cases n) (auto simp: expands_simps hflag_def)
  then obtain hn where "hasher_store h collapsed None False = (Inr hn, None)" "hash_result K False q hn"
    using hasher_store_none [OF c(2-4) assms(2)] by blast
  then show ?thesis using that c(1,2) by (simp add: penc_def)
qed

context trie_writer
begin

lemma prove_nodes_writes:
  assumes "list_all2 (node_for K t) ns qs" "set qs \<subseteq> T" "db_safe K (get w) T" "hash_free K T"
  shows "\<exists>w'. prove_nodes K put i 0 ns w = Inr w' \<and> get w \<subseteq>\<^sub>m get w' \<and> db_safe K (get w') T
    \<and> (\<forall>j < length qs. 32 \<le> length (penc K (qs ! j)) \<or> i + j = 0 \<longrightarrow> get w' (K (penc K (qs ! j))) = Some (penc K (qs ! j)))"
  using assms(1-3)
proof (induction ns qs arbitrary: i w rule: list_all2_induct)
  case (Cons n ns q qs)
  let ?h = "newHasher K (\<lambda>w _ _. (True, w)) 0 0 :: unit hasher"
  have k: "hs_keccak ?h = K" by (simp add: newHasher_def)
  obtain collapsed cached hn where c: "fst (hashChildren ?h n None) = Inr (collapsed, cached)" "rlp_Encode (node_val collapsed) = penc K q"
      "fst (hasher_store ?h collapsed None False) = Inr hn" "hash_result K False q hn"
    using prove_collapse [OF Cons.hyps(1) k] by metis
  let ?x = "K (penc K q)"
  have elem: "(case hn of HashNode x \<Rightarrow> Some x | _ \<Rightarrow> if i = 0 then Some (K (penc K q)) else None) =
      (if 32 \<le> length (penc K q) \<or> i = 0 then Some ?x else None)"
    using c(4) by (auto simp: hash_result_def split: if_splits node.splits)
  define w1 where "w1 = (if 32 \<le> length (penc K q) \<or> i = 0 then snd (put w ?x (penc K q)) else w)"
  have step: "prove_nodes K put i 0 (n # ns) w = prove_nodes K put (Suc i) 0 ns w1"
    using c(1-3) elem by (simp add: Let_def w1_def)
  have q: "q \<in> T" using Cons.prems(1) by simp
  have w1: "get w \<subseteq>\<^sub>m get w1" "db_safe K (get w1) T" "32 \<le> length (penc K q) \<or> i = 0 \<Longrightarrow> get w1 ?x = Some (penc K q)"
    using db_safe_put [OF Cons.prems(2) assms(4) q] Cons.prems(2) by (auto simp: w1_def put_get)
  obtain w' where w': "prove_nodes K put (Suc i) 0 ns w1 = Inr w'" "get w1 \<subseteq>\<^sub>m get w'" "db_safe K (get w') T"
      "\<forall>j < length qs. 32 \<le> length (penc K (qs ! j)) \<or> Suc i + j = 0 \<longrightarrow> get w' (K (penc K (qs ! j))) = Some (penc K (qs ! j))"
    using Cons.IH [of w1 "Suc i"] Cons.prems(1) w1(2) by auto
  have "get w' ?x = Some (penc K q)" if "32 \<le> length (penc K q) \<or> i = 0"
    using w1(3) [OF that] w'(2) by (metis domI map_le_def)
  then have "get w' (K (penc K ((q # qs) ! j))) = Some (penc K ((q # qs) ! j))"
    if "j < length (q # qs)" "32 \<le> length (penc K ((q # qs) ! j)) \<or> i + j = 0" for j
    using that w'(4) by (cases j) auto
  then show ?case unfolding step using w'(1,3) map_le_trans [OF w1(1) w'(2)] by blast
qed simp

end

section \<open>Properties\<close>

lemma TryGet_lookup:
  assumes "trie_treeF F t p"
  shows "\<exists>t'. TryGet t key = Some (Inr (plookup p (keybytesToHex (full_key t key)), t'))"
  using TryGet_tree [of t p key] trie_treeF_tree [OF assms] by blast

lemma trie_Hash_root:
  assumes "trie_treeF (hflag K) t p" "trie_Hash K t = Inr (root, t')" "hash_len K" "p \<noteq> PNil"
  shows "root = K (penc K p) \<and> pnode p"
  using trie_Hash_tree [OF assms(1)] assms by (auto simp: proot_def hash_lenD trie_treeF_parts pwf_def)

text \<open>
  C6. A Merkle proof cannot lie. Verify a set of nodes against the root hash of a non-empty trie, for a
  key with the key prefix of the trie, if it has one, put before it, as \<open>TryGet\<close> does. Verification
  returns, never panics and never finds a node bad: it either reports a missing node, or gives exactly
  what \<open>TryGet\<close> gives on the trie for the key. Two conditions: the set of nodes holds no other bytes
  under the hash of a node of the trie, which is what collision resistance of Keccak means for a set
  of nodes keyed by their hashes, and the encodings of the nodes are shorter than \<open>2 ^ 63\<close> bytes.
\<close>

theorem VerifyProof_sound:
  assumes "trie_treeF (hflag K) t p" "p \<noteq> PNil" "trie_Hash K t = Inr (root, t')"
    "hash_len K" "pfits K p" "db_safe K D (set (psubs p))"
  shows "\<exists>r i. VerifyProof root (full_key t key) D = Some (r, i)
    \<and> ((\<exists>m h. r = Inl (ProofMissing m h)) \<or> (\<exists>v u. TryGet t key = Some (Inr (v, u)) \<and> r = Inr v))"
proof -
  let ?k = "keybytesToHex (full_key t key)"
  have p: "root = K (penc K p)" "pnode p" using trie_Hash_root [OF assms(1,3,4,2)] by auto
  have "okkey p ?k" using p(2) by (simp add: okkey_hexkey pwf_def)
  then show ?thesis
    using verify_loop_sound [OF assms(4) p(2) assms(5) _ assms(6), of ?k 0] p(1) TryGet_lookup [OF assms(1), of key]
    unfolding VerifyProof_def by fastforce
qed

theorem VerifyProof_sound_witness:
  "\<exists>t root t' r i. TryUpdate (empty_trie Map.empty) [1] [5] = Some (Inr t) \<and> trie_Hash pad_hash t = Inr (root, t')
    \<and> VerifyProof root [1] [root \<mapsto> [0xC4, 0x82, 0x20, 1, 5]] = Some (r, i)
    \<and> ((\<exists>m h. r = Inl (ProofMissing m h)) \<or> (\<exists>v u. TryGet t [1] = Some (Inr (v, u)) \<and> r = Inr v))"
proof -
  obtain n where t: "TryUpdate (empty_trie Map.empty) [1] [5] = Some (Inr (empty_trie Map.empty\<lparr>t_root := n\<rparr>))"
      "trie_treeF (hflag pad_hash) (empty_trie Map.empty\<lparr>t_root := n\<rparr>) sample_leaf"
    using sample_trie [OF hflag_fresh] by blast
  obtain t' where h: "trie_Hash pad_hash (empty_trie Map.empty\<lparr>t_root := n\<rparr>) = Inr (pad_hash (penc pad_hash sample_leaf), t')"
    using trie_Hash_tree [OF t(2)] by (auto simp: proot_def sample_leaf_def)
  show ?thesis
    using VerifyProof_sound [OF t(2) _ h, of "[pad_hash (penc pad_hash sample_leaf) \<mapsto> [0xC4, 0x82, 0x20, 1, 5]]" "[1]"]
      sample_leaf_facts t(1) h by (auto simp: db_safe_def hash_len_def empty_trie_def full_key_def)
qed

text \<open>
  C7. A proof that was made verifies. Take a non-empty trie, no two of whose node encodings collide, and
  a key with the key prefix of the trie, if it has one, put before it: \<open>Prove\<close> and \<open>VerifyProof\<close>, unlike
  \<open>TryGet\<close>, do not add it. The nodes that \<open>Prove\<close> writes to an empty database let \<open>VerifyProof\<close> find,
  from the root hash of the trie alone, what \<open>TryGet\<close> gives for the key: its value, or its absence. The
  trie may be partly in the database and have any hashes cached.
\<close>

theorem Prove_VerifyProof:
  assumes "trie_treeF (hflag K) t p" "p \<noteq> PNil" "trie_Hash K t = Inr (root, t')"
    "hash_free K (set (psubs p))" "pfits K p"
  shows "\<exists>w v u i. Prove K mem_Put t (full_key t key) 0 NewMemDatabase = Some (Inr w) \<and> TryGet t key = Some (Inr (v, u))
    \<and> VerifyProof root (full_key t key) (md_db w) = Some (Inr v, i)"
proof -
  have len: "hash_len K" using assms(4) by (simp add: hash_free_def hash_len_def)
  have p: "root = K (penc K p)" "pnode p" using trie_Hash_root [OF assms(1,3) len assms(2)] by auto
  let ?k = "keybytesToHex (full_key t key)"
  have ok: "okkey p ?k" "?k \<noteq> []" using p(2) keybytesToHex_hexkey [of "full_key t key"] by (auto simp: okkey_hexkey pwf_def simp del: keybytesToHex_hexkey)
  have e: "expands (hflag K) (t_db t) (t_cachegen t) True (t_root t) p" using assms(1) by (simp add: trie_treeF_parts)
  obtain ns where ns: "prove_path t (t_root t) ?k = Some (Inr ns)" "list_all2 (node_for K t) ns (ppath p ?k)"
    using prove_path_expands [OF e ok(1)] ok(2) by auto
  obtain w where w: "prove_nodes K mem_Put 0 0 ns NewMemDatabase = Inr w" "db_safe K (md_db w) (set (psubs p))"
      "\<forall>j < length (ppath p ?k). 32 \<le> length (penc K (ppath p ?k ! j)) \<or> 0 + j = 0 \<longrightarrow> md_db w (K (penc K (ppath p ?k ! j))) = Some (penc K (ppath p ?k ! j))"
    using mem_writer.prove_nodes_writes [OF ns(2) ppath_subs _ assms(4), of NewMemDatabase 0] by (auto simp: NewMemDatabase_def db_safe_def)
  have "ppath p ?k = p # tl (ppath p ?k)" using p(2) by (cases p; cases ?k) auto
  then have "md_db w (K (penc K p)) = Some (penc K p)" using w(3) by (metis add_0 length_greater_0_conv list.distinct(1) nth_Cons_0)
  moreover have "\<forall>q \<in> set (ppath p ?k). 32 \<le> length (penc K q) \<longrightarrow> md_db w (K (penc K q)) \<noteq> None"
    using w(3) by (metis in_set_conv_nth option.distinct(1))
  ultimately obtain i where "VerifyProof root (full_key t key) (md_db w) = Some (Inr (plookup p ?k), i)"
    using verify_loop_sound [OF len p(2) assms(5) ok(1) w(2), of 0] p(1) unfolding VerifyProof_def by auto
  moreover have "Prove K mem_Put t (full_key t key) 0 NewMemDatabase = Some (Inr w)" using ns(1) w(1) by (simp add: Prove_def)
  ultimately show ?thesis using TryGet_lookup [OF assms(1), of key] by blast
qed

theorem Prove_VerifyProof_witness:
  "\<exists>t root t' w v u i. TryUpdate (empty_trie Map.empty) [1] [5] = Some (Inr t) \<and> trie_Hash pad_hash t = Inr (root, t')
    \<and> Prove pad_hash mem_Put t [1] 0 NewMemDatabase = Some (Inr w) \<and> TryGet t [1] = Some (Inr (v, u))
    \<and> VerifyProof root [1] (md_db w) = Some (Inr v, i)"
proof -
  obtain n where t: "TryUpdate (empty_trie Map.empty) [1] [5] = Some (Inr (empty_trie Map.empty\<lparr>t_root := n\<rparr>))"
      "trie_treeF (hflag pad_hash) (empty_trie Map.empty\<lparr>t_root := n\<rparr>) sample_leaf"
    using sample_trie [OF hflag_fresh] by blast
  obtain root t' where h: "trie_Hash pad_hash (empty_trie Map.empty\<lparr>t_root := n\<rparr>) = Inr (root, t')"
    using trie_Hash_tree [OF t(2)] by blast
  show ?thesis
    using Prove_VerifyProof [OF t(2) _ h, of "[1]"] sample_leaf_facts t(1) h by (auto simp: empty_trie_def full_key_def)
qed

end
