(* ===== verification/Trie_Iterator.thy ===== *)
theory Trie_Iterator
  imports Trie_Commit
begin

text \<open>
  Iteration over a trie, \<^verbatim>\<open>pkg/trie/iterator.go\<close>: the node iterator with its stack of states, the
  prefix iterator, and the key-value iterator on top of them. The stack is a list with the top first.
  A Go panic is \<open>Inl IterPanic\<close>; loops that follow the database are partial functions, \<open>None\<close> being
  not returning. The iterator holds the trie, whose cached hashes it updates. Shown: iterating a trie
  that stands for a tree visits its entries in the order of their hexadecimal keys, from the start key
  on or those with the prefix, without error.
\<close>

section \<open>The node iterator\<close>

record nodeIteratorState =
  st_hash :: hash
  st_node :: node
  st_parent :: hash
  st_index :: int
  st_pathlen :: nat

datatype iter_error = IteratorEnd | SeekError bytes trie_error | IterError trie_error

datatype iter_panic = IterPanic

record nodeIterator =
  ni_trie :: trie
  ni_stack :: "nodeIteratorState list"
  ni_path :: bytes
  ni_err :: "iter_error option"

definition ni_Hash :: "nodeIterator \<Rightarrow> hash" where
  "ni_Hash it = (case ni_stack it of [] \<Rightarrow> zeroHash | s # _ \<Rightarrow> st_hash s)"

definition ni_Parent :: "nodeIterator \<Rightarrow> hash" where
  "ni_Parent it = (case ni_stack it of [] \<Rightarrow> zeroHash | s # _ \<Rightarrow> st_parent s)"

definition ni_Leaf :: "nodeIterator \<Rightarrow> bool" where
  "ni_Leaf it = hasTerm (ni_path it)"

definition ni_LeafBlob :: "nodeIterator \<Rightarrow> iter_panic + bytes" where
  "ni_LeafBlob it =
     (case ni_stack it of
        [] \<Rightarrow> Inl IterPanic
      | s # _ \<Rightarrow> (case st_node s of ValueNode v \<Rightarrow> Inr v | _ \<Rightarrow> Inl IterPanic))"

definition ni_LeafKey :: "nodeIterator \<Rightarrow> iter_panic + bytes" where
  "ni_LeafKey it =
     (case ni_stack it of
        [] \<Rightarrow> Inl IterPanic
      | s # _ \<Rightarrow>
          (case st_node s of
             ValueNode v \<Rightarrow> (case hexToKeybytes (ni_path it) of None \<Rightarrow> Inl IterPanic | Some k \<Rightarrow> Inr k)
           | _ \<Rightarrow> Inl IterPanic))"

definition ni_Error :: "nodeIterator \<Rightarrow> trie_error option" where
  "ni_Error it = (case ni_err it of None \<Rightarrow> None | Some IteratorEnd \<Rightarrow> None | Some (SeekError k e) \<Rightarrow> Some e | Some (IterError e) \<Rightarrow> Some e)"

definition state_resolve :: "trie \<Rightarrow> nodeIteratorState \<Rightarrow> bytes \<Rightarrow> trie_error + nodeIteratorState" where
  "state_resolve tr st path =
     (case st_node st of
        HashNode h \<Rightarrow>
          (case resolveHash tr h path of
             Inl e \<Rightarrow> Inl e
           | Inr resolved \<Rightarrow> Inr (st\<lparr>st_node := resolved, st_hash := BytesToHash h\<rparr>))
      | _ \<Rightarrow> Inr st)"

text \<open>The first child that is not nil, from an index on.\<close>

fun first_child :: "node list \<Rightarrow> nat \<Rightarrow> (nat \<times> node) option" where
  "first_child [] i = None"
| "first_child (c # cs) i = (if c \<noteq> NilNode then Some (i, c) else first_child cs (Suc i))"

text \<open>
  \<open>nextChild\<close> returns the new state, its path, and the parent with its index moved just before the
  child; asking a nil value of a short node for its cache panics.
\<close>

definition child_state :: "node \<Rightarrow> hash \<Rightarrow> nat \<Rightarrow> nodeIteratorState" where
  "child_state child ancestor pathlen =
     \<lparr>st_hash = BytesToHash (case fst (node_cache child) of None \<Rightarrow> [] | Some h \<Rightarrow> h), st_node = child,
      st_parent = ancestor, st_index = -1, st_pathlen = pathlen\<rparr>"

definition nextChild :: "bytes \<Rightarrow> nodeIteratorState \<Rightarrow> hash \<Rightarrow> iter_panic + (nodeIteratorState \<times> bytes \<times> nodeIteratorState) option" where
  "nextChild it_path parent ancestor =
     (case st_node parent of
        FullNode cs fl \<Rightarrow>
          (let from = nat (st_index parent + 1) in
           case first_child (drop from cs) from of
             None \<Rightarrow> Inr None
           | Some (i, child) \<Rightarrow>
               Inr (Some (child_state child ancestor (length it_path), it_path @ [word_of_nat i], parent\<lparr>st_index := int i - 1\<rparr>)))
      | ShortNode k v fl \<Rightarrow>
          if st_index parent < 0 then
            (if v = NilNode then Inl IterPanic
             else Inr (Some (child_state v ancestor (length it_path), it_path @ k, parent)))
          else Inr None
      | _ \<Rightarrow> Inr None)"

definition iter_pop :: "nodeIterator \<Rightarrow> nodeIterator" where
  "iter_pop it =
     (case ni_stack it of [] \<Rightarrow> it | parent # rest \<Rightarrow> it\<lparr>ni_path := take (st_pathlen parent) (ni_path it), ni_stack := rest\<rparr>)"

definition iter_push :: "nodeIterator \<Rightarrow> nodeIteratorState \<Rightarrow> bool \<Rightarrow> bytes \<Rightarrow> nodeIterator" where
  "iter_push it state hasParent path =
     it\<lparr>ni_path := path,
        ni_stack := state # (if hasParent
          then (case ni_stack it of [] \<Rightarrow> [] | parent # rest \<Rightarrow> parent\<lparr>st_index := st_index parent + 1\<rparr> # rest)
          else ni_stack it)\<rparr>"

type_synonym peeked = "iter_panic + nodeIterator \<times> (iter_error + nodeIteratorState \<times> bool \<times> bytes)"

definition peek_state :: "nodeIterator \<Rightarrow> nodeIteratorState \<Rightarrow> bool \<Rightarrow> bytes \<Rightarrow> peeked" where
  "peek_state it state hasParent path =
     (case state_resolve (ni_trie it) state path of
        Inl TriePanic \<Rightarrow> Inl IterPanic
      | Inl e \<Rightarrow> Inr (it, Inl (IterError e))
      | Inr st \<Rightarrow> Inr (it, Inr (st, hasParent, path)))"

function (sequential) peek_loop :: "nodeIterator \<Rightarrow> peeked" where
  "peek_loop it =
     (case ni_stack it of
        [] \<Rightarrow> Inr (it, Inl IteratorEnd)
      | parent # rest \<Rightarrow>
          (let ancestor = (if st_hash parent = zeroHash then st_parent parent else st_hash parent) in
           case nextChild (ni_path it) parent ancestor of
             Inl p \<Rightarrow> Inl p
           | Inr (Some (state, path, parent')) \<Rightarrow> peek_state (it\<lparr>ni_stack := parent' # rest\<rparr>) state True path
           | Inr None \<Rightarrow> peek_loop (iter_pop it)))"
  by pat_completeness auto
termination
  by (relation "measure (length \<circ> ni_stack)") (auto simp: iter_pop_def)

declare peek_loop.simps [simp del]

definition peek :: "(bytes \<Rightarrow> bytes) \<Rightarrow> bool \<Rightarrow> nodeIterator \<Rightarrow> peeked" where
  "peek keccak descend it =
     (if ni_stack it = [] then
        (case trie_Hash keccak (ni_trie it) of
           Inl e \<Rightarrow> Inl IterPanic
         | Inr (root, t) \<Rightarrow>
             peek_state (it\<lparr>ni_trie := t\<rparr>)
               \<lparr>st_hash = (if root \<noteq> emptyRoot then root else zeroHash), st_node = t_root t, st_parent = zeroHash, st_index = -1, st_pathlen = 0\<rparr>
               False [])
      else peek_loop (if descend then it else iter_pop it))"

definition HasPrefix :: "bytes \<Rightarrow> bytes \<Rightarrow> bool" where
  "HasPrefix s prefix \<longleftrightarrow> take (length prefix) s = prefix"

partial_function (option) seek_loop :: "(bytes \<Rightarrow> bytes) \<Rightarrow> bytes \<Rightarrow> bytes \<Rightarrow> nodeIterator \<Rightarrow> (iter_panic, iter_error option \<times> nodeIterator) outcome" where
  "seek_loop keccak prefix key it =
     (case peek keccak (HasPrefix key (ni_path it)) it of
        Inl p \<Rightarrow> Some (Inl p)
      | Inr (it1, Inl (IterError e)) \<Rightarrow> Some (Inr (Some (SeekError prefix e), it1))
      | Inr (it1, Inl e) \<Rightarrow> Some (Inr (Some e, it1))
      | Inr (it1, Inr (state, hasParent, path)) \<Rightarrow>
          if \<not> bytes_less path key then Some (Inr (None, it1))
          else seek_loop keccak prefix key (iter_push it1 state hasParent path))"

definition iter_seek :: "(bytes \<Rightarrow> bytes) \<Rightarrow> bytes \<Rightarrow> nodeIterator \<Rightarrow> (iter_panic, iter_error option \<times> nodeIterator) outcome" where
  "iter_seek keccak prefix it = seek_loop keccak prefix (butlast (keybytesToHex prefix)) it"

text \<open>\<open>Next\<close>: a failed seek is tried again first.\<close>

definition ni_step :: "(bytes \<Rightarrow> bytes) \<Rightarrow> bool \<Rightarrow> nodeIterator \<Rightarrow> (iter_panic, bool \<times> nodeIterator) outcome" where
  "ni_step keccak descend it =
     Some (case peek keccak descend it of
        Inl p \<Rightarrow> Inl p
      | Inr (it1, Inl e) \<Rightarrow> Inr (False, it1\<lparr>ni_err := Some e\<rparr>)
      | Inr (it1, Inr (state, hasParent, path)) \<Rightarrow> Inr (True, iter_push (it1\<lparr>ni_err := None\<rparr>) state hasParent path))"

definition ni_Next :: "(bytes \<Rightarrow> bytes) \<Rightarrow> bool \<Rightarrow> nodeIterator \<Rightarrow> (iter_panic, bool \<times> nodeIterator) outcome" where
  "ni_Next keccak descend it =
     (case ni_err it of
        Some IteratorEnd \<Rightarrow> Some (Inr (False, it))
      | Some (SeekError k e) \<Rightarrow>
          out_bind (iter_seek keccak k it) (\<lambda>(err, it1).
            if err \<noteq> None then Some (Inr (False, it1\<lparr>ni_err := err\<rparr>)) else ni_step keccak descend (it1\<lparr>ni_err := None\<rparr>))
      | _ \<Rightarrow> ni_step keccak descend it)"

text \<open>
  \<open>newNodeIterator\<close>. The hash is compared with that of the empty string, not with \<open>emptyRoot\<close>; an
  iterator made that way has no trie, and using it would panic.
\<close>

definition newNodeIterator :: "(bytes \<Rightarrow> bytes) \<Rightarrow> trie \<Rightarrow> bytes \<Rightarrow> (iter_panic, nodeIterator) outcome" where
  "newNodeIterator keccak t start =
     (case trie_Hash keccak t of
        Inl e \<Rightarrow> Some (Inl IterPanic)
      | Inr (root, t1) \<Rightarrow>
          if root = BytesToHash (keccak []) then Some (Inl IterPanic)
          else out_bind (iter_seek keccak start \<lparr>ni_trie = t1, ni_stack = [], ni_path = [], ni_err = None\<rparr>)
                 (\<lambda>(err, it). Some (Inr (it\<lparr>ni_err := err\<rparr>))))"

definition trie_NodeIterator :: "(bytes \<Rightarrow> bytes) \<Rightarrow> trie \<Rightarrow> bytes \<Rightarrow> (iter_panic, nodeIterator) outcome" where
  "trie_NodeIterator keccak t start = newNodeIterator keccak t (full_key t start)"

section \<open>The prefix iterator\<close>

record prefixIterator =
  pi_prefix :: bytes
  pi_it :: nodeIterator

definition newPrefixIterator :: "(bytes \<Rightarrow> bytes) \<Rightarrow> trie \<Rightarrow> bytes \<Rightarrow> (iter_panic, prefixIterator) outcome" where
  "newPrefixIterator keccak t prefix =
     (case trie_Hash keccak t of
        Inl e \<Rightarrow> Some (Inl IterPanic)
      | Inr (root, t1) \<Rightarrow>
          if root = BytesToHash (keccak []) then Some (Inl IterPanic)
          else out_bind (newNodeIterator keccak t1 prefix)
                 (\<lambda>it. Some (Inr \<lparr>pi_prefix = butlast (keybytesToHex prefix), pi_it = it\<rparr>)))"

definition trie_PrefixIterator :: "(bytes \<Rightarrow> bytes) \<Rightarrow> trie \<Rightarrow> bytes \<Rightarrow> (iter_panic, prefixIterator) outcome" where
  "trie_PrefixIterator keccak t prefix = newPrefixIterator keccak t (full_key t prefix)"

definition pi_hasPrefix :: "prefixIterator \<Rightarrow> bool" where
  "pi_hasPrefix it = HasPrefix (ni_path (pi_it it)) (pi_prefix it)"

definition pi_Hash :: "prefixIterator \<Rightarrow> hash" where
  "pi_Hash it = (if pi_hasPrefix it then ni_Hash (pi_it it) else zeroHash)"

text \<open>The result of the inner \<open>Parent\<close> is dropped by the code.\<close>

definition pi_Parent :: "prefixIterator \<Rightarrow> hash" where
  "pi_Parent it = zeroHash"

definition pi_Leaf :: "prefixIterator \<Rightarrow> bool" where
  "pi_Leaf it \<longleftrightarrow> pi_hasPrefix it \<and> ni_Leaf (pi_it it)"

definition pi_LeafBlob :: "prefixIterator \<Rightarrow> iter_panic + bytes" where
  "pi_LeafBlob it = (if pi_hasPrefix it then ni_LeafBlob (pi_it it) else Inr [])"

definition pi_LeafKey :: "prefixIterator \<Rightarrow> iter_panic + bytes" where
  "pi_LeafKey it = (if pi_hasPrefix it then ni_LeafKey (pi_it it) else Inr [])"

definition pi_Next :: "(bytes \<Rightarrow> bytes) \<Rightarrow> bool \<Rightarrow> prefixIterator \<Rightarrow> (iter_panic, bool \<times> prefixIterator) outcome" where
  "pi_Next keccak descend it =
     out_bind (ni_Next keccak descend (pi_it it)) (\<lambda>(ok, ni).
       let it1 = it\<lparr>pi_it := ni\<rparr> in Some (Inr (ok \<and> pi_hasPrefix it1, it1)))"

section \<open>The key-value iterator\<close>

text \<open>The Go interface \<open>NodeIterator\<close>, of which two implementations are used here.\<close>

datatype NodeIterator = NodeIt nodeIterator | PrefixIt prefixIterator

fun NI_Next :: "(bytes \<Rightarrow> bytes) \<Rightarrow> bool \<Rightarrow> NodeIterator \<Rightarrow> (iter_panic, bool \<times> NodeIterator) outcome" where
  "NI_Next keccak descend (NodeIt it) = out_bind (ni_Next keccak descend it) (\<lambda>(ok, it1). Some (Inr (ok, NodeIt it1)))"
| "NI_Next keccak descend (PrefixIt it) = out_bind (pi_Next keccak descend it) (\<lambda>(ok, it1). Some (Inr (ok, PrefixIt it1)))"

fun NI_Leaf :: "NodeIterator \<Rightarrow> bool" where
  "NI_Leaf (NodeIt it) = ni_Leaf it"
| "NI_Leaf (PrefixIt it) = pi_Leaf it"

fun NI_LeafKey :: "NodeIterator \<Rightarrow> iter_panic + bytes" where
  "NI_LeafKey (NodeIt it) = ni_LeafKey it"
| "NI_LeafKey (PrefixIt it) = pi_LeafKey it"

fun NI_LeafBlob :: "NodeIterator \<Rightarrow> iter_panic + bytes" where
  "NI_LeafBlob (NodeIt it) = ni_LeafBlob it"
| "NI_LeafBlob (PrefixIt it) = pi_LeafBlob it"

fun NI_Error :: "NodeIterator \<Rightarrow> trie_error option" where
  "NI_Error (NodeIt it) = ni_Error it"
| "NI_Error (PrefixIt it) = ni_Error (pi_it it)"

fun NI_trie :: "NodeIterator \<Rightarrow> trie" where
  "NI_trie (NodeIt it) = ni_trie it"
| "NI_trie (PrefixIt it) = ni_trie (pi_it it)"

record Iterator =
  it_nodeIt :: NodeIterator
  it_Key :: "bytes option"
  it_Value :: "bytes option"
  it_Err :: "trie_error option"

definition NewIterator :: "NodeIterator \<Rightarrow> Iterator" where
  "NewIterator it = \<lparr>it_nodeIt = it, it_Key = None, it_Value = None, it_Err = None\<rparr>"

partial_function (option) Iterator_Next :: "(bytes \<Rightarrow> bytes) \<Rightarrow> Iterator \<Rightarrow> (iter_panic, bool \<times> Iterator) outcome" where
  "Iterator_Next keccak it =
     out_bind (NI_Next keccak True (it_nodeIt it)) (\<lambda>(ok, ni).
       if \<not> ok then Some (Inr (False, it\<lparr>it_nodeIt := ni, it_Key := None, it_Value := None, it_Err := NI_Error ni\<rparr>))
       else if NI_Leaf ni then
         out_bind (Some (NI_LeafKey ni)) (\<lambda>k. out_bind (Some (NI_LeafBlob ni)) (\<lambda>v.
           Some (Inr (True, it\<lparr>it_nodeIt := ni, it_Key := Some k, it_Value := Some v\<rparr>))))
       else Iterator_Next keccak (it\<lparr>it_nodeIt := ni\<rparr>))"

text \<open>The loop that its clients write: \<open>for it.Next()\<close>, here collecting keys and values.\<close>

partial_function (option) iterate :: "(bytes \<Rightarrow> bytes) \<Rightarrow> Iterator \<Rightarrow> (iter_panic, (bytes \<times> bytes) list \<times> Iterator) outcome" where
  "iterate keccak it =
     out_bind (Iterator_Next keccak it) (\<lambda>(ok, it1).
       if ok then out_bind (iterate keccak it1) (\<lambda>(kvs, it2). Some (Inr ((the (it_Key it1), the (it_Value it1)) # kvs, it2)))
       else Some (Inr ([], it1)))"

section \<open>The order of the visits\<close>

text \<open>The subtrees in pre-order, each with its path.\<close>

fun visits :: "bytes \<Rightarrow> ptrie \<Rightarrow> (bytes \<times> ptrie) list"
  and visits_from :: "bytes \<Rightarrow> nat \<Rightarrow> ptrie list \<Rightarrow> (bytes \<times> ptrie) list" where
  "visits path PNil = []"
| "visits path (PVal v) = [(path, PVal v)]"
| "visits path (PShort k p) = (path, PShort k p) # visits (path @ k) p"
| "visits path (PFull ps) = (path, PFull ps) # visits_from path 0 ps"
| "visits_from path i [] = []"
| "visits_from path i (p # ps) = visits (path @ [word_of_nat i]) p @ visits_from path (Suc i) ps"

text \<open>The visits below a subtree, from the child at an index on.\<close>

fun later :: "bytes \<Rightarrow> ptrie \<Rightarrow> nat \<Rightarrow> (bytes \<times> ptrie) list" where
  "later path (PShort k p) j = (if j = 0 then visits (path @ k) p else [])"
| "later path (PFull ps) j = visits_from path j (drop j ps)"
| "later path _ j = []"

lemma visits_later: "p \<noteq> PNil \<Longrightarrow> visits path p = (path, p) # later path p 0"
  by (cases p) auto

lemma first_child_visits:
  assumes "length cs = length ps" "\<And>i. i < length cs \<Longrightarrow> cs ! i = NilNode \<longleftrightarrow> ps ! i = PNil"
  shows "case first_child cs i of
      None \<Rightarrow> visits_from path i ps = []
    | Some (k, c) \<Rightarrow> i \<le> k \<and> k - i < length cs \<and> c = cs ! (k - i) \<and> c \<noteq> NilNode
        \<and> visits_from path i ps = visits_from path k (drop (k - i) ps)"
  using assms
proof (induction cs arbitrary: i ps)
  case (Cons c cs)
  obtain p ps' where ps: "ps = p # ps'" using Cons.prems(1) by (cases ps) auto
  have nil: "c = NilNode \<longleftrightarrow> p = PNil" using Cons.prems(2) [of 0] ps by simp
  have tl: "\<And>i. i < length cs \<Longrightarrow> cs ! i = NilNode \<longleftrightarrow> ps' ! i = PNil" using Cons.prems(2) ps by fastforce
  show ?case
  proof (cases "c = NilNode")
    case True
    have "case first_child cs (Suc i) of
        None \<Rightarrow> visits_from path (Suc i) ps' = []
      | Some (k, c) \<Rightarrow> Suc i \<le> k \<and> k - Suc i < length cs \<and> c = cs ! (k - Suc i) \<and> c \<noteq> NilNode
          \<and> visits_from path (Suc i) ps' = visits_from path k (drop (k - Suc i) ps')"
      using Cons.IH [of ps' "Suc i"] Cons.prems(1) ps tl by simp
    then show ?thesis
      using True nil ps by (cases "first_child cs (Suc i)") (auto simp: Suc_diff_le nth_Cons' drop_Cons' Suc_le_eq)
  next
    case False
    then show ?thesis using ps by simp
  qed
qed simp

section \<open>What the stack stands for\<close>

text \<open>The nodes on the stack are resolved; below each the visits of its later children are pending.\<close>

inductive iter_stack :: "(bytes \<Rightarrow> bytes) \<Rightarrow> trie \<Rightarrow> nodeIteratorState list \<Rightarrow> bytes \<Rightarrow> (bytes \<times> ptrie) list \<Rightarrow> bool" for K t where
  bottom: "iter_stack K t [] path []"
| state: "expands (hflag K) (t_db t) (t_cachegen t) b (st_node s) p \<Longrightarrow> (\<And>h. st_node s \<noteq> HashNode h) \<Longrightarrow> pok p \<Longrightarrow>
    -1 \<le> st_index s \<Longrightarrow> iter_stack K t ss (take (st_pathlen s) path) R \<Longrightarrow>
    iter_stack K t (s # ss) path (later path p (nat (st_index s + 1)) @ R)"

inductive_cases iter_stack_ConsE: "iter_stack K t (s # ss) path R"
inductive_simps iter_stack_Nil [simp]: "iter_stack K t [] path R"

lemma state_resolve_ok:
  assumes "expands (hflag K) (t_db t) (t_cachegen t) b (st_node s) p"
  obtains s' where "state_resolve t s path = Inr s'" "expands (hflag K) (t_db t) (t_cachegen t) b (st_node s') p"
    "\<And>h. st_node s' \<noteq> HashNode h" "st_index s' = st_index s" "st_pathlen s' = st_pathlen s"
proof (cases "\<exists>h. st_node s = HashNode h")
  case True
  then obtain h where h: "st_node s = HashNode h" by blast
  obtain enc n where n: "t_db t h = Some enc" "mustDecodeNode (Some h) enc (t_cachegen t) = Some n"
    "expands (hflag K) (t_db t) (t_cachegen t) b n p" using expands_HashE [OF assms [unfolded h]] by metis
  then show ?thesis
    using that [of "s\<lparr>st_node := n, st_hash := BytesToHash h\<rparr>"] mustDecodeNode_form [OF n(2)] h
    by (auto simp: state_resolve_def resolveHash_def)
next
  case False
  then show ?thesis using that [of s] assms by (cases "st_node s") (auto simp: state_resolve_def)
qed

text \<open>The next child of a state, and the state it leads to.\<close>

lemma nextChild_spec:
  assumes "expands (hflag K) (t_db t) (t_cachegen t) b (st_node s) p" "\<And>h. st_node s \<noteq> HashNode h" "pok p" "-1 \<le> st_index s"
  shows "case nextChild path s anc of
      Inl e \<Rightarrow> False
    | Inr None \<Rightarrow> later path p (nat (st_index s + 1)) = []
    | Inr (Some (c, cpath, s')) \<Rightarrow> (\<exists>q. q \<noteq> PNil \<and> pok q \<and> expands (hflag K) (t_db t) (t_cachegen t) False (st_node c) q
        \<and> st_index c = -1 \<and> st_pathlen c = length path \<and> take (length path) cpath = path
        \<and> st_node s' = st_node s \<and> -1 \<le> st_index s' \<and> st_pathlen s' = st_pathlen s
        \<and> later path p (nat (st_index s + 1)) = visits cpath q @ later path p (nat (st_index s' + 2))
        \<and> later path p (nat (st_index s' + 1)) = later path p (nat (st_index s + 1)))"
proof (cases "st_node s")
  case (FullNode cs fl)
  then obtain ps where ps: "p = PFull ps" "length cs = length ps" "\<And>i. i < length cs \<Longrightarrow> expands (hflag K) (t_db t) (t_cachegen t) False (cs ! i) (ps ! i)"
    using assms(1) by (auto simp: expands_simps)
  define j where "j = nat (st_index s + 1)"
  have nil: "\<And>i. i < length cs \<Longrightarrow> cs ! i = NilNode \<longleftrightarrow> ps ! i = PNil" using expands_nil_iff [OF ps(3)] by blast
  have fc: "case first_child (drop j cs) j of
      None \<Rightarrow> visits_from path j (drop j ps) = []
    | Some (k, c) \<Rightarrow> j \<le> k \<and> k - j < length (drop j cs) \<and> c = drop j cs ! (k - j) \<and> c \<noteq> NilNode
        \<and> visits_from path j (drop j ps) = visits_from path k (drop (k - j) (drop j ps))"
    by (rule first_child_visits) (use ps(2) nil in auto)
  show ?thesis
  proof (cases "first_child (drop j cs) j")
    case None
    then show ?thesis using fc FullNode ps(1) by (simp add: nextChild_def Let_def flip: j_def)
  next
    case (Some kc)
    obtain k c where kc: "kc = (k, c)" by (cases kc)
    then have k: "j \<le> k" "k < length cs" "c = cs ! k" "c \<noteq> NilNode" "visits_from path j (drop j ps) = visits_from path k (drop k ps)"
      using fc Some by auto
    have dk: "drop k ps = ps ! k # drop (Suc k) ps" using k(2) ps(2) by (simp add: Cons_nth_drop_Suc)
    have q: "ps ! k \<noteq> PNil" "pok (ps ! k)" "expands (hflag K) (t_db t) (t_cachegen t) False c (ps ! k)"
      using k ps expands_nil_iff [OF ps(3) [OF k(2)]] pok_child(2) assms(3) by auto
    have "nextChild path s anc = Inr (Some (child_state c anc (length path), path @ [word_of_nat k], s\<lparr>st_index := int k - 1\<rparr>))"
      using FullNode Some kc by (simp add: nextChild_def Let_def flip: j_def)
    then show ?thesis
      using q k(5) dk ps(1) by (auto simp: child_state_def nat_add_distrib intro!: exI [of _ "ps ! k"] simp flip: j_def)
  qed
next
  case (ShortNode k v fl)
  then obtain q where q: "p = PShort k q" "expands (hflag K) (t_db t) (t_cachegen t) False v q" using assms(1) by (auto simp: expands_simps)
  have ne: "q \<noteq> PNil" "pok q" using assms(3) q(1) pok_child(1) by (auto simp: pok_def elim: pnode_ShortE)
  then have "v \<noteq> NilNode" using expands_nil_iff [OF q(2)] by simp
  then show ?thesis
    using ShortNode q ne assms(4) by (auto simp: nextChild_def child_state_def intro!: exI [of _ q])
qed (use assms(1,2) in \<open>auto simp: nextChild_def expands_simps\<close>)

text \<open>
  What a peek gives when the visits \<open>R\<close> are pending: the first of them, without consuming it, or the end.
\<close>

definition peeks :: "(bytes \<Rightarrow> bytes) \<Rightarrow> nodeIterator \<Rightarrow> (bytes \<times> ptrie) list \<Rightarrow> peeked \<Rightarrow> bool" where
  "peeks K it R r \<longleftrightarrow>
     (case R of
        [] \<Rightarrow> (\<exists>it'. r = Inr (it', Inl IteratorEnd) \<and> ni_trie it' = ni_trie it)
      | (path, q) # R' \<Rightarrow>
          (\<exists>it' s. r = Inr (it', Inr (s, True, path)) \<and> ni_trie it' = ni_trie it \<and> ni_err it' = ni_err it
             \<and> st_index s = -1 \<and> ni_stack it' \<noteq> [] \<and> iter_stack K (ni_trie it) (ni_stack it') (ni_path it') R
             \<and> expands (hflag K) (t_db (ni_trie it)) (t_cachegen (ni_trie it)) False (st_node s) q
             \<and> iter_stack K (ni_trie it) (ni_stack (iter_push it' s True path)) path R'))"

lemma peek_loop_spec:
  "iter_stack K (ni_trie it) (ni_stack it) (ni_path it) R \<Longrightarrow> peeks K it R (peek_loop it)"
proof (induction it arbitrary: R rule: peek_loop.induct)
  case (1 it)
  let ?t = "ni_trie it" and ?path = "ni_path it"
  show ?case
  proof (cases "ni_stack it")
    case Nil
    then show ?thesis using "1.prems" by (simp add: peek_loop.simps peeks_def)
  next
    case (Cons s ss)
    obtain b p R0 where s: "expands (hflag K) (t_db ?t) (t_cachegen ?t) b (st_node s) p" "\<And>h. st_node s \<noteq> HashNode h" "pok p"
        "-1 \<le> st_index s" "iter_stack K ?t ss (take (st_pathlen s) ?path) R0" "R = later ?path p (nat (st_index s + 1)) @ R0"
      using iter_stack_ConsE [OF "1.prems" [unfolded Cons]] by metis
    define anc where "anc = (if st_hash s = zeroHash then st_parent s else st_hash s)"
    note nc = nextChild_spec [OF s(1-4), of ?path anc]
    consider "nextChild ?path s anc = Inr None" | c cpath s' where "nextChild ?path s anc = Inr (Some (c, cpath, s'))"
      using nc by (cases "nextChild ?path s anc") (auto split: option.splits)
    then show ?thesis
    proof cases
      case none: 1
      have pop: "iter_pop it = it\<lparr>ni_path := take (st_pathlen s) ?path, ni_stack := ss\<rparr>" using Cons by (simp add: iter_pop_def)
      have R: "R = R0" using nc none s(6) by simp
      have "peeks K (iter_pop it) R (peek_loop (iter_pop it))"
        by (rule "1.IH" [OF Cons anc_def none refl]) (use s(5) pop R in simp)
      moreover have "peek_loop it = peek_loop (iter_pop it)"
        using Cons none by (subst peek_loop.simps) (simp add: Let_def flip: anc_def)
      ultimately show ?thesis using pop by (cases R) (auto simp: peeks_def)
    next
      case some: (2 c cpath s')
      obtain q where q: "q \<noteq> PNil" "pok q" "expands (hflag K) (t_db ?t) (t_cachegen ?t) False (st_node c) q"
          "st_index c = -1" "st_pathlen c = length ?path" "take (length ?path) cpath = ?path"
          "st_node s' = st_node s" "-1 \<le> st_index s'" "st_pathlen s' = st_pathlen s"
          "later ?path p (nat (st_index s + 1)) = visits cpath q @ later ?path p (nat (st_index s' + 2))"
          "later ?path p (nat (st_index s' + 1)) = later ?path p (nat (st_index s + 1))"
        using nc some by auto
      obtain c' where c': "state_resolve ?t c cpath = Inr c'" "expands (hflag K) (t_db ?t) (t_cachegen ?t) False (st_node c') q"
          "\<And>h. st_node c' \<noteq> HashNode h" "st_index c' = -1" "st_pathlen c' = length ?path"
        using state_resolve_ok [OF q(3), of cpath] q(4,5) by metis
      let ?it = "it\<lparr>ni_stack := s' # ss\<rparr>"
      have res: "peek_loop it = Inr (?it, Inr (c', True, cpath))"
        using Cons some c'(1) by (subst peek_loop.simps) (simp add: Let_def peek_state_def flip: anc_def)
      have st: "iter_stack K ?t (s' # ss) ?path (later ?path p (nat (st_index s' + 1)) @ R0)"
        using s q(7-9) by (intro iter_stack.state) auto
      have up: "iter_stack K ?t (s'\<lparr>st_index := st_index s' + 1\<rparr> # ss) ?path (later ?path p (nat (st_index s' + 2)) @ R0)"
        using iter_stack.state [of K ?t b "s'\<lparr>st_index := st_index s' + 1\<rparr>" p ss ?path R0] s q(7-9) by (simp add: add.assoc)
      have push: "iter_stack K ?t (c' # s'\<lparr>st_index := st_index s' + 1\<rparr> # ss) cpath (later cpath q 0 @ later ?path p (nat (st_index s' + 2)) @ R0)"
        using iter_stack.state [of K ?t False c' q "s'\<lparr>st_index := st_index s' + 1\<rparr> # ss" cpath "later ?path p (nat (st_index s' + 2)) @ R0"]
          c' q(2,6) up by simp
      have "R = (cpath, q) # later cpath q 0 @ later ?path p (nat (st_index s' + 2)) @ R0"
        using s(6) q(10) visits_later [OF q(1), of cpath] by simp
      then show ?thesis using res st push c'(2,4) q(11) s(6) by (simp add: peeks_def iter_push_def)
    qed
  qed
qed

section \<open>Running an iterator\<close>

text \<open>All visits of a trie; those of the empty trie are its root, which is no leaf.\<close>

definition all_visits :: "ptrie \<Rightarrow> (bytes \<times> ptrie) list" where
  "all_visits p = ([], p) # later [] p 0"

text \<open>An iterator over the tree \<open>p\<close> with the visits \<open>R\<close> ahead: under way, not started, or at the end.\<close>

definition iter_over :: "(bytes \<Rightarrow> bytes) \<Rightarrow> trie \<Rightarrow> ptrie \<Rightarrow> nodeIterator \<Rightarrow> bool" where
  "iter_over K t p it \<longleftrightarrow> (\<exists>c. ni_trie it = t\<lparr>t_root := c\<rparr>) \<and> trie_treeF (hflag K) (ni_trie it) p"

inductive ready :: "(bytes \<Rightarrow> bytes) \<Rightarrow> trie \<Rightarrow> ptrie \<Rightarrow> nodeIterator \<Rightarrow> (bytes \<times> ptrie) list \<Rightarrow> bool" for K t p where
  started: "iter_over K t p it \<Longrightarrow> ni_err it = None \<Longrightarrow> ni_stack it \<noteq> [] \<Longrightarrow>
    iter_stack K (ni_trie it) (ni_stack it) (ni_path it) R \<Longrightarrow> ready K t p it R"
| fresh: "iter_over K t p it \<Longrightarrow> ni_err it = None \<Longrightarrow> ni_stack it = [] \<Longrightarrow> ready K t p it (all_visits p)"
| finished: "iter_over K t p it \<Longrightarrow> ni_err it = Some IteratorEnd \<Longrightarrow> ready K t p it []"

lemma ready_over: "ready K t p it R \<Longrightarrow> iter_over K t p it"
  by (auto elim: ready.cases)

lemma ready_no_error: "ready K t p it R \<Longrightarrow> ni_Error it = None"
  by (auto elim: ready.cases simp: ni_Error_def)

lemma peek_fresh:
  assumes "iter_over K t p it" "ni_stack it = []"
  shows "\<exists>it' s. peek K descend it = Inr (it', Inr (s, False, [])) \<and> iter_over K t p it' \<and> ni_stack it' = [] \<and> ni_err it' = ni_err it
    \<and> ni_path it' = ni_path it \<and> st_index s = -1 \<and> expands (hflag K) (t_db (ni_trie it')) (t_cachegen (ni_trie it')) True (st_node s) p
    \<and> iter_stack K (ni_trie it') [s] [] (later [] p 0)"
proof -
  obtain c where c: "trie_Hash K (ni_trie it) = Inr (BytesToHash (proot K p), ni_trie it\<lparr>t_root := c\<rparr>)" "trie_treeF (hflag K) (ni_trie it\<lparr>t_root := c\<rparr>) p"
    using trie_Hash_tree [of K "ni_trie it" p] assms(1) unfolding iter_over_def by blast
  let ?t = "ni_trie it\<lparr>t_root := c\<rparr>" and ?r = "BytesToHash (proot K p)"
  let ?s = "\<lparr>st_hash = (if ?r \<noteq> emptyRoot then ?r else zeroHash), st_node = t_root ?t, st_parent = zeroHash, st_index = -1, st_pathlen = 0\<rparr>"
  have e: "expands (hflag K) (t_db ?t) (t_cachegen ?t) True (st_node ?s) p" and wf: "pok p"
    using c(2) by (auto simp: trie_treeF_parts pwf_def pok_def)
  obtain s where s: "state_resolve ?t ?s [] = Inr s" "expands (hflag K) (t_db ?t) (t_cachegen ?t) True (st_node s) p"
      "\<And>h. st_node s \<noteq> HashNode h" "st_index s = -1" "st_pathlen s = 0"
    using state_resolve_ok [OF e, of "[]"] by auto
  have "iter_stack K ?t [s] [] (later [] p 0)"
    using iter_stack.state [OF s(2,3) wf _ iter_stack.bottom, of "[]"] s(4) by simp
  moreover have "iter_over K t p (it\<lparr>ni_trie := ?t\<rparr>)" using assms(1) c(2) by (auto simp: iter_over_def)
  moreover have "peek K descend it = Inr (it\<lparr>ni_trie := ?t\<rparr>, Inr (s, False, []))"
    using c(1) assms(2) s(1) by (simp add: peek_def peek_state_def)
  ultimately show ?thesis using assms(2) s(2,4) by auto
qed

text \<open>A step of the node iterator.\<close>

lemma ni_Next_spec:
  assumes "ready K t p it R"
  shows "case R of
      [] \<Rightarrow> (\<exists>it'. ni_Next K True it = Some (Inr (False, it')) \<and> iter_over K t p it' \<and> ni_err it' = Some IteratorEnd)
    | (path, q) # R' \<Rightarrow>
        (\<exists>it' b. ni_Next K True it = Some (Inr (True, it')) \<and> ready K t p it' R' \<and> ni_path it' = path \<and> ni_stack it' \<noteq> []
           \<and> expands (hflag K) (t_db (ni_trie it')) (t_cachegen (ni_trie it')) b (st_node (hd (ni_stack it'))) q)"
  using assms
proof cases
  case started
  have pk: "peeks K it R (peek K True it)" using peek_loop_spec started(3,4) by (simp add: peek_def)
  show ?thesis
  proof (cases R)
    case Nil
    then obtain it' where "peek K True it = Inr (it', Inl IteratorEnd)" "ni_trie it' = ni_trie it" using pk by (auto simp: peeks_def)
    then show ?thesis using Nil started(1,2) by (simp add: ni_Next_def ni_step_def iter_over_def)
  next
    case (Cons v R')
    obtain path q where v: "v = (path, q)" by (cases v)
    obtain it' s where it': "peek K True it = Inr (it', Inr (s, True, path))" "ni_trie it' = ni_trie it"
        "expands (hflag K) (t_db (ni_trie it)) (t_cachegen (ni_trie it)) False (st_node s) q"
        "iter_stack K (ni_trie it) (ni_stack (iter_push it' s True path)) path R'"
      using pk Cons v by (auto simp: peeks_def)
    have "ready K t p (iter_push (it'\<lparr>ni_err := None\<rparr>) s True path) R'"
      using it' started(1) by (intro ready.started) (auto simp: iter_push_def iter_over_def)
    then show ?thesis
      using it' Cons v started(2) by (auto simp: ni_Next_def ni_step_def iter_push_def)
  qed
next
  case fresh
  obtain it' s where it': "peek K True it = Inr (it', Inr (s, False, []))" "iter_over K t p it'" "ni_stack it' = []"
      "expands (hflag K) (t_db (ni_trie it')) (t_cachegen (ni_trie it')) True (st_node s) p" "iter_stack K (ni_trie it') [s] [] (later [] p 0)"
    using peek_fresh [OF fresh(2,4)] by blast
  have "ready K t p (iter_push (it'\<lparr>ni_err := None\<rparr>) s False []) (later [] p 0)"
    using it' by (intro ready.started) (auto simp: iter_push_def iter_over_def)
  then show ?thesis
    using it' fresh(1,3) by (auto simp: ni_Next_def ni_step_def iter_push_def all_visits_def)
next
  case finished
  then show ?thesis by (simp add: ni_Next_def)
qed

section \<open>The key-value iterator\<close>

text \<open>Either kind of node iterator; a prefix iterator stops at the first visit without the prefix.\<close>

fun NI_ready :: "(bytes \<Rightarrow> bytes) \<Rightarrow> trie \<Rightarrow> ptrie \<Rightarrow> NodeIterator \<Rightarrow> (bytes \<times> ptrie) list \<Rightarrow> bool" where
  "NI_ready K t p (NodeIt it) R \<longleftrightarrow> ready K t p it R"
| "NI_ready K t p (PrefixIt it) R \<longleftrightarrow> (\<exists>R0. ready K t p (pi_it it) R0 \<and> R = takeWhile (\<lambda>(path, q). HasPrefix path (pi_prefix it)) R0)"

definition NI_done :: "(bytes \<Rightarrow> bytes) \<Rightarrow> trie \<Rightarrow> ptrie \<Rightarrow> NodeIterator \<Rightarrow> bool" where
  "NI_done K t p ni \<longleftrightarrow> (\<exists>c. NI_trie ni = t\<lparr>t_root := c\<rparr>) \<and> trie_treeF (hflag K) (NI_trie ni) p \<and> NI_Error ni = None"

definition key_of_path :: "bytes \<Rightarrow> iter_panic + bytes" where
  "key_of_path path = (case hexToKeybytes path of None \<Rightarrow> Inl IterPanic | Some k \<Rightarrow> Inr k)"

lemma leaf_spec:
  assumes "ni_stack it \<noteq> []" "expands F D g b (st_node (hd (ni_stack it))) (PVal v)"
  shows "ni_LeafBlob it = Inr v" "ni_LeafKey it = key_of_path (ni_path it)"
  using assms expands_PVal [OF assms(2)] by (cases "ni_stack it"; simp add: ni_LeafBlob_def ni_LeafKey_def key_of_path_def)+

lemma NI_Next_spec:
  assumes "NI_ready K t p ni R"
  shows "case R of
      [] \<Rightarrow> (\<exists>ni'. NI_Next K True ni = Some (Inr (False, ni')) \<and> NI_done K t p ni')
    | (path, q) # R' \<Rightarrow>
        (\<exists>ni'. NI_Next K True ni = Some (Inr (True, ni')) \<and> NI_ready K t p ni' R' \<and> (NI_Leaf ni' \<longleftrightarrow> hasTerm path)
           \<and> (\<forall>v. q = PVal v \<longrightarrow> NI_LeafBlob ni' = Inr v \<and> NI_LeafKey ni' = key_of_path path))"
proof (cases ni)
  case (NodeIt it)
  then have "ready K t p it R" using assms by simp
  from ni_Next_spec [OF this] show ?thesis
    using NodeIt leaf_spec by (cases R) (fastforce simp: NI_done_def iter_over_def ni_Error_def ni_Leaf_def)+
next
  case (PrefixIt it)
  obtain R0 where R0: "ready K t p (pi_it it) R0" "R = takeWhile (\<lambda>(path, q). HasPrefix path (pi_prefix it)) R0"
    using assms PrefixIt by auto
  note nx = ni_Next_spec [OF R0(1)]
  show ?thesis
  proof (cases R0)
    case Nil
    then show ?thesis
      using nx R0(2) PrefixIt by (auto simp: pi_Next_def NI_done_def iter_over_def ni_Error_def Let_def)
  next
    case (Cons v R0')
    obtain path q where v: "v = (path, q)" by (cases v)
    obtain it' b where it': "ni_Next K True (pi_it it) = Some (Inr (True, it'))" "ready K t p it' R0'" "ni_path it' = path" "ni_stack it' \<noteq> []"
        "expands (hflag K) (t_db (ni_trie it')) (t_cachegen (ni_trie it')) b (st_node (hd (ni_stack it'))) q"
      using nx Cons v by auto
    let ?it = "it\<lparr>pi_it := it'\<rparr>"
    have pf: "pi_hasPrefix ?it \<longleftrightarrow> HasPrefix path (pi_prefix it)" using it'(3) by (simp add: pi_hasPrefix_def)
    have st: "NI_Next K True ni = Some (Inr (HasPrefix path (pi_prefix it), PrefixIt ?it))"
      using PrefixIt it'(1) pf by (simp add: pi_Next_def Let_def)
    show ?thesis
    proof (cases "HasPrefix path (pi_prefix it)")
      case True
      have "NI_ready K t p (PrefixIt ?it) (takeWhile (\<lambda>(path, q). HasPrefix path (pi_prefix it)) R0')" using it'(2) by auto
      then show ?thesis
        using R0(2) Cons v True st pf it'(3) leaf_spec [OF it'(4), of "hflag K"] it'(5)
        by (auto simp: pi_Leaf_def ni_Leaf_def pi_LeafBlob_def pi_LeafKey_def)
    next
      case False
      have "NI_done K t p (PrefixIt ?it)"
        using ready_over [OF it'(2)] ready_no_error [OF it'(2)] by (simp add: NI_done_def iter_over_def)
      then show ?thesis using R0(2) Cons v False st by auto
    qed
  qed
qed

text \<open>The leaves among the visits, each with its path.\<close>

fun pleaves :: "(bytes \<times> ptrie) list \<Rightarrow> (bytes \<times> bytes) list" where
  "pleaves [] = []"
| "pleaves ((path, PVal v) # R) = (path, v) # pleaves R"
| "pleaves (_ # R) = pleaves R"

text \<open>The paths of leaves are those that end with the terminator, and they are paths of keys.\<close>

definition visits_ok :: "(bytes \<times> ptrie) list \<Rightarrow> bool" where
  "visits_ok R \<longleftrightarrow> (\<forall>(path, q) \<in> set R. (hasTerm path \<longleftrightarrow> (\<exists>v. q = PVal v)) \<and> (hasTerm path \<longrightarrow> (\<exists>k. path = keybytesToHex k)))"

lemma Iterator_Next_spec:
  assumes "NI_ready K t p (it_nodeIt it) R" "visits_ok R"
  shows "case pleaves R of
      [] \<Rightarrow> (\<exists>it'. Iterator_Next K it = Some (Inr (False, it')) \<and> NI_done K t p (it_nodeIt it') \<and> it_Err it' = None)
    | (path, v) # L \<Rightarrow>
        (\<exists>it' R'. Iterator_Next K it = Some (Inr (True, it')) \<and> NI_ready K t p (it_nodeIt it') R' \<and> visits_ok R' \<and> pleaves R' = L
           \<and> length R' < length R \<and> it_Key it' = hexToKeybytes path \<and> it_Value it' = Some v)"
  using assms
proof (induction R arbitrary: it)
  case Nil
  obtain ni' where "NI_Next K True (it_nodeIt it) = Some (Inr (False, ni'))" "NI_done K t p ni'"
    using NI_Next_spec [OF Nil(1)] by auto
  then show ?case by (subst Iterator_Next.simps) (simp add: NI_done_def)
next
  case (Cons x R)
  obtain path q where x: "x = (path, q)" by (cases x)
  have ok: "visits_ok R" "hasTerm path \<longleftrightarrow> (\<exists>v. q = PVal v)" "hasTerm path \<longrightarrow> (\<exists>k. path = keybytesToHex k)"
    using Cons.prems(2) x by (auto simp: visits_ok_def)
  obtain ni' where ni': "NI_Next K True (it_nodeIt it) = Some (Inr (True, ni'))" "NI_ready K t p ni' R" "NI_Leaf ni' \<longleftrightarrow> hasTerm path"
      "\<And>v. q = PVal v \<Longrightarrow> NI_LeafBlob ni' = Inr v \<and> NI_LeafKey ni' = key_of_path path"
    using NI_Next_spec [OF Cons.prems(1)] x by auto
  show ?case
  proof (cases "hasTerm path")
    case True
    obtain v k where v: "q = PVal v" "path = keybytesToHex k" using True ok by blast
    then have "Iterator_Next K it = Some (Inr (True, it\<lparr>it_nodeIt := ni', it_Key := Some k, it_Value := Some v\<rparr>))"
      using ni' True by (subst Iterator_Next.simps) (simp add: key_of_path_def hexToKeybytes_keybytesToHex)
    then show ?thesis
      using v x ni'(2) ok(1) hexToKeybytes_keybytesToHex by (auto intro!: exI [of _ R])
  next
    case False
    then have q: "pleaves (x # R) = pleaves R" using ok(2) x by (cases q) auto
    have "Iterator_Next K it = Iterator_Next K (it\<lparr>it_nodeIt := ni'\<rparr>)"
      using ni' False by (subst Iterator_Next.simps) simp
    then show ?thesis
      using Cons.IH [of "it\<lparr>it_nodeIt := ni'\<rparr>"] ni'(2) ok(1) unfolding q by (auto split: list.splits) (use less_SucI in blast)
  qed
qed

theorem iterate_spec:
  assumes "NI_ready K t p (it_nodeIt it) R" "visits_ok R"
  shows "\<exists>it'. iterate K it = Some (Inr (map (\<lambda>(path, v). (the (hexToKeybytes path), v)) (pleaves R), it'))
    \<and> NI_done K t p (it_nodeIt it') \<and> it_Err it' = None"
  using assms
proof (induction "length R" arbitrary: it R rule: less_induct)
  case less
  note nx = Iterator_Next_spec [OF less.prems]
  show ?case
  proof (cases "pleaves R")
    case Nil
    then show ?thesis using nx by (subst iterate.simps) auto
  next
    case (Cons x L)
    obtain path v where x: "x = (path, v)" by (cases x)
    obtain it1 R' where it1: "Iterator_Next K it = Some (Inr (True, it1))" "NI_ready K t p (it_nodeIt it1) R'" "visits_ok R'" "pleaves R' = L"
        "length R' < length R" "it_Key it1 = hexToKeybytes path" "it_Value it1 = Some v"
      using nx Cons x by auto
    obtain it' where "iterate K it1 = Some (Inr (map (\<lambda>(path, v). (the (hexToKeybytes path), v)) L, it'))" "NI_done K t p (it_nodeIt it')" "it_Err it' = None"
      using less.hyps [OF it1(5,2,3)] it1(4) by blast
    then show ?thesis using it1 Cons x by (subst iterate.simps) auto
  qed
qed

section \<open>Seeking\<close>

lemma skip_subtree: "bytes_less path key \<Longrightarrow> \<not> HasPrefix key path \<Longrightarrow> bytes_less (path @ r) key"
  by (induction path key rule: bytes_less.induct) (auto simp: HasPrefix_def)

lemma visits_prefix:
  "(path', q) \<in> set (visits path p) \<Longrightarrow> \<exists>r. path' = path @ r"
  "(path', q) \<in> set (visits_from path i ps) \<Longrightarrow> \<exists>j r. i \<le> j \<and> j < i + length ps \<and> path' = path @ word_of_nat j # r"
proof (induction path p and path i ps rule: visits_visits_from.induct)
  case (6 path i p ps)
  then show ?case
  proof (cases "(path', q) \<in> set (visits (path @ [word_of_nat i]) p)")
    case True
    then show ?thesis using 6(1) by (intro exI [of _ i]) auto
  next
    case False
    then obtain j r where "Suc i \<le> j" "j < Suc i + length ps" "path' = path @ word_of_nat j # r" using 6 by auto
    then show ?thesis by (intro exI [of _ j] exI [of _ r]) simp
  qed
qed auto

lemma later_prefix: "(path', q) \<in> set (later path p j) \<Longrightarrow> \<exists>r. path' = path @ r"
proof (cases p)
  case (PShort k q')
  assume "(path', q) \<in> set (later path p j)"
  then show ?thesis using PShort visits_prefix(1) [of path' q "path @ k" q'] by (auto split: if_splits)
next
  case (PFull ps)
  assume "(path', q) \<in> set (later path p j)"
  then show ?thesis using PFull visits_prefix(2) [of path' q path j "drop j ps"] by auto
qed auto

lemma dropWhile_skip: "(\<And>x. x \<in> set xs \<Longrightarrow> P x) \<Longrightarrow> dropWhile P (xs @ ys) = dropWhile P ys"
  by (induction xs) auto

abbreviation before :: "bytes \<Rightarrow> bytes \<times> ptrie \<Rightarrow> bool" where
  "before key \<equiv> (\<lambda>(path, q). bytes_less path key)"

text \<open>A seek skips the visits before the key.\<close>

definition seeks :: "(bytes \<Rightarrow> bytes) \<Rightarrow> trie \<Rightarrow> ptrie \<Rightarrow> (bytes \<times> ptrie) list \<Rightarrow> (iter_panic, iter_error option \<times> nodeIterator) outcome \<Rightarrow> bool" where
  "seeks K t p R r \<longleftrightarrow> (\<exists>err it'. r = Some (Inr (err, it')) \<and> ready K t p (it'\<lparr>ni_err := err\<rparr>) R)"

lemma seek_stack:
  assumes "iter_over K t p it" "ni_err it = None" "ni_stack it = s # ss" "st_index s = -1" "bytes_less (ni_path it) key"
    "iter_stack K (ni_trie it) (s # ss) (ni_path it) R"
  shows "seeks K t p (dropWhile (before key) R) (seek_loop K prefix key it)"
  using assms
proof (induction "length R" arbitrary: it s ss R rule: less_induct)
  case less
  let ?t = "ni_trie it" and ?path = "ni_path it"
  obtain q R0 where "iter_stack K ?t ss (take (st_pathlen s) ?path) R0" "R = later ?path q (nat (st_index s + 1)) @ R0"
    using iter_stack_ConsE [OF less.prems(6)] by metis
  then have s: "iter_stack K ?t ss (take (st_pathlen s) ?path) R0" "R = later ?path q 0 @ R0" using less.prems(4) by simp_all
  define R1 where "R1 = (if HasPrefix key ?path then R else R0)"
  define it0 where "it0 = (if HasPrefix key ?path then it else iter_pop it)"
  have it0: "ni_trie it0 = ?t" "ni_err it0 = None" "iter_stack K ?t (ni_stack it0) (ni_path it0) R1"
    using less.prems(2,3,6) s(1) by (auto simp: it0_def R1_def iter_pop_def)
  have pk: "peeks K it0 R1 (peek_loop it0)" using peek_loop_spec it0(1,3) by simp
  have peek: "peek K (HasPrefix key ?path) it = peek_loop it0" using less.prems(3) by (simp add: peek_def it0_def)
  have len: "length R1 \<le> length R" using s(2) by (simp add: R1_def)
  have drop: "dropWhile (before key) R = dropWhile (before key) R1"
  proof (cases "HasPrefix key ?path")
    case False
    then have "before key x" if "x \<in> set (later ?path q 0)" for x
      using that later_prefix [of "fst x" "snd x" ?path q 0] skip_subtree [OF less.prems(5)] by (cases x) auto
    then show ?thesis using False s(2) dropWhile_skip by (simp add: R1_def)
  qed (simp add: R1_def)
  show ?case
  proof (cases R1)
    case Nil
    then obtain it' where it': "peek_loop it0 = Inr (it', Inl IteratorEnd)" "ni_trie it' = ?t" using pk it0(1) by (auto simp: peeks_def)
    then have "seek_loop K prefix key it = Some (Inr (Some IteratorEnd, it'))" using peek by (subst seek_loop.simps) simp
    moreover have "ready K t p (it'\<lparr>ni_err := Some IteratorEnd\<rparr>) []" using it'(2) less.prems(1) by (intro ready.finished) (auto simp: iter_over_def)
    ultimately show ?thesis unfolding drop Nil seeks_def dropWhile.simps by blast
  next
    case (Cons v R')
    obtain path q' where v: "v = (path, q')" by (cases v)
    obtain it' c where it': "peek_loop it0 = Inr (it', Inr (c, True, path))" "ni_trie it' = ?t" "ni_err it' = None" "st_index c = -1"
        "ni_stack it' \<noteq> []" "iter_stack K ?t (ni_stack it') (ni_path it') R1" "iter_stack K ?t (ni_stack (iter_push it' c True path)) path R'"
      using pk it0(1,2) Cons v by (auto simp: peeks_def)
    show ?thesis
    proof (cases "bytes_less path key")
      case False
      then have "seek_loop K prefix key it = Some (Inr (None, it'))" using peek it'(1) by (subst seek_loop.simps) simp
      moreover have "ready K t p (it'\<lparr>ni_err := None\<rparr>) R1" using it' less.prems(1) by (intro ready.started) (auto simp: iter_over_def)
      ultimately show ?thesis unfolding drop seeks_def using Cons v False by auto
    next
      case True
      let ?it = "iter_push it' c True path"
      have step: "seek_loop K prefix key it = seek_loop K prefix key ?it" using peek it'(1) True by (subst seek_loop.simps) simp
      have "length R' < length R" using len Cons by simp
      then have "seeks K t p (dropWhile (before key) R') (seek_loop K prefix key ?it)"
        by (rule less.hyps) (use it' less.prems(1) True in \<open>auto simp: iter_push_def iter_over_def\<close>)
      then show ?thesis unfolding drop step using Cons v True by simp
    qed
  qed
qed

lemma seek_fresh:
  assumes "iter_over K t p it" "ni_err it = None" "ni_stack it = []" "ni_path it = []"
  shows "seeks K t p (dropWhile (before key) (all_visits p)) (seek_loop K prefix key it)"
proof -
  obtain it' s where it': "peek K (HasPrefix key (ni_path it)) it = Inr (it', Inr (s, False, []))" "iter_over K t p it'" "ni_stack it' = []"
      "ni_err it' = None" "ni_path it' = []" "st_index s = -1" "iter_stack K (ni_trie it') [s] [] (later [] p 0)"
    using peek_fresh [OF assms(1,3)] assms(2,4) by metis
  show ?thesis
  proof (cases "key = []")
    case True
    then have "seek_loop K prefix key it = Some (Inr (None, it'))" using it'(1) by (subst seek_loop.simps) simp
    then show ?thesis
      using it' True ready.fresh [of K t p "it'\<lparr>ni_err := None\<rparr>"] by (simp add: seeks_def iter_over_def all_visits_def)
  next
    case False
    then have less: "bytes_less [] key" by (cases key) auto
    have "seek_loop K prefix key it = seek_loop K prefix key (iter_push it' s False [])"
      using it'(1) less by (subst seek_loop.simps) simp
    moreover have "seeks K t p (dropWhile (before key) (later [] p 0)) (seek_loop K prefix key (iter_push it' s False []))"
      by (rule seek_stack) (use it' less in \<open>auto simp: iter_push_def iter_over_def\<close>)
    ultimately show ?thesis using less by (simp add: all_visits_def)
  qed
qed

end
