(* ===== verification/Trie_Entries.thy ===== *)
theory Trie_Entries
  imports Trie_Iterator
begin

text \<open>
  What an iterator yields. The visits of a canonical tree come in the strict order of their paths, and
  the leaves among them are the entries of the tree; so the entries from a start key on, or those with
  a key prefix, are what the iterators of \<open>Trie_Iterator\<close> deliver, in the order of the hexadecimal keys.
  In that order a key comes after its extensions, since the value of a branch is its last child.
\<close>

section \<open>The entries among the visits\<close>

lemma visits_from_mem:
  "x \<in> set (visits_from path i ps) \<longleftrightarrow> (\<exists>j < length ps. x \<in> set (visits (path @ [word_of_nat (i + j)]) (ps ! j)))"
proof (induction ps arbitrary: i)
  case (Cons p ps)
  have ex: "(\<exists>j < Suc n. P j) \<longleftrightarrow> P 0 \<or> (\<exists>j < n. P (Suc j))" for n and P :: "nat \<Rightarrow> bool"
    using less_Suc_eq_0_disj by auto
  show ?case
    by (simp only: visits_from.simps set_append Un_iff Cons.IH [of "Suc i"] length_Cons ex nth_Cons_0 nth_Cons_Suc add_0_right add_Suc_right add_Suc)
qed simp

lemma take_hexkey_iff:
  assumes "hexkey k" "hexkey key"
  shows "length k \<le> length key \<and> take (length k) key = k \<longleftrightarrow> key = k"
proof
  assume a: "length k \<le> length key \<and> take (length k) key = k"
  then obtain r where r: "key = k @ r" by (metis append_take_drop_id)
  then have "r = []" using hexkey_prefix_free [OF assms(1)] assms(2) by blast
  then show "key = k" using r by simp
qed simp

lemma visits_entries:
  assumes "pnode p"
  shows "(path', PVal v) \<in> set (visits path p) \<longleftrightarrow> (\<exists>k. hexkey k \<and> path' = path @ k \<and> plookup p k = Some v)"
  using assms
proof (induction arbitrary: path rule: pnode.induct)
  case (leaf k w)
  then show ?case using take_hexkey_iff [OF leaf(1)] by auto
next
  case (ext k cs)
  have "(\<exists>j. hexkey j \<and> path' = (path @ k) @ j \<and> plookup (PFull cs) j = Some v)
      \<longleftrightarrow> (\<exists>j. hexkey j \<and> path' = path @ j \<and> plookup (PShort k (PFull cs)) j = Some v)" (is "?L \<longleftrightarrow> ?R")
  proof
    assume ?L
    then obtain j where "hexkey j" "path' = (path @ k) @ j" "plookup (PFull cs) j = Some v" by blast
    then show ?R using ext(2) by (intro exI [of _ "k @ j"]) (simp add: hexkey_append)
  next
    assume ?R
    then obtain j where j: "hexkey j" "path' = path @ j" "plookup (PShort k (PFull cs)) j = Some v" by blast
    then have "take (length k) j = k" "plookup (PFull cs) (drop (length k) j) = Some v" by (auto split: if_splits)
    moreover from this have "j = k @ drop (length k) j" by (metis append_take_drop_id)
    ultimately show ?L using j(1,2) hexkey_append [OF ext(2)] by (metis append_assoc)
  qed
  then show ?case using ext.IH [of "path @ k"] by simp
next
  case (branch cs)
  have kid: "(path', PVal v) \<in> set (visits (path @ [word_of_nat j]) (cs ! j))
      \<longleftrightarrow> (\<exists>k. (if j = 16 then k = [] else hexkey k) \<and> path' = path @ word_of_nat j # k \<and> plookup (cs ! j) k = Some v)" if "j < 17" for j
  proof (cases "j = 16")
    case True
    then show ?thesis using branch.hyps(2) by auto
  next
    case False
    then have "cs ! j = PNil \<or> pnode (cs ! j) \<and> (\<forall>path. (path', PVal v) \<in> set (visits path (cs ! j)) \<longleftrightarrow> (\<exists>k. hexkey k \<and> path' = path @ k \<and> plookup (cs ! j) k = Some v))"
      using branch.IH that by auto
    then show ?thesis using False by auto
  qed
  show ?case
  proof
    assume "(path', PVal v) \<in> set (visits path (PFull cs))"
    then obtain j where j: "j < 17" "(path', PVal v) \<in> set (visits (path @ [word_of_nat j]) (cs ! j))"
      using visits_from_mem [of "(path', PVal v)" path 0 cs] branch.hyps(1) by auto
    then obtain k where k: "if j = 16 then k = [] else hexkey k" "path' = path @ word_of_nat j # k" "plookup (cs ! j) k = Some v"
      using kid by blast
    have u: "unat (word_of_nat j :: byte) = j" using j(1) by (simp add: unat_of_nat)
    have "hexkey (word_of_nat j # k)"
      using k(1) j(1) by (auto simp: nibble_def word_less_nat_alt unat_of_nat split: if_splits)
    then show "\<exists>k. hexkey k \<and> path' = path @ k \<and> plookup (PFull cs) k = Some v"
      using k u branch.hyps(1) j(1) by (intro exI [of _ "word_of_nat j # k"]) simp
  next
    assume "\<exists>k. hexkey k \<and> path' = path @ k \<and> plookup (PFull cs) k = Some v"
    then obtain x k where k: "hexkey (x # k)" "path' = path @ x # k" "plookup (cs ! unat x) k = Some v"
      by (metis hexkey_simps(1) neq_Nil_conv option.distinct(1) plookup.simps(5))
    have x: "unat x < 17" by (rule hexkey_hd [OF k(1)])
    have "if unat x = 16 then k = [] else hexkey k"
      using k(1) by (auto simp: nibble_def word_less_nat_alt)
    then have "(path', PVal v) \<in> set (visits (path @ [x]) (cs ! unat x))"
      using kid [OF x] k(2,3) by auto
    then show "(path', PVal v) \<in> set (visits path (PFull cs))"
      using visits_from_mem [of "(path', PVal v)" path 0 cs] branch.hyps(1) x by auto
  qed
qed

text \<open>A visit is a leaf, or its path has no terminator.\<close>

lemma nibbles_of_nat: "j < 16 \<Longrightarrow> nibble (word_of_nat j)"
  by (simp add: nibble_def word_less_nat_alt unat_of_nat)

lemma visits_inner:
  assumes "pnode p" "nibbles path" "(path', q) \<in> set (visits path p)"
  shows "(\<exists>v. q = PVal v) \<or> nibbles path'"
  using assms
proof (induction arbitrary: path rule: pnode.induct)
  case (branch cs)
  then consider "path' = path" | j where "j < 17" "(path', q) \<in> set (visits (path @ [word_of_nat j]) (cs ! j))"
    using visits_from_mem [of "(path', q)" path 0 cs] by auto
  then show ?case
  proof cases
    case (2 j)
    show ?thesis
    proof (cases "j = 16")
      case True
      then show ?thesis using branch.hyps(2) 2(2) by auto
    next
      case False
      then have "j < 16" using 2(1) by simp
      then have "cs ! j = PNil \<or> (\<forall>path. nibbles path \<longrightarrow> (path', q) \<in> set (visits path (cs ! j)) \<longrightarrow> (\<exists>v. q = PVal v) \<or> nibbles path')"
        using branch.IH by blast
      moreover have "nibbles (path @ [word_of_nat j])" using branch.prems(1) nibbles_of_nat [OF \<open>j < 16\<close>] by simp
      ultimately show ?thesis using 2(2) by (metis empty_iff list.set(1) visits.simps(1))
    qed
  qed (use branch.prems in simp)
next
  case (ext k cs)
  then show ?case using ext.IH [of "path @ k"] by auto
qed auto

lemma not_hasTerm_nibbles: "nibbles path \<Longrightarrow> \<not> hasTerm path"
  by (auto simp: hasTerm_def nibbles_def nibble_def)

lemma hasTerm_hexkey: "hexkey k \<Longrightarrow> hasTerm (path @ k)"
  by (auto simp: hexkey_def hasTerm_def nth_append)

lemma all_visits_pwf: "pwf p \<Longrightarrow> all_visits p = (if p = PNil then [([], PNil)] else visits [] p)"
  by (auto simp: all_visits_def visits_later)

lemma visits_ok_all:
  assumes "pwf p" "\<And>k. hexkey k \<Longrightarrow> plookup p k \<noteq> None \<Longrightarrow> \<exists>key. k = keybytesToHex key"
  shows "visits_ok (all_visits p)"
proof (cases "p = PNil")
  case True
  then show ?thesis by (simp add: all_visits_def visits_ok_def hasTerm_def)
next
  case False
  then have p: "pnode p" "all_visits p = visits [] p" using assms(1) all_visits_pwf by (auto simp: pwf_def)
  have "(hasTerm path \<longleftrightarrow> (\<exists>v. q = PVal v)) \<and> (hasTerm path \<longrightarrow> (\<exists>k. path = keybytesToHex k))" if v: "(path, q) \<in> set (visits [] p)" for path q
  proof (cases "\<exists>v. q = PVal v")
    case True
    then obtain w where "q = PVal w" by blast
    then have "hexkey path" "plookup p path = Some w" using visits_entries [OF p(1), of path w "[]"] v by auto
    then show ?thesis using True assms(2) hasTerm_hexkey [of path "[]"] by auto
  next
    case False
    then show ?thesis using visits_inner [OF p(1) _ v] not_hasTerm_nibbles by auto
  qed
  then show ?thesis unfolding p(2) visits_ok_def by blast
qed

section \<open>The order of the visits\<close>

abbreviation path_less :: "bytes \<times> 'a \<Rightarrow> bytes \<times> 'a \<Rightarrow> bool" where
  "path_less a b \<equiv> bytes_less (fst a) (fst b)"

lemma visits_from_sorted:
  assumes "\<And>j path. j < length ps \<Longrightarrow> sorted_wrt path_less (visits path (ps ! j))" "i + length ps \<le> 17"
  shows "sorted_wrt path_less (visits_from path i ps)"
  using assms
proof (induction ps arbitrary: i)
  case (Cons p ps)
  have "sorted_wrt path_less (visits (path @ [word_of_nat i]) p)" using Cons.prems(1) [of 0] by simp
  moreover have "sorted_wrt path_less (visits_from path (Suc i) ps)"
    using Cons.prems(1) [of "Suc _"] Cons.prems(2) by (intro Cons.IH) auto
  moreover have "path_less x y" if x: "x \<in> set (visits (path @ [word_of_nat i]) p)" and y: "y \<in> set (visits_from path (Suc i) ps)" for x y
  proof -
    obtain r where r: "fst x = (path @ [word_of_nat i]) @ r" using visits_prefix(1) x by (metis prod.collapse)
    obtain j s where j: "Suc i \<le> j" "j < Suc i + length ps" "fst y = path @ word_of_nat j # s" using visits_prefix(2) y by (metis prod.collapse)
    have "(word_of_nat i :: byte) < word_of_nat j" using j(1,2) Cons.prems(2) by (simp add: word_less_nat_alt unat_of_nat)
    then show ?thesis using r j(3) by simp
  qed
  ultimately show ?case by (auto simp: sorted_wrt_append)
qed simp

lemma visits_sorted: "pnode p \<Longrightarrow> sorted_wrt path_less (visits path p)"
proof (induction arbitrary: path rule: pnode.induct)
  case (leaf k v)
  then have "k \<noteq> []" by auto
  then show ?case by simp
next
  case (ext k cs)
  have "path_less (path, PShort k (PFull cs)) y" if y: "y \<in> set (visits (path @ k) (PFull cs))" for y
  proof -
    obtain r where "fst y = (path @ k) @ r" using visits_prefix(1) y by (metis prod.collapse)
    then show ?thesis using ext.hyps(1) by simp
  qed
  then show ?case using ext.IH [of "path @ k"] by simp
next
  case (branch cs)
  have "sorted_wrt path_less (visits path (cs ! j))" if "j < length cs" for j path
  proof (cases "j = 16")
    case True
    then show ?thesis using branch.hyps(2) by auto
  next
    case False
    then have "j < 16" using that branch.hyps(1) by simp
    then have "cs ! j = PNil \<or> (\<forall>path. sorted_wrt path_less (visits path (cs ! j)))" using branch.IH by blast
    then show ?thesis by auto
  qed
  then have "sorted_wrt path_less (visits_from path 0 cs)" using branch.hyps(1) by (intro visits_from_sorted) auto
  moreover have "path_less (path, PFull cs) y" if y: "y \<in> set (visits_from path 0 cs)" for y
  proof -
    obtain j r where "fst y = path @ word_of_nat j # r" using visits_prefix(2) y by (metis prod.collapse)
    then show ?thesis by simp
  qed
  ultimately show ?case by simp
qed

lemma all_visits_sorted: "pwf p \<Longrightarrow> sorted_wrt path_less (all_visits p)"
  using visits_sorted by (auto simp: all_visits_pwf pwf_def)

text \<open>In that order, skipping what comes before a key and stopping at the end of a prefix are filters.\<close>

lemma dropWhile_sorted:
  "sorted_wrt path_less R \<Longrightarrow> dropWhile (\<lambda>(path, q). bytes_less path key) R = filter (\<lambda>(path, q). \<not> bytes_less path key) R"
proof (induction R)
  case (Cons x R)
  show ?case
  proof (cases "bytes_less (fst x) key")
    case False
    have "\<not> bytes_less (fst y) key" if "y \<in> set R" for y
      using that Cons.prems False bytes_less_trans by auto
    then have "filter (\<lambda>(path, q). \<not> bytes_less path key) R = R" by (auto simp: filter_id_conv)
    then show ?thesis using False by (simp add: case_prod_unfold)
  qed (use Cons in \<open>simp add: case_prod_unfold\<close>)
qed simp

lemma HasPrefix_not_less: "HasPrefix path key \<Longrightarrow> \<not> bytes_less path key"
  by (metis HasPrefix_def append_take_drop_id bytes_less_Nil bytes_less_append append_Nil2)

lemma HasPrefix_between:
  assumes "\<not> bytes_less a key" "bytes_less a b" "HasPrefix b key"
  shows "HasPrefix a key"
proof (rule ccontr)
  assume n: "\<not> HasPrefix a key"
  then have "bytes_less key a" using bytes_less_linear [of a key] assms(1) by (auto simp: HasPrefix_def)
  then have "bytes_less (key @ drop (length key) b) a" using skip_subtree n by blast
  moreover have "key @ drop (length key) b = b" using assms(3) by (metis HasPrefix_def append_take_drop_id)
  ultimately show False using assms(2) bytes_less_trans bytes_less_irrefl by metis
qed

lemma takeWhile_sorted:
  assumes "sorted_wrt path_less R"
  shows "takeWhile (\<lambda>(path, q). HasPrefix path key) (filter (\<lambda>(path, q). \<not> bytes_less path key) R) = filter (\<lambda>(path, q). HasPrefix path key) R"
  using assms
proof (induction R)
  case (Cons x R)
  have IH: "takeWhile (\<lambda>(path, q). HasPrefix path key) (filter (\<lambda>(path, q). \<not> bytes_less path key) R) = filter (\<lambda>(path, q). HasPrefix path key) R"
    using Cons by simp
  consider "bytes_less (fst x) key" | "HasPrefix (fst x) key" | "\<not> bytes_less (fst x) key" "\<not> HasPrefix (fst x) key" by blast
  then show ?case
  proof cases
    case 3
    then have "\<not> HasPrefix (fst y) key" if "y \<in> set R" for y
      using that Cons.prems HasPrefix_between [of "fst x" key "fst y"] by auto
    then have "filter (\<lambda>(path, q). HasPrefix path key) R = []" by (auto simp: filter_empty_conv)
    then show ?thesis using 3 by (simp add: case_prod_unfold)
  qed (use IH HasPrefix_not_less in \<open>auto simp: case_prod_unfold\<close>)
qed simp

lemma set_pleaves: "set (pleaves R) = {(path, v). (path, PVal v) \<in> set R}"
  by (induction R rule: pleaves.induct) auto

lemma pleaves_sorted: "sorted_wrt path_less R \<Longrightarrow> sorted_wrt path_less (pleaves R)"
  by (induction R rule: pleaves.induct) (auto simp: set_pleaves)

section \<open>What the iterators yield\<close>

lemma keybytesToHex_snoc: "keybytesToHex k = butlast (keybytesToHex k) @ [16]"
  by (induction k rule: keybytesToHex.induct) auto

lemma HasPrefix_simps [simp]:
  "HasPrefix xs []"
  "HasPrefix (x # xs) (y # ys) \<longleftrightarrow> x = y \<and> HasPrefix xs ys"
  "\<not> HasPrefix [] (y # ys)"
  by (simp_all add: HasPrefix_def)

lemma HasPrefix_keybytes: "HasPrefix (keybytesToHex key) (butlast (keybytesToHex prefix)) \<longleftrightarrow> key_prefixed prefix key"
proof (induction prefix arbitrary: key)
  case (Cons b bs)
  show ?case
  proof (cases key)
    case (Cons c cs)
    have "c div 16 = b div 16 \<and> c mod 16 = b mod 16 \<longleftrightarrow> c = b" by (metis word_mod_div_equality)
    then show ?thesis using Cons Cons.IH [of cs] by (auto simp: key_prefixed_def)
  qed (auto simp: key_prefixed_def)
qed (simp add: key_prefixed_def)

lemma not_before_full [simp]: "not_before (full_key t start) (full_key t key) \<longleftrightarrow> not_before start key"
  by (auto simp: not_before_def full_key_def keybytesToHex_join butlast_append split: option.split)

lemma key_prefixed_full [simp]: "key_prefixed (full_key t prefix) (full_key t key) \<longleftrightarrow> key_prefixed prefix key"
  by (auto simp: key_prefixed_def full_key_def split: option.split)

text \<open>
  The entries with keys that satisfy \<open>P\<close> come in order, under the keys with the prefix of the trie, and
  the trie that the iterator holds afterwards still holds the map.
\<close>

definition yields :: "(bytes \<Rightarrow> bytes) \<Rightarrow> trie \<Rightarrow> (bytes \<rightharpoonup> bytes) \<Rightarrow> (bytes \<Rightarrow> bool) \<Rightarrow> (iter_panic, (bytes \<times> bytes) list \<times> Iterator) outcome \<Rightarrow> bool" where
  "yields K t m P r \<longleftrightarrow>
     (\<exists>kvs it c. r = Some (Inr (kvs, it)) \<and> it_Err it = None \<and> NI_trie (it_nodeIt it) = t\<lparr>t_root := c\<rparr> \<and> trie_hashed K (t\<lparr>t_root := c\<rparr>) m
        \<and> sorted_wrt (\<lambda>a b. hex_less (fst a) (fst b)) kvs \<and> set kvs = {(full_key t key, v) |key v. m key = Some v \<and> P key})"

lemma all_entries:
  assumes "trie_treeF F t p"
  shows "(path, PVal v) \<in> set (all_visits p) \<longleftrightarrow> (\<exists>key. path = keybytesToHex (full_key t key) \<and> plookup p path = Some v)"
proof (cases "p = PNil")
  case False
  then have p: "pnode p" "all_visits p = visits [] p" "addressable t p" using assms all_visits_pwf by (auto simp: trie_treeF_def pwf_def)
  show ?thesis unfolding p(2) visits_entries [OF p(1)] using p(3) by (auto simp: addressable_def)
qed (simp add: all_visits_def)

lemma image_pairs: "(\<lambda>(a, b). (f a, b)) ` {(a, b). Q a b} = {(f a, b) |a b. Q a b}"
  by force

lemma iterate_yields:
  assumes "trie_treeF (hflag K) t p" "\<And>key. m key = plookup p (keybytesToHex (full_key t key))"
    "NI_ready K t p ni (filter (\<lambda>(path, q). P path) (all_visits p))"
  shows "yields K t m (\<lambda>key. P (keybytesToHex (full_key t key))) (iterate K (NewIterator ni))"
proof -
  let ?R = "filter (\<lambda>(path, q). P path) (all_visits p)"
  let ?kvs = "map (\<lambda>(path, v). (the (hexToKeybytes path), v)) (pleaves ?R)"
  have wf: "pwf p" "addressable t p" using assms(1) by (auto simp: trie_treeF_def)
  have "visits_ok (all_visits p)" by (rule visits_ok_all [OF wf(1)]) (use wf(2) in \<open>auto simp: addressable_def\<close>)
  then have ok: "visits_ok ?R" by (auto simp: visits_ok_def)
  obtain it where it: "iterate K (NewIterator ni) = Some (Inr (?kvs, it))" "NI_done K t p (it_nodeIt it)" "it_Err it = None"
    using iterate_spec [of K t p "NewIterator ni" ?R] assms(3) ok by (auto simp: NewIterator_def)
  obtain c where c: "NI_trie (it_nodeIt it) = t\<lparr>t_root := c\<rparr>" "trie_treeF (hflag K) (t\<lparr>t_root := c\<rparr>) p" using it(2) by (auto simp: NI_done_def)
  have leaf: "(path, v) \<in> set (pleaves ?R) \<longleftrightarrow> (\<exists>key. path = keybytesToHex (full_key t key) \<and> m key = Some v \<and> P path)" for path v
    using all_entries [OF assms(1), of path v] assms(2) by (auto simp: set_pleaves)
  have "sorted_wrt path_less (pleaves ?R)" using all_visits_sorted [OF wf(1)] by (intro pleaves_sorted sorted_wrt_filter)
  then have "sorted_wrt (\<lambda>a b. hex_less (fst a) (fst b)) ?kvs" unfolding sorted_wrt_map
    by (rule sorted_wrt_mono_rel [rotated]) (auto simp: leaf hex_less_def hexToKeybytes_keybytesToHex)
  moreover have "set (pleaves ?R) = (\<lambda>(key, v). (keybytesToHex (full_key t key), v)) ` {(key, v). m key = Some v \<and> P (keybytesToHex (full_key t key))}"
    using leaf by auto
  then have "set ?kvs = (\<lambda>(key, v). (full_key t key, v)) ` {(key, v). m key = Some v \<and> P (keybytesToHex (full_key t key))}"
    by (simp add: image_image case_prod_unfold hexToKeybytes_keybytesToHex)
  then have "set ?kvs = {(full_key t key, v) |key v. m key = Some v \<and> P (keybytesToHex (full_key t key))}"
    unfolding image_pairs .
  moreover have "trie_hashed K (t\<lparr>t_root := c\<rparr>) m" using c(2) assms(2) by (auto simp: trie_hashed_iff)
  ultimately show ?thesis using it(1,3) c(1) unfolding yields_def by blast
qed

lemma newNodeIterator_spec:
  assumes "trie_treeF (hflag K) t p" "trie_Hash K t = Inr (root, t1)" "root \<noteq> BytesToHash (K [])"
  shows "\<exists>it. newNodeIterator K t start = Some (Inr it) \<and> ready K t p it (dropWhile (before (butlast (keybytesToHex start))) (all_visits p))"
proof -
  obtain c where c: "t1 = t\<lparr>t_root := c\<rparr>" "trie_treeF (hflag K) t1 p" using trie_Hash_tree [OF assms(1)] assms(2) by auto
  let ?it = "\<lparr>ni_trie = t1, ni_stack = [], ni_path = [], ni_err = None\<rparr>" and ?key = "butlast (keybytesToHex start)"
  have "seeks K t p (dropWhile (before ?key) (all_visits p)) (seek_loop K start ?key ?it)"
    by (rule seek_fresh) (use c in \<open>auto simp: iter_over_def\<close>)
  then show ?thesis using assms(2,3) by (auto simp: seeks_def newNodeIterator_def iter_seek_def)
qed

lemma HasPrefix_full: "HasPrefix (keybytesToHex (full_key t key)) (butlast (keybytesToHex (full_key t prefix))) \<longleftrightarrow> key_prefixed prefix key"
  by (simp add: HasPrefix_keybytes)

lemma NodeIterator_yields:
  assumes "trie_hashed K t m" "trie_Hash K t = Inr (root, t1)" "root \<noteq> BytesToHash (K [])"
  shows "\<exists>it. trie_NodeIterator K t start = Some (Inr it) \<and> yields K t m (not_before start) (iterate K (NewIterator (NodeIt it)))"
proof -
  obtain p where p: "trie_treeF (hflag K) t p" "\<And>key. m key = plookup p (keybytesToHex (full_key t key))"
    using assms(1) by (auto simp: trie_hashed_iff)
  let ?P = "\<lambda>path. \<not> bytes_less path (butlast (keybytesToHex (full_key t start)))"
  have srt: "sorted_wrt path_less (all_visits p)" using p(1) all_visits_sorted by (auto simp: trie_treeF_def)
  obtain it where it: "newNodeIterator K t (full_key t start) = Some (Inr it)" "ready K t p it (filter (\<lambda>(path, q). ?P path) (all_visits p))"
    using newNodeIterator_spec [OF p(1) assms(2,3), of "full_key t start"] unfolding dropWhile_sorted [OF srt] by blast
  have "yields K t m (\<lambda>key. ?P (keybytesToHex (full_key t key))) (iterate K (NewIterator (NodeIt it)))"
    by (rule iterate_yields [OF p]) (use it(2) in simp)
  moreover have "(\<lambda>key. ?P (keybytesToHex (full_key t key))) = not_before start"
    using not_before_full [of t start] unfolding not_before_def by blast
  ultimately show ?thesis using it(1) unfolding trie_NodeIterator_def by auto
qed

lemma PrefixIterator_yields:
  assumes "trie_hashed K t m" "trie_Hash K t = Inr (root, t1)" "root \<noteq> BytesToHash (K [])"
  shows "\<exists>it. trie_PrefixIterator K t prefix = Some (Inr it) \<and> yields K t m (key_prefixed prefix) (iterate K (NewIterator (PrefixIt it)))"
proof -
  obtain p where p: "trie_treeF (hflag K) t p" "\<And>key. m key = plookup p (keybytesToHex (full_key t key))"
    using assms(1) by (auto simp: trie_hashed_iff)
  obtain c where c: "t1 = t\<lparr>t_root := c\<rparr>" "trie_treeF (hflag K) t1 p" "root = BytesToHash (proot K p)"
    using trie_Hash_tree [OF p(1)] assms(2) by auto
  obtain t2 where t2: "trie_Hash K t1 = Inr (root, t2)" using trie_Hash_tree [OF c(2)] c(3) by auto
  let ?key = "butlast (keybytesToHex (full_key t prefix))"
  have srt: "sorted_wrt path_less (all_visits p)" using p(1) all_visits_sorted by (auto simp: trie_treeF_def)
  obtain it where it: "newNodeIterator K t1 (full_key t prefix) = Some (Inr it)" "ready K t1 p it (filter (\<lambda>(path, q). \<not> bytes_less path ?key) (all_visits p))"
    using newNodeIterator_spec [OF c(2) t2 assms(3), of "full_key t prefix"] unfolding dropWhile_sorted [OF srt] by blast
  let ?it = "\<lparr>pi_prefix = ?key, pi_it = it\<rparr>"
  have "NI_ready K t1 p (PrefixIt ?it) (filter (\<lambda>(path, q). HasPrefix path ?key) (all_visits p))"
    using it(2) takeWhile_sorted [OF srt, of ?key] by auto
  then have "yields K t1 m (\<lambda>key. HasPrefix (keybytesToHex (full_key t1 key)) ?key) (iterate K (NewIterator (PrefixIt ?it)))"
    by (intro iterate_yields [OF c(2)]) (simp_all add: p(2) c(1))
  then have "yields K t m (key_prefixed prefix) (iterate K (NewIterator (PrefixIt ?it)))"
    by (simp add: HasPrefix_full c(1) yields_def)
  then show ?thesis using it(1) assms(2,3) by (simp add: trie_PrefixIterator_def newPrefixIterator_def)
qed



end
