(* ===== verification/Go_Sort.thy ===== *)
theory Go_Sort
  imports Go_Prelude
begin

text \<open>
  What the sources use of Go's package \<open>sort\<close>: the binary search \<open>Search\<close>, with the property its
  documentation promises.
\<close>

text \<open>The loop of \<open>sort.Search(n, f)\<close>: \<open>f (i - 1)\<close> is false and \<open>f j\<close> is true.\<close>

function sort_Search_loop :: "(nat \<Rightarrow> bool) \<Rightarrow> nat \<Rightarrow> nat \<Rightarrow> nat" where
  "sort_Search_loop f i j =
     (if i < j then (let h = (i + j) div 2 in if \<not> f h then sort_Search_loop f (h + 1) j else sort_Search_loop f i h)
      else i)"
  by pat_completeness auto

termination
  by (relation "measure (\<lambda>(f, i, j). j - i)") auto

declare sort_Search_loop.simps [simp del]

definition sort_Search :: "nat \<Rightarrow> (nat \<Rightarrow> bool) \<Rightarrow> nat" where
  "sort_Search n f = sort_Search_loop f 0 n"

lemma sort_Search_loop_spec:
  assumes "\<And>i j. i \<le> j \<Longrightarrow> j < n \<Longrightarrow> f i \<Longrightarrow> f j" "i \<le> j" "j \<le> n" "\<And>k. k < i \<Longrightarrow> \<not> f k" "\<And>k. j \<le> k \<Longrightarrow> k < n \<Longrightarrow> f k"
  shows "sort_Search_loop f i j \<le> n \<and> (\<forall>k < sort_Search_loop f i j. \<not> f k)
    \<and> (sort_Search_loop f i j < n \<longrightarrow> f (sort_Search_loop f i j))"
  using assms
proof (induction f i j rule: sort_Search_loop.induct)
  case (1 f i j)
  show ?case
  proof (cases "i < j")
    case False
    then have "sort_Search_loop f i j = i" by (simp add: sort_Search_loop.simps [of f i j])
    moreover have "i = j" using False "1.prems"(2) by simp
    ultimately show ?thesis using "1.prems" by auto
  next
    case True
    define h where "h = (i + j) div 2"
    have h: "i \<le> h" "h < j" using True by (auto simp: h_def)
    show ?thesis
    proof (cases "f h")
      case fh: True
      have "sort_Search_loop f i j = sort_Search_loop f i h" using True fh h_def by (simp add: sort_Search_loop.simps [of f i j])
      moreover have "sort_Search_loop f i h \<le> n \<and> (\<forall>k < sort_Search_loop f i h. \<not> f k)
          \<and> (sort_Search_loop f i h < n \<longrightarrow> f (sort_Search_loop f i h))"
        by (rule "1.IH"(2) [OF True h_def]) (use fh h "1.prems" in \<open>auto intro: "1.prems"(1) [of h]\<close>)
      ultimately show ?thesis by simp
    next
      case fh: False
      have "sort_Search_loop f i j = sort_Search_loop f (h + 1) j" using True fh h_def by (simp add: sort_Search_loop.simps [of f i j])
      moreover have "sort_Search_loop f (h + 1) j \<le> n \<and> (\<forall>k < sort_Search_loop f (h + 1) j. \<not> f k)
          \<and> (sort_Search_loop f (h + 1) j < n \<longrightarrow> f (sort_Search_loop f (h + 1) j))"
      proof (rule "1.IH"(1) [OF True h_def])
        show "\<And>k. k < h + 1 \<Longrightarrow> \<not> f k"
          using fh h "1.prems"(1) [of _ h] "1.prems"(3) by (metis Suc_eq_plus1 less_Suc_eq_le order_less_le_trans)
      qed (use fh h "1.prems" in auto)
      ultimately show ?thesis by simp
    qed
  qed
qed

lemma sort_Search_spec:
  assumes "\<And>i j. i \<le> j \<Longrightarrow> j < n \<Longrightarrow> f i \<Longrightarrow> f j"
  shows "sort_Search n f \<le> n" "k < sort_Search n f \<Longrightarrow> \<not> f k" "sort_Search n f < n \<Longrightarrow> f (sort_Search n f)"
  using sort_Search_loop_spec [of n f 0 n] assms by (auto simp: sort_Search_def)

lemma sort_Search_eq:
  assumes "\<And>i j. i \<le> j \<Longrightarrow> j < n \<Longrightarrow> f i \<Longrightarrow> f j" "k < n" "f k" "\<And>i. i < k \<Longrightarrow> \<not> f i"
  shows "sort_Search n f = k"
proof (rule linorder_cases [of "sort_Search n f" k])
  assume "sort_Search n f < k"
  then show ?thesis using sort_Search_spec(3) [of n f] assms by auto
next
  assume "k < sort_Search n f"
  then show ?thesis using sort_Search_spec(2) [of n f k] assms by auto
qed

lemma sort_Search_loop_le: "i \<le> j \<Longrightarrow> sort_Search_loop f i j \<le> j"
proof (induction f i j rule: sort_Search_loop.induct)
  case (1 f i j)
  show ?case
  proof (cases "i < j")
    case False
    then have "sort_Search_loop f i j = i" by (simp add: sort_Search_loop.simps [of f i j])
    then show ?thesis using "1.prems" by simp
  next
    case True
    define h where "h = (i + j) div 2"
    have h: "i \<le> h" "h < j" using True by (auto simp: h_def)
    show ?thesis
    proof (cases "f h")
      case True
      then have "sort_Search_loop f i j = sort_Search_loop f i h" using \<open>i < j\<close> h_def by (simp add: sort_Search_loop.simps [of f i j])
      moreover have "sort_Search_loop f i h \<le> h" using "1.IH"(2) [OF \<open>i < j\<close> h_def] True h by simp
      ultimately show ?thesis using h by simp
    next
      case False
      then have "sort_Search_loop f i j = sort_Search_loop f (h + 1) j" using \<open>i < j\<close> h_def by (simp add: sort_Search_loop.simps [of f i j])
      then show ?thesis using "1.IH"(1) [OF \<open>i < j\<close> h_def] False h by simp
    qed
  qed
qed

lemma sort_Search_le: "sort_Search n f \<le> n"
  by (simp add: sort_Search_def sort_Search_loop_le)

end
