(* ===== verification/State_Object.thy ===== *)
theory State_Object
  imports Trie_Service RLP_Values Go_Sort "HOL-Library.AList"
begin

text \<open>
  The data of the account state: accounts, state objects, the journal of changes and the \<open>StateDB\<close>
  record, with the methods of \<^verbatim>\<open>pkg/core/state/state_object.go\<close>. A state object is a pointer in the
  code; here it is the value stored in the map of the \<open>StateDB\<close>, and a method takes the object and
  the \<open>StateDB\<close> it belongs to and returns both. Go maps are association lists; a loop over a map
  visits the entries in the order of the list, one of the orders Go may choose. The database
  interface and Keccak-256 are a record of functions.
\<close>

section \<open>Types\<close>

datatype state_error =
    StateTrieError trie_error
  | CantCreateStorageTrie trie_error
  | StateRlpError rlp_error
  | CodeNotFound
  | CantLoadCode bytes

datatype state_panic =
    NilDeref
  | RlpPanic
  | SliceBounds
  | CantEncodeObject address
  | RevisionCannotBeReverted nat

type_synonym 'a panics = "state_panic + 'a"

record 't database =
  db_OpenTrie :: "hash \<Rightarrow> trie_error + 't"
  db_OpenStorageTrie :: "hash \<Rightarrow> hash \<Rightarrow> trie_error + 't"
  db_ContractCode :: "hash \<Rightarrow> hash \<Rightarrow> state_error + bytes"
  db_ContractCodeSize :: "hash \<Rightarrow> hash \<Rightarrow> nat \<times> state_error option"
  db_trie :: "'t trie_api"
  db_keccak :: "bytes \<Rightarrow> hash"

definition emptyCodeHash :: "'t database \<Rightarrow> hash" where
  "emptyCodeHash D = db_keccak D []"

record Account =
  Nonce :: u64
  Balance :: int
  Contribution :: int
  Records :: "hash list"
  Root :: hash
  CodeHash :: bytes

type_synonym Storage = "(hash \<times> hash) list"

record 't stateObject =
  o_address :: address
  o_addrHash :: hash
  o_data :: Account
  o_dbErr :: "state_error option"
  o_trie :: "'t option"
  o_code :: "bytes option"
  o_cachedStorage :: Storage
  o_dirtyStorage :: Storage
  o_dirtyCode :: bool
  o_suicided :: bool
  o_touched :: bool
  o_deleted :: bool
  o_onDirty :: bool

text \<open>The journal entries of \<^verbatim>\<open>pkg/core/state/journal.go\<close>.\<close>

datatype 'o journalEntry =
    CreateObjectChange address
  | ResetObjectChange 'o
  | SuicideChange address bool int
  | BalanceChange address int
  | ContributionChange address int
  | NonceChange address u64
  | StorageChange address hash hash
  | CodeChange address "bytes option" bytes
  | RecordChange address "hash list"
  | RefundChange int
  | AddLogChange hash
  | AddPreimageChange hash
  | TouchChange address bool bool

record Log =
  log_Address :: address
  log_Topics :: "hash list"
  log_Data :: bytes
  log_BlockNumber :: u64
  log_TxHash :: hash
  log_TxIndex :: u64
  log_BlockHash :: hash
  log_Index :: u64
  log_Removed :: bool

record 't StateDB =
  s_trie :: 't
  s_objects :: "(address \<times> 't stateObject) list"
  s_dirty :: "address list"
  s_dbErr :: "state_error option"
  s_refund :: int
  s_thash :: hash
  s_bhash :: hash
  s_txIndex :: u64
  s_logs :: "(hash \<times> Log list) list"
  s_logSize :: u64
  s_preimages :: "(hash \<times> bytes) list"
  s_journal :: "'t stateObject journalEntry list"
  s_validRevisions :: "(nat \<times> nat) list"
  s_nextRevisionId :: nat

section \<open>Accounts and their encoding\<close>

text \<open>\<open>newObject\<close> turns the nil fields of an empty \<open>Account\<close> into these values.\<close>

definition emptyAccount :: "'t database \<Rightarrow> Account" where
  "emptyAccount D = \<lparr>Nonce = 0, Balance = 0, Contribution = 0, Records = [], Root = zeroHash, CodeHash = emptyCodeHash D\<rparr>"

definition newObject :: "'t database \<Rightarrow> address \<Rightarrow> Account \<Rightarrow> bool \<Rightarrow> 't stateObject" where
  "newObject D addr data onDirty =
     \<lparr>o_address = addr, o_addrHash = db_keccak D addr, o_data = data, o_dbErr = None, o_trie = None, o_code = None,
      o_cachedStorage = [], o_dirtyStorage = [], o_dirtyCode = False, o_suicided = False, o_touched = False,
      o_deleted = False, o_onDirty = onDirty\<rparr>"

definition account_type :: rlp_type where
  "account_type = TStruct [TUint 64, TPtr TBigInt, TPtr TBigInt, TSlice (TByteArray 32), TByteArray 32, TBytes]"

definition account_dval :: "Account \<Rightarrow> dval" where
  "account_dval a = DList [DUint (Nonce a), DBig (Balance a), DBig (Contribution a), DList (map DBytes (Records a)),
     DBytes (Root a), DBytes (CodeHash a)]"

definition dval_account :: "dval \<Rightarrow> Account" where
  "dval_account v = (let vs = dval_list v in
     \<lparr>Nonce = dval_uint (vs ! 0), Balance = dval_big (vs ! 1), Contribution = dval_big (vs ! 2),
      Records = map dval_bytes (dval_list (vs ! 3)), Root = dval_bytes (vs ! 4), CodeHash = dval_bytes (vs ! 5)\<rparr>)"

text \<open>\<open>EncodeRLP\<close> of a state object encodes its account.\<close>

definition obj_EncodeRLP :: "'t stateObject \<Rightarrow> enc_error + bytes option" where
  "obj_EncodeRLP c = EncodeToBytes (to_val (account_dval (o_data c)))"

definition decode_account :: "bytes \<Rightarrow> Account option" where
  "decode_account enc = (case DecodeBytes (length enc + 10) account_type enc of Inl e \<Rightarrow> None | Inr v \<Rightarrow> Some (dval_account v))"

section \<open>Methods of state objects\<close>

definition obj_empty :: "'t database \<Rightarrow> 't stateObject \<Rightarrow> bool" where
  "obj_empty D s \<longleftrightarrow> Nonce (o_data s) = 0 \<and> Balance (o_data s) = 0 \<and> Contribution (o_data s) = 0
     \<and> CodeHash (o_data s) = emptyCodeHash D"

definition obj_setError :: "state_error option \<Rightarrow> 't stateObject \<Rightarrow> 't stateObject" where
  "obj_setError err self = (if o_dbErr self = None then self\<lparr>o_dbErr := err\<rparr> else self)"

definition MarkStateObjectDirty :: "address \<Rightarrow> 't StateDB \<Rightarrow> 't StateDB" where
  "MarkStateObjectDirty addr self = self\<lparr>s_dirty := List.insert addr (s_dirty self)\<rparr>"

type_synonym 't obj_method = "'t stateObject \<times> 't StateDB \<Rightarrow> 't stateObject \<times> 't StateDB"

text \<open>The callback \<open>onDirty\<close>, which every setter calls once.\<close>

definition obj_onDirty :: "'t obj_method" where
  "obj_onDirty = (\<lambda>(o1, s). if o_onDirty o1 then (o1\<lparr>o_onDirty := False\<rparr>, MarkStateObjectDirty (o_address o1) s) else (o1, s))"

definition journal_append :: "'t stateObject journalEntry \<Rightarrow> 't StateDB \<Rightarrow> 't StateDB" where
  "journal_append e s = s\<lparr>s_journal := s_journal s @ [e]\<rparr>"

definition markSuicided :: "'t obj_method" where
  "markSuicided = (\<lambda>(o1, s). obj_onDirty (o1\<lparr>o_suicided := True\<rparr>, s))"

definition obj_touch :: "'t obj_method" where
  "obj_touch = (\<lambda>(c, s).
     let s1 = journal_append (TouchChange (o_address c) (o_touched c) (\<not> o_onDirty c)) s;
         (c1, s2) = obj_onDirty (c, s1)
     in (c1\<lparr>o_touched := True\<rparr>, s2))"

definition getTrie :: "'t database \<Rightarrow> 't stateObject \<Rightarrow> ('t \<times> 't stateObject) panics" where
  "getTrie D c =
     (case o_trie c of
        Some t \<Rightarrow> Inr (t, c)
      | None \<Rightarrow>
          (case db_OpenStorageTrie D (o_addrHash c) (Root (o_data c)) of
             Inr t \<Rightarrow> Inr (t, c\<lparr>o_trie := Some t\<rparr>)
           | Inl err \<Rightarrow>
               (case db_OpenStorageTrie D (o_addrHash c) zeroHash of
                  Inl _ \<Rightarrow> Inl NilDeref
                | Inr t \<Rightarrow> Inr (t, obj_setError (Some (CantCreateStorageTrie err)) (c\<lparr>o_trie := Some t\<rparr>)))))"

text \<open>The value of a storage slot as \<open>GetState\<close> reads it from the bytes in the trie.\<close>

definition decode_slot :: "bytes option \<Rightarrow> (state_error option \<times> hash) panics" where
  "decode_slot enc =
     (case enc of
        None \<Rightarrow> Inr (None, zeroHash)
      | Some b \<Rightarrow>
          if length b > 0 then
            (case Split b of
               Inl ErrIndexPanic \<Rightarrow> Inl RlpPanic
             | Inl err \<Rightarrow> Inr (Some (StateRlpError err), Hash_SetBytes zeroHash [])
             | Inr (_, content, _) \<Rightarrow> Inr (None, Hash_SetBytes zeroHash content))
          else Inr (None, zeroHash))"

definition obj_GetState :: "'t database \<Rightarrow> hash \<Rightarrow> 't stateObject \<Rightarrow> (hash \<times> 't stateObject) panics" where
  "obj_GetState D key self =
     (case map_of (o_cachedStorage self) key of
        Some value \<Rightarrow> Inr (value, self)
      | None \<Rightarrow>
          go_bind (getTrie D self) (\<lambda>(t, o1).
            case api_TryGet (db_trie D) t key of
              (Inl err, t') \<Rightarrow> Inr (zeroHash, obj_setError (Some (StateTrieError err)) (o1\<lparr>o_trie := Some t'\<rparr>))
            | (Inr enc, t') \<Rightarrow>
                go_bind (decode_slot enc) (\<lambda>(err, value).
                  let o2 = (if err = None then o1\<lparr>o_trie := Some t'\<rparr> else obj_setError err (o1\<lparr>o_trie := Some t'\<rparr>))
                  in Inr (value, if value \<noteq> zeroHash then o2\<lparr>o_cachedStorage := AList.update key value (o_cachedStorage o2)\<rparr> else o2))))"

definition obj_setState :: "hash \<Rightarrow> hash \<Rightarrow> 't obj_method" where
  "obj_setState key value = (\<lambda>(self, s).
     obj_onDirty (self\<lparr>o_cachedStorage := AList.update key value (o_cachedStorage self),
                       o_dirtyStorage := AList.update key value (o_dirtyStorage self)\<rparr>, s))"

definition obj_SetState :: "'t database \<Rightarrow> hash \<Rightarrow> hash \<Rightarrow> 't stateObject \<times> 't StateDB \<Rightarrow> ('t stateObject \<times> 't StateDB) panics" where
  "obj_SetState D key value = (\<lambda>(self, s).
     go_bind (obj_GetState D key self) (\<lambda>(prev, o1).
       Inr (obj_setState key value (o1, journal_append (StorageChange (o_address self) key prev) s))))"

text \<open>\<open>updateTrie\<close>: the loop over the dirty slots, on the storage trie \<open>tr\<close>.\<close>

definition trim_zeros :: "bytes \<Rightarrow> bytes" where
  "trim_zeros b = dropWhile (\<lambda>x. x = 0) b"

fun updateTrie_loop :: "'t database \<Rightarrow> Storage \<Rightarrow> 't \<times> 't stateObject \<Rightarrow> 't \<times> 't stateObject" where
  "updateTrie_loop D [] (tr, self) = (tr, self)"
| "updateTrie_loop D ((key, value) # rest) (tr, self) =
     (let o1 = self\<lparr>o_dirtyStorage := AList.delete key (o_dirtyStorage self)\<rparr>;
          (err, tr') = (if value = zeroHash then api_TryDelete (db_trie D) tr key
                        else (case EncodeToBytes (RBytes (trim_zeros value)) of
                            Inr (Some v) \<Rightarrow> api_TryUpdate (db_trie D) tr key v
                          | _ \<Rightarrow> api_TryUpdate (db_trie D) tr key []))
      in updateTrie_loop D rest (tr', obj_setError (map_option StateTrieError err) o1))"

definition updateTrie :: "'t database \<Rightarrow> 't stateObject \<Rightarrow> 't stateObject panics" where
  "updateTrie D self =
     go_bind (getTrie D self) (\<lambda>(tr, o1).
       let (tr', o2) = updateTrie_loop D (o_dirtyStorage o1) (tr, o1) in Inr (o2\<lparr>o_trie := Some tr'\<rparr>))"

definition updateRoot :: "'t database \<Rightarrow> 't stateObject \<Rightarrow> 't stateObject panics" where
  "updateRoot D self =
     go_bind (updateTrie D self) (\<lambda>o1.
       case o_trie o1 of
         None \<Rightarrow> Inl NilDeref
       | Some tr \<Rightarrow> (let (root, tr') = api_Hash (db_trie D) tr
                    in Inr (o1\<lparr>o_trie := Some tr', o_data := (o_data o1)\<lparr>Root := root\<rparr>\<rparr>)))"

definition obj_setRecords :: "hash list \<Rightarrow> 't obj_method" where
  "obj_setRecords txs = (\<lambda>(self, s). obj_onDirty (self\<lparr>o_data := (o_data self)\<lparr>Records := txs\<rparr>\<rparr>, s))"

definition obj_SetRecords :: "hash list \<Rightarrow> 't obj_method" where
  "obj_SetRecords txs = (\<lambda>(self, s).
     obj_setRecords txs (self, journal_append (RecordChange (o_address self) (Records (o_data self))) s))"

definition obj_setBalance :: "int \<Rightarrow> 't obj_method" where
  "obj_setBalance amount = (\<lambda>(self, s). obj_onDirty (self\<lparr>o_data := (o_data self)\<lparr>Balance := amount\<rparr>\<rparr>, s))"

definition obj_SetBalance :: "int \<Rightarrow> 't obj_method" where
  "obj_SetBalance amount = (\<lambda>(self, s).
     obj_setBalance amount (self, journal_append (BalanceChange (o_address self) (Balance (o_data self))) s))"

definition obj_AddBalance :: "'t database \<Rightarrow> int \<Rightarrow> 't obj_method" where
  "obj_AddBalance D amount = (\<lambda>(c, s).
     if amount = 0 then (if obj_empty D c then obj_touch (c, s) else (c, s))
     else obj_SetBalance (Balance (o_data c) + amount) (c, s))"

definition obj_SubBalance :: "int \<Rightarrow> 't obj_method" where
  "obj_SubBalance amount = (\<lambda>(c, s). if amount = 0 then (c, s) else obj_SetBalance (Balance (o_data c) - amount) (c, s))"

definition obj_setContribution :: "int \<Rightarrow> 't obj_method" where
  "obj_setContribution amount = (\<lambda>(self, s). obj_onDirty (self\<lparr>o_data := (o_data self)\<lparr>Contribution := amount\<rparr>\<rparr>, s))"

definition obj_SetContribution :: "int \<Rightarrow> 't obj_method" where
  "obj_SetContribution amount = (\<lambda>(self, s).
     obj_setContribution amount (self, journal_append (ContributionChange (o_address self) (Contribution (o_data self))) s))"

definition obj_AddContribution :: "'t database \<Rightarrow> int \<Rightarrow> 't obj_method" where
  "obj_AddContribution D amount = (\<lambda>(c, s).
     if amount = 0 then (if obj_empty D c then obj_touch (c, s) else (c, s))
     else obj_setContribution (Contribution (o_data c) + amount) (c, s))"

definition obj_SubContribution :: "int \<Rightarrow> 't obj_method" where
  "obj_SubContribution amount = (\<lambda>(c, s).
     if amount = 0 then (c, s) else obj_SetContribution (Contribution (o_data c) - amount) (c, s))"

definition obj_deepCopy :: "'t database \<Rightarrow> 't stateObject \<Rightarrow> bool \<Rightarrow> 't stateObject" where
  "obj_deepCopy D self onDirty =
     (newObject D (o_address self) (o_data self) onDirty)\<lparr>
        o_trie := o_trie self, o_code := o_code self, o_dirtyStorage := o_dirtyStorage self,
        o_cachedStorage := o_dirtyStorage self, o_suicided := o_suicided self,
        o_dirtyCode := o_dirtyCode self, o_deleted := o_deleted self\<rparr>"

definition obj_Code :: "'t database \<Rightarrow> 't stateObject \<Rightarrow> bytes option \<times> 't stateObject" where
  "obj_Code D self =
     (case o_code self of
        Some c \<Rightarrow> (Some c, self)
      | None \<Rightarrow>
          if CodeHash (o_data self) = emptyCodeHash D then (None, self)
          else (case db_ContractCode D (o_addrHash self) (BytesToHash (CodeHash (o_data self))) of
              Inl err \<Rightarrow> (None, obj_setError (Some (CantLoadCode (CodeHash (o_data self)))) self)
            | Inr code \<Rightarrow> (Some code, self\<lparr>o_code := Some code\<rparr>)))"

definition obj_setCode :: "hash \<Rightarrow> bytes option \<Rightarrow> 't obj_method" where
  "obj_setCode codeHash code = (\<lambda>(self, s).
     obj_onDirty (self\<lparr>o_code := code, o_data := (o_data self)\<lparr>CodeHash := codeHash\<rparr>, o_dirtyCode := True\<rparr>, s))"

definition obj_SetCode :: "'t database \<Rightarrow> hash \<Rightarrow> bytes option \<Rightarrow> 't obj_method" where
  "obj_SetCode D codeHash code = (\<lambda>(self, s).
     let (prevcode, o1) = obj_Code D self
     in obj_setCode codeHash code (o1, journal_append (CodeChange (o_address o1) prevcode (CodeHash (o_data o1))) s))"

definition obj_setNonce :: "u64 \<Rightarrow> 't obj_method" where
  "obj_setNonce nonce = (\<lambda>(self, s). obj_onDirty (self\<lparr>o_data := (o_data self)\<lparr>Nonce := nonce\<rparr>\<rparr>, s))"

definition obj_SetNonce :: "u64 \<Rightarrow> 't obj_method" where
  "obj_SetNonce nonce = (\<lambda>(self, s).
     obj_setNonce nonce (self, journal_append (NonceChange (o_address self) (Nonce (o_data self))) s))"

end
