(* ===== verification/State_DB.thy ===== *)
theory State_DB
  imports State_Object
begin

text \<open>
  The operations of \<open>StateDB\<close>, \<^verbatim>\<open>pkg/core/state/statedb.go\<close> and \<^verbatim>\<open>journal.go\<close>: reading and changing
  accounts through the live objects, the journal with its undo operations, snapshots, and writing
  the objects to the trie. Writing to the disk database (\<open>CommitTo\<close>) is not part of the model.
\<close>

section \<open>Live objects\<close>

definition New_StateDB :: "'t database \<Rightarrow> hash \<Rightarrow> trie_error + 't StateDB" where
  "New_StateDB D root =
     go_bind (db_OpenTrie D root) (\<lambda>tr.
       Inr \<lparr>s_trie = tr, s_objects = [], s_dirty = [], s_dbErr = None, s_refund = 0, s_thash = zeroHash, s_bhash = zeroHash,
            s_txIndex = 0, s_logs = [], s_logSize = 0, s_preimages = [], s_journal = [], s_validRevisions = [],
            s_nextRevisionId = 0\<rparr>)"

definition setError :: "state_error option \<Rightarrow> 't StateDB \<Rightarrow> 't StateDB" where
  "setError err self = (if s_dbErr self = None then self\<lparr>s_dbErr := err\<rparr> else self)"

definition clearJournalAndRefund :: "'t StateDB \<Rightarrow> 't StateDB" where
  "clearJournalAndRefund s = s\<lparr>s_journal := [], s_validRevisions := [], s_refund := 0\<rparr>"

definition Reset :: "'t database \<Rightarrow> hash \<Rightarrow> 't StateDB \<Rightarrow> trie_error + 't StateDB" where
  "Reset D root self =
     go_bind (db_OpenTrie D root) (\<lambda>tr.
       Inr (clearJournalAndRefund (self\<lparr>s_trie := tr, s_objects := [], s_dirty := [], s_thash := zeroHash, s_bhash := zeroHash,
         s_txIndex := 0, s_logs := [], s_logSize := 0, s_preimages := []\<rparr>)))"

definition setStateObject :: "'t stateObject \<Rightarrow> 't StateDB \<Rightarrow> 't StateDB" where
  "setStateObject object self = self\<lparr>s_objects := AList.update (o_address object) object (s_objects self)\<rparr>"

definition getStateObject :: "'t database \<Rightarrow> address \<Rightarrow> 't StateDB \<Rightarrow> 't stateObject option \<times> 't StateDB" where
  "getStateObject D addr self =
     (case map_of (s_objects self) addr of
        Some obj \<Rightarrow> (if o_deleted obj then None else Some obj, self)
      | None \<Rightarrow>
          (case api_TryGet (db_trie D) (s_trie self) addr of
             (Inl err, tr') \<Rightarrow> (None, setError (Some (StateTrieError err)) (self\<lparr>s_trie := tr'\<rparr>))
           | (Inr enc, tr') \<Rightarrow>
               (let self1 = self\<lparr>s_trie := tr'\<rparr>
                in case enc of
                     None \<Rightarrow> (None, setError None self1)
                   | Some b \<Rightarrow>
                       if length b = 0 then (None, setError None self1)
                       else (case decode_account b of
                           None \<Rightarrow> (None, self1)
                         | Some data \<Rightarrow>
                             (let obj = newObject D addr data True in (Some obj, setStateObject obj self1))))))"

definition createObject :: "'t database \<Rightarrow> address \<Rightarrow> 't StateDB \<Rightarrow> ('t stateObject \<times> 't stateObject option) \<times> 't StateDB" where
  "createObject D addr self =
     (let (prev, self1) = getStateObject D addr self;
          (newobj, self2) = obj_setNonce 0 (newObject D addr (emptyAccount D) True, self1);
          self3 = journal_append (case prev of None \<Rightarrow> CreateObjectChange addr | Some p \<Rightarrow> ResetObjectChange p) self2
      in ((newobj, prev), setStateObject newobj self3))"

definition GetOrNewStateObject :: "'t database \<Rightarrow> address \<Rightarrow> 't StateDB \<Rightarrow> 't stateObject \<times> 't StateDB" where
  "GetOrNewStateObject D addr self =
     (case getStateObject D addr self of
        (None, self1) \<Rightarrow> (let ((newobj, _), self2) = createObject D addr self1 in (newobj, self2))
      | (Some obj, self1) \<Rightarrow>
          if o_deleted obj then (let ((newobj, _), self2) = createObject D addr self1 in (newobj, self2))
          else (obj, self1))"

text \<open>A method called on the object of an account, which stays in the map of live objects.\<close>

definition on_object :: "'t database \<Rightarrow> address \<Rightarrow> 't obj_method \<Rightarrow> 't StateDB \<Rightarrow> 't StateDB" where
  "on_object D addr m self =
     (let (obj, self1) = GetOrNewStateObject D addr self;
          (obj', self2) = m (obj, self1)
      in setStateObject obj' self2)"

section \<open>Reading\<close>

definition Exist :: "'t database \<Rightarrow> address \<Rightarrow> 't StateDB \<Rightarrow> bool \<times> 't StateDB" where
  "Exist D addr self = (let (o1, self1) = getStateObject D addr self in (o1 \<noteq> None, self1))"

definition Empty :: "'t database \<Rightarrow> address \<Rightarrow> 't StateDB \<Rightarrow> bool \<times> 't StateDB" where
  "Empty D addr self = (let (so, self1) = getStateObject D addr self
     in ((case so of None \<Rightarrow> True | Some o1 \<Rightarrow> obj_empty D o1), self1))"

definition GetBalance :: "'t database \<Rightarrow> address \<Rightarrow> 't StateDB \<Rightarrow> int \<times> 't StateDB" where
  "GetBalance D addr self = (let (so, self1) = getStateObject D addr self
     in ((case so of None \<Rightarrow> 0 | Some o1 \<Rightarrow> Balance (o_data o1)), self1))"

definition GetContribution :: "'t database \<Rightarrow> address \<Rightarrow> 't StateDB \<Rightarrow> int \<times> 't StateDB" where
  "GetContribution D addr self = (let (so, self1) = getStateObject D addr self
     in ((case so of None \<Rightarrow> 0 | Some o1 \<Rightarrow> Contribution (o_data o1)), self1))"

definition GetNonce :: "'t database \<Rightarrow> address \<Rightarrow> 't StateDB \<Rightarrow> u64 \<times> 't StateDB" where
  "GetNonce D addr self = (let (so, self1) = getStateObject D addr self
     in ((case so of None \<Rightarrow> 0 | Some o1 \<Rightarrow> Nonce (o_data o1)), self1))"

definition GetRecords :: "'t database \<Rightarrow> address \<Rightarrow> 't StateDB \<Rightarrow> hash list \<times> 't StateDB" where
  "GetRecords D addr self = (let (so, self1) = getStateObject D addr self
     in ((case so of None \<Rightarrow> [] | Some o1 \<Rightarrow> Records (o_data o1)), self1))"

definition GetCode :: "'t database \<Rightarrow> address \<Rightarrow> 't StateDB \<Rightarrow> bytes option \<times> 't StateDB" where
  "GetCode D addr self =
     (case getStateObject D addr self of
        (None, self1) \<Rightarrow> (None, self1)
      | (Some o1, self1) \<Rightarrow> (let (c, o2) = obj_Code D o1 in (c, setStateObject o2 self1)))"

definition GetCodeSize :: "'t database \<Rightarrow> address \<Rightarrow> 't StateDB \<Rightarrow> nat \<times> 't StateDB" where
  "GetCodeSize D addr self =
     (case getStateObject D addr self of
        (None, self1) \<Rightarrow> (0, self1)
      | (Some o1, self1) \<Rightarrow>
          (case o_code o1 of
             Some c \<Rightarrow> (length c, self1)
           | None \<Rightarrow>
               (let (size, err) = db_ContractCodeSize D (o_addrHash o1) (BytesToHash (CodeHash (o_data o1)))
                in (size, if err \<noteq> None then setError err self1 else self1))))"

definition GetCodeHash :: "'t database \<Rightarrow> address \<Rightarrow> 't StateDB \<Rightarrow> hash \<times> 't StateDB" where
  "GetCodeHash D addr self = (let (so, self1) = getStateObject D addr self
     in ((case so of None \<Rightarrow> zeroHash | Some o1 \<Rightarrow> BytesToHash (CodeHash (o_data o1))), self1))"

definition GetState :: "'t database \<Rightarrow> address \<Rightarrow> hash \<Rightarrow> 't StateDB \<Rightarrow> (hash \<times> 't StateDB) panics" where
  "GetState D a b self =
     (case getStateObject D a self of
        (None, self1) \<Rightarrow> Inr (zeroHash, self1)
      | (Some o1, self1) \<Rightarrow> go_bind (obj_GetState D b o1) (\<lambda>(v, o2). Inr (v, setStateObject o2 self1)))"

definition StorageTrie :: "'t database \<Rightarrow> address \<Rightarrow> 't StateDB \<Rightarrow> ('t option \<times> 't StateDB) panics" where
  "StorageTrie D a self =
     (case getStateObject D a self of
        (None, self1) \<Rightarrow> Inr (None, self1)
      | (Some o1, self1) \<Rightarrow> go_bind (updateTrie D (obj_deepCopy D o1 False)) (\<lambda>cpy. Inr (o_trie cpy, self1)))"

definition HasSuicided :: "'t database \<Rightarrow> address \<Rightarrow> 't StateDB \<Rightarrow> bool \<times> 't StateDB" where
  "HasSuicided D addr self = (let (so, self1) = getStateObject D addr self
     in ((case so of None \<Rightarrow> False | Some o1 \<Rightarrow> o_suicided o1), self1))"

section \<open>Changing accounts\<close>

definition AddBalance :: "'t database \<Rightarrow> address \<Rightarrow> int \<Rightarrow> 't StateDB \<Rightarrow> 't StateDB" where
  "AddBalance D addr amount self = on_object D addr (obj_AddBalance D amount) self"

definition SubBalance :: "'t database \<Rightarrow> address \<Rightarrow> int \<Rightarrow> 't StateDB \<Rightarrow> 't StateDB" where
  "SubBalance D addr amount self = on_object D addr (obj_SubBalance amount) self"

definition SetBalance :: "'t database \<Rightarrow> address \<Rightarrow> int \<Rightarrow> 't StateDB \<Rightarrow> 't StateDB" where
  "SetBalance D addr amount self = on_object D addr (obj_SetBalance amount) self"

definition AddContribution :: "'t database \<Rightarrow> address \<Rightarrow> int \<Rightarrow> 't StateDB \<Rightarrow> 't StateDB" where
  "AddContribution D addr amount self = on_object D addr (obj_AddContribution D amount) self"

definition SubContribution :: "'t database \<Rightarrow> address \<Rightarrow> int \<Rightarrow> 't StateDB \<Rightarrow> 't StateDB" where
  "SubContribution D addr amount self = on_object D addr (obj_SubContribution amount) self"

definition SetContribution :: "'t database \<Rightarrow> address \<Rightarrow> int \<Rightarrow> 't StateDB \<Rightarrow> 't StateDB" where
  "SetContribution D addr amount self = on_object D addr (obj_setContribution amount) self"

definition SetNonce :: "'t database \<Rightarrow> address \<Rightarrow> u64 \<Rightarrow> 't StateDB \<Rightarrow> 't StateDB" where
  "SetNonce D addr nonce self = on_object D addr (obj_SetNonce nonce) self"

text \<open>The methods of \<open>AddRecords\<close> and \<open>RemoveRecords\<close> on the object.\<close>

definition AddRecords :: "'t database \<Rightarrow> address \<Rightarrow> hash \<Rightarrow> 't StateDB \<Rightarrow> 't StateDB" where
  "AddRecords D addr record self =
     on_object D addr (\<lambda>(o1, s).
       let records = Records (o_data o1)
       in if length records > 0 then
            (if record \<in> set records then (o1, s) else obj_setRecords (records @ [record]) (o1, s))
          else obj_setRecords [record] (o1, s)) self"

fun find_index :: "'a \<Rightarrow> 'a list \<Rightarrow> nat \<Rightarrow> nat option" where
  "find_index r [] k = None"
| "find_index r (x # xs) k = (if x = r then Some k else find_index r xs (Suc k))"

definition RemoveRecords :: "'t database \<Rightarrow> address \<Rightarrow> hash \<Rightarrow> 't StateDB \<Rightarrow> 't StateDB" where
  "RemoveRecords D addr record self =
     on_object D addr (\<lambda>(o1, s).
       let records = Records (o_data o1);
           index = (case find_index record records 0 of None \<Rightarrow> - 1 | Some k \<Rightarrow> int k)
       in if length records > 0 \<and> index > 0
          then obj_setRecords (take (nat index) records @ drop (nat index + 1) records) (o1, s)
          else (o1, s)) self"

definition SetRecords :: "'t database \<Rightarrow> address \<Rightarrow> hash list \<Rightarrow> 't StateDB \<Rightarrow> 't StateDB" where
  "SetRecords D addr records self = on_object D addr (obj_SetRecords records) self"

definition SetCode :: "'t database \<Rightarrow> address \<Rightarrow> bytes \<Rightarrow> 't StateDB \<Rightarrow> 't StateDB" where
  "SetCode D addr code self = on_object D addr (obj_SetCode D (db_keccak D code) (Some code)) self"

definition SetState :: "'t database \<Rightarrow> address \<Rightarrow> hash \<Rightarrow> hash \<Rightarrow> 't StateDB \<Rightarrow> 't StateDB panics" where
  "SetState D addr key value self =
     (let (obj, self1) = GetOrNewStateObject D addr self
      in go_bind (obj_SetState D key value (obj, self1)) (\<lambda>(obj', self2). Inr (setStateObject obj' self2)))"

definition Suicide :: "'t database \<Rightarrow> address \<Rightarrow> 't StateDB \<Rightarrow> bool \<times> 't StateDB" where
  "Suicide D addr self =
     (case getStateObject D addr self of
        (None, self1) \<Rightarrow> (False, self1)
      | (Some o1, self1) \<Rightarrow>
          (let self2 = journal_append (SuicideChange addr (o_suicided o1) (Balance (o_data o1))) self1;
               (o2, self3) = markSuicided (o1, self2)
           in (True, setStateObject (o2\<lparr>o_data := (o_data o2)\<lparr>Balance := 0\<rparr>\<rparr>) self3)))"

definition CreateAccount :: "'t database \<Rightarrow> address \<Rightarrow> 't StateDB \<Rightarrow> 't StateDB" where
  "CreateAccount D addr self =
     (let ((new, prev), self1) = createObject D addr self
      in case prev of
           None \<Rightarrow> self1
         | Some p \<Rightarrow>
             (let (n1, self2) = obj_setBalance (Balance (o_data p)) (new, self1);
                  (n2, self3) = obj_setContribution (Contribution (o_data p)) (n1, self2)
              in setStateObject n2 self3))"

section \<open>Logs, preimages and the refund\<close>

definition AddLog :: "Log \<Rightarrow> 't StateDB \<Rightarrow> 't StateDB" where
  "AddLog log self =
     (let self1 = journal_append (AddLogChange (s_thash self)) self;
          log1 = log\<lparr>log_TxHash := s_thash self, log_BlockHash := s_bhash self, log_TxIndex := s_txIndex self,
                     log_Index := s_logSize self\<rparr>;
          old = (case map_of (s_logs self1) (s_thash self) of None \<Rightarrow> [] | Some ls \<Rightarrow> ls)
      in self1\<lparr>s_logs := AList.update (s_thash self) (old @ [log1]) (s_logs self1), s_logSize := s_logSize self + 1\<rparr>)"

definition GetLogs :: "hash \<Rightarrow> 't StateDB \<Rightarrow> Log list" where
  "GetLogs h self = (case map_of (s_logs self) h of None \<Rightarrow> [] | Some ls \<Rightarrow> ls)"

definition Logs :: "'t StateDB \<Rightarrow> Log list" where
  "Logs self = concat (map snd (s_logs self))"

definition AddPreimage :: "hash \<Rightarrow> bytes \<Rightarrow> 't StateDB \<Rightarrow> 't StateDB" where
  "AddPreimage h preimage self =
     (if map_of (s_preimages self) h = None
      then (journal_append (AddPreimageChange h) self)\<lparr>s_preimages := AList.update h preimage (s_preimages self)\<rparr>
      else self)"

definition AddRefund :: "int \<Rightarrow> 't StateDB \<Rightarrow> 't StateDB" where
  "AddRefund gas self = (journal_append (RefundChange (s_refund self)) self)\<lparr>s_refund := s_refund self + gas\<rparr>"

definition Prepare :: "hash \<Rightarrow> hash \<Rightarrow> u64 \<Rightarrow> 't StateDB \<Rightarrow> 't StateDB" where
  "Prepare thash bhash ti self = self\<lparr>s_thash := thash, s_bhash := bhash, s_txIndex := ti\<rparr>"

section \<open>The journal\<close>

text \<open>A method called on the object of an account that must exist: a nil pointer panics.\<close>

definition on_existing :: "'t database \<Rightarrow> address \<Rightarrow> 't obj_method \<Rightarrow> 't StateDB \<Rightarrow> 't StateDB panics" where
  "on_existing D addr m s =
     (case getStateObject D addr s of
        (None, s1) \<Rightarrow> Inl NilDeref
      | (Some o1, s1) \<Rightarrow> (let (o2, s2) = m (o1, s1) in Inr (setStateObject o2 s2)))"

definition ripemd :: address where
  "ripemd = replicate 19 0 @ [3]"

definition createObjectChange_undo :: "address \<Rightarrow> 't StateDB \<Rightarrow> 't StateDB" where
  "createObjectChange_undo account s =
     s\<lparr>s_objects := AList.delete account (s_objects s), s_dirty := remove1 account (s_dirty s)\<rparr>"

definition suicideChange_undo :: "'t database \<Rightarrow> address \<Rightarrow> bool \<Rightarrow> int \<Rightarrow> 't StateDB \<Rightarrow> 't StateDB" where
  "suicideChange_undo D account prev prevbalance s =
     (case getStateObject D account s of
        (None, s1) \<Rightarrow> s1
      | (Some o1, s1) \<Rightarrow> (let (o2, s2) = obj_setBalance prevbalance (o1\<lparr>o_suicided := prev\<rparr>, s1) in setStateObject o2 s2))"

definition touchChange_undo :: "'t database \<Rightarrow> address \<Rightarrow> bool \<Rightarrow> bool \<Rightarrow> 't StateDB \<Rightarrow> 't StateDB panics" where
  "touchChange_undo D account prev prevDirty s =
     (if \<not> prev \<and> account \<noteq> ripemd
      then go_bind (on_existing D account (\<lambda>(o1, s1). (o1\<lparr>o_touched := prev\<rparr>, s1)) s) (\<lambda>s2.
        Inr (if \<not> prevDirty then s2\<lparr>s_dirty := remove1 account (s_dirty s2)\<rparr> else s2))
      else Inr s)"

definition addLogChange_undo :: "hash \<Rightarrow> 't StateDB \<Rightarrow> 't StateDB panics" where
  "addLogChange_undo txhash s =
     (let logs = (case map_of (s_logs s) txhash of None \<Rightarrow> [] | Some ls \<Rightarrow> ls)
      in if length logs = 1 then Inr (s\<lparr>s_logs := AList.delete txhash (s_logs s), s_logSize := s_logSize s - 1\<rparr>)
         else if length logs = 0 then Inl SliceBounds
         else Inr (s\<lparr>s_logs := AList.update txhash (butlast logs) (s_logs s), s_logSize := s_logSize s - 1\<rparr>))"

fun undo :: "'t database \<Rightarrow> 't stateObject journalEntry \<Rightarrow> 't StateDB \<Rightarrow> 't StateDB panics" where
  "undo D (CreateObjectChange account) s = Inr (createObjectChange_undo account s)"
| "undo D (ResetObjectChange prev) s = Inr (setStateObject prev s)"
| "undo D (SuicideChange account prev prevbalance) s = Inr (suicideChange_undo D account prev prevbalance s)"
| "undo D (TouchChange account prev prevDirty) s = touchChange_undo D account prev prevDirty s"
| "undo D (RecordChange account prev) s = on_existing D account (obj_setRecords prev) s"
| "undo D (BalanceChange account prev) s = on_existing D account (obj_setBalance prev) s"
| "undo D (ContributionChange account prev) s = on_existing D account (obj_setContribution prev) s"
| "undo D (NonceChange account prev) s = on_existing D account (obj_setNonce prev) s"
| "undo D (CodeChange account prevcode prevhash) s = on_existing D account (obj_setCode (BytesToHash prevhash) prevcode) s"
| "undo D (StorageChange account key prevalue) s = on_existing D account (obj_setState key prevalue) s"
| "undo D (RefundChange prev) s = Inr (s\<lparr>s_refund := prev\<rparr>)"
| "undo D (AddLogChange txhash) s = addLogChange_undo txhash s"
| "undo D (AddPreimageChange h) s = Inr (s\<lparr>s_preimages := AList.delete h (s_preimages s)\<rparr>)"

text \<open>The loop of \<open>RevertToSnapshot\<close>, over the entries from the last one backwards.\<close>

fun undo_all :: "'t database \<Rightarrow> 't stateObject journalEntry list \<Rightarrow> 't StateDB \<Rightarrow> 't StateDB panics" where
  "undo_all D [] s = Inr s"
| "undo_all D (e # es) s = go_bind (undo D e s) (undo_all D es)"

definition Snapshot :: "'t StateDB \<Rightarrow> nat \<times> 't StateDB" where
  "Snapshot self =
     (let id = s_nextRevisionId self
      in (id, self\<lparr>s_nextRevisionId := id + 1, s_validRevisions := s_validRevisions self @ [(id, length (s_journal self))]\<rparr>))"

definition RevertToSnapshot :: "'t database \<Rightarrow> nat \<Rightarrow> 't StateDB \<Rightarrow> 't StateDB panics" where
  "RevertToSnapshot D revid self =
     (let vr = s_validRevisions self;
          idx = sort_Search (length vr) (\<lambda>i. fst (vr ! i) \<ge> revid)
      in if idx = length vr \<or> fst (vr ! idx) \<noteq> revid then Inl (RevisionCannotBeReverted revid)
         else (let snapshot = snd (vr ! idx)
               in go_bind (undo_all D (rev (drop snapshot (s_journal self))) self) (\<lambda>s1.
                    Inr (s1\<lparr>s_journal := take snapshot (s_journal s1), s_validRevisions := take idx (s_validRevisions s1)\<rparr>))))"

section \<open>Writing to the trie\<close>

definition updateStateObject :: "'t database \<Rightarrow> 't stateObject \<Rightarrow> 't StateDB \<Rightarrow> 't StateDB panics" where
  "updateStateObject D o1 self =
     (case obj_EncodeRLP o1 of
        Inr (Some data) \<Rightarrow>
          (let (err, tr') = api_TryUpdate (db_trie D) (s_trie self) (o_address o1) data
           in Inr (setError (map_option StateTrieError err) (self\<lparr>s_trie := tr'\<rparr>)))
      | _ \<Rightarrow> Inl (CantEncodeObject (o_address o1)))"

definition deleteStateObject :: "'t database \<Rightarrow> 't stateObject \<Rightarrow> 't StateDB \<Rightarrow> 't StateDB" where
  "deleteStateObject D o1 self =
     (let (err, tr') = api_TryDelete (db_trie D) (s_trie self) (o_address o1)
      in setError (map_option StateTrieError err) (setStateObject (o1\<lparr>o_deleted := True\<rparr>) (self\<lparr>s_trie := tr'\<rparr>)))"

fun Finalise_loop :: "'t database \<Rightarrow> bool \<Rightarrow> address list \<Rightarrow> 't StateDB \<Rightarrow> 't StateDB panics" where
  "Finalise_loop D deleteEmptyObjects [] s = Inr s"
| "Finalise_loop D deleteEmptyObjects (addr # addrs) s =
     go_bind (case map_of (s_objects s) addr of
         None \<Rightarrow> Inl NilDeref
       | Some o1 \<Rightarrow>
           if o_suicided o1 \<or> (deleteEmptyObjects \<and> obj_empty D o1) then Inr (deleteStateObject D o1 s)
           else go_bind (updateRoot D o1) (\<lambda>o2. updateStateObject D o2 (setStateObject o2 s)))
       (Finalise_loop D deleteEmptyObjects addrs)"

definition Finalise :: "'t database \<Rightarrow> bool \<Rightarrow> 't StateDB \<Rightarrow> 't StateDB panics" where
  "Finalise D deleteEmptyObjects s =
     go_bind (Finalise_loop D deleteEmptyObjects (s_dirty s) s) (\<lambda>s1. Inr (clearJournalAndRefund s1))"

definition IntermediateRoot :: "'t database \<Rightarrow> bool \<Rightarrow> 't StateDB \<Rightarrow> (hash \<times> 't StateDB) panics" where
  "IntermediateRoot D deleteEmptyObjects s =
     go_bind (Finalise D deleteEmptyObjects s) (\<lambda>s1.
       let (h, tr') = api_Hash (db_trie D) (s_trie s1) in Inr (h, s1\<lparr>s_trie := tr'\<rparr>))"

fun DeleteSuicides_loop :: "address list \<Rightarrow> 't StateDB \<Rightarrow> 't StateDB panics" where
  "DeleteSuicides_loop [] s = Inr s"
| "DeleteSuicides_loop (addr # addrs) s =
     (case map_of (s_objects s) addr of
        None \<Rightarrow> Inl NilDeref
      | Some o1 \<Rightarrow>
          (let s1 = (if o_suicided o1 then setStateObject (o1\<lparr>o_deleted := True\<rparr>) s else s)
           in DeleteSuicides_loop addrs (s1\<lparr>s_dirty := remove1 addr (s_dirty s1)\<rparr>)))"

definition DeleteSuicides :: "'t StateDB \<Rightarrow> 't StateDB panics" where
  "DeleteSuicides s = (let s1 = clearJournalAndRefund s in DeleteSuicides_loop (s_dirty s1) s1)"

text \<open>\<open>Copy\<close> keeps the dirty objects, logs and preimages.\<close>

fun copy_objects :: "'t database \<Rightarrow> 't StateDB \<Rightarrow> address list \<Rightarrow> 't StateDB \<Rightarrow> 't StateDB panics" where
  "copy_objects D self [] st = Inr st"
| "copy_objects D self (addr # addrs) st =
     (case map_of (s_objects self) addr of
        None \<Rightarrow> Inl NilDeref
      | Some o1 \<Rightarrow> copy_objects D self addrs
          (st\<lparr>s_objects := AList.update addr (obj_deepCopy D o1 True) (s_objects st), s_dirty := List.insert addr (s_dirty st)\<rparr>))"

definition Copy :: "'t database \<Rightarrow> 't StateDB \<Rightarrow> 't StateDB panics" where
  "Copy D self =
     go_bind (copy_objects D self (s_dirty self)
       \<lparr>s_trie = s_trie self, s_objects = [], s_dirty = [], s_dbErr = None, s_refund = s_refund self, s_thash = zeroHash,
        s_bhash = zeroHash, s_txIndex = 0, s_logs = [], s_logSize = s_logSize self, s_preimages = [], s_journal = [],
        s_validRevisions = [], s_nextRevisionId = 0\<rparr>) (\<lambda>st.
       Inr (st\<lparr>s_logs := s_logs self, s_preimages := s_preimages self\<rparr>))"

end
