(* ===== verification/State_Revert.thy ===== *)
theory State_Revert
  imports State_DB
begin

text \<open>
  What a client can observe of a \<open>StateDB\<close>, collected in a view, and the invariant of the live
  objects. Loading an object, reading a slot or code leaves the view alone; every setter acts on
  the view of one account; and undoing a journal entry refines a function on views.
\<close>

section \<open>The view of an object\<close>

definition storage_of :: "'t database \<Rightarrow> 't option \<Rightarrow> hash \<Rightarrow> hash \<Rightarrow> 't panics" where
  "storage_of D tr ah root =
     (case tr of
        Some t \<Rightarrow> Inr t
      | None \<Rightarrow>
          (case db_OpenStorageTrie D ah root of
             Inr t \<Rightarrow> Inr t
           | Inl err \<Rightarrow> (case db_OpenStorageTrie D ah zeroHash of Inl _ \<Rightarrow> Inl NilDeref | Inr t \<Rightarrow> Inr t)))"

definition read_slot :: "'t database \<Rightarrow> 't \<Rightarrow> hash \<Rightarrow> hash panics" where
  "read_slot D t key =
     (case fst (api_TryGet (db_trie D) t key) of
        Inl e \<Rightarrow> Inr zeroHash
      | Inr enc \<Rightarrow> go_bind (decode_slot enc) (\<lambda>(err, v). Inr v))"

definition slot_of :: "'t database \<Rightarrow> (hash \<rightharpoonup> hash) \<Rightarrow> 't panics \<Rightarrow> hash \<Rightarrow> hash panics" where
  "slot_of D cached st key = (case cached key of Some v \<Rightarrow> Inr v | None \<Rightarrow> go_bind st (\<lambda>t. read_slot D t key))"

definition code_of :: "'t database \<Rightarrow> hash \<Rightarrow> bytes option \<Rightarrow> bytes \<Rightarrow> bytes option" where
  "code_of D ah code h =
     (case code of
        Some c \<Rightarrow> Some c
      | None \<Rightarrow>
          if h = emptyCodeHash D then None
          else (case db_ContractCode D ah (BytesToHash h) of Inl e \<Rightarrow> None | Inr c \<Rightarrow> Some c))"

record oview =
  ov_data :: Account
  ov_suicided :: bool
  ov_code :: "bytes option"
  ov_slot :: "hash \<Rightarrow> hash panics"

definition obj_storage :: "'t database \<Rightarrow> 't stateObject \<Rightarrow> 't panics" where
  "obj_storage D c = storage_of D (o_trie c) (o_addrHash c) (Root (o_data c))"

definition obj_view :: "'t database \<Rightarrow> 't stateObject \<Rightarrow> oview" where
  "obj_view D c = \<lparr>ov_data = o_data c, ov_suicided = o_suicided c,
     ov_code = code_of D (o_addrHash c) (o_code c) (CodeHash (o_data c)),
     ov_slot = slot_of D (map_of (o_cachedStorage c)) (obj_storage D c)\<rparr>"

definition base :: "'t database \<Rightarrow> 't \<Rightarrow> address \<Rightarrow> oview option" where
  "base D t addr =
     (case fst (api_TryGet (db_trie D) t addr) of
        Inl e \<Rightarrow> None
      | Inr None \<Rightarrow> None
      | Inr (Some b) \<Rightarrow>
          if length b = 0 then None
          else map_option (\<lambda>data. obj_view D (newObject D addr data True)) (decode_account b))"

definition acct_of :: "'t database \<Rightarrow> (address \<rightharpoonup> 't stateObject) \<Rightarrow> (address \<Rightarrow> oview option) \<Rightarrow> address \<Rightarrow> oview option" where
  "acct_of D objs bs addr =
     (case objs addr of
        Some c \<Rightarrow> if o_deleted c then None else Some (obj_view D c)
      | None \<Rightarrow> bs addr)"

definition acct :: "'t database \<Rightarrow> 't StateDB \<Rightarrow> address \<Rightarrow> oview option" where
  "acct D s = acct_of D (map_of (s_objects s)) (base D (s_trie s))"

record aview =
  av_acct :: "address \<Rightarrow> oview option"
  av_base :: "address \<Rightarrow> oview option"
  av_refund :: int
  av_logs :: "hash \<Rightarrow> Log list option"
  av_logSize :: u64
  av_preimages :: "hash \<Rightarrow> bytes option"

definition view :: "'t database \<Rightarrow> 't StateDB \<Rightarrow> aview" where
  "view D s = \<lparr>av_acct = acct D s, av_base = base D (s_trie s), av_refund = s_refund s, av_logs = map_of (s_logs s),
     av_logSize = s_logSize s, av_preimages = map_of (s_preimages s)\<rparr>"

section \<open>Invariants\<close>

definition state_inv :: "'t database \<Rightarrow> 't StateDB \<Rightarrow> bool" where
  "state_inv D s \<longleftrightarrow>
     (\<forall>a c. map_of (s_objects s) a = Some c \<longrightarrow>
        o_address c = a \<and> o_addrHash c = db_keccak D a \<and> (o_deleted c \<longrightarrow> base D (s_trie s) a = None) \<and> length (CodeHash (o_data c)) = 32) \<and>
     (\<forall>a v. base D (s_trie s) a = Some v \<longrightarrow> length (CodeHash (ov_data v)) = 32) \<and>
     (\<forall>h. map_of (s_logs s) h \<noteq> Some [])"

definition revisions_ok :: "'t StateDB \<Rightarrow> bool" where
  "revisions_ok s \<longleftrightarrow> sorted_wrt (<) (map fst (s_validRevisions s)) \<and>
     (\<forall>(id, j) \<in> set (s_validRevisions s). id < s_nextRevisionId s \<and> j \<le> length (s_journal s))"

fun entry_ok :: "'t database \<Rightarrow> 't stateObject journalEntry \<Rightarrow> bool" where
  "entry_ok D (ResetObjectChange c) \<longleftrightarrow>
     \<not> o_deleted c \<and> o_addrHash c = db_keccak D (o_address c) \<and> length (CodeHash (o_data c)) = 32"
| "entry_ok D _ \<longleftrightarrow> True"

section \<open>Undoing on views\<close>

definition aupdate :: "address \<Rightarrow> (oview \<Rightarrow> oview) \<Rightarrow> aview \<Rightarrow> aview panics" where
  "aupdate a g v = (case av_acct v a of None \<Rightarrow> Inl NilDeref | Some x \<Rightarrow> Inr (v\<lparr>av_acct := (av_acct v)(a \<mapsto> g x)\<rparr>))"

definition aundo_log :: "hash \<Rightarrow> aview \<Rightarrow> aview panics" where
  "aundo_log h v =
     (let logs = (case av_logs v h of None \<Rightarrow> [] | Some ls \<Rightarrow> ls)
      in if length logs = 0 then Inl SliceBounds
         else Inr (v\<lparr>av_logs := (av_logs v)(h := if length logs = 1 then None else Some (butlast logs)), av_logSize := av_logSize v - 1\<rparr>))"

fun aundo :: "'t database \<Rightarrow> 't stateObject journalEntry \<Rightarrow> aview \<Rightarrow> aview panics" where
  "aundo D (CreateObjectChange a) v = Inr (v\<lparr>av_acct := (av_acct v)(a := av_base v a)\<rparr>)"
| "aundo D (ResetObjectChange c) v = Inr (v\<lparr>av_acct := (av_acct v)(o_address c \<mapsto> obj_view D c)\<rparr>)"
| "aundo D (SuicideChange a prev bal) v =
     (case av_acct v a of
        None \<Rightarrow> Inr v
      | Some x \<Rightarrow> Inr (v\<lparr>av_acct := (av_acct v)(a \<mapsto> x\<lparr>ov_suicided := prev, ov_data := (ov_data x)\<lparr>Balance := bal\<rparr>\<rparr>)\<rparr>))"
| "aundo D (TouchChange a prev prevDirty) v =
     (if \<not> prev \<and> a \<noteq> ripemd \<and> av_acct v a = None then Inl NilDeref else Inr v)"
| "aundo D (RecordChange a rs) v = aupdate a (\<lambda>x. x\<lparr>ov_data := (ov_data x)\<lparr>Records := rs\<rparr>\<rparr>) v"
| "aundo D (BalanceChange a b) v = aupdate a (\<lambda>x. x\<lparr>ov_data := (ov_data x)\<lparr>Balance := b\<rparr>\<rparr>) v"
| "aundo D (ContributionChange a b) v = aupdate a (\<lambda>x. x\<lparr>ov_data := (ov_data x)\<lparr>Contribution := b\<rparr>\<rparr>) v"
| "aundo D (NonceChange a n) v = aupdate a (\<lambda>x. x\<lparr>ov_data := (ov_data x)\<lparr>Nonce := n\<rparr>\<rparr>) v"
| "aundo D (CodeChange a code h) v =
     aupdate a (\<lambda>x. x\<lparr>ov_data := (ov_data x)\<lparr>CodeHash := BytesToHash h\<rparr>, ov_code := code_of D (db_keccak D a) code (BytesToHash h)\<rparr>) v"
| "aundo D (StorageChange a k x) v = aupdate a (\<lambda>y. y\<lparr>ov_slot := (ov_slot y)(k := Inr x)\<rparr>) v"
| "aundo D (RefundChange g) v = Inr (v\<lparr>av_refund := g\<rparr>)"
| "aundo D (AddLogChange h) v = aundo_log h v"
| "aundo D (AddPreimageChange h) v = Inr (v\<lparr>av_preimages := (av_preimages v)(h := None)\<rparr>)"


fun aundo_all :: "'t database \<Rightarrow> 't stateObject journalEntry list \<Rightarrow> aview \<Rightarrow> aview panics" where
  "aundo_all D [] v = Inr v"
| "aundo_all D (e # es) v = go_bind (aundo D e v) (aundo_all D es)"

lemma aundo_all_append: "aundo_all D (es @ fs) v = go_bind (aundo_all D es v) (aundo_all D fs)"
proof (induction es arbitrary: v)
  case (Cons e es)
  then show ?case by (cases "aundo D e v") simp_all
qed simp

text \<open>The parts of the state that the journal is about, apart from the view.\<close>

definition frame :: "'t StateDB \<Rightarrow> 't stateObject journalEntry list \<times> (nat \<times> nat) list \<times> nat" where
  "frame s = (s_journal s, s_validRevisions s, s_nextRevisionId s)"

section \<open>Objects\<close>

lemma obj_setError_fields [simp]:
  "o_trie (obj_setError e c) = o_trie c" "o_cachedStorage (obj_setError e c) = o_cachedStorage c"
  "o_data (obj_setError e c) = o_data c" "o_code (obj_setError e c) = o_code c" "o_address (obj_setError e c) = o_address c"
  "o_addrHash (obj_setError e c) = o_addrHash c" "o_suicided (obj_setError e c) = o_suicided c"
  "o_deleted (obj_setError e c) = o_deleted c" "o_onDirty (obj_setError e c) = o_onDirty c"
  by (simp_all add: obj_setError_def)

lemma setError_fields [simp]:
  "s_objects (setError e s) = s_objects s" "s_trie (setError e s) = s_trie s" "s_thash (setError e s) = s_thash s"
  "frame (setError e s) = frame s" "view D (setError e s) = view D s" "state_inv D (setError e s) = state_inv D s"
  by (simp_all add: setError_def frame_def view_def acct_def state_inv_def)

lemma getTrie_cases:
  "(\<exists>p. getTrie D c = Inl p \<and> obj_storage D c = Inl p) \<or>
   (\<exists>t e. getTrie D c = Inr (t, e (c\<lparr>o_trie := Some t\<rparr>)) \<and> obj_storage D c = Inr t \<and> (e = id \<or> (\<exists>x. e = obj_setError x)))"
proof (cases "o_trie c")
  case (Some t)
  then have "getTrie D c = Inr (t, id (c\<lparr>o_trie := Some t\<rparr>))" "obj_storage D c = Inr t"
    by (simp_all add: getTrie_def obj_storage_def storage_of_def)
  then show ?thesis by blast
next
  case None
  show ?thesis
  proof (cases "db_OpenStorageTrie D (o_addrHash c) (Root (o_data c))")
    case (Inr t)
    then have "getTrie D c = Inr (t, id (c\<lparr>o_trie := Some t\<rparr>))" "obj_storage D c = Inr t"
      using None by (simp_all add: getTrie_def obj_storage_def storage_of_def)
    then show ?thesis by blast
  next
    case (Inl err)
    then show ?thesis
      using None by (cases "db_OpenStorageTrie D (o_addrHash c) zeroHash")
        (auto simp: getTrie_def obj_storage_def storage_of_def)
  qed
qed

text \<open>Setters on an object, as they act on its view.\<close>

lemma view_onDirty: "obj_onDirty (c, s) = (c', s') \<Longrightarrow>
    obj_view D c' = obj_view D c \<and> o_address c' = o_address c \<and> o_addrHash c' = o_addrHash c \<and> o_deleted c' = o_deleted c
    \<and> o_data c' = o_data c \<and> s_objects s' = s_objects s \<and> s_trie s' = s_trie s \<and> view D s' = view D s \<and> frame s' = frame s"
  by (auto simp: obj_onDirty_def MarkStateObjectDirty_def view_def acct_def frame_def obj_view_def obj_storage_def
      split: if_splits)

lemma view_data:
  "Root (o_data c) = Root d \<Longrightarrow> CodeHash (o_data c) = CodeHash d \<Longrightarrow>
     obj_view D (c\<lparr>o_data := d\<rparr>) = (obj_view D c)\<lparr>ov_data := d\<rparr>"
  by (simp add: obj_view_def obj_storage_def)

lemma slot_of_update: "slot_of D (m(k \<mapsto> x)) st = (slot_of D m st)(k := Inr x)"
  by (simp add: slot_of_def fun_eq_iff)

lemma view_slot:
  "obj_view D (c\<lparr>o_cachedStorage := AList.update k x (o_cachedStorage c), o_dirtyStorage := ds\<rparr>)
    = (obj_view D c)\<lparr>ov_slot := (ov_slot (obj_view D c))(k := Inr x)\<rparr>"
  by (simp add: obj_view_def obj_storage_def update_conv' slot_of_update)

lemma view_code:
  "obj_view D (c\<lparr>o_code := code, o_data := (o_data c)\<lparr>CodeHash := h\<rparr>, o_dirtyCode := dc\<rparr>)
    = (obj_view D c)\<lparr>ov_data := (o_data c)\<lparr>CodeHash := h\<rparr>, ov_code := code_of D (o_addrHash c) code h\<rparr>"
  by (simp add: obj_view_def obj_storage_def)

lemma view_suicided: "obj_view D (c\<lparr>o_suicided := b\<rparr>) = (obj_view D c)\<lparr>ov_suicided := b\<rparr>"
  by (simp add: obj_view_def obj_storage_def)

lemma view_touched: "obj_view D (c\<lparr>o_touched := b\<rparr>) = obj_view D c"
  by (simp add: obj_view_def obj_storage_def)

lemma ov_data_view [simp]: "ov_data (obj_view D c) = o_data c" "ov_suicided (obj_view D c) = o_suicided c"
  by (simp_all add: obj_view_def)

lemma obj_view_setError [simp]: "obj_view D (obj_setError e c) = obj_view D c"
  by (simp add: obj_view_def obj_storage_def)

section \<open>The backend\<close>

text \<open>What is relied on: reads do not disturb later reads, and a hash has 32 bytes.\<close>

locale state_backend = trie_reader "db_trie D" for D :: "'t database" +
  assumes keccak_len: "length (db_keccak D b) = 32"
begin

lemma base_read [simp]: "base D (snd (api_TryGet (db_trie D) t k)) = base D t"
  by (simp add: base_def fun_eq_iff read_law)

lemma read_slot_read [simp]: "read_slot D (snd (api_TryGet (db_trie D) t k)) = read_slot D t"
  by (simp add: read_slot_def fun_eq_iff read_law)

text \<open>\<open>GetState\<close> returns the slot of the view and leaves the view as it is.\<close>

lemma GetState_view:
  "(\<exists>p. obj_GetState D k c = Inl p \<and> ov_slot (obj_view D c) k = Inl p) \<or>
   (\<exists>v c'. obj_GetState D k c = Inr (v, c') \<and> ov_slot (obj_view D c) k = Inr v \<and> obj_view D c' = obj_view D c
     \<and> o_address c' = o_address c \<and> o_addrHash c' = o_addrHash c \<and> o_deleted c' = o_deleted c)"
proof (cases "map_of (o_cachedStorage c) k")
  case (Some v)
  then show ?thesis by (simp add: obj_GetState_def obj_view_def slot_of_def)
next
  case None
  show ?thesis
  proof (cases "obj_storage D c")
    case (Inl p)
    then have "getTrie D c = Inl p" using getTrie_cases [of D c] by auto
    then show ?thesis using None Inl by (simp add: obj_GetState_def obj_view_def slot_of_def)
  next
    case (Inr t)
    then obtain e where e: "getTrie D c = Inr (t, e (c\<lparr>o_trie := Some t\<rparr>))" "e = id \<or> (\<exists>x. e = obj_setError x)"
      using getTrie_cases [of D c] by auto
    obtain r t' where rt: "api_TryGet (db_trie D) t k = (r, t')" by (cases "api_TryGet (db_trie D) t k")
    have rs: "read_slot D t' = read_slot D t" using read_slot_read [of t k] rt by simp
    define c1 where "c1 = (e (c\<lparr>o_trie := Some t\<rparr>))\<lparr>o_trie := Some t'\<rparr>"
    have st: "obj_storage D c1 = Inr t'" by (simp add: c1_def obj_storage_def storage_of_def)
    have sl: "slot_of D m (Inr t') = slot_of D m (Inr t)" for m using rs by (auto simp: slot_of_def fun_eq_iff split: option.split)
    have f1: "o_cachedStorage c1 = o_cachedStorage c" "o_data c1 = o_data c" "o_suicided c1 = o_suicided c"
      "o_code c1 = o_code c" "o_addrHash c1 = o_addrHash c" "o_address c1 = o_address c" "o_deleted c1 = o_deleted c"
      using e(2) by (auto simp: c1_def)
    have v1: "obj_view D c1 = obj_view D c" using f1 st Inr sl by (simp add: obj_view_def)
    have v2: "obj_view D (obj_setError x c1) = obj_view D c" for x
      using v1 by simp
    show ?thesis
    proof (cases r)
      case (Inl err)
      have "obj_GetState D k c = Inr (zeroHash, obj_setError (Some (StateTrieError err)) c1)"
        using None e(1) rt Inl by (simp add: obj_GetState_def c1_def)
      moreover have "ov_slot (obj_view D c) k = Inr zeroHash"
        using None Inr rt Inl by (simp add: obj_view_def slot_of_def read_slot_def)
      ultimately show ?thesis using v2 f1 by simp
    next
      case r: (Inr enc)
      show ?thesis
      proof (cases "decode_slot enc")
        case (Inl p)
        then show ?thesis
          using None e(1) rt r Inr by (simp add: obj_GetState_def obj_view_def slot_of_def read_slot_def)
      next
        case d: (Inr ev)
        obtain err v where ev: "ev = (err, v)" by (cases ev)
        define c2 where "c2 = (if err = None then c1 else obj_setError err c1)"
        define c3 where "c3 = (if v \<noteq> zeroHash then c2\<lparr>o_cachedStorage := AList.update k v (o_cachedStorage c2)\<rparr> else c2)"
        have g: "obj_GetState D k c = Inr (v, c3)"
          using None e(1) rt r d ev by (simp add: obj_GetState_def c1_def c2_def c3_def Let_def)
        have slot: "ov_slot (obj_view D c) k = Inr v"
          using None Inr rt r d ev by (simp add: obj_view_def slot_of_def read_slot_def)
        have c2: "obj_view D c2 = obj_view D c" "o_address c2 = o_address c" "o_addrHash c2 = o_addrHash c" "o_deleted c2 = o_deleted c"
          using v1 v2 f1 by (simp_all add: c2_def)
        have "obj_view D (c2\<lparr>o_cachedStorage := AList.update k v (o_cachedStorage c2)\<rparr>)
            = (obj_view D c2)\<lparr>ov_slot := (ov_slot (obj_view D c2))(k := Inr v)\<rparr>"
          by (simp add: obj_view_def obj_storage_def update_conv' slot_of_update)
        also have "\<dots> = obj_view D c" using c2(1) slot by (simp add: fun_upd_idem)
        finally have "obj_view D c3 = obj_view D c" using c2(1) by (simp add: c3_def)
        then show ?thesis using g slot c2 by (auto simp: c3_def)
      qed
    qed
  qed
qed

lemma Code_view:
  "obj_Code D c = (code, c') \<Longrightarrow> code = ov_code (obj_view D c) \<and> obj_view D c' = obj_view D c \<and> o_data c' = o_data c
     \<and> o_address c' = o_address c \<and> o_addrHash c' = o_addrHash c \<and> o_deleted c' = o_deleted c
     \<and> (code = None \<longrightarrow> o_code c' = None)"
  by (auto simp: obj_Code_def obj_view_def obj_storage_def code_of_def split: option.splits if_splits sum.splits)

section \<open>Live objects\<close>

lemma getStateObject_spec:
  assumes "state_inv D s" "getStateObject D a s = (r, s1)"
  shows "view D s1 = view D s" "frame s1 = frame s" "state_inv D s1" "s_thash s1 = s_thash s"
    "r = None \<Longrightarrow> acct D s a = None"
    "r = Some c \<Longrightarrow> map_of (s_objects s1) a = Some c \<and> \<not> o_deleted c \<and> o_address c = a \<and> o_addrHash c = db_keccak D a
       \<and> acct D s a = Some (obj_view D c) \<and> length (CodeHash (o_data c)) = 32"
proof -
  have "view D s1 = view D s \<and> frame s1 = frame s \<and> state_inv D s1 \<and> s_thash s1 = s_thash s \<and> (r = None \<longrightarrow> acct D s a = None)
    \<and> (\<forall>c. r = Some c \<longrightarrow> map_of (s_objects s1) a = Some c \<and> \<not> o_deleted c \<and> o_address c = a \<and> o_addrHash c = db_keccak D a
       \<and> acct D s a = Some (obj_view D c) \<and> length (CodeHash (o_data c)) = 32)"
  proof (cases "map_of (s_objects s) a")
    case (Some c)
    then show ?thesis
      using assms by (auto simp: getStateObject_def acct_def acct_of_def state_inv_def)
  next
    case None
    obtain q tr' where q: "api_TryGet (db_trie D) (s_trie s) a = (q, tr')" by (cases "api_TryGet (db_trie D) (s_trie s) a")
    have b: "base D tr' = base D (s_trie s)" using base_read [of "s_trie s" a] q by simp
    define s' where "s' = s\<lparr>s_trie := tr'\<rparr>"
    have s': "view D s' = view D s" "frame s' = frame s" "state_inv D s'" "s_thash s' = s_thash s"
      using b assms(1) by (simp_all add: s'_def view_def acct_def frame_def state_inv_def)
    have at: "acct D s a = base D (s_trie s) a" using None by (simp add: acct_def acct_of_def)
    show ?thesis
    proof (cases "\<exists>bt data. q = Inr (Some bt) \<and> length bt > 0 \<and> decode_account bt = Some data")
      case False
      then have "base D (s_trie s) a = None" "r = None" "s1 = s' \<or> (\<exists>x. s1 = setError x s')"
        using assms(2) None q
        by (auto simp: base_def getStateObject_def s'_def Let_def split: sum.splits option.splits if_splits)
      then show ?thesis using at s' by auto
    next
      case True
      then obtain bt data where bt: "q = Inr (Some bt)" "length bt > 0" "decode_account bt = Some data" by blast
      let ?o = "newObject D a data True"
      have r: "r = Some ?o" "s1 = setStateObject ?o s'"
        using assms(2) None q bt by (simp_all add: getStateObject_def s'_def Let_def)
      have ba: "base D (s_trie s) a = Some (obj_view D ?o)" using q bt by (simp add: base_def)
      have m: "map_of (s_objects s1) = (map_of (s_objects s))(a \<mapsto> ?o)"
        by (simp add: r(2) setStateObject_def s'_def newObject_def update_conv')
      have t: "base D (s_trie s1) = base D (s_trie s)" using b r(2) by (simp add: setStateObject_def s'_def)
      have "acct D s1 = acct D s"
        unfolding acct_def m t using ba None by (auto simp: acct_of_def fun_eq_iff newObject_def)
      moreover note t
      moreover have "length (CodeHash (ov_data (obj_view D ?o))) = 32" using assms(1) ba unfolding state_inv_def by blast
      then have "length (CodeHash data) = 32" by (simp add: newObject_def)
      ultimately show ?thesis
        using r m s' at ba assms(1) unfolding state_inv_def
        by (auto simp: view_def setStateObject_def frame_def s'_def newObject_def)
    qed
  qed
  then show "view D s1 = view D s" "frame s1 = frame s" "state_inv D s1" "s_thash s1 = s_thash s"
    "r = None \<Longrightarrow> acct D s a = None"
    "r = Some c \<Longrightarrow> map_of (s_objects s1) a = Some c \<and> \<not> o_deleted c \<and> o_address c = a \<and> o_addrHash c = db_keccak D a
       \<and> acct D s a = Some (obj_view D c) \<and> length (CodeHash (o_data c)) = 32"
    by blast+
qed


definition obj_ok :: "address \<Rightarrow> 't stateObject \<Rightarrow> bool" where
  "obj_ok a c \<longleftrightarrow> o_address c = a \<and> o_addrHash c = db_keccak D a \<and> \<not> o_deleted c \<and> length (CodeHash (o_data c)) = 32"

lemma setStateObject_spec:
  assumes "state_inv D s" "obj_ok a c"
  shows "view D (setStateObject c s) = (view D s)\<lparr>av_acct := (acct D s)(a \<mapsto> obj_view D c)\<rparr>"
    "frame (setStateObject c s) = frame s" "state_inv D (setStateObject c s)" "s_thash (setStateObject c s) = s_thash s"
    "map_of (s_objects (setStateObject c s)) = (map_of (s_objects s))(a \<mapsto> c)" "s_trie (setStateObject c s) = s_trie s"
proof -
  show m: "map_of (s_objects (setStateObject c s)) = (map_of (s_objects s))(a \<mapsto> c)"
    using assms(2) by (simp add: setStateObject_def update_conv' obj_ok_def)
  show t: "s_trie (setStateObject c s) = s_trie s" by (simp add: setStateObject_def)
  have "acct D (setStateObject c s) = (acct D s)(a \<mapsto> obj_view D c)"
    unfolding acct_def m t using assms(2) by (auto simp: acct_of_def obj_ok_def fun_eq_iff)
  then show "view D (setStateObject c s) = (view D s)\<lparr>av_acct := (acct D s)(a \<mapsto> obj_view D c)\<rparr>"
    by (simp add: view_def setStateObject_def)
  show "frame (setStateObject c s) = frame s" "s_thash (setStateObject c s) = s_thash s"
    by (simp_all add: setStateObject_def frame_def)
  show "state_inv D (setStateObject c s)"
    using assms unfolding state_inv_def m t by (auto simp: obj_ok_def setStateObject_def)
qed

text \<open>A method acts as \<open>g\<close> on the view of its object and leaves the rest of the view alone.\<close>

definition acts :: "address \<Rightarrow> 't obj_method \<Rightarrow> (oview \<Rightarrow> oview) \<Rightarrow> bool" where
  "acts a m g \<longleftrightarrow> (\<forall>c s c' s'. obj_ok a c \<longrightarrow> state_inv D s \<longrightarrow> m (c, s) = (c', s') \<longrightarrow>
     obj_ok a c' \<and> obj_view D c' = g (obj_view D c) \<and> view D s' = view D s \<and> state_inv D s' \<and> frame s' = frame s
     \<and> s_thash s' = s_thash s)"

lemma state_inv_cong: "s_objects s' = s_objects s \<Longrightarrow> s_trie s' = s_trie s \<Longrightarrow> s_logs s' = s_logs s \<Longrightarrow> state_inv D s' = state_inv D s"
  by (simp add: state_inv_def)

lemma onDirty_acts:
  assumes "obj_onDirty (c, s) = (c', s')" "obj_ok a c" "state_inv D s"
  shows "obj_ok a c'" "obj_view D c' = obj_view D c" "view D s' = view D s" "state_inv D s'" "frame s' = frame s" "s_thash s' = s_thash s"
  using view_onDirty [OF assms(1)] assms state_inv_cong [of s' s]
  by (auto simp: obj_ok_def obj_onDirty_def MarkStateObjectDirty_def split: if_splits)

lemma actsI:
  assumes "\<And>c s. m (c, s) = obj_onDirty (f c, s)" "\<And>c. obj_ok a c \<Longrightarrow> obj_ok a (f c)"
    "\<And>c. obj_ok a c \<Longrightarrow> obj_view D (f c) = g (obj_view D c)"
  shows "acts a m g"
  unfolding acts_def using assms onDirty_acts by metis

lemma acts_setters:
  "acts a (obj_setBalance b) (\<lambda>x. x\<lparr>ov_data := (ov_data x)\<lparr>Balance := b\<rparr>\<rparr>)"
  "acts a (obj_setContribution b) (\<lambda>x. x\<lparr>ov_data := (ov_data x)\<lparr>Contribution := b\<rparr>\<rparr>)"
  "acts a (obj_setNonce n) (\<lambda>x. x\<lparr>ov_data := (ov_data x)\<lparr>Nonce := n\<rparr>\<rparr>)"
  "acts a (obj_setRecords rs) (\<lambda>x. x\<lparr>ov_data := (ov_data x)\<lparr>Records := rs\<rparr>\<rparr>)"
  "acts a (obj_setState k x) (\<lambda>y. y\<lparr>ov_slot := (ov_slot y)(k := Inr x)\<rparr>)"
  "length h = 32 \<Longrightarrow> acts a (obj_setCode h code)
     (\<lambda>x. x\<lparr>ov_data := (ov_data x)\<lparr>CodeHash := h\<rparr>, ov_code := code_of D (db_keccak D a) code h\<rparr>)"
proof -
  show "length h = 32 \<Longrightarrow> acts a (obj_setCode h code)
      (\<lambda>x. x\<lparr>ov_data := (ov_data x)\<lparr>CodeHash := h\<rparr>, ov_code := code_of D (db_keccak D a) code h\<rparr>)"
    by (rule actsI [where f = "\<lambda>c. c\<lparr>o_code := code, o_data := (o_data c)\<lparr>CodeHash := h\<rparr>, o_dirtyCode := True\<rparr>"])
      (simp_all add: obj_setCode_def obj_ok_def view_code)
  show "acts a (obj_setBalance b) (\<lambda>x. x\<lparr>ov_data := (ov_data x)\<lparr>Balance := b\<rparr>\<rparr>)"
    by (rule actsI [where f = "\<lambda>c. c\<lparr>o_data := (o_data c)\<lparr>Balance := b\<rparr>\<rparr>"])
      (simp_all add: obj_setBalance_def obj_ok_def view_data)
  show "acts a (obj_setContribution b) (\<lambda>x. x\<lparr>ov_data := (ov_data x)\<lparr>Contribution := b\<rparr>\<rparr>)"
    by (rule actsI [where f = "\<lambda>c. c\<lparr>o_data := (o_data c)\<lparr>Contribution := b\<rparr>\<rparr>"])
      (simp_all add: obj_setContribution_def obj_ok_def view_data)
  show "acts a (obj_setNonce n) (\<lambda>x. x\<lparr>ov_data := (ov_data x)\<lparr>Nonce := n\<rparr>\<rparr>)"
    by (rule actsI [where f = "\<lambda>c. c\<lparr>o_data := (o_data c)\<lparr>Nonce := n\<rparr>\<rparr>"])
      (simp_all add: obj_setNonce_def obj_ok_def view_data)
  show "acts a (obj_setRecords rs) (\<lambda>x. x\<lparr>ov_data := (ov_data x)\<lparr>Records := rs\<rparr>\<rparr>)"
    by (rule actsI [where f = "\<lambda>c. c\<lparr>o_data := (o_data c)\<lparr>Records := rs\<rparr>\<rparr>"])
      (simp_all add: obj_setRecords_def obj_ok_def view_data)
  show "acts a (obj_setState k x) (\<lambda>y. y\<lparr>ov_slot := (ov_slot y)(k := Inr x)\<rparr>)"
    by (rule actsI [where f = "\<lambda>c. c\<lparr>o_cachedStorage := AList.update k x (o_cachedStorage c),
          o_dirtyStorage := AList.update k x (o_dirtyStorage c)\<rparr>"])
      (simp_all add: obj_setState_def obj_ok_def view_slot)
qed

lemma on_existing_spec:
  assumes "state_inv D s" "acts a m g"
  shows "case on_existing D a m s of
      Inl p \<Rightarrow> aupdate a g (view D s) = Inl p
    | Inr s' \<Rightarrow> aupdate a g (view D s) = Inr (view D s') \<and> state_inv D s' \<and> frame s' = frame s \<and> s_thash s' = s_thash s"
proof -
  obtain r s1 where g1: "getStateObject D a s = (r, s1)" by (cases "getStateObject D a s")
  note gs = getStateObject_spec [OF assms(1) g1]
  show ?thesis
  proof (cases r)
    case None
    then show ?thesis using g1 gs(5) by (simp add: on_existing_def aupdate_def view_def)
  next
    case (Some c)
    have c: "obj_ok a c" "acct D s a = Some (obj_view D c)" using gs(6) [OF Some] by (simp_all add: obj_ok_def)
    obtain c' s2 where m: "m (c, s1) = (c', s2)" by (cases "m (c, s1)")
    have a: "obj_ok a c'" "obj_view D c' = g (obj_view D c)" "view D s2 = view D s1" "state_inv D s2" "frame s2 = frame s1"
        "s_thash s2 = s_thash s1"
      using assms(2) c(1) gs(3) m unfolding acts_def by blast+
    note p = setStateObject_spec [OF a(4,1)]
    have "acct D s2 = acct D s" using a(3) gs(1) by (simp add: view_def)
    then show ?thesis
      using g1 Some m p a gs c(2) by (simp add: on_existing_def aupdate_def view_def)
  qed
qed


section \<open>Undoing refines undoing on views\<close>

definition undo_ok :: "'t StateDB \<Rightarrow> 't StateDB panics \<Rightarrow> aview panics \<Rightarrow> bool" where
  "undo_ok s r ar \<longleftrightarrow> (case r of
      Inl p \<Rightarrow> ar = Inl p
    | Inr s' \<Rightarrow> ar = Inr (view D s') \<and> state_inv D s' \<and> frame s' = frame s \<and> s_thash s' = s_thash s)"

lemma on_existing_ok:
  "state_inv D s \<Longrightarrow> acts a m g \<Longrightarrow> undo_ok s (on_existing D a m s) (aupdate a g (view D s))"
  using on_existing_spec [of s a m g] by (simp add: undo_ok_def split: sum.splits)

lemma undo_ok_same:
  "state_inv D s \<Longrightarrow> s_objects s' = s_objects s \<Longrightarrow> s_trie s' = s_trie s \<Longrightarrow> s_logs s' = s_logs s \<Longrightarrow> frame s' = frame s \<Longrightarrow> s_thash s' = s_thash s \<Longrightarrow>
     ar = Inr (view D s') \<Longrightarrow> undo_ok s (Inr s') ar"
  by (simp add: undo_ok_def state_inv_cong [of s' s])

lemma undo_spec:
  assumes "state_inv D s" "entry_ok D e"
  shows "undo_ok s (undo D e s) (aundo D e (view D s))"
proof (cases e)
  case (CreateObjectChange a)
  let ?s = "createObjectChange_undo a s"
  have m: "map_of (s_objects ?s) = (map_of (s_objects s))(a := None)" "s_trie ?s = s_trie s"
    by (simp_all add: createObjectChange_undo_def delete_conv')
  have "acct D ?s = (acct D s)(a := base D (s_trie s) a)"
    unfolding acct_def m by (simp add: acct_of_def fun_eq_iff)
  moreover have "state_inv D ?s" using assms(1) unfolding state_inv_def m by (auto simp: createObjectChange_undo_def)
  ultimately show ?thesis
    using CreateObjectChange by (simp add: undo_ok_def view_def createObjectChange_undo_def frame_def)
next
  case (ResetObjectChange c)
  then have "obj_ok (o_address c) c" using assms(2) by (simp add: obj_ok_def)
  note p = setStateObject_spec [OF assms(1) this]
  show ?thesis using ResetObjectChange p by (simp add: undo_ok_def view_def)
next
  case (SuicideChange a prev bal)
  let ?m = "\<lambda>(c, s). obj_setBalance bal (c\<lparr>o_suicided := prev\<rparr>, s)"
  let ?g = "\<lambda>x. x\<lparr>ov_suicided := prev, ov_data := (ov_data x)\<lparr>Balance := bal\<rparr>\<rparr>"
  have m: "acts a ?m ?g"
    by (rule actsI [where f = "\<lambda>c. c\<lparr>o_suicided := prev, o_data := (o_data c)\<lparr>Balance := bal\<rparr>\<rparr>"])
      (simp_all add: obj_setBalance_def obj_ok_def obj_view_def obj_storage_def)
  obtain r s1 where g1: "getStateObject D a s = (r, s1)" by (cases "getStateObject D a s")
  note gs = getStateObject_spec [OF assms(1) g1]
  show ?thesis
  proof (cases r)
    case None
    then show ?thesis
      using SuicideChange g1 gs by (simp add: undo_ok_def suicideChange_undo_def view_def)
  next
    case (Some c)
    have "on_existing D a ?m s = Inr (suicideChange_undo D a prev bal s)"
      using g1 Some by (simp add: on_existing_def suicideChange_undo_def split: prod.split)
    then have "undo_ok s (Inr (suicideChange_undo D a prev bal s)) (aupdate a ?g (view D s))"
      using on_existing_ok [OF assms(1) m] by simp
    moreover have "aupdate a ?g (view D s) = aundo D e (view D s)"
      using gs(6) [OF Some] SuicideChange by (simp add: aupdate_def view_def)
    ultimately show ?thesis using SuicideChange by simp
  qed
next
  case (TouchChange a prev prevDirty)
  have m: "acts a (\<lambda>(c, s). (c\<lparr>o_touched := prev\<rparr>, s)) (\<lambda>x. x)"
    by (auto simp: acts_def obj_ok_def view_touched)
  show ?thesis
  proof (cases "\<not> prev \<and> a \<noteq> ripemd")
    case False
    then show ?thesis using TouchChange assms(1) by (auto simp: undo_ok_def touchChange_undo_def)
  next
    case True
    let ?r = "on_existing D a (\<lambda>(c, s). (c\<lparr>o_touched := prev\<rparr>, s)) s"
    note ok = on_existing_ok [OF assms(1) m]
    have id: "aupdate a (\<lambda>x. x) (view D s) = (if av_acct (view D s) a = None then Inl NilDeref else Inr (view D s))"
      by (auto simp: aupdate_def view_def fun_upd_idem split: option.split)
    show ?thesis
    proof (cases ?r)
      case (Inl p)
      then show ?thesis using ok id True TouchChange by (simp add: undo_ok_def touchChange_undo_def split: if_splits)
    next
      case (Inr s')
      define s2 where "s2 = (if \<not> prevDirty then s'\<lparr>s_dirty := remove1 a (s_dirty s')\<rparr> else s')"
      have "view D s2 = view D s'" "state_inv D s2 = state_inv D s'" "frame s2 = frame s'" "s_thash s2 = s_thash s'"
        by (simp_all add: s2_def view_def acct_def state_inv_def frame_def)
      then show ?thesis
        using ok id True TouchChange Inr by (simp add: undo_ok_def touchChange_undo_def s2_def [symmetric] split: if_splits)
    qed
  qed
next
  case (AddLogChange h)
  have "butlast ls = [] \<Longrightarrow> ls \<noteq> [] \<Longrightarrow> length ls = Suc 0" for ls :: "Log list" by (cases ls) (auto split: if_splits)
  then show ?thesis
    using assms(1) AddLogChange
    by (auto simp: undo_ok_def addLogChange_undo_def aundo_log_def view_def acct_def state_inv_def frame_def Let_def
        update_conv' delete_conv' split: option.splits)
next
  case (RefundChange g)
  then show ?thesis using assms(1) by (auto intro!: undo_ok_same simp: view_def acct_def frame_def)
next
  case (AddPreimageChange h)
  then show ?thesis using assms(1) by (auto intro!: undo_ok_same simp: view_def acct_def frame_def delete_conv')
qed (use assms acts_setters in \<open>auto intro: on_existing_ok\<close>)

lemma undo_all_spec:
  "state_inv D s \<Longrightarrow> \<forall>e \<in> set es. entry_ok D e \<Longrightarrow> undo_ok s (undo_all D es s) (aundo_all D es (view D s))"
proof (induction es arbitrary: s)
  case (Cons e es)
  have e: "undo_ok s (undo D e s) (aundo D e (view D s))" using undo_spec Cons.prems by simp
  show ?case
  proof (cases "undo D e s")
    case (Inl p)
    then show ?thesis using e by (simp add: undo_ok_def)
  next
    case (Inr s')
    then have s': "aundo D e (view D s) = Inr (view D s')" "state_inv D s'" "frame s' = frame s" "s_thash s' = s_thash s"
      using e by (simp_all add: undo_ok_def)
    have "undo_ok s' (undo_all D es s') (aundo_all D es (view D s'))" using Cons.IH [OF s'(2)] Cons.prems by simp
    then show ?thesis using Inr s' by (auto simp: undo_ok_def split: sum.splits)
  qed
qed (simp add: undo_ok_def)

end

end
