(* ===== verification/Secure_Trie.thy ===== *)
theory Secure_Trie
  imports Trie_Entries Trie_Service "HOL-Library.AList"
begin

text \<open>
  The secure trie, \<^verbatim>\<open>pkg/trie/secure_trie.go\<close>: a trie whose keys are hashed, with a cache of the
  preimages of the hashes that \<open>CommitTo\<close> writes to the database. The cache is an association list,
  whose order stands for the order in which Go iterates over the map; the pointer that marks the
  owner of the cache is a flag, which \<open>Copy\<close> clears. Shown: on a set of keys on which the hash has no
  collision, a secure trie is a map, and \<open>GetKey\<close> gives back the keys that were stored.
\<close>

section \<open>Definitions\<close>

record SecureTrie =
  sct_trie :: trie
  sct_secKeyCache :: "(bytes \<times> bytes) list"
  sct_owned :: bool

definition secureKeyPrefix :: bytes where
  "secureKeyPrefix = map of_char ''secure-key-''"

text \<open>A nil database, on which \<open>NewSecure\<close> panics, is \<open>None\<close>.\<close>

definition NewSecure :: "hash \<Rightarrow> (bytes \<rightharpoonup> bytes) option \<Rightarrow> u16 \<Rightarrow> trie_error + SecureTrie" where
  "NewSecure root db cachelimit =
     (case db of
        None \<Rightarrow> Inl TriePanic
      | Some d \<Rightarrow> go_bind (trie_New root d) (\<lambda>trie.
          Inr \<lparr>sct_trie = SetCacheLimit cachelimit trie, sct_secKeyCache = [], sct_owned = False\<rparr>))"

definition secKey :: "bytes \<Rightarrow> bytes" where
  "secKey key = secureKeyPrefix @ key"

definition hashKey :: "(bytes \<Rightarrow> bytes) \<Rightarrow> bytes \<Rightarrow> bytes" where
  "hashKey keccak key = keccak key"

definition getSecKeyCache :: "SecureTrie \<Rightarrow> SecureTrie" where
  "getSecKeyCache t = (if sct_owned t then t else t\<lparr>sct_owned := True, sct_secKeyCache := []\<rparr>)"

definition sec_TryGet :: "(bytes \<Rightarrow> bytes) \<Rightarrow> SecureTrie \<Rightarrow> bytes \<Rightarrow> (bytes option \<times> SecureTrie) trie_result" where
  "sec_TryGet keccak t key =
     out_bind (TryGet (sct_trie t) (hashKey keccak key)) (\<lambda>(v, tr). Some (Inr (v, t\<lparr>sct_trie := tr\<rparr>)))"

definition sec_TryUpdate :: "(bytes \<Rightarrow> bytes) \<Rightarrow> SecureTrie \<Rightarrow> bytes \<Rightarrow> bytes \<Rightarrow> SecureTrie trie_result" where
  "sec_TryUpdate keccak t key value =
     (let hk = hashKey keccak key in
      out_bind (TryUpdate (sct_trie t) hk value) (\<lambda>tr.
        let t1 = getSecKeyCache (t\<lparr>sct_trie := tr\<rparr>)
        in Some (Inr (t1\<lparr>sct_secKeyCache := AList.update hk key (sct_secKeyCache t1)\<rparr>))))"

text \<open>A deletion forgets the preimage first, whether or not it succeeds then.\<close>

definition sec_forget :: "(bytes \<Rightarrow> bytes) \<Rightarrow> SecureTrie \<Rightarrow> bytes \<Rightarrow> SecureTrie" where
  "sec_forget keccak t key =
     (let t1 = getSecKeyCache t in t1\<lparr>sct_secKeyCache := AList.delete (hashKey keccak key) (sct_secKeyCache t1)\<rparr>)"

definition sec_TryDelete :: "(bytes \<Rightarrow> bytes) \<Rightarrow> SecureTrie \<Rightarrow> bytes \<Rightarrow> SecureTrie trie_result" where
  "sec_TryDelete keccak t key =
     (let t1 = sec_forget keccak t key in
      out_bind (TryDelete (sct_trie t1) (hashKey keccak key)) (\<lambda>tr. Some (Inr (t1\<lparr>sct_trie := tr\<rparr>))))"

text \<open>\<open>Get\<close>, \<open>Update\<close> and \<open>Delete\<close> log an error and go on; a panic is not caught.\<close>

definition logged :: "'a \<Rightarrow> 'a trie_result \<Rightarrow> 'a trie_result" where
  "logged a r = (case r of Some (Inl e) \<Rightarrow> if e = TriePanic then r else Some (Inr a) | _ \<Rightarrow> r)"

definition sec_Get :: "(bytes \<Rightarrow> bytes) \<Rightarrow> SecureTrie \<Rightarrow> bytes \<Rightarrow> (bytes option \<times> SecureTrie) trie_result" where
  "sec_Get keccak t key = logged (None, t) (sec_TryGet keccak t key)"

definition sec_Update :: "(bytes \<Rightarrow> bytes) \<Rightarrow> SecureTrie \<Rightarrow> bytes \<Rightarrow> bytes \<Rightarrow> SecureTrie trie_result" where
  "sec_Update keccak t key value = logged t (sec_TryUpdate keccak t key value)"

definition sec_Delete :: "(bytes \<Rightarrow> bytes) \<Rightarrow> SecureTrie \<Rightarrow> bytes \<Rightarrow> SecureTrie trie_result" where
  "sec_Delete keccak t key = logged (sec_forget keccak t key) (sec_TryDelete keccak t key)"

definition sec_GetKey :: "SecureTrie \<Rightarrow> bytes \<Rightarrow> bytes option \<times> SecureTrie" where
  "sec_GetKey t shaKey =
     (let t1 = getSecKeyCache t in
      (case map_of (sct_secKeyCache t1) shaKey of
         Some key \<Rightarrow> Some key
       | None \<Rightarrow> t_db (sct_trie t1) (secKey shaKey), t1))"

definition sec_Hash :: "(bytes \<Rightarrow> bytes) \<Rightarrow> SecureTrie \<Rightarrow> trie_error + hash \<times> SecureTrie" where
  "sec_Hash keccak t = go_bind (trie_Hash keccak (sct_trie t)) (\<lambda>(h, tr). Inr (h, t\<lparr>sct_trie := tr\<rparr>))"

definition sec_Copy :: "SecureTrie \<Rightarrow> SecureTrie" where
  "sec_Copy t = t\<lparr>sct_owned := False\<rparr>"

definition sec_NodeIterator :: "(bytes \<Rightarrow> bytes) \<Rightarrow> SecureTrie \<Rightarrow> bytes \<Rightarrow> (iter_panic, nodeIterator) outcome" where
  "sec_NodeIterator keccak t start = trie_NodeIterator keccak (sct_trie t) start"

fun put_preimages :: "('w \<Rightarrow> bytes \<Rightarrow> bytes \<Rightarrow> bool \<times> 'w) \<Rightarrow> (bytes \<times> bytes) list \<Rightarrow> 'w \<Rightarrow> bool \<times> 'w" where
  "put_preimages put [] w = (True, w)"
| "put_preimages put ((hk, key) # kvs) w =
     (let (ok, w1) = put w (secKey hk) key in if ok then put_preimages put kvs w1 else (False, w1))"

definition sec_CommitTo :: "(bytes \<Rightarrow> bytes) \<Rightarrow> ('w \<Rightarrow> bytes \<Rightarrow> bytes \<Rightarrow> bool \<times> 'w) \<Rightarrow> SecureTrie \<Rightarrow> 'w \<Rightarrow>
    (trie_error + hash) \<times> SecureTrie \<times> 'w" where
  "sec_CommitTo keccak put t w =
     (let t1 = getSecKeyCache t; (ok, w1) = put_preimages put (sct_secKeyCache t1) w
      in if \<not> ok then (Inl PutFailed, t1, w1)
         else
           (let (r, tr, w2) = trie_CommitTo keccak put (sct_trie t1) w1
            in (r, t1\<lparr>sct_secKeyCache := [], sct_trie := tr\<rparr>, w2)))"

section \<open>A secure trie is a map\<close>

text \<open>
  A secure trie holds a map on the keys of a set without collisions: its trie holds the values under
  the hashes of the keys. Which predicate holds of the cached flags is a parameter.
\<close>

definition secure_mapF :: "(bool \<Rightarrow> nodeFlag \<Rightarrow> ptrie \<Rightarrow> bool) \<Rightarrow> (bytes \<Rightarrow> bytes) \<Rightarrow> bytes set \<Rightarrow> SecureTrie \<Rightarrow> (bytes \<rightharpoonup> bytes) \<Rightarrow> bool" where
  "secure_mapF F K S t m \<longleftrightarrow> inj_on K S \<and> (\<exists>mh. trie_mapF F (sct_trie t) mh \<and> (\<forall>k \<in> S. m k = mh (K k)))"

lemma sct_trie_simps [simp]:
  "sct_trie (getSecKeyCache t) = sct_trie t"
  "sct_trie (sec_forget K t key) = sct_trie t"
  by (simp_all add: getSecKeyCache_def sec_forget_def Let_def)

lemma secure_mapFI:
  assumes "inj_on K S" "trie_mapF F (sct_trie t) mh" "\<And>k. k \<in> S \<Longrightarrow> m k = mh (K k)"
  shows "secure_mapF F K S t m"
  using assms by (auto simp: secure_mapF_def)

lemma secure_kv:
  assumes "\<And>t. flags_fresh F t"
  shows "kv_store (secure_mapF F K S) (sec_TryGet K) (sec_TryUpdate K) (sec_TryDelete K) (\<lambda>v. v = []) (\<lambda>k. k \<in> S)"
proof
  fix t m k v
  assume "secure_mapF F K S t m" and k: "k \<in> S"
  then obtain mh where mh: "inj_on K S" "trie_mapF F (sct_trie t) mh" "\<And>k. k \<in> S \<Longrightarrow> m k = mh (K k)"
    by (auto simp: secure_mapF_def)
  have kv: "kv_store (trie_mapF F) TryGet TryUpdate TryDelete (\<lambda>v. v = []) (\<lambda>_. True)"
    by (rule trie_mapF_kv) (rule assms)
  note kv = kv mh(2) TrueI
  have inj: "K k' = K k \<longleftrightarrow> k' = k" if "k' \<in> S" for k' using mh(1) k that by (auto dest: inj_onD)
  obtain tr where g: "TryGet (sct_trie t) (K k) = Some (Inr (mh (K k), tr))" "trie_mapF F tr mh"
    using kv_store.get_law [OF kv, of "K k"] by blast
  have "secure_mapF F K S (t\<lparr>sct_trie := tr\<rparr>) m"
    by (rule secure_mapFI [OF mh(1), where mh = mh]) (simp_all add: g mh(3))
  then show "\<exists>s'. sec_TryGet K t k = Some (Inr (m k, s')) \<and> secure_mapF F K S s' m"
    by (simp add: sec_TryGet_def hashKey_def g(1) mh(3) [OF k])
  let ?m = "if v = [] then mh(K k := None) else mh(K k \<mapsto> v)"
  obtain tr where u: "TryUpdate (sct_trie t) (K k) v = Some (Inr tr)" "trie_mapF F tr ?m"
    using kv_store.update_law [OF kv, of "K k" v] by blast
  have "secure_mapF F K S t1 (if v = [] then m(k := None) else m(k \<mapsto> v))" if "sct_trie t1 = tr" for t1
    by (rule secure_mapFI [OF mh(1), where mh = ?m]) (simp_all add: that u(2) inj mh(3))
  then show "\<exists>s'. sec_TryUpdate K t k v = Some (Inr s') \<and> secure_mapF F K S s' (if v = [] then m(k := None) else m(k \<mapsto> v))"
    by (simp add: sec_TryUpdate_def hashKey_def Let_def u(1))
  obtain tr where d: "TryDelete (sct_trie t) (K k) = Some (Inr tr)" "trie_mapF F tr (mh(K k := None))"
    using kv_store.delete_law [OF kv, of "K k"] by blast
  have "secure_mapF F K S t1 (m(k := None))" if "sct_trie t1 = tr" for t1
    by (rule secure_mapFI [OF mh(1), where mh = "mh(K k := None)"]) (simp_all add: that d(2) inj mh(3))
  then show "\<exists>s'. sec_TryDelete K t k = Some (Inr s') \<and> secure_mapF F K S s' (m(k := None))"
    by (simp add: sec_TryDelete_def hashKey_def Let_def d(1))
qed

interpretation sec_kv: kv_store "secure_mapF (hflag K) K S" "sec_TryGet K" "sec_TryUpdate K" "sec_TryDelete K" "\<lambda>v. v = []" "\<lambda>k. k \<in> S"
  by (rule secure_kv [OF hflag_fresh])

section \<open>The methods as a trie interface\<close>

text \<open>
  The methods in the interface of \<^verbatim>\<open>Trie_Service\<close>. A failed lookup or update leaves the trie as it is; a
  failed deletion has forgotten the preimage. \<open>Hash\<close> has no error: a failure is a panic, which a trie
  that represents a map does not reach.
\<close>

definition secure_api :: "(bytes \<Rightarrow> bytes) \<Rightarrow> SecureTrie trie_api" where
  "secure_api keccak =
     \<lparr>api_TryGet = (\<lambda>t k. case sec_TryGet keccak t k of Some (Inr (v, t')) \<Rightarrow> (Inr v, t') | Some (Inl e) \<Rightarrow> (Inl e, t) | None \<Rightarrow> (Inl TriePanic, t)),
      api_TryUpdate = (\<lambda>t k v. case sec_TryUpdate keccak t k v of Some (Inr t') \<Rightarrow> (None, t') | Some (Inl e) \<Rightarrow> (Some e, t) | None \<Rightarrow> (Some TriePanic, t)),
      api_TryDelete = (\<lambda>t k. let f = sec_forget keccak t k in
        case sec_TryDelete keccak t k of Some (Inr t') \<Rightarrow> (None, t') | Some (Inl e) \<Rightarrow> (Some e, f) | None \<Rightarrow> (Some TriePanic, f)),
      api_Hash = (\<lambda>t. case sec_Hash keccak t of Inr (h, t') \<Rightarrow> (h, t') | Inl _ \<Rightarrow> (zeroHash, t))\<rparr>"

lemma trie_Hash_hashed: "trie_hashed K t m \<Longrightarrow> \<exists>h t'. trie_Hash K t = Inr (h, t') \<and> trie_hashed K t' m"
  using trie_Hash_tree [of K t] unfolding trie_hashed_iff by (fastforce simp: full_key_def)

lemma secure_read:
  "fst (api_TryGet (secure_api K) t k) = fst (api_TryGet (trie_api_of h) (sct_trie t) (K k))"
  "sct_trie (snd (api_TryGet (secure_api K) t k)) = snd (api_TryGet (trie_api_of h) (sct_trie t) (K k))"
  by (cases "TryGet (sct_trie t) (K k)"; auto simp: secure_api_def trie_api_of_def sec_TryGet_def hashKey_def out_bind_def split: sum.splits)+

lemma secure_read_law: "fst (api_TryGet (secure_api K) (snd (api_TryGet (secure_api K) t k)) k') = fst (api_TryGet (secure_api K) t k')"
  unfolding secure_read [where h = "\<lambda>t. (zeroHash, t)"] by (rule trie_read_law)

definition secure_holds :: "(bytes \<Rightarrow> bytes) \<Rightarrow> bytes set \<Rightarrow> SecureTrie \<Rightarrow> (bytes \<rightharpoonup> bytes) \<Rightarrow> bool" where
  "secure_holds K = secure_mapF (hflag K) K"

lemma sec_Hash_holds:
  assumes "secure_holds K S t m"
  shows "\<exists>h t'. sec_Hash K t = Inr (h, t') \<and> secure_holds K S t' m"
proof -
  obtain mh where mh: "inj_on K S" "trie_hashed K (sct_trie t) mh" "\<And>k. k \<in> S \<Longrightarrow> m k = mh (K k)"
    using assms by (auto simp: secure_holds_def secure_mapF_def trie_hashed_def)
  then obtain h tr where h: "trie_Hash K (sct_trie t) = Inr (h, tr)" "trie_hashed K tr mh" using trie_Hash_hashed by blast
  then have "secure_holds K S (t\<lparr>sct_trie := tr\<rparr>) m"
    using mh unfolding secure_holds_def by (intro secure_mapFI [of K S _ _ mh]) (simp_all add: trie_hashed_def)
  then show ?thesis using h(1) by (simp add: sec_Hash_def)
qed

interpretation sec_srv: trie_service "secure_api K" "secure_holds K S" "\<lambda>k. k \<in> S"
proof
  fix t m k v
  show "fst (api_TryGet (secure_api K) (snd (api_TryGet (secure_api K) t' k)) k') = fst (api_TryGet (secure_api K) t' k')" for t' k'
    by (rule secure_read_law)
  assume m: "secure_holds K S t m"
  show "secure_holds K S (snd (api_Hash (secure_api K) t)) m"
    using sec_Hash_holds [OF m] by (auto simp: secure_api_def)
  assume k: "k \<in> S"
  note kv = m [unfolded secure_holds_def] k
  show "fst (api_TryGet (secure_api K) t k) = Inr (m k) \<and> secure_holds K S (snd (api_TryGet (secure_api K) t k)) m"
    using sec_kv.get_law [OF kv] by (auto simp: secure_api_def secure_holds_def)
  show "fst (api_TryUpdate (secure_api K) t k v) = None
      \<and> secure_holds K S (snd (api_TryUpdate (secure_api K) t k v)) (if v = [] then m(k := None) else m(k \<mapsto> v))"
    using sec_kv.update_law [OF kv, of v] by (auto simp: secure_api_def secure_holds_def)
  show "fst (api_TryDelete (secure_api K) t k) = None \<and> secure_holds K S (snd (api_TryDelete (secure_api K) t k)) (m(k := None))"
    using sec_kv.delete_law [OF kv] by (auto simp: secure_api_def secure_holds_def)
qed

section \<open>Opening, copying and preimages\<close>

lemma trie_hashed_cachelimit [simp]: "trie_hashed K (SetCacheLimit l t) m \<longleftrightarrow> trie_hashed K t m"
  by (simp add: trie_hashed_iff trie_treeF_parts SetCacheLimit_def full_key_def addressable_def)

lemma NewSecure_holds:
  assumes "trie_New root db = Inr tr" "trie_hashed K tr mh" "inj_on K S" "\<And>k. k \<in> S \<Longrightarrow> m k = mh (K k)"
  shows "\<exists>t. NewSecure root (Some db) l = Inr t \<and> secure_holds K S t m"
  using assms by (auto simp: NewSecure_def secure_holds_def trie_hashed_def [symmetric] intro!: secure_mapFI [of K S _ _ mh])

lemma NewSecure_empty: "inj_on K S \<Longrightarrow> \<exists>t. NewSecure zeroHash (Some db) l = Inr t \<and> secure_holds K S t Map.empty"
  by (rule NewSecure_holds [OF _ empty_trie_hashed]) (simp_all add: empty_trie_New zeroHash_def)

lemma sec_Copy_holds: "secure_holds K S t m \<Longrightarrow> secure_holds K S (sec_Copy t) m"
  by (simp add: secure_holds_def secure_mapF_def sec_Copy_def)

lemma GetKey_TryUpdate: "sec_TryUpdate K t key value = Some (Inr t') \<Longrightarrow> fst (sec_GetKey t' (hashKey K key)) = Some key"
  by (cases "TryUpdate (sct_trie t) (hashKey K key) value")
    (auto simp: sec_TryUpdate_def sec_GetKey_def getSecKeyCache_def Let_def out_bind_def update_conv' split: sum.splits if_splits)

lemma GetKey_TryUpdate_other:
  assumes "sec_TryUpdate K t key value = Some (Inr t')" "hk \<noteq> hashKey K key" "sct_owned t"
    "t_db (sct_trie t') = t_db (sct_trie t)"
  shows "fst (sec_GetKey t' hk) = fst (sec_GetKey t hk)"
  using assms by (cases "TryUpdate (sct_trie t) (hashKey K key) value")
    (auto simp: sec_TryUpdate_def sec_GetKey_def getSecKeyCache_def Let_def out_bind_def update_conv' split: sum.splits option.splits if_splits)

end
