(* ===== verification/Caching_DB.thy ===== *)
theory Caching_DB
  imports State_Object Secure_Trie Mem_Database
begin

text \<open>
  The state database, \<^verbatim>\<open>pkg/core/state/database.go\<close>: secure tries opened from a key-value database,
  with the last committed tries kept in memory, and contract code with a cache of its sizes. The size
  cache is a third-party LRU cache, given by its methods \<open>Get\<close> and \<open>Add\<close>. The tries kept are values
  here; in the code they are pointers, shared with the state that committed them. Shown: a trie opened
  by the root of the last commit is the committed one, and a database without kept tries opens what
  \<open>NewSecure\<close> opens.
\<close>

section \<open>Definitions\<close>

definition MaxTrieCacheGen :: u16 where
  "MaxTrieCacheGen = 120"

definition maxPastTries :: nat where
  "maxPastTries = 12"

record 'c cachingDB =
  cd_db :: MemDatabase
  cd_pastTries :: "SecureTrie list"
  cd_codeSizeCache :: 'c

definition NewDatabase :: "'c \<Rightarrow> MemDatabase \<Rightarrow> 'c cachingDB" where
  "NewDatabase csc db = \<lparr>cd_db = db, cd_pastTries = [], cd_codeSizeCache = csc\<rparr>"

text \<open>The search through the kept tries, from the last one; \<open>Hash\<close> caches the hashes it computes.\<close>

fun search_past :: "(bytes \<Rightarrow> bytes) \<Rightarrow> hash \<Rightarrow> SecureTrie list \<Rightarrow> trie_error + SecureTrie option \<times> SecureTrie list" where
  "search_past keccak root [] = Inr (None, [])"
| "search_past keccak root (t # ts) =
     go_bind (sec_Hash keccak t) (\<lambda>(h, t').
       if h = root then Inr (Some t', t' # ts)
       else go_bind (search_past keccak root ts) (\<lambda>(r, ts'). Inr (r, t' # ts')))"

definition OpenTrie :: "(bytes \<Rightarrow> bytes) \<Rightarrow> 'c cachingDB \<Rightarrow> hash \<Rightarrow> (trie_error + SecureTrie) \<times> 'c cachingDB" where
  "OpenTrie keccak db root =
     (case search_past keccak root (rev (cd_pastTries db)) of
        Inl e \<Rightarrow> (Inl e, db)
      | Inr (r, ts) \<Rightarrow>
          (case r of Some t \<Rightarrow> Inr (sec_Copy t) | None \<Rightarrow> NewSecure root (Some (md_db (cd_db db))) MaxTrieCacheGen,
           db\<lparr>cd_pastTries := rev ts\<rparr>))"

definition pushTrie :: "'c cachingDB \<Rightarrow> SecureTrie \<Rightarrow> 'c cachingDB" where
  "pushTrie db t =
     (let past = cd_pastTries db
      in if maxPastTries \<le> length past then db\<lparr>cd_pastTries := tl past @ [t]\<rparr> else db\<lparr>cd_pastTries := past @ [t]\<rparr>)"

definition OpenStorageTrie :: "'c cachingDB \<Rightarrow> hash \<Rightarrow> hash \<Rightarrow> trie_error + SecureTrie" where
  "OpenStorageTrie db addrHash root = NewSecure root (Some (md_db (cd_db db))) 0"

definition CopyTrie :: "SecureTrie \<Rightarrow> SecureTrie" where
  "CopyTrie t = sec_Copy t"

definition ContractCode :: "('c \<Rightarrow> hash \<Rightarrow> nat \<Rightarrow> 'c) \<Rightarrow> 'c cachingDB \<Rightarrow> hash \<Rightarrow> hash \<Rightarrow> (state_error + bytes) \<times> 'c cachingDB" where
  "ContractCode add db addrHash codeHash =
     (case mem_Get (cd_db db) codeHash of
        Inl _ \<Rightarrow> (Inl CodeNotFound, db)
      | Inr code \<Rightarrow> (Inr code, db\<lparr>cd_codeSizeCache := add (cd_codeSizeCache db) codeHash (length code)\<rparr>))"

definition ContractCodeSize :: "('c \<Rightarrow> hash \<Rightarrow> nat option \<times> 'c) \<Rightarrow> ('c \<Rightarrow> hash \<Rightarrow> nat \<Rightarrow> 'c) \<Rightarrow> 'c cachingDB \<Rightarrow> hash \<Rightarrow> hash \<Rightarrow>
    (nat \<times> state_error option) \<times> 'c cachingDB" where
  "ContractCodeSize get add db addrHash codeHash =
     (let (r, csc) = get (cd_codeSizeCache db) codeHash; db1 = db\<lparr>cd_codeSizeCache := csc\<rparr> in
      case r of
        Some n \<Rightarrow> ((n, None), db1)
      | None \<Rightarrow>
          (case ContractCode add db1 addrHash codeHash of
             (Inl e, db2) \<Rightarrow> ((0, Some e), db2)
           | (Inr code, db2) \<Rightarrow> ((length code, None), db2\<lparr>cd_codeSizeCache := add (cd_codeSizeCache db2) codeHash (length code)\<rparr>)))"

text \<open>\<open>cachedTrie.CommitTo\<close>: the committed trie is kept.\<close>

definition cached_CommitTo :: "(bytes \<Rightarrow> bytes) \<Rightarrow> ('w \<Rightarrow> bytes \<Rightarrow> bytes \<Rightarrow> bool \<times> 'w) \<Rightarrow> 'c cachingDB \<Rightarrow> SecureTrie \<Rightarrow> 'w \<Rightarrow>
    (trie_error + hash) \<times> SecureTrie \<times> 'w \<times> 'c cachingDB" where
  "cached_CommitTo keccak put db t w =
     (let (r, t', w') = sec_CommitTo keccak put t w
      in (r, t', w', case r of Inl _ \<Rightarrow> db | Inr _ \<Rightarrow> pushTrie db t'))"

text \<open>
  The interface of the state to the database. What one call caches for the next is not carried over:
  the tries kept and the cached sizes are those of the database \<open>c\<close>.
\<close>

definition database_of :: "(bytes \<Rightarrow> bytes) \<Rightarrow> ('c \<Rightarrow> hash \<Rightarrow> nat option \<times> 'c) \<Rightarrow> ('c \<Rightarrow> hash \<Rightarrow> nat \<Rightarrow> 'c) \<Rightarrow> 'c cachingDB \<Rightarrow> SecureTrie database" where
  "database_of keccak get add c =
     \<lparr>db_OpenTrie = (\<lambda>root. fst (OpenTrie keccak c root)), db_OpenStorageTrie = OpenStorageTrie c,
      db_ContractCode = (\<lambda>a h. fst (ContractCode add c a h)), db_ContractCodeSize = (\<lambda>a h. fst (ContractCodeSize get add c a h)),
      db_trie = secure_api keccak, db_keccak = (\<lambda>b. BytesToHash (keccak b))\<rparr>"

text \<open>A new database, with a size cache that keeps nothing.\<close>

definition secure_database :: "(bytes \<Rightarrow> bytes) \<Rightarrow> MemDatabase \<Rightarrow> SecureTrie database" where
  "secure_database keccak w = database_of keccak (\<lambda>c _. (None, c)) (\<lambda>c _ _. c) (NewDatabase () w)"

section \<open>Opening and committing\<close>

lemma secure_database_parts [simp]:
  "db_OpenTrie (secure_database K w) root = NewSecure root (Some (md_db w)) MaxTrieCacheGen"
  "db_OpenStorageTrie (secure_database K w) a root = NewSecure root (Some (md_db w)) 0"
  "db_trie (secure_database K w) = secure_api K"
  "db_keccak (secure_database K w) b = BytesToHash (K b)"
  by (simp_all add: secure_database_def database_of_def NewDatabase_def OpenTrie_def OpenStorageTrie_def)

lemma pushTrie_bound: "length (cd_pastTries db) \<le> maxPastTries \<Longrightarrow> length (cd_pastTries (pushTrie db t)) \<le> maxPastTries"
  by (auto simp: pushTrie_def Let_def maxPastTries_def)

lemma OpenTrie_pushed:
  assumes "sec_Hash K t = Inr (root, t')"
  shows "fst (OpenTrie K (pushTrie db t) root) = Inr (sec_Copy t')"
  using assms by (auto simp: OpenTrie_def pushTrie_def Let_def)

text \<open>A cache that answers with sizes of stored code only does not change the answers.\<close>

lemma ContractCodeSize_code:
  assumes "\<And>n. fst (get (cd_codeSizeCache db) h) = Some n \<Longrightarrow> \<exists>code. md_db (cd_db db) h = Some code \<and> n = length code"
  shows "fst (ContractCodeSize get add db a h) = (case md_db (cd_db db) h of None \<Rightarrow> (0, Some CodeNotFound) | Some code \<Rightarrow> (length code, None))"
  using assms by (cases "get (cd_codeSizeCache db) h"; cases "fst (get (cd_codeSizeCache db) h)")
    (auto simp: Let_def ContractCodeSize_def ContractCode_def mem_Get_def split: option.splits)

end
