(* ===== verification/State_Snapshot.thy ===== *)
theory State_Snapshot
  imports State_Revert Caching_DB
begin

text \<open>
  Snapshots of the account state: every journalled operation is undone by the entries it appends,
  so reverting to a snapshot restores everything that can be observed, nested snapshots included.
  The operations that change the state without a journal entry are shown not to be undone.
\<close>

section \<open>Sequences of operations\<close>

datatype state_op =
    OGetBalance address
  | OGetCode address
  | OGetState address hash
  | OAddBalance address int
  | OSubBalance address int
  | OSetBalance address int
  | OSubContribution address int
  | OSetNonce address u64
  | OSetRecords address "hash list"
  | OSetCode address bytes
  | OSetState address hash hash
  | OSuicide address
  | OCreateAccount address
  | OAddLog Log
  | OAddPreimage hash bytes
  | OAddRefund int
  | OSnapshot
  | ORevert nat

fun exec_op :: "'t database \<Rightarrow> state_op \<Rightarrow> 't StateDB \<Rightarrow> 't StateDB panics" where
  "exec_op D (OGetBalance a) s = Inr (snd (GetBalance D a s))"
| "exec_op D (OGetCode a) s = Inr (snd (GetCode D a s))"
| "exec_op D (OGetState a k) s = go_bind (GetState D a k s) (\<lambda>(_, s'). Inr s')"
| "exec_op D (OAddBalance a n) s = Inr (AddBalance D a n s)"
| "exec_op D (OSubBalance a n) s = Inr (SubBalance D a n s)"
| "exec_op D (OSetBalance a n) s = Inr (SetBalance D a n s)"
| "exec_op D (OSubContribution a n) s = Inr (SubContribution D a n s)"
| "exec_op D (OSetNonce a n) s = Inr (SetNonce D a n s)"
| "exec_op D (OSetRecords a rs) s = Inr (SetRecords D a rs s)"
| "exec_op D (OSetCode a c) s = Inr (SetCode D a c s)"
| "exec_op D (OSetState a k v) s = SetState D a k v s"
| "exec_op D (OSuicide a) s = Inr (snd (Suicide D a s))"
| "exec_op D (OCreateAccount a) s = Inr (CreateAccount D a s)"
| "exec_op D (OAddLog l) s = Inr (AddLog l s)"
| "exec_op D (OAddPreimage h p) s = Inr (AddPreimage h p s)"
| "exec_op D (OAddRefund g) s = Inr (AddRefund g s)"
| "exec_op D OSnapshot s = Inr (snd (Snapshot s))"
| "exec_op D (ORevert i) s = RevertToSnapshot D i s"

fun exec_ops :: "'t database \<Rightarrow> state_op list \<Rightarrow> 't StateDB \<Rightarrow> 't StateDB panics" where
  "exec_ops D [] s = Inr s"
| "exec_ops D (x # xs) s = go_bind (exec_op D x s) (exec_ops D xs)"

lemma account_update_id [simp]:
  "(d :: Account)\<lparr>Balance := Balance d\<rparr> = d" "d\<lparr>Contribution := Contribution d\<rparr> = d" "d\<lparr>Nonce := Nonce d\<rparr> = d"
  "d\<lparr>Records := Records d\<rparr> = d" "d\<lparr>CodeHash := CodeHash d\<rparr> = d"
  by simp_all

lemma oview_update_id [simp]: "(x :: oview)\<lparr>ov_data := ov_data x\<rparr> = x" "x\<lparr>ov_slot := ov_slot x\<rparr> = x"
  "x\<lparr>ov_data := ov_data x, ov_code := ov_code x\<rparr> = x" "x\<lparr>ov_suicided := ov_suicided x\<rparr> = x"
  by simp_all

context state_backend
begin

text \<open>The entries \<open>es\<close> that lead from \<open>s\<close> to \<open>s'\<close>, and that undo the change of the view.\<close>

definition undone_by :: "'t stateObject journalEntry list \<Rightarrow> 't StateDB \<Rightarrow> 't StateDB \<Rightarrow> bool" where
  "undone_by es s s' \<longleftrightarrow> frame s' = (s_journal s @ es, s_validRevisions s, s_nextRevisionId s)
     \<and> (\<forall>e \<in> set es. entry_ok D e) \<and> aundo_all D (rev es) (view D s') = Inr (view D s) \<and> state_inv D s'"

definition journalled :: "'t StateDB \<Rightarrow> 't StateDB \<Rightarrow> bool" where
  "journalled s s' \<longleftrightarrow> (\<exists>es. undone_by es s s')"

lemma journalled_same: "view D s' = view D s \<Longrightarrow> frame s' = frame s \<Longrightarrow> state_inv D s' \<Longrightarrow> journalled s s'"
  unfolding journalled_def by (rule exI [of _ "[]"]) (simp add: undone_by_def frame_def)

lemma journalled_trans: "journalled s s1 \<Longrightarrow> journalled s1 s2 \<Longrightarrow> journalled s s2"
proof -
  assume "journalled s s1" "journalled s1 s2"
  then obtain es fs where e: "undone_by es s s1" "undone_by fs s1 s2" by (auto simp: journalled_def)
  then have "undone_by (es @ fs) s s2" by (auto simp: undone_by_def frame_def aundo_all_append)
  then show ?thesis by (auto simp: journalled_def)
qed

text \<open>A method on the object of account \<open>a\<close> whose change is undone by its entries.\<close>

definition jstep :: "address \<Rightarrow> 't stateObject \<Rightarrow> 't StateDB \<Rightarrow> 't stateObject \<Rightarrow> 't StateDB \<Rightarrow> bool" where
  "jstep a c s c' s' \<longleftrightarrow> obj_ok a c' \<and> view D s' = view D s \<and> state_inv D s' \<and>
     (\<exists>es. frame s' = (s_journal s @ es, s_validRevisions s, s_nextRevisionId s) \<and> (\<forall>e \<in> set es. entry_ok D e) \<and>
       aundo_all D (rev es) ((view D s)\<lparr>av_acct := (acct D s)(a \<mapsto> obj_view D c')\<rparr>)
         = Inr ((view D s)\<lparr>av_acct := (acct D s)(a \<mapsto> obj_view D c)\<rparr>))"

definition jmethod :: "address \<Rightarrow> 't obj_method \<Rightarrow> bool" where
  "jmethod a m \<longleftrightarrow> (\<forall>c s. obj_ok a c \<longrightarrow> state_inv D s \<longrightarrow> jstep a c s (fst (m (c, s))) (snd (m (c, s))))"

lemma jstep_refl: "obj_ok a c \<Longrightarrow> state_inv D s \<Longrightarrow> jstep a c s c s"
  unfolding jstep_def by (simp add: frame_def exI [of _ "[]"])

lemma view_eq_acct: "view D s = view D s' \<Longrightarrow> acct D s = acct D s'"
  by (simp add: view_def)

lemma journal_append_simps [simp]:
  "view D (journal_append e s) = view D s" "state_inv D (journal_append e s) = state_inv D s"
  "frame (journal_append e s) = (s_journal s @ [e], s_validRevisions s, s_nextRevisionId s)"
  "s_thash (journal_append e s) = s_thash s" "s_objects (journal_append e s) = s_objects s" "acct D (journal_append e s) = acct D s"
  by (simp_all add: journal_append_def view_def acct_def state_inv_def frame_def)

text \<open>A setter preceded by the entry that holds the old value.\<close>

lemma jmethod_setter:
  assumes "acts a m g" "\<And>c s. obj_ok a c \<Longrightarrow> M (c, s) = m (c, journal_append (E c) s)" "\<And>c. obj_ok a c \<Longrightarrow> entry_ok D (E c)"
    "\<And>c v. obj_ok a c \<Longrightarrow> av_acct v a = Some (g (obj_view D c)) \<Longrightarrow>
       aundo D (E c) v = Inr (v\<lparr>av_acct := (av_acct v)(a \<mapsto> obj_view D c)\<rparr>)"
  shows "jmethod a M"
  unfolding jmethod_def
proof (intro allI impI)
  fix c s
  assume c: "obj_ok a c" "state_inv D s"
  obtain c' s' where m: "m (c, journal_append (E c) s) = (c', s')" by (cases "m (c, journal_append (E c) s)")
  have i: "state_inv D (journal_append (E c) s)" using c(2) by simp
  have r: "obj_ok a c'" "obj_view D c' = g (obj_view D c)" "view D s' = view D (journal_append (E c) s)" "state_inv D s'"
      "frame s' = frame (journal_append (E c) s)"
    using assms(1) c(1) i m unfolding acts_def by blast+
  have "aundo D (E c) ((view D s)\<lparr>av_acct := (acct D s)(a \<mapsto> obj_view D c')\<rparr>)
      = Inr ((view D s)\<lparr>av_acct := (acct D s)(a \<mapsto> obj_view D c)\<rparr>)"
    using assms(4) [OF c(1), of "(view D s)\<lparr>av_acct := (acct D s)(a \<mapsto> obj_view D c')\<rparr>"] r(2) by simp
  then have "jstep a c s c' s'"
    unfolding jstep_def using r assms(3) [OF c(1)] by (simp add: exI [of _ "[E c]"])
  then show "jstep a c s (fst (M (c, s))) (snd (M (c, s)))" using m assms(2) [OF c(1)] by simp
qed

lemma acts_apply:
  assumes "acts a m g" "obj_ok a c" "state_inv D s" "m (c, s) = (c', s')"
  shows "obj_ok a c'" "obj_view D c' = g (obj_view D c)" "view D s' = view D s" "state_inv D s'" "frame s' = frame s"
  using assms unfolding acts_def by blast+

lemma jmethod_id: "jmethod a (\<lambda>x. x)"
  by (simp add: jmethod_def jstep_refl)

lemma jmethod_cases: "jmethod a m \<Longrightarrow> jmethod a m' \<Longrightarrow> jmethod a (\<lambda>(c, s). if P c then m (c, s) else m' (c, s))"
  by (simp add: jmethod_def)

lemma obj_view_id [simp]: "(obj_view D c)\<lparr>ov_data := o_data c\<rparr> = obj_view D c"
  "(obj_view D c)\<lparr>ov_suicided := o_suicided c, ov_data := o_data c\<rparr> = obj_view D c"
  by (simp_all add: obj_view_def)

lemma jmethod_setters:
  "jmethod a (obj_SetBalance n)" "jmethod a (obj_SetContribution n)" "jmethod a (obj_SetNonce k)" "jmethod a (obj_SetRecords rs)"
proof -
  show "jmethod a (obj_SetBalance n)"
    by (rule jmethod_setter [OF acts_setters(1) [of a n], where E = "\<lambda>c. BalanceChange a (Balance (o_data c))"])
      (auto simp: obj_SetBalance_def obj_ok_def aupdate_def)
  show "jmethod a (obj_SetContribution n)"
    by (rule jmethod_setter [OF acts_setters(2) [of a n], where E = "\<lambda>c. ContributionChange a (Contribution (o_data c))"])
      (auto simp: obj_SetContribution_def obj_ok_def aupdate_def)
  show "jmethod a (obj_SetNonce k)"
    by (rule jmethod_setter [OF acts_setters(3) [of a k], where E = "\<lambda>c. NonceChange a (Nonce (o_data c))"])
      (auto simp: obj_SetNonce_def obj_ok_def aupdate_def)
  show "jmethod a (obj_SetRecords rs)"
    by (rule jmethod_setter [OF acts_setters(4) [of a rs], where E = "\<lambda>c. RecordChange a (Records (o_data c))"])
      (auto simp: obj_SetRecords_def obj_ok_def aupdate_def)
qed


lemma jmethod_touch: "jmethod a obj_touch"
  unfolding jmethod_def
proof (intro allI impI)
  fix c s
  assume c: "obj_ok a c" "state_inv D s"
  let ?e = "TouchChange a (o_touched c) (\<not> o_onDirty c)"
  obtain c1 s1 where d: "obj_onDirty (c, journal_append ?e s) = (c1, s1)" by (cases "obj_onDirty (c, journal_append ?e s)")
  have i: "state_inv D (journal_append ?e s)" using c(2) by simp
  note o = onDirty_acts [OF d c(1) i]
  have "jstep a c s (c1\<lparr>o_touched := True\<rparr>) s1"
    unfolding jstep_def using o by (simp add: view_touched obj_ok_def exI [of _ "[?e]"])
  moreover have "obj_touch (c, s) = (c1\<lparr>o_touched := True\<rparr>, s1)" using d c(1) by (simp add: obj_touch_def obj_ok_def)
  ultimately show "jstep a c s (fst (obj_touch (c, s))) (snd (obj_touch (c, s)))" by simp
qed

lemma jmethod_Add:
  "jmethod a (obj_AddBalance D n)" "jmethod a (obj_SubBalance n)" "jmethod a (obj_SubContribution n)"
proof -
  show "jmethod a (obj_AddBalance D n)"
    using jmethod_touch jmethod_setters(1) jmethod_id by (simp add: jmethod_def obj_AddBalance_def)
  show "jmethod a (obj_SubBalance n)"
    using jmethod_setters(1) jmethod_id by (simp add: jmethod_def obj_SubBalance_def)
  show "jmethod a (obj_SubContribution n)"
    using jmethod_setters(2) jmethod_id by (simp add: jmethod_def obj_SubContribution_def)
qed

lemma code_of_again: "code_of D ah (code_of D ah code h) h = code_of D ah code h"
  by (auto simp: code_of_def split: option.splits sum.splits)

lemma jmethod_SetCode:
  assumes "length h = 32"
  shows "jmethod a (obj_SetCode D h code)"
  unfolding jmethod_def
proof (intro allI impI)
  fix c s
  assume c: "obj_ok a c" "state_inv D s"
  obtain pc c1 where k: "obj_Code D c = (pc, c1)" by (cases "obj_Code D c")
  note cv = Code_view [OF k]
  let ?e = "CodeChange a pc (CodeHash (o_data c))"
  have c1: "obj_ok a c1" using c(1) cv by (simp add: obj_ok_def)
  have i: "state_inv D (journal_append ?e s)" using c(2) by simp
  obtain c2 s2 where m: "obj_setCode h code (c1, journal_append ?e s) = (c2, s2)" by (cases "obj_setCode h code (c1, journal_append ?e s)")
  have r: "obj_ok a c2" "obj_view D c2 = (obj_view D c)\<lparr>ov_data := (o_data c)\<lparr>CodeHash := h\<rparr>, ov_code := code_of D (db_keccak D a) code h\<rparr>"
      "view D s2 = view D s" "state_inv D s2" "frame s2 = (s_journal s @ [?e], s_validRevisions s, s_nextRevisionId s)"
    using acts_apply [OF acts_setters(6) [OF assms, of a code] c1 i m] cv by simp_all
  have pc: "code_of D (db_keccak D a) pc (CodeHash (o_data c)) = ov_code (obj_view D c)"
    using cv c(1) code_of_again by (simp add: obj_view_def obj_ok_def)
  have "BytesToHash (CodeHash (o_data c)) = CodeHash (o_data c)" using c(1) by (simp add: obj_ok_def)
  then have "(obj_view D c2)\<lparr>ov_data := (ov_data (obj_view D c2))\<lparr>CodeHash := BytesToHash (CodeHash (o_data c))\<rparr>,
      ov_code := code_of D (db_keccak D a) pc (BytesToHash (CodeHash (o_data c)))\<rparr> = obj_view D c"
    using r(2) pc by (simp add: obj_view_def)
  then have "jstep a c s c2 s2"
    unfolding jstep_def using r(1,3,4,5) by (simp add: aupdate_def exI [of _ "[?e]"])
  moreover have "obj_SetCode D h code (c, s) = (c2, s2)"
    using k m c1 cv by (simp add: obj_SetCode_def obj_ok_def)
  ultimately show "jstep a c s (fst (obj_SetCode D h code (c, s))) (snd (obj_SetCode D h code (c, s)))" by simp
qed

section \<open>Operations on accounts\<close>

lemma newObject_ok: "obj_ok a (newObject D a (emptyAccount D) b)"
  by (simp add: obj_ok_def newObject_def emptyAccount_def emptyCodeHash_def keccak_len)

lemma acct_None_base: "state_inv D s \<Longrightarrow> acct D s a = None \<Longrightarrow> base D (s_trie s) a = None"
  by (auto simp: acct_def acct_of_def state_inv_def split: option.splits if_splits)

lemma createObject_spec:
  assumes "state_inv D s" "createObject D a s = ((n, prev), s')"
  shows "journalled s s'" "obj_ok a n" "state_inv D s'" "map_of (s_objects s') a = Some n"
    "\<exists>e. prev \<noteq> None \<longrightarrow> undone_by [e] s s' \<and> (\<exists>p. e = ResetObjectChange p \<and> o_address p = a)"
proof -
  obtain r s1 where g: "getStateObject D a s = (r, s1)" by (cases "getStateObject D a s")
  note gs = getStateObject_spec [OF assms(1) g]
  let ?e = "case r of None \<Rightarrow> CreateObjectChange a | Some p \<Rightarrow> ResetObjectChange p"
  let ?n0 = "newObject D a (emptyAccount D) True"
  obtain n' s2 where n: "obj_setNonce 0 (?n0, s1) = (n', s2)" by (cases "obj_setNonce 0 (?n0, s1)")
  have a: "obj_ok a n'" "view D s2 = view D s1" "state_inv D s2" "frame s2 = frame s1"
    using acts_setters(3) [of a 0] newObject_ok gs(3) n unfolding acts_def by blast+
  have res: "n = n'" "prev = r" "s' = setStateObject n (journal_append ?e s2)"
    using assms(2) g n by (auto simp: createObject_def split: prod.splits)
  have i: "state_inv D (journal_append ?e s2)" using a(3) by simp
  note p = setStateObject_spec [OF i, of a n]
  have ok: "obj_ok a n" using a(1) res(1) by simp
  have v: "view D s' = (view D s)\<lparr>av_acct := (acct D s)(a \<mapsto> obj_view D n)\<rparr>"
    using p(1) [OF ok] res(3) a(2) gs(1) view_eq_acct [of s2 s] by simp
  have f: "frame s' = (s_journal s @ [?e], s_validRevisions s, s_nextRevisionId s)"
    using p(2) [OF ok] res(3) a(4) gs(2) by (simp add: frame_def journal_append_def)
  have e: "entry_ok D ?e" using gs(6) by (cases r) auto
  have u: "aundo D ?e (view D s') = Inr (view D s)"
  proof (cases r)
    case None
    then have "acct D s a = None" "base D (s_trie s) a = None" using gs(5) acct_None_base [OF assms(1)] by blast+
    then show ?thesis using None v by (simp add: view_def fun_upd_idem)
  next
    case (Some q)
    then show ?thesis using gs(6) [OF Some] v by (simp add: view_def fun_upd_idem)
  qed
  have "undone_by [?e] s s'" using f e u p(3) [OF ok] res(3) by (simp add: undone_by_def)
  then show "journalled s s'" "\<exists>e. prev \<noteq> None \<longrightarrow> undone_by [e] s s' \<and> (\<exists>p. e = ResetObjectChange p \<and> o_address p = a)"
    using res(2) gs(6) by (auto simp: journalled_def intro!: exI [of _ ?e])
  show "obj_ok a n" "state_inv D s'" "map_of (s_objects s') a = Some n"
    using ok p(3,5) [OF ok] res(3) by simp_all
qed

lemma GetOrNew_spec:
  assumes "state_inv D s" "GetOrNewStateObject D a s = (c, s')"
  shows "journalled s s'" "obj_ok a c" "state_inv D s'" "acct D s' a = Some (obj_view D c)"
proof -
  obtain r s1 where g: "getStateObject D a s = (r, s1)" by (cases "getStateObject D a s")
  note gs = getStateObject_spec [OF assms(1) g]
  have "journalled s s' \<and> obj_ok a c \<and> state_inv D s' \<and> map_of (s_objects s') a = Some c"
  proof (cases r)
    case (Some q)
    then have "c = q" "s' = s1" using assms(2) g gs(6) [OF Some] by (simp_all add: GetOrNewStateObject_def)
    then show ?thesis using gs(1,2,3) gs(6) [OF Some] journalled_same by (simp add: obj_ok_def)
  next
    case None
    obtain n prev where c: "createObject D a s1 = ((n, prev), s')" "c = n"
      using assms(2) g None by (auto simp: GetOrNewStateObject_def split: prod.splits)
    note cs = createObject_spec [OF gs(3) c(1)]
    have "journalled s s1" using journalled_same gs(1,2,3) by blast
    then show ?thesis using cs(1-4) c(2) journalled_trans by blast
  qed
  then show "journalled s s'" "obj_ok a c" "state_inv D s'" "acct D s' a = Some (obj_view D c)"
    by (auto simp: acct_def acct_of_def obj_ok_def)
qed

text \<open>Putting the changed object back.\<close>

lemma jstep_put:
  assumes "state_inv D s" "acct D s a = Some (obj_view D c)" "jstep a c s c' s'"
  shows "journalled s (setStateObject c' s')"
proof -
  obtain es where e: "frame s' = (s_journal s @ es, s_validRevisions s, s_nextRevisionId s)" "\<forall>e \<in> set es. entry_ok D e"
      "aundo_all D (rev es) ((view D s)\<lparr>av_acct := (acct D s)(a \<mapsto> obj_view D c')\<rparr>)
         = Inr ((view D s)\<lparr>av_acct := (acct D s)(a \<mapsto> obj_view D c)\<rparr>)"
    and j: "obj_ok a c'" "view D s' = view D s" "state_inv D s'"
    using assms(3) by (auto simp: jstep_def)
  note p = setStateObject_spec [OF j(3,1)]
  have "acct D s' = acct D s" using j(2) by (simp add: view_def)
  moreover have "(view D s)\<lparr>av_acct := (acct D s)(a \<mapsto> obj_view D c)\<rparr> = view D s"
    using assms(2) by (simp add: view_def fun_upd_idem)
  ultimately have "undone_by es s (setStateObject c' s')" using e p j(2) by (simp add: undone_by_def)
  then show ?thesis by (auto simp: journalled_def)
qed

lemma on_object_journalled:
  assumes "state_inv D s" "jmethod a m"
  shows "journalled s (on_object D a m s)"
proof -
  obtain c s1 where g: "GetOrNewStateObject D a s = (c, s1)" by (cases "GetOrNewStateObject D a s")
  note gs = GetOrNew_spec [OF assms(1) g]
  obtain c' s2 where m: "m (c, s1) = (c', s2)" by (cases "m (c, s1)")
  have "jstep a c s1 c' s2" using assms(2) gs(2,3) m unfolding jmethod_def by fastforce
  then have "journalled s1 (setStateObject c' s2)" by (rule jstep_put [OF gs(3,4)])
  then show ?thesis using journalled_trans [OF gs(1)] g m by (simp add: on_object_def)
qed


lemma SetState_journalled:
  assumes "state_inv D s" "SetState D a k x s = Inr s'"
  shows "journalled s s'"
proof -
  obtain c s1 where g: "GetOrNewStateObject D a s = (c, s1)" by (cases "GetOrNewStateObject D a s")
  note gs = GetOrNew_spec [OF assms(1) g]
  obtain pv c1 where v: "obj_GetState D k c = Inr (pv, c1)"
    using assms(2) g by (cases "obj_GetState D k c") (auto simp: SetState_def obj_SetState_def)
  have c1: "ov_slot (obj_view D c) k = Inr pv" "obj_view D c1 = obj_view D c" "obj_ok a c1"
    using GetState_view [of k c] v gs(2) ov_data_view(1) [of D c1] ov_data_view(1) [of D c] by (auto simp: obj_ok_def)
  let ?e = "StorageChange a k pv"
  have i: "state_inv D (journal_append ?e s1)" using gs(3) by simp
  obtain c2 s2 where m: "obj_setState k x (c1, journal_append ?e s1) = (c2, s2)" by (cases "obj_setState k x (c1, journal_append ?e s1)")
  note r = acts_apply [OF acts_setters(5) c1(3) i m]
  have "(obj_view D c2)\<lparr>ov_slot := (ov_slot (obj_view D c2))(k := Inr pv)\<rparr> = obj_view D c"
    using r(2) c1(1,2) by (simp add: fun_upd_idem)
  then have "jstep a c s1 c2 s2" unfolding jstep_def using r by (simp add: aupdate_def exI [of _ "[?e]"])
  then have "journalled s1 (setStateObject c2 s2)" by (rule jstep_put [OF gs(3,4)])
  moreover have "s' = setStateObject c2 s2"
    using assms(2) g v m gs(2) by (simp add: SetState_def obj_SetState_def obj_ok_def)
  ultimately show ?thesis using journalled_trans [OF gs(1)] by simp
qed

lemma Suicide_journalled:
  assumes "state_inv D s"
  shows "journalled s (snd (Suicide D a s))"
proof -
  obtain r s1 where g: "getStateObject D a s = (r, s1)" by (cases "getStateObject D a s")
  note gs = getStateObject_spec [OF assms g]
  have j1: "journalled s s1" using journalled_same gs(1,2,3) by blast
  show ?thesis
  proof (cases r)
    case None
    then show ?thesis using g j1 by (simp add: Suicide_def)
  next
    case (Some c)
    have c: "obj_ok a c" "acct D s1 a = Some (obj_view D c)"
      using gs(6) [OF Some] view_eq_acct [OF gs(1)] by (simp_all add: obj_ok_def)
    let ?e = "SuicideChange a (o_suicided c) (Balance (o_data c))"
    have i: "state_inv D (journal_append ?e s1)" using gs(3) by simp
    have am: "acts a markSuicided (\<lambda>x. x\<lparr>ov_suicided := True\<rparr>)"
      by (rule actsI [where f = "\<lambda>c. c\<lparr>o_suicided := True\<rparr>"]) (simp_all add: markSuicided_def obj_ok_def view_suicided)
    obtain c2 s2 where m: "markSuicided (c, journal_append ?e s1) = (c2, s2)" by (cases "markSuicided (c, journal_append ?e s1)")
    note r = acts_apply [OF am c(1) i m]
    let ?c3 = "c2\<lparr>o_data := (o_data c2)\<lparr>Balance := 0\<rparr>\<rparr>"
    have d: "o_data c2 = o_data c" using r(2) ov_data_view(1) [of D c2] by simp
    have v3: "obj_view D ?c3 = (obj_view D c)\<lparr>ov_suicided := True, ov_data := (o_data c)\<lparr>Balance := 0\<rparr>\<rparr>"
      using r(2) d by (simp add: view_data)
    have "jstep a c s1 ?c3 s2"
      unfolding jstep_def using r(1,3,4,5) v3 by (simp add: obj_ok_def exI [of _ "[?e]"])
    then have "journalled s1 (setStateObject ?c3 s2)" by (rule jstep_put [OF gs(3) c(2)])
    then show ?thesis using journalled_trans [OF j1] g Some m by (simp add: Suicide_def)
  qed
qed

lemma CreateAccount_journalled:
  assumes "state_inv D s"
  shows "journalled s (CreateAccount D a s)"
proof -
  obtain n prev s1 where g: "createObject D a s = ((n, prev), s1)" by (cases "createObject D a s") auto
  note cs = createObject_spec [OF assms g]
  show ?thesis
  proof (cases prev)
    case None
    then show ?thesis using g cs(1) by (simp add: CreateAccount_def)
  next
    case (Some p)
    then obtain q where e: "undone_by [ResetObjectChange q] s s1" "o_address q = a" using cs(5) by auto
    obtain n1 s2 where m1: "obj_setBalance (Balance (o_data p)) (n, s1) = (n1, s2)" by (cases "obj_setBalance (Balance (o_data p)) (n, s1)")
    note r1 = acts_apply [OF acts_setters(1) cs(2,3) m1]
    obtain n2 s3 where m2: "obj_setContribution (Contribution (o_data p)) (n1, s2) = (n2, s3)"
      by (cases "obj_setContribution (Contribution (o_data p)) (n1, s2)")
    note r2 = acts_apply [OF acts_setters(2) r1(1,4) m2]
    note p = setStateObject_spec [OF r2(4,1)]
    have "view D (setStateObject n2 s3) = (view D s1)\<lparr>av_acct := (acct D s1)(a \<mapsto> obj_view D n2)\<rparr>"
      using p(1) r1(3) r2(3) view_eq_acct [of s3 s1] by simp
    then have "aundo D (ResetObjectChange q) (view D (setStateObject n2 s3)) = aundo D (ResetObjectChange q) (view D s1)"
      using e(2) by (simp add: view_def)
    then have "undone_by [ResetObjectChange q] s (setStateObject n2 s3)"
      using e(1) p(2,3) r1(5) r2(5) by (simp add: undone_by_def)
    then show ?thesis using g Some m1 m2 by (auto simp: CreateAccount_def journalled_def)
  qed
qed

lemma extras_journalled:
  assumes "state_inv D s"
  shows "journalled s (AddLog l s)" "journalled s (AddPreimage h b s)" "journalled s (AddRefund n s)"
proof -
  have "undone_by [AddLogChange (s_thash s)] s (AddLog l s)"
  proof -
    let ?old = "case map_of (s_logs s) (s_thash s) of None \<Rightarrow> [] | Some ls \<Rightarrow> ls"
    have "map_of (s_logs s) (s_thash s) = (if ?old = [] then None else Some ?old)"
      using assms by (auto simp: state_inv_def split: option.splits)
    moreover have "state_inv D (AddLog l s)"
      using assms by (auto simp: AddLog_def Let_def journal_append_def state_inv_def update_conv')
    ultimately show ?thesis
      by (auto simp: undone_by_def AddLog_def Let_def journal_append_def frame_def view_def acct_def aundo_log_def update_conv'
          fun_upd_idem split: option.splits)
  qed
  then show "journalled s (AddLog l s)" by (auto simp: journalled_def)
  show "journalled s (AddPreimage h b s)"
  proof (cases "map_of (s_preimages s) h")
    case None
    have "undone_by [AddPreimageChange h] s (AddPreimage h b s)"
      using None assms
      by (auto simp: undone_by_def AddPreimage_def journal_append_def frame_def view_def acct_def update_conv' state_inv_def fun_upd_idem)
    then show ?thesis by (auto simp: journalled_def)
  next
    case (Some y)
    then show ?thesis using assms journalled_same by (simp add: AddPreimage_def)
  qed
  have "undone_by [RefundChange (s_refund s)] s (AddRefund n s)"
    using assms by (auto simp: undone_by_def AddRefund_def journal_append_def frame_def view_def acct_def state_inv_def)
  then show "journalled s (AddRefund n s)" by (auto simp: journalled_def)
qed

lemma reads_journalled:
  assumes "state_inv D s"
  shows "journalled s (snd (GetBalance D a s))" "journalled s (snd (GetCode D a s))"
    "GetState D a k s = Inr (x, s') \<Longrightarrow> journalled s s'"
proof -
  obtain r s1 where g: "getStateObject D a s = (r, s1)" by (cases "getStateObject D a s")
  note gs = getStateObject_spec [OF assms g]
  have j1: "journalled s s1" using journalled_same gs(1,2,3) by blast
  show "journalled s (snd (GetBalance D a s))" using j1 g by (simp add: GetBalance_def)
  have put: "journalled s (setStateObject c' s1)" if "r = Some c" "obj_view D c' = obj_view D c" "obj_ok a c'" for c c'
  proof -
    have "acct D s1 a = Some (obj_view D c)" using gs(6) [OF that(1)] view_eq_acct [OF gs(1)] by simp
    moreover have "jstep a c s1 c' s1"
      unfolding jstep_def using that gs(3) by (simp add: frame_def exI [of _ "[]"])
    ultimately show ?thesis using jstep_put [OF gs(3)] journalled_trans [OF j1] by blast
  qed
  show "journalled s (snd (GetCode D a s))"
  proof (cases r)
    case (Some c)
    obtain pc c1 where k: "obj_Code D c = (pc, c1)" by (cases "obj_Code D c")
    have "obj_ok a c1" using Code_view [OF k] gs(6) [OF Some] by (simp add: obj_ok_def)
    then show ?thesis using put [OF Some] Code_view [OF k] k Some g by (simp add: GetCode_def)
  qed (use j1 g in \<open>simp add: GetCode_def\<close>)
  show "journalled s s'" if st: "GetState D a k s = Inr (x, s')"
  proof (cases r)
    case (Some c)
    then obtain c1 where v: "obj_GetState D k c = Inr (x, c1)" "s' = setStateObject c1 s1"
      using st g by (cases "obj_GetState D k c") (auto simp: GetState_def)
    have "obj_view D c1 = obj_view D c" "obj_ok a c1"
      using GetState_view [of k c] v(1) gs(6) [OF Some] ov_data_view(1) [of D c1] ov_data_view(1) [of D c] by (auto simp: obj_ok_def)
    then show ?thesis using put [OF Some] v(2) by simp
  qed (use st j1 g in \<open>simp add: GetState_def\<close>)
qed

lemma step_journalled:
  assumes "state_inv D s" "exec_op D x s = Inr s'" "x \<noteq> OSnapshot" "\<And>i. x \<noteq> ORevert i"
  shows "journalled s s'"
proof (cases x)
  case (OGetState a k)
  then show ?thesis using assms(2) reads_journalled(3) [OF assms(1), of a k] by (cases "GetState D a k s") auto
next
  case (OSetCode a c)
  then show ?thesis
    using assms(2) on_object_journalled [OF assms(1) jmethod_SetCode [OF keccak_len]] by (auto simp: SetCode_def)
qed (use assms on_object_journalled [OF assms(1)] jmethod_Add jmethod_setters SetState_journalled Suicide_journalled
      CreateAccount_journalled extras_journalled reads_journalled in
     \<open>auto simp: AddBalance_def SubBalance_def SetBalance_def SubContribution_def SetNonce_def SetRecords_def\<close>)


section \<open>Reverting\<close>

definition progress :: "'t StateDB \<Rightarrow> 't StateDB \<Rightarrow> bool" where
  "progress s s' \<longleftrightarrow> (\<exists>es rs. s_journal s' = s_journal s @ es \<and> s_validRevisions s' = s_validRevisions s @ rs
     \<and> s_nextRevisionId s \<le> s_nextRevisionId s' \<and> sorted_wrt (<) (map fst rs) \<and> sorted (map snd rs)
     \<and> (\<forall>(i, j) \<in> set rs. s_nextRevisionId s \<le> i \<and> i < s_nextRevisionId s' \<and> length (s_journal s) \<le> j \<and> j \<le> length (s_journal s'))
     \<and> (\<forall>e \<in> set es. entry_ok D e) \<and> aundo_all D (rev es) (view D s') = Inr (view D s) \<and> state_inv D s')"

lemma progress_refl: "state_inv D s \<Longrightarrow> progress s s"
  unfolding progress_def by (intro exI [of _ "[]"]) simp

lemma progress_journalled:
  assumes "progress s s1" "journalled s1 s2"
  shows "progress s s2"
proof -
  obtain es rs where p: "s_journal s1 = s_journal s @ es" "s_validRevisions s1 = s_validRevisions s @ rs"
      "s_nextRevisionId s \<le> s_nextRevisionId s1" "sorted_wrt (<) (map fst rs) \<and> sorted (map snd rs)"
      "\<forall>(i, j) \<in> set rs. s_nextRevisionId s \<le> i \<and> i < s_nextRevisionId s1 \<and> length (s_journal s) \<le> j \<and> j \<le> length (s_journal s1)"
      "\<forall>e \<in> set es. entry_ok D e" "aundo_all D (rev es) (view D s1) = Inr (view D s)"
    using assms(1) by (auto simp: progress_def)
  obtain fs where f: "undone_by fs s1 s2" using assms(2) by (auto simp: journalled_def)
  show ?thesis
    unfolding progress_def
    by (rule exI [of _ "es @ fs"], rule exI [of _ rs]) (use p f in \<open>auto simp: undone_by_def frame_def aundo_all_append\<close>)
qed

lemma progress_Snapshot:
  assumes "progress s s1"
  shows "progress s (snd (Snapshot s1))"
proof -
  let ?s2 = "snd (Snapshot s1)"
  have v: "view D ?s2 = view D s1" "state_inv D ?s2 = state_inv D s1" "s_journal ?s2 = s_journal s1"
    by (simp_all add: Snapshot_def Let_def view_def acct_def state_inv_def)
  obtain es rs where p: "s_journal s1 = s_journal s @ es" "s_validRevisions s1 = s_validRevisions s @ rs"
      "s_nextRevisionId s \<le> s_nextRevisionId s1" "sorted_wrt (<) (map fst rs) \<and> sorted (map snd rs)"
      "\<forall>(i, j) \<in> set rs. s_nextRevisionId s \<le> i \<and> i < s_nextRevisionId s1 \<and> length (s_journal s) \<le> j \<and> j \<le> length (s_journal s1)"
      "\<forall>e \<in> set es. entry_ok D e" "aundo_all D (rev es) (view D s1) = Inr (view D s)" "state_inv D s1"
    using assms by (auto simp: progress_def)
  show ?thesis
    unfolding progress_def
    by (rule exI [of _ es], rule exI [of _ "rs @ [(s_nextRevisionId s1, length (s_journal s1))]"])
      (use p v in \<open>auto simp: Snapshot_def Let_def sorted_wrt_append sorted_append\<close>)
qed

lemma progress_Revert:
  assumes "progress s s1" "revisions_ok s" "s_nextRevisionId s \<le> i" "RevertToSnapshot D i s1 = Inr s2"
  shows "progress s s2"
proof -
  obtain es rs where p: "s_journal s1 = s_journal s @ es" "s_validRevisions s1 = s_validRevisions s @ rs"
      "s_nextRevisionId s \<le> s_nextRevisionId s1" "sorted_wrt (<) (map fst rs) \<and> sorted (map snd rs)"
      "\<forall>(i, j) \<in> set rs. s_nextRevisionId s \<le> i \<and> i < s_nextRevisionId s1 \<and> length (s_journal s) \<le> j \<and> j \<le> length (s_journal s1)"
      "\<forall>e \<in> set es. entry_ok D e" "aundo_all D (rev es) (view D s1) = Inr (view D s)" "state_inv D s1"
    using assms(1) by (auto simp: progress_def)
  define vr where "vr = s_validRevisions s1"
  define idx where "idx = sort_Search (length vr) (\<lambda>k. i \<le> fst (vr ! k))"
  have idx: "idx \<noteq> length vr" "fst (vr ! idx) = i"
    using assms(4) by (auto simp: RevertToSnapshot_def vr_def idx_def Let_def split: if_splits)
  have le: "idx < length vr" using idx(1) sort_Search_le [of "length vr"] unfolding idx_def by (metis le_neq_implies_less)
  have vs: "fst x < s_nextRevisionId s" if "x \<in> set (s_validRevisions s)" for x
    using assms(2) that by (auto simp: revisions_ok_def)
  have "\<not> idx < length (s_validRevisions s)"
    using vs [of "s_validRevisions s ! idx"] idx(2) assms(3) p(2) by (auto simp: vr_def nth_append)
  then obtain k where k: "idx = length (s_validRevisions s) + k" "k < length rs"
    using le p(2) by (metis add_diff_inverse_nat length_append nat_add_left_cancel_less vr_def)
  obtain j where rk: "rs ! k = (i, j)" using idx(2) k p(2) by (cases "rs ! k") (simp add: vr_def nth_append)
  have rkin: "(i, j) \<in> set rs" using rk k(2) by (metis nth_mem)
  then have j: "length (s_journal s) \<le> j" "j \<le> length (s_journal s1)" using p(5) by auto
  define n where "n = j - length (s_journal s)"
  have dj: "drop j (s_journal s1) = drop n es" "take j (s_journal s1) = s_journal s @ take n es"
    using p(1) j(1) by (simp_all add: n_def)
  have "undo_ok s1 (undo_all D (rev (drop n es)) s1) (aundo_all D (rev (drop n es)) (view D s1))"
  proof (rule undo_all_spec [OF p(8)])
    show "\<forall>e \<in> set (rev (drop n es)). entry_ok D e" using p(6) by (auto dest: in_set_dropD)
  qed
  moreover have "aundo_all D (rev es) (view D s1) = go_bind (aundo_all D (rev (drop n es)) (view D s1)) (aundo_all D (rev (take n es)))"
    using aundo_all_append [of D "rev (drop n es)" "rev (take n es)"] by (simp flip: rev_append)
  ultimately obtain s' where s': "undo_all D (rev (drop n es)) s1 = Inr s'" "state_inv D s'" "frame s' = frame s1"
      "aundo_all D (rev (take n es)) (view D s') = Inr (view D s)"
    using p(7) by (cases "undo_all D (rev (drop n es)) s1") (auto simp: undo_ok_def)
  have s2: "s2 = s'\<lparr>s_journal := take j (s_journal s'), s_validRevisions := take idx (s_validRevisions s')\<rparr>"
  proof -
    have "snd (vr ! idx) = j" using k rk p(2) by (simp add: vr_def nth_append)
    then have "RevertToSnapshot D i s1 = go_bind (undo_all D (rev (drop j (s_journal s1))) s1) (\<lambda>s'.
        Inr (s'\<lparr>s_journal := take j (s_journal s'), s_validRevisions := take idx (s_validRevisions s')\<rparr>))"
      unfolding RevertToSnapshot_def Let_def vr_def [symmetric] idx_def [symmetric] using idx by simp
    then show ?thesis using assms(4) s'(1) dj(1) by simp
  qed
  have f: "s_journal s2 = s_journal s @ take n es" "s_validRevisions s2 = s_validRevisions s @ take k rs"
      "s_nextRevisionId s2 = s_nextRevisionId s1"
    using s2 s'(3) dj(2) k(1) p(2) by (simp_all add: frame_def)
  have "view D s2 = view D s'" "state_inv D s2 = state_inv D s'"
    by (simp_all add: s2 view_def acct_def state_inv_def)
  then have u: "aundo_all D (rev (take n es)) (view D s2) = Inr (view D s)" "state_inv D s2" using s' by simp_all
  show ?thesis
    unfolding progress_def
  proof (rule exI [of _ "take n es"], rule exI [of _ "take k rs"], intro conjI)
    show "sorted_wrt (<) (map fst (take k rs))" "sorted (map snd (take k rs))"
      using p(4) by (simp_all add: sorted_wrt_take flip: take_map)
    have "j' \<le> length (s_journal s2)" if x: "(i', j') \<in> set (take k rs)" for i' j'
    proof -
      obtain m where m: "m < k" "rs ! m = (i', j')" using x by (auto simp: in_set_conv_nth)
      have "map snd rs ! m \<le> map snd rs ! k" using p(4) m(1) k(2) by (intro sorted_nth_mono) auto
      then have "j' \<le> j" using m k(2) rk by simp
      also have "j \<le> length (s_journal s2)" using f(1) j p(1) by (simp add: n_def)
      finally show ?thesis .
    qed
    then show "\<forall>(i, j) \<in> set (take k rs). s_nextRevisionId s \<le> i \<and> i < s_nextRevisionId s2 \<and> length (s_journal s) \<le> j \<and> j \<le> length (s_journal s2)"
      using p(5) f(3) by (fastforce dest: in_set_takeD)
    show "\<forall>e \<in> set (take n es). entry_ok D e" using p(6) by (auto dest: in_set_takeD)
  qed (use f u p(3) in auto)
qed


lemma progress_ops:
  assumes "progress s s1" "revisions_ok s" "\<forall>i. ORevert i \<in> set ops \<longrightarrow> s_nextRevisionId s \<le> i" "exec_ops D ops s1 = Inr s2"
  shows "progress s s2"
  using assms
proof (induction ops arbitrary: s1)
  case (Cons x ops)
  obtain s' where s': "exec_op D x s1 = Inr s'" "exec_ops D ops s' = Inr s2"
    using Cons.prems(4) by (auto simp: go_bind_Inr_iff)
  have i: "state_inv D s1" using Cons.prems(1) by (auto simp: progress_def)
  have "progress s s'"
  proof (cases "x = OSnapshot \<or> (\<exists>i. x = ORevert i)")
    case True
    then show ?thesis
      using s'(1) progress_Snapshot [OF Cons.prems(1)] progress_Revert [OF Cons.prems(1,2)] Cons.prems(3) by auto
  next
    case False
    then show ?thesis using progress_journalled [OF Cons.prems(1)] step_journalled [OF i s'(1)] by blast
  qed
  then show ?case using Cons.IH [OF _ Cons.prems(2) _ s'(2)] Cons.prems(3) by simp
qed simp

lemma revert_restores:
  assumes "state_inv D s" "revisions_ok s" "Snapshot s = (i, s1)" "\<forall>j. ORevert j \<in> set ops \<longrightarrow> i < j" "exec_ops D ops s1 = Inr s2"
  shows "\<exists>s3. RevertToSnapshot D i s2 = Inr s3 \<and> view D s3 = view D s \<and> s_journal s3 = s_journal s
    \<and> s_validRevisions s3 = s_validRevisions s \<and> state_inv D s3"
proof -
  have s1: "i = s_nextRevisionId s" "s1 = s\<lparr>s_nextRevisionId := i + 1, s_validRevisions := s_validRevisions s @ [(i, length (s_journal s))]\<rparr>"
    using assms(3) by (auto simp: Snapshot_def Let_def)
  have v1: "view D s1 = view D s" "state_inv D s1" using assms(1) by (simp_all add: s1(2) view_def acct_def state_inv_def)
  have "revisions_ok s1" using assms(2) by (auto simp: revisions_ok_def s1 sorted_wrt_append)
  then have "progress s1 s2" using progress_ops [OF progress_refl [OF v1(2)]] assms(4,5) s1 by (simp add: Suc_le_eq)
  then obtain es rs where q: "s_journal s2 = s_journal s1 @ es" "s_validRevisions s2 = s_validRevisions s1 @ rs"
      "\<forall>e \<in> set es. entry_ok D e" "aundo_all D (rev es) (view D s2) = Inr (view D s1)" "state_inv D s2"
      "sorted_wrt (<) (map fst rs)" "\<forall>(i', j) \<in> set rs. s_nextRevisionId s1 \<le> i'"
    unfolding progress_def by fast
  have p: "s_journal s2 = s_journal s @ es" "s_validRevisions s2 = s_validRevisions s @ (i, length (s_journal s)) # rs"
      "\<forall>e \<in> set es. entry_ok D e" "aundo_all D (rev es) (view D s2) = Inr (view D s)" "state_inv D s2"
      "sorted_wrt (<) (map fst rs)" "\<forall>x \<in> set rs. i < fst x"
    using q s1(2) v1(1) by (auto simp: Suc_le_eq)
  define vr where "vr = s_validRevisions s2"
  let ?n = "length (s_validRevisions s)"
  have srt: "sorted_wrt (<) (map fst vr)"
    using assms(2) p(6,7) s1(1) unfolding vr_def p(2)
    by (auto simp: revisions_ok_def sorted_wrt_append split_beta dest!: bspec intro: less_trans)
  have idx: "sort_Search (length vr) (\<lambda>k. i \<le> fst (vr ! k)) = ?n"
  proof (rule sort_Search_eq)
    fix k l assume "k \<le> l" "l < length vr" "i \<le> fst (vr ! k)"
    then show "i \<le> fst (vr ! l)"
      using sorted_wrt_nth_less [OF srt, of k l] by (cases "k = l") auto
  next
    show "?n < length vr" "i \<le> fst (vr ! ?n)" by (simp_all add: vr_def p(2))
    fix k assume "k < ?n"
    then have "vr ! k \<in> set (s_validRevisions s)" by (simp add: vr_def p(2) nth_append)
    then show "\<not> i \<le> fst (vr ! k)" using assms(2) s1(1) by (auto simp: revisions_ok_def)
  qed
  have nth: "vr ! ?n = (i, length (s_journal s))" by (simp add: vr_def p(2))
  have "undo_ok s2 (undo_all D (rev es) s2) (aundo_all D (rev es) (view D s2))"
    using undo_all_spec [OF p(5)] p(3) by simp
  then obtain s' where s': "undo_all D (rev es) s2 = Inr s'" "view D s' = view D s" "state_inv D s'" "frame s' = frame s2"
    using p(4) by (cases "undo_all D (rev es) s2") (auto simp: undo_ok_def)
  let ?s3 = "s'\<lparr>s_journal := take (length (s_journal s)) (s_journal s'), s_validRevisions := take ?n (s_validRevisions s')\<rparr>"
  have "RevertToSnapshot D i s2 = Inr ?s3"
    using idx nth s'(1) p(1) p(2) by (simp add: RevertToSnapshot_def vr_def [symmetric] Let_def)
  moreover have "view D ?s3 = view D s'" "state_inv D ?s3 = state_inv D s'" by (simp_all add: view_def acct_def state_inv_def)
  then have "view D ?s3 = view D s" "state_inv D ?s3" using s'(2,3) by simp_all
  moreover have "s_journal ?s3 = s_journal s" "s_validRevisions ?s3 = s_validRevisions s"
    using s'(4) p(1,2) by (simp_all add: frame_def)
  ultimately show ?thesis using \<open>view D ?s3 = view D s\<close> \<open>state_inv D ?s3\<close> by blast
qed

end

section \<open>What can be observed\<close>

text \<open>Two states give the same answers to every getter.\<close>

definition same_answers :: "'t database \<Rightarrow> 't StateDB \<Rightarrow> 't StateDB \<Rightarrow> bool" where
  "same_answers D s s' \<longleftrightarrow>
     (\<forall>a. fst (Exist D a s) = fst (Exist D a s') \<and> fst (GetBalance D a s) = fst (GetBalance D a s')
        \<and> fst (GetContribution D a s) = fst (GetContribution D a s') \<and> fst (GetNonce D a s) = fst (GetNonce D a s')
        \<and> fst (GetRecords D a s) = fst (GetRecords D a s') \<and> fst (GetCode D a s) = fst (GetCode D a s')
        \<and> fst (GetCodeHash D a s) = fst (GetCodeHash D a s') \<and> fst (HasSuicided D a s) = fst (HasSuicided D a s')
        \<and> (\<forall>k. map_sum id fst (GetState D a k s) = map_sum id fst (GetState D a k s')))
     \<and> s_refund s = s_refund s' \<and> (\<forall>h. GetLogs h s = GetLogs h s') \<and> s_logSize s = s_logSize s'
     \<and> map_of (s_preimages s) = map_of (s_preimages s')"

context state_backend
begin

lemma answers:
  assumes "state_inv D s"
  shows "fst (Exist D a s) = (acct D s a \<noteq> None)"
    "fst (GetBalance D a s) = (case acct D s a of None \<Rightarrow> 0 | Some x \<Rightarrow> Balance (ov_data x))"
    "fst (GetContribution D a s) = (case acct D s a of None \<Rightarrow> 0 | Some x \<Rightarrow> Contribution (ov_data x))"
    "fst (GetNonce D a s) = (case acct D s a of None \<Rightarrow> 0 | Some x \<Rightarrow> Nonce (ov_data x))"
    "fst (GetRecords D a s) = (case acct D s a of None \<Rightarrow> [] | Some x \<Rightarrow> Records (ov_data x))"
    "fst (GetCode D a s) = (case acct D s a of None \<Rightarrow> None | Some x \<Rightarrow> ov_code x)"
    "fst (GetCodeHash D a s) = (case acct D s a of None \<Rightarrow> zeroHash | Some x \<Rightarrow> BytesToHash (CodeHash (ov_data x)))"
    "fst (HasSuicided D a s) = (case acct D s a of None \<Rightarrow> False | Some x \<Rightarrow> ov_suicided x)"
    "map_sum id fst (GetState D a k s) = (case acct D s a of None \<Rightarrow> Inr zeroHash | Some x \<Rightarrow> ov_slot x k)"
proof -
  obtain r s1 where g: "getStateObject D a s = (r, s1)" by (cases "getStateObject D a s")
  note gs = getStateObject_spec [OF assms g]
  have c: "obj_Code D c = (code, c') \<Longrightarrow> code = ov_code (obj_view D c)" for c code c' using Code_view by blast
  show "fst (GetCode D a s) = (case acct D s a of None \<Rightarrow> None | Some x \<Rightarrow> ov_code x)"
    using g gs(5,6) c by (cases r) (auto simp: GetCode_def split: prod.splits)
  show "map_sum id fst (GetState D a k s) = (case acct D s a of None \<Rightarrow> Inr zeroHash | Some x \<Rightarrow> ov_slot x k)"
    using g gs(5,6) GetState_view [of k "the r"] by (cases r) (auto simp: GetState_def)
  show "fst (Exist D a s) = (acct D s a \<noteq> None)"
    "fst (GetBalance D a s) = (case acct D s a of None \<Rightarrow> 0 | Some x \<Rightarrow> Balance (ov_data x))"
    "fst (GetContribution D a s) = (case acct D s a of None \<Rightarrow> 0 | Some x \<Rightarrow> Contribution (ov_data x))"
    "fst (GetNonce D a s) = (case acct D s a of None \<Rightarrow> 0 | Some x \<Rightarrow> Nonce (ov_data x))"
    "fst (GetRecords D a s) = (case acct D s a of None \<Rightarrow> [] | Some x \<Rightarrow> Records (ov_data x))"
    "fst (GetCodeHash D a s) = (case acct D s a of None \<Rightarrow> zeroHash | Some x \<Rightarrow> BytesToHash (CodeHash (ov_data x)))"
    "fst (HasSuicided D a s) = (case acct D s a of None \<Rightarrow> False | Some x \<Rightarrow> ov_suicided x)"
    using g gs(5,6)
    by (cases r; simp add: Exist_def GetBalance_def GetContribution_def GetNonce_def GetRecords_def GetCodeHash_def HasSuicided_def)+
qed

lemma view_same_answers: "state_inv D s \<Longrightarrow> state_inv D s' \<Longrightarrow> view D s = view D s' \<Longrightarrow> same_answers D s s'"
proof -
  assume i: "state_inv D s" "state_inv D s'" "view D s = view D s'"
  have v: "acct D s = acct D s'" "s_refund s = s_refund s'" "map_of (s_logs s) = map_of (s_logs s')" "s_logSize s = s_logSize s'"
      "map_of (s_preimages s) = map_of (s_preimages s')"
    using i(3) by (simp_all add: view_def)
  show ?thesis
    unfolding same_answers_def GetLogs_def answers [OF i(1)] answers [OF i(2)] v by simp
qed

end


section \<open>The caching database as a backend\<close>

interpretation caching_backend: state_backend "database_of K get add c"
  by unfold_locales (simp_all add: database_of_def secure_read_law)

interpretation secure_backend: state_backend "secure_database K w"
  by unfold_locales (simp_all add: secure_read_law)

text \<open>The state of a new database.\<close>

definition fresh_trie :: SecureTrie where
  "fresh_trie = \<lparr>sct_trie = SetCacheLimit MaxTrieCacheGen (empty_trie Map.empty), sct_secKeyCache = [], sct_owned = False\<rparr>"

definition fresh_state :: "SecureTrie StateDB" where
  "fresh_state = \<lparr>s_trie = fresh_trie, s_objects = [], s_dirty = [], s_dbErr = None, s_refund = 0, s_thash = zeroHash,
     s_bhash = zeroHash, s_txIndex = 0, s_logs = [], s_logSize = 0, s_preimages = [], s_journal = [], s_validRevisions = [],
     s_nextRevisionId = 0\<rparr>"

lemma fresh_trie_New: "NewSecure zeroHash (Some Map.empty) MaxTrieCacheGen = Inr fresh_trie"
  by (simp add: NewSecure_def zeroHash_def empty_trie_New fresh_trie_def)

lemma fresh_state_New: "New_StateDB (secure_database K NewMemDatabase) zeroHash = Inr fresh_state"
  by (simp add: New_StateDB_def NewMemDatabase_def fresh_trie_New fresh_state_def)

lemma fresh_trie_holds: "inj_on K S \<Longrightarrow> secure_holds K S fresh_trie Map.empty"
  using NewSecure_empty [of K S Map.empty MaxTrieCacheGen] by (auto simp: fresh_trie_New)

lemma base_empty: "base (secure_database K w) fresh_trie a = None"
  using sec_srv.get_law [OF fresh_trie_holds, of K "{a}" a] by (simp add: base_def)

lemma fresh_state_ok: "state_inv (secure_database K w) fresh_state" "revisions_ok fresh_state"
  by (simp_all add: state_inv_def fresh_state_def revisions_ok_def base_empty)

section \<open>Properties\<close>

text \<open>
  C9. Reverting to a snapshot restores the state. After a snapshot, run any sequence of journalled
  operations, reads and further snapshots, with reverts to those; if none of them panics, reverting
  to the snapshot succeeds and every getter gives the answer it gave before, with the journal and
  the stack of snapshots as they were. This holds on any database whose tries are not disturbed by
  reads, whether or not those reads fail.
\<close>

theorem RevertToSnapshot_restores:
  assumes "state_backend D" "state_inv D s" "revisions_ok s" "Snapshot s = (i, s1)" "\<forall>j. ORevert j \<in> set ops \<longrightarrow> i < j"
    "exec_ops D ops s1 = Inr s2"
  shows "\<exists>s3. RevertToSnapshot D i s2 = Inr s3 \<and> same_answers D s3 s \<and> s_journal s3 = s_journal s
    \<and> s_validRevisions s3 = s_validRevisions s"
  using state_backend.revert_restores [OF assms] state_backend.view_same_answers [OF assms(1) _ assms(2)] by blast

theorem RevertToSnapshot_restores_witness:
  "\<exists>s1 s2 s3. Snapshot fresh_state = (0, s1)
     \<and> exec_ops (secure_database pad_hash NewMemDatabase)
         [OAddBalance (replicate 20 7) 5, OSnapshot, OSetNonce (replicate 20 7) 3, OSuicide (replicate 20 7), OAddRefund 9] s1 = Inr s2
     \<and> RevertToSnapshot (secure_database pad_hash NewMemDatabase) 0 s2 = Inr s3
     \<and> same_answers (secure_database pad_hash NewMemDatabase) s3 fresh_state"
proof -
  let ?D = "secure_database pad_hash NewMemDatabase"
  let ?ops = "[OAddBalance (replicate 20 7) 5, OSnapshot, OSetNonce (replicate 20 7) 3, OSuicide (replicate 20 7), OAddRefund 9]"
  obtain s1 where s1: "Snapshot fresh_state = (0, s1)" by (simp add: Snapshot_def fresh_state_def Let_def)
  obtain s2 where s2: "exec_ops ?D ?ops s1 = Inr s2" by simp
  have "\<exists>s3. RevertToSnapshot ?D 0 s2 = Inr s3 \<and> same_answers ?D s3 fresh_state \<and> s_journal s3 = s_journal fresh_state
      \<and> s_validRevisions s3 = s_validRevisions fresh_state"
    by (rule RevertToSnapshot_restores [OF secure_backend.state_backend_axioms fresh_state_ok s1 _ s2]) auto
  then show ?thesis using s1 s2 by blast
qed

end
