(* ===== verification/State_Gaps.thy ===== *)
theory State_Gaps
  imports State_Snapshot
begin

text \<open>
  Where the journal of the account state does not cover a change: contributions added directly,
  records added and removed, and the dirty mark of a touched account. Each statement is about an
  account whose object \<open>c\<close> is live.
\<close>

definition live :: "'t StateDB \<Rightarrow> address \<Rightarrow> 't stateObject \<Rightarrow> bool" where
  "live s a c \<longleftrightarrow> map_of (s_objects s) a = Some c \<and> \<not> o_deleted c \<and> o_address c = a"

lemma live_get [simp]: "live s a c \<Longrightarrow> getStateObject D a s = (Some c, s)"
  by (simp add: live_def getStateObject_def)

lemma live_getters [simp]:
  "live s a c \<Longrightarrow> GetContribution D a s = (Contribution (o_data c), s)" "live s a c \<Longrightarrow> GetBalance D a s = (Balance (o_data c), s)"
  "live s a c \<Longrightarrow> GetRecords D a s = (Records (o_data c), s)"
  by (simp_all add: GetContribution_def GetBalance_def GetRecords_def)

lemma live_on_object: "live s a c \<Longrightarrow> on_object D a m s = setStateObject (fst (m (c, s))) (snd (m (c, s)))"
  by (simp add: on_object_def GetOrNewStateObject_def split_beta) (simp add: live_def)

lemma live_setStateObject [intro]: "o_address c = a \<Longrightarrow> \<not> o_deleted c \<Longrightarrow> live (setStateObject c s) a c"
  by (simp add: live_def setStateObject_def update_conv')

lemma onDirty_fields [simp]:
  "o_address (fst (obj_onDirty (c, s))) = o_address c" "o_deleted (fst (obj_onDirty (c, s))) = o_deleted c"
  "o_data (fst (obj_onDirty (c, s))) = o_data c" "o_onDirty (fst (obj_onDirty (c, s))) = False"
  "o_touched (fst (obj_onDirty (c, s))) = o_touched c"
  "s_journal (snd (obj_onDirty (c, s))) = s_journal s" "s_validRevisions (snd (obj_onDirty (c, s))) = s_validRevisions s"
  "s_objects (snd (obj_onDirty (c, s))) = s_objects s"
  "s_dirty (snd (obj_onDirty (c, s))) = (if o_onDirty c then List.insert (o_address c) (s_dirty s) else s_dirty s)"
  by (auto simp: obj_onDirty_def MarkStateObjectDirty_def)

lemma setStateObject_fields [simp]:
  "s_journal (setStateObject c s) = s_journal s" "s_validRevisions (setStateObject c s) = s_validRevisions s"
  "s_dirty (setStateObject c s) = s_dirty s"
  by (simp_all add: setStateObject_def)

lemma live_frame [simp]:
  "live (s\<lparr>s_journal := j\<rparr>) a c = live s a c" "live (s\<lparr>s_validRevisions := v\<rparr>) a c = live s a c"
  "live (s\<lparr>s_dirty := d\<rparr>) a c = live s a c" "live (s\<lparr>s_nextRevisionId := n\<rparr>) a c = live s a c"
  by (simp_all add: live_def)

text \<open>Reverting to the last snapshot undoes exactly the entries made since.\<close>

lemma revert_last:
  assumes "revisions_ok s" "Snapshot s = (i, s1)" "s_journal s2 = s_journal s @ es" "s_validRevisions s2 = s_validRevisions s1"
  shows "RevertToSnapshot D i s2 = go_bind (undo_all D (rev es) s2) (\<lambda>s'.
    Inr (s'\<lparr>s_journal := take (length (s_journal s)) (s_journal s'),
           s_validRevisions := take (length (s_validRevisions s)) (s_validRevisions s')\<rparr>))"
proof -
  let ?n = "length (s_validRevisions s)"
  define vr where "vr = s_validRevisions s2"
  have vr: "vr = s_validRevisions s @ [(i, length (s_journal s))]" "i = s_nextRevisionId s"
    using assms(2,4) by (auto simp: vr_def Snapshot_def Let_def)
  have old: "fst x < i" if "x \<in> set (s_validRevisions s)" for x
    using assms(1) that vr(2) by (auto simp: revisions_ok_def)
  have "sort_Search (length vr) (\<lambda>k. i \<le> fst (vr ! k)) = ?n"
  proof (rule sort_Search_eq)
    fix k l assume "k \<le> l" "l < length vr" "i \<le> fst (vr ! k)"
    then show "i \<le> fst (vr ! l)"
      using old [of "s_validRevisions s ! k"] by (cases "k < ?n") (auto simp: vr nth_append)
  next
    show "?n < length vr" "i \<le> fst (vr ! ?n)" by (simp_all add: vr)
    fix k assume "k < ?n"
    then show "\<not> i \<le> fst (vr ! k)" using old [of "s_validRevisions s ! k"] by (simp add: vr nth_append)
  qed
  then show ?thesis
    using assms(3) vr by (simp add: RevertToSnapshot_def vr_def [symmetric] Let_def)
qed

lemma Snapshot_frame:
  assumes "Snapshot s = (i, s1)"
  shows "live s1 a c = live s a c" "s_journal s1 = s_journal s" "s_dirty s1 = s_dirty s"
  using assms by (auto simp: Snapshot_def Let_def live_def)

section \<open>Changes that a revert does not undo\<close>

text \<open>
  C38. A contribution added with \<open>AddContribution\<close>, and a record added with \<open>AddRecords\<close>, survive a
  revert to a snapshot taken before: neither appends a journal entry.
\<close>

theorem unjournalled_changes_survive_revert:
  assumes "live s a c" "revisions_ok s" "Snapshot s = (i, s1)" "amount \<noteq> 0" "r \<notin> set (Records (o_data c))"
  shows "\<exists>s2. RevertToSnapshot D i (AddRecords D a r (AddContribution D a amount s1)) = Inr s2
    \<and> fst (GetContribution D a s2) = fst (GetContribution D a s) + amount
    \<and> fst (GetRecords D a s2) = fst (GetRecords D a s) @ [r]"
proof -
  note f = Snapshot_frame [OF assms(3)]
  define c1 where "c1 = fst (obj_setContribution (Contribution (o_data c) + amount) (c, s1))"
  define s2 where "s2 = AddContribution D a amount s1"
  have l1: "live s1 a c" using assms(1) f(1) by simp
  have s2: "s2 = setStateObject c1 (snd (obj_setContribution (Contribution (o_data c) + amount) (c, s1)))"
    using live_on_object [OF l1] assms(4) by (simp add: s2_def c1_def AddContribution_def obj_AddContribution_def)
  have c1: "o_address c1 = a" "\<not> o_deleted c1" "o_data c1 = (o_data c)\<lparr>Contribution := Contribution (o_data c) + amount\<rparr>"
    using l1 by (auto simp: c1_def obj_setContribution_def live_def)
  have l2: "live s2 a c1" "s_journal s2 = s_journal s" "s_validRevisions s2 = s_validRevisions s1"
    using c1 f by (auto simp: s2 obj_setContribution_def)
  define c2 where "c2 = fst (obj_setRecords (Records (o_data c) @ [r]) (c1, s2))"
  define s3 where "s3 = AddRecords D a r s2"
  have s3: "s3 = setStateObject c2 (snd (obj_setRecords (Records (o_data c) @ [r]) (c1, s2)))"
    using live_on_object [OF l2(1)] assms(5) c1(3) by (cases "Records (o_data c)") (simp_all add: s3_def c2_def AddRecords_def)
  have c2: "o_address c2 = a" "\<not> o_deleted c2" "o_data c2 = (o_data c1)\<lparr>Records := Records (o_data c) @ [r]\<rparr>"
    using c1 by (auto simp: c2_def obj_setRecords_def)
  have l3: "live s3 a c2" "s_journal s3 = s_journal s @ []" "s_validRevisions s3 = s_validRevisions s1"
    using c2 l2 by (auto simp: s3 obj_setRecords_def)
  have "RevertToSnapshot D i s3 = Inr (s3\<lparr>s_journal := take (length (s_journal s)) (s_journal s3),
      s_validRevisions := take (length (s_validRevisions s)) (s_validRevisions s3)\<rparr>)"
    using revert_last [OF assms(2,3) l3(2,3)] by simp
  then show ?thesis using l3(1) assms(1) c2(3) c1(3) by (simp flip: s2_def s3_def)
qed

definition sample_db :: "SecureTrie database" where
  "sample_db = secure_database pad_hash NewMemDatabase"

definition sample_object :: "SecureTrie stateObject" where
  "sample_object = newObject sample_db (replicate 20 7) (emptyAccount sample_db) True"

definition sample_state :: "SecureTrie StateDB" where
  "sample_state = fresh_state\<lparr>s_objects := [(replicate 20 7, sample_object)]\<rparr>"

lemma sample_live: "live sample_state (replicate 20 7) sample_object" "revisions_ok sample_state"
  "Snapshot sample_state = (0, snd (Snapshot sample_state))"
  by (simp_all add: live_def sample_state_def sample_object_def newObject_def revisions_ok_def fresh_state_def Snapshot_def Let_def)

theorem unjournalled_changes_survive_revert_witness:
  "\<exists>s2. RevertToSnapshot sample_db 0 (AddRecords sample_db (replicate 20 7) zeroHash (AddContribution sample_db (replicate 20 7) 5 (snd (Snapshot sample_state)))) = Inr s2
    \<and> fst (GetContribution sample_db (replicate 20 7) s2) = fst (GetContribution sample_db (replicate 20 7) sample_state) + 5
    \<and> fst (GetRecords sample_db (replicate 20 7) s2) = fst (GetRecords sample_db (replicate 20 7) sample_state) @ [zeroHash]"
  by (rule unjournalled_changes_survive_revert [OF sample_live])
    (simp_all add: sample_object_def newObject_def emptyAccount_def)

text \<open>
  C39. A touched account loses its dirty mark for good. When a clean, empty account is touched by
  adding a zero balance and the touch is reverted, the next change of its balance is visible to
  \<open>GetBalance\<close>, but the account is not in the dirty set, so \<open>Finalise\<close> does not write it.
\<close>

theorem reverted_touch_loses_update:
  assumes "live s a c" "revisions_ok s" "Snapshot s = (i, s1)" "obj_empty D c" "o_onDirty c" "\<not> o_touched c"
    "a \<notin> set (s_dirty s)" "a \<noteq> ripemd" "distinct (s_dirty s)" "amount \<noteq> 0"
  shows "\<exists>s2. RevertToSnapshot D i (AddBalance D a 0 s1) = Inr s2
    \<and> fst (GetBalance D a (AddBalance D a amount s2)) = amount
    \<and> a \<notin> set (s_dirty (AddBalance D a amount s2))"
proof -
  note f = Snapshot_frame [OF assms(3)]
  let ?e = "TouchChange a False False"
  define c1 where "c1 = c\<lparr>o_onDirty := False, o_touched := True\<rparr>"
  define s2 where "s2 = AddBalance D a 0 s1"
  have l1: "live s1 a c" using assms(1) f(1) by simp
  have s2: "s2 = setStateObject c1 (MarkStateObjectDirty a (journal_append ?e s1))"
    using live_on_object [OF l1] l1 assms(4-6)
    by (simp add: s2_def c1_def AddBalance_def obj_AddBalance_def obj_touch_def obj_onDirty_def live_def)
  have l2: "live s2 a c1" "s_journal s2 = s_journal s @ [?e]" "s_validRevisions s2 = s_validRevisions s1"
      "s_dirty s2 = a # s_dirty s"
    using l1 f assms(7) by (auto simp: s2 MarkStateObjectDirty_def journal_append_def c1_def live_def setStateObject_def update_conv')
  define s3 where "s3 = (setStateObject (c1\<lparr>o_touched := False\<rparr>) s2)\<lparr>s_dirty := s_dirty s\<rparr>"
  have "undo_all D (rev [?e]) s2 = Inr s3"
    using live_get [OF l2(1)] assms(8) l2(4) by (simp add: touchChange_undo_def on_existing_def s3_def)
  then obtain s4 where s4: "RevertToSnapshot D i s2 = Inr s4" "live s4 a (c1\<lparr>o_touched := False\<rparr>)" "s_dirty s4 = s_dirty s"
    using revert_last [OF assms(2,3) l2(2,3)] l2(1) by (simp add: s3_def live_def setStateObject_def update_conv')
  have o: "\<not> o_onDirty (c1\<lparr>o_touched := False\<rparr>)" "o_address c1 = a" "\<not> o_deleted c1" "Balance (o_data c1) = 0"
    using l2(1) assms(4) by (simp_all add: c1_def live_def obj_empty_def)
  let ?c2 = "(c1\<lparr>o_touched := False\<rparr>)\<lparr>o_data := (o_data c1)\<lparr>Balance := amount\<rparr>\<rparr>"
  have s5: "AddBalance D a amount s4 = setStateObject ?c2 (journal_append (BalanceChange a 0) s4)"
    using live_on_object [OF s4(2)] o assms(10)
    by (simp add: AddBalance_def obj_AddBalance_def obj_SetBalance_def obj_setBalance_def obj_onDirty_def)
  have "live (AddBalance D a amount s4) a ?c2" using o unfolding s5 by auto
  moreover have "s_dirty (AddBalance D a amount s4) = s_dirty s" using s4(3) by (simp add: s5 journal_append_def)
  ultimately show ?thesis using s4(1) assms(7) by (simp flip: s2_def)
qed

lemma sample_not_ripemd: "replicate 20 7 \<noteq> ripemd"
proof
  assume "replicate 20 7 = ripemd"
  then have "replicate 20 7 ! 0 = ripemd ! 0" by simp
  then show False by (simp add: ripemd_def nth_append)
qed

theorem reverted_touch_loses_update_witness:
  "\<exists>s2. RevertToSnapshot sample_db 0
      (AddBalance sample_db (replicate 20 7) 0 (snd (Snapshot sample_state))) = Inr s2
    \<and> fst (GetBalance sample_db (replicate 20 7)
        (AddBalance sample_db (replicate 20 7) 5 s2)) = 5
    \<and> replicate 20 7 \<notin> set (s_dirty (AddBalance sample_db (replicate 20 7) 5 s2))"
  by (rule reverted_touch_loses_update [OF sample_live])
    (simp_all add: sample_state_def sample_object_def newObject_def emptyAccount_def obj_empty_def fresh_state_def sample_not_ripemd)

text \<open>
  C40. \<open>RemoveRecords\<close> removes a record from an account only when it is not the first of the list;
  the first record of an account stays.
\<close>

theorem RemoveRecords_keeps_first:
  assumes "live s a c" "Records (o_data c) = x # xs" "distinct (x # xs)"
  shows "fst (GetRecords D a (RemoveRecords D a r s)) = (if r = x then x # xs else x # remove1 r xs)"
proof -
  have find: "find_index r ys k = (if r \<in> set ys then Some (k + length (takeWhile (\<lambda>y. y \<noteq> r) ys)) else None)" for ys k
    by (induction ys arbitrary: k) auto
  have cut: "take (length (takeWhile (\<lambda>y. y \<noteq> r) ys)) ys @ drop (Suc (length (takeWhile (\<lambda>y. y \<noteq> r) ys))) ys = remove1 r ys" if "r \<in> set ys" for ys
    using that by (induction ys) auto
  let ?m = "\<lambda>rs. obj_setRecords rs (c, s)"
  have o: "live (setStateObject (fst (?m rs)) (snd (?m rs))) a (fst (?m rs))" "o_data (fst (?m rs)) = (o_data c)\<lparr>Records := rs\<rparr>" for rs
    using assms(1) by (auto simp: obj_setRecords_def live_def setStateObject_def update_conv')
  have l: "live (setStateObject c s) a c" using assms(1) by (auto simp: live_def setStateObject_def update_conv')
  show ?thesis
    using assms(2,3) l cut [of xs] unfolding RemoveRecords_def live_on_object [OF assms(1)]
    by (auto simp: Let_def find remove1_idem nat_add_distrib live_getters(3) [OF o(1)] o(2))
qed

theorem RemoveRecords_keeps_first_witness:
  "fst (GetRecords sample_db (replicate 20 7) (RemoveRecords sample_db (replicate 20 7) [1]
     (setStateObject (sample_object\<lparr>o_data := (o_data sample_object)\<lparr>Records := [[1], [2]]\<rparr>\<rparr>) sample_state))) = [[1], [2]]"
  using RemoveRecords_keeps_first [of "setStateObject (sample_object\<lparr>o_data := (o_data sample_object)\<lparr>Records := [[1], [2]]\<rparr>\<rparr>) sample_state"
      "replicate 20 7" "sample_object\<lparr>o_data := (o_data sample_object)\<lparr>Records := [[1], [2]]\<rparr>\<rparr>" "[1]" "[[2]]" sample_db "[1]"] sample_live(1)
  by (auto simp: live_def setStateObject_def update_conv')

end
