(* ===== verification/State_Finalise.thy ===== *)
theory State_Finalise
  imports State_Snapshot
begin

text \<open>
  Writing the account state to its trie: an account and a storage slot survive the way through
  their RLP form, the storage trie of an object takes up its dirty slots, and \<open>Finalise\<close> leaves in
  the trie exactly the accounts that the getters answer from.
\<close>

section \<open>Accounts in the trie\<close>

definition account_fits :: "Account \<Rightarrow> bool" where
  "account_fits a \<longleftrightarrow> 0 \<le> Balance a \<and> 0 \<le> Contribution a \<and> (\<forall>h \<in> set (Records a). length h = 32) \<and> length (Root a) = 32
     \<and> length (venc (account_dval a)) < 2 ^ 64"

text \<open>The account that \<open>getStateObject\<close> would load from a trie.\<close>

definition stored :: "'t database \<Rightarrow> 't \<Rightarrow> address \<Rightarrow> Account option" where
  "stored D t addr =
     (case fst (api_TryGet (db_trie D) t addr) of
        Inl e \<Rightarrow> None
      | Inr None \<Rightarrow> None
      | Inr (Some b) \<Rightarrow> if length b = 0 then None else decode_account b)"

lemma dval_account_dval [simp]: "dval_account (account_dval a) = a"
  by (simp add: dval_account_def account_dval_def numeral_eq_Suc Let_def o_def)

lemma length_rlp_string_32: "length r = 32 \<Longrightarrow> length (rlp_string r) = 33"
  by (simp add: rlp_string_def rlp_head_def)

lemma account_fits_Root:
  assumes "account_fits a" "length r = 32"
  shows "account_fits (a\<lparr>Root := r\<rparr>)"
proof -
  have "length (concat (map venc [DUint (Nonce a), DBig (Balance a), DBig (Contribution a), DList (map DBytes (Records a)), DBytes r, DBytes (CodeHash a)]))
      = length (concat (map venc [DUint (Nonce a), DBig (Balance a), DBig (Contribution a), DList (map DBytes (Records a)), DBytes (Root a), DBytes (CodeHash a)]))"
    using assms by (simp add: length_rlp_string_32 account_fits_def)
  then have "length (venc (account_dval (a\<lparr>Root := r\<rparr>))) = length (venc (account_dval a))"
    by (simp add: account_dval_def rlp_list_def rlp_head_def)
  then show ?thesis using assms by (simp add: account_fits_def)
qed

lemma account_round_trip:
  assumes "account_fits a"
  shows "EncodeToBytes (to_val (account_dval a)) = Inr (Some (venc (account_dval a)))" "decode_account (venc (account_dval a)) = Some a"
    "venc (account_dval a) \<noteq> []"
proof -
  have t: "type_ok account_type" by (simp add: account_type_def)
  have w: "wt account_type (account_dval a)"
    using assms unsigned_less [of "Nonce a"] by (auto simp: account_type_def account_dval_def account_fits_def)
  have d: "tdepth account_type = 10" by (simp add: account_type_def)
  have l: "length (venc (account_dval a)) < 2 ^ 64" using assms by (simp add: account_fits_def)
  note r = decode_encode [OF t w l, of "length (venc (account_dval a)) + 10"]
  show "EncodeToBytes (to_val (account_dval a)) = Inr (Some (venc (account_dval a)))" using r d by simp
  show "decode_account (venc (account_dval a)) = Some a" using r d by (simp add: decode_account_def)
  show "venc (account_dval a) \<noteq> []" by (simp add: account_dval_def rlp_list_def)
qed

section \<open>Storage slots\<close>

lemma trim_zeros_back: "replicate (length v - length (trim_zeros v)) 0 @ trim_zeros v = v"
proof -
  have "replicate (length (takeWhile (\<lambda>x. x = 0) v)) 0 = takeWhile (\<lambda>x. x = 0) v"
    by (induction v) auto
  moreover have "length v - length (trim_zeros v) = length (takeWhile (\<lambda>x. x = 0) v)"
    unfolding trim_zeros_def by (metis add_diff_cancel_right' length_append takeWhile_dropWhile_id)
  ultimately show ?thesis by (simp add: trim_zeros_def)
qed

lemma slot_round_trip:
  assumes "length v = 32"
  shows "EncodeToBytes (RBytes (trim_zeros v)) = Inr (Some (rlp_string (trim_zeros v)))"
    "decode_slot (Some (rlp_string (trim_zeros v))) = Inr (None, v)"
proof -
  have l: "length (trim_zeros v) \<le> 32" using assms by (simp add: trim_zeros_def length_dropWhile_le flip: assms)
  then show "EncodeToBytes (RBytes (trim_zeros v)) = Inr (Some (rlp_string (trim_zeros v)))"
    using EncodeToBytes_enc [of "RBytes (trim_zeros v)"] by simp
  have n: "length (rlp_string (trim_zeros v)) > 0" "length (rlp_string (trim_zeros v)) < 2 ^ 64"
    using l by (auto simp: rlp_string_def rlp_head_def)
  have "Split (rlp_string (trim_zeros v) @ []) = Inr (if length (trim_zeros v) = 1 \<and> trim_zeros v ! 0 < 128 then KByte else KString, trim_zeros v, [])"
    using n(2) unfolding rlp_string_item by (intro Split_item) auto
  moreover have "Hash_SetBytes zeroHash (trim_zeros v) = v"
    using trim_zeros_back [of v] l assms
    by (simp add: Hash_SetBytes_def array_SetBytes_def HashLength_def zeroHash_def Let_def)
  ultimately show "decode_slot (Some (rlp_string (trim_zeros v))) = Inr (None, v)"
    using n(1) by (simp add: decode_slot_def split: if_splits)
qed

text \<open>What the storage trie holds for a slot after writing \<open>v\<close>.\<close>

definition slot_bytes :: "hash \<Rightarrow> bytes option" where
  "slot_bytes v = (if v = zeroHash then None else Some (rlp_string (trim_zeros v)))"

lemma decode_slot_bytes: "length v = 32 \<Longrightarrow> decode_slot (slot_bytes v) = Inr (None, v)"
  using slot_round_trip(2) by (simp add: slot_bytes_def decode_slot_def)

lemma obj_setError_None [simp]: "obj_setError None c = c"
  by (cases c) (simp add: obj_setError_def)

lemma updateTrie_loop_data:
  "updateTrie_loop D kvs (tr, c) = (tr', c') \<Longrightarrow> o_data c' = o_data c \<and> o_address c' = o_address c
    \<and> o_deleted c' = o_deleted c \<and> o_addrHash c' = o_addrHash c \<and> o_cachedStorage c' = o_cachedStorage c"
proof (induction kvs arbitrary: tr c)
  case (Cons kv kvs)
  obtain k v where kv: "kv = (k, v)" by (cases kv)
  obtain e tr1 where w: "(if v = zeroHash then api_TryDelete (db_trie D) tr k
      else (case EncodeToBytes (RBytes (trim_zeros v)) of
          Inr (Some v) \<Rightarrow> api_TryUpdate (db_trie D) tr k v
        | _ \<Rightarrow> api_TryUpdate (db_trie D) tr k [])) = (e, tr1)" by fastforce
  show ?case using Cons.IH Cons.prems w kv by (fastforce simp: Let_def)
qed simp

lemma updateTrie_loop_spec:
  assumes "trie_service (db_trie D) R okk" "R tr m" "updateTrie_loop D kvs (tr, c) = (tr', c')" "\<forall>v \<in> snd ` set kvs. length v = 32"
    "distinct (map fst kvs)" "\<forall>k \<in> fst ` set kvs. okk k"
  shows "R tr' (\<lambda>k. case map_of kvs k of None \<Rightarrow> m k | Some v \<Rightarrow> slot_bytes v) \<and> o_dbErr c' = o_dbErr c"
  using assms(2-)
proof (induction kvs arbitrary: tr m c)
  case (Cons kv kvs)
  obtain k v where kv: "kv = (k, v)" by (cases kv)
  let ?m1 = "m(k := slot_bytes v)"
  let ?c1 = "c\<lparr>o_dirtyStorage := AList.delete k (o_dirtyStorage c)\<rparr>"
  have v: "length v = 32" "okk k" using Cons.prems(3,5) kv by simp_all
  have ne: "rlp_string (trim_zeros v) \<noteq> []" if "v \<noteq> zeroHash"
    by (auto simp: rlp_string_def rlp_head_def)
  obtain e tr1 where w: "(if v = zeroHash then api_TryDelete (db_trie D) tr k
      else (case EncodeToBytes (RBytes (trim_zeros v)) of
          Inr (Some v) \<Rightarrow> api_TryUpdate (db_trie D) tr k v
        | _ \<Rightarrow> api_TryUpdate (db_trie D) tr k [])) = (e, tr1)" by fastforce
  have "e = None \<and> R tr1 ?m1"
  proof (cases "v = zeroHash")
    case True
    then show ?thesis
      using w trie_service.delete_law [OF assms(1) Cons.prems(1) v(2)] by (simp add: slot_bytes_def fun_upd_def)
  next
    case False
    then show ?thesis
      using w slot_round_trip(1) [OF v(1)] ne trie_service.update_law [OF assms(1) Cons.prems(1) v(2), of "rlp_string (trim_zeros v)"]
      by (simp add: slot_bytes_def fun_upd_def)
  qed
  then have r1: "e = None" "R tr1 ?m1" by simp_all
  have step: "updateTrie_loop D kvs (tr1, ?c1) = (tr', c')"
    using Cons.prems(2) w r1(1) kv by (simp add: Let_def)
  have nk: "map_of kvs k = None" using Cons.prems(4) kv by (simp add: map_of_eq_None_iff)
  have "(\<lambda>j. case map_of kvs j of None \<Rightarrow> ?m1 j | Some v \<Rightarrow> slot_bytes v)
      = (\<lambda>j. case map_of (kv # kvs) j of None \<Rightarrow> m j | Some v \<Rightarrow> slot_bytes v)"
    using nk kv by (auto simp: fun_eq_iff split: option.split)
  then show ?case using Cons.IH [OF r1(2) step] Cons.prems(3,4,5) by simp
qed simp

section \<open>Finalise\<close>

definition storage_opens :: "'t database \<Rightarrow> bool" where
  "storage_opens D \<longleftrightarrow> (\<forall>h. \<exists>t. db_OpenStorageTrie D h zeroHash = Inr t)"

definition root_length :: "'t database \<Rightarrow> bool" where
  "root_length D \<longleftrightarrow> (\<forall>t. length (fst (api_Hash (db_trie D) t)) = 32)"

lemma updateRoot_ok:
  assumes "storage_opens D" "root_length D"
  shows "\<exists>c' r. updateRoot D c = Inr c' \<and> o_data c' = (o_data c)\<lparr>Root := r\<rparr> \<and> length r = 32 \<and> o_address c' = o_address c
    \<and> o_deleted c' = o_deleted c"
proof -
  obtain t c1 where g: "getTrie D c = Inr (t, c1)" "o_data c1 = o_data c" "o_address c1 = o_address c" "o_deleted c1 = o_deleted c"
  proof -
    obtain t0 where t0: "db_OpenStorageTrie D (o_addrHash c) zeroHash = Inr t0" using assms(1) by (auto simp: storage_opens_def)
    show ?thesis
      using that t0 by (cases "o_trie c"; cases "db_OpenStorageTrie D (o_addrHash c) (Root (o_data c))") (auto simp: getTrie_def)
  qed
  obtain t' c2 where u: "updateTrie_loop D (o_dirtyStorage c1) (t, c1) = (t', c2)" by (cases "updateTrie_loop D (o_dirtyStorage c1) (t, c1)")
  obtain r t'' where h: "api_Hash (db_trie D) t' = (r, t'')" by (cases "api_Hash (db_trie D) t'")
  have "length r = 32" using assms(2) h unfolding root_length_def by (metis fst_conv)
  moreover have "updateRoot D c = Inr (c2\<lparr>o_trie := Some t'', o_data := (o_data c2)\<lparr>Root := r\<rparr>\<rparr>)"
    using g u h by (simp add: updateRoot_def updateTrie_def)
  ultimately show ?thesis using g updateTrie_loop_data [OF u] by auto
qed

definition removed :: "'t database \<Rightarrow> bool \<Rightarrow> 't stateObject \<Rightarrow> bool" where
  "removed D del c \<longleftrightarrow> o_suicided c \<or> (del \<and> obj_empty D c)"

text \<open>
  The state \<open>s'\<close> after the object \<open>c\<close> of account \<open>a\<close> was finalised: it is gone from the trie and from
  the live objects, or both hold its account with the storage root brought up to date.
\<close>

definition finalised :: "'t database \<Rightarrow> bool \<Rightarrow> address \<Rightarrow> 't stateObject \<Rightarrow> 't StateDB \<Rightarrow> bool" where
  "finalised D del a c s' \<longleftrightarrow>
     (\<exists>c'. map_of (s_objects s') a = Some c' \<and>
        (if removed D del c then o_deleted c' \<and> stored D (s_trie s') a = None
         else (\<exists>r. o_data c' = (o_data c)\<lparr>Root := r\<rparr> \<and> length r = 32) \<and> o_deleted c' = o_deleted c
           \<and> stored D (s_trie s') a = Some (o_data c')))"

lemma stored_represents:
  assumes "trie_service (db_trie D) R okk" "R t m" "okk a"
  shows "stored D t a = (case m a of None \<Rightarrow> None | Some b \<Rightarrow> if length b = 0 then None else decode_account b)"
  using trie_service.get_law [OF assms] by (simp add: stored_def)

text \<open>One round of the loop.\<close>

lemma finalise_one:
  assumes "trie_service (db_trie D) R okk" "R (s_trie s) m" "storage_opens D" "root_length D"
    "map_of (s_objects s) a = Some c" "o_address c = a" "account_fits (o_data c)" "okk a"
  shows "\<exists>s1 m1. (if removed D del c then Inr (deleteStateObject D c s)
       else go_bind (updateRoot D c) (\<lambda>o2. updateStateObject D o2 (setStateObject o2 s))) = Inr s1
    \<and> R (s_trie s1) m1 \<and> finalised D del a c s1 \<and> s_dbErr s1 = s_dbErr s
    \<and> (\<forall>b. b \<noteq> a \<longrightarrow> map_of (s_objects s1) b = map_of (s_objects s) b \<and> m1 b = m b)"
proof (cases "removed D del c")
  case True
  obtain e t' where d: "api_TryDelete (db_trie D) (s_trie s) a = (e, t')" by (cases "api_TryDelete (db_trie D) (s_trie s) a")
  have r: "e = None" "R t' (m(a := None))" using trie_service.delete_law [OF assms(1,2,8)] d by (simp_all add: fun_upd_def)
  have s1: "deleteStateObject D c s = setStateObject (c\<lparr>o_deleted := True\<rparr>) (s\<lparr>s_trie := t'\<rparr>)"
    using d r(1) assms(6) by (simp add: deleteStateObject_def setError_def)
  show ?thesis
    using True r(2) assms(6) stored_represents [OF assms(1) r(2) assms(8)] unfolding s1
    by (intro exI [of _ "setStateObject (c\<lparr>o_deleted := True\<rparr>) (s\<lparr>s_trie := t'\<rparr>)"] exI [of _ "m(a := None)"])
      (auto simp: finalised_def setStateObject_def update_conv')
next
  case False
  obtain c' r where u: "updateRoot D c = Inr c'" "o_data c' = (o_data c)\<lparr>Root := r\<rparr>" "length r = 32" "o_address c' = a" "o_deleted c' = o_deleted c"
    using updateRoot_ok [OF assms(3,4), of c] assms(6) by blast
  have f: "account_fits (o_data c')" using account_fits_Root [OF assms(7) u(3)] u(2) by simp
  note rt = account_round_trip [OF f]
  let ?b = "venc (account_dval (o_data c'))"
  obtain e t' where d: "api_TryUpdate (db_trie D) (s_trie s) a ?b = (e, t')" by (cases "api_TryUpdate (db_trie D) (s_trie s) a ?b")
  have r': "e = None" "R t' (m(a \<mapsto> ?b))" using trie_service.update_law [OF assms(1,2,8), of ?b] d rt(3) by (simp_all add: fun_upd_def)
  have s1: "updateStateObject D c' (setStateObject c' s) = Inr ((setStateObject c' s)\<lparr>s_trie := t'\<rparr>)"
    using d r'(1) u(4) rt(1) by (simp add: updateStateObject_def obj_EncodeRLP_def setError_def setStateObject_def)
  show ?thesis
    using False r'(2) u rt stored_represents [OF assms(1) r'(2) assms(8)] s1
    by (intro exI [of _ "(setStateObject c' s)\<lparr>s_trie := t'\<rparr>"] exI [of _ "m(a \<mapsto> ?b)"])
      (auto simp: finalised_def setStateObject_def update_conv')
qed

lemma finalised_cong:
  "map_of (s_objects s') a = map_of (s_objects s) a \<Longrightarrow> stored D (s_trie s') a = stored D (s_trie s) a \<Longrightarrow>
    finalised D del a c s' = finalised D del a c s"
  by (simp add: finalised_def)

lemma Finalise_loop_spec:
  assumes "trie_service (db_trie D) R okk" "storage_opens D" "root_length D"
  shows "R (s_trie s) m \<Longrightarrow> distinct as \<Longrightarrow>
    \<forall>a \<in> set as. okk a \<and> (\<exists>c. map_of (s_objects s) a = Some c \<and> o_address c = a \<and> account_fits (o_data c)) \<Longrightarrow>
    \<exists>s' m'. Finalise_loop D del as s = Inr s' \<and> R (s_trie s') m' \<and> s_dbErr s' = s_dbErr s
      \<and> (\<forall>a \<in> set as. \<exists>c. map_of (s_objects s) a = Some c \<and> finalised D del a c s')
      \<and> (\<forall>a. a \<notin> set as \<longrightarrow> map_of (s_objects s') a = map_of (s_objects s) a \<and> m' a = m a)"
proof (induction as arbitrary: s m)
  case Nil
  then show ?case by auto
next
  case (Cons a as)
  obtain c where c: "map_of (s_objects s) a = Some c" "o_address c = a" "account_fits (o_data c)" "okk a" using Cons.prems(3) by auto
  obtain s1 m1 where s1: "(if removed D del c then Inr (deleteStateObject D c s)
       else go_bind (updateRoot D c) (\<lambda>o2. updateStateObject D o2 (setStateObject o2 s))) = Inr s1"
      "R (s_trie s1) m1" "finalised D del a c s1" "s_dbErr s1 = s_dbErr s"
      "\<And>b. b \<noteq> a \<Longrightarrow> map_of (s_objects s1) b = map_of (s_objects s) b" "\<And>b. b \<noteq> a \<Longrightarrow> m1 b = m b"
    using finalise_one [OF assms(1) Cons.prems(1) assms(2,3) c, of del] by blast
  have loop: "Finalise_loop D del (a # as) s = Finalise_loop D del as s1"
    using c(1) s1(1) unfolding Finalise_loop.simps removed_def by simp
  have nin: "a \<notin> set as" "distinct as" using Cons.prems(2) by simp_all
  have "\<forall>b \<in> set as. okk b \<and> (\<exists>c. map_of (s_objects s1) b = Some c \<and> o_address c = b \<and> account_fits (o_data c))"
  proof
    fix b assume b: "b \<in> set as"
    then have "b \<noteq> a" using nin by auto
    then show "okk b \<and> (\<exists>c. map_of (s_objects s1) b = Some c \<and> o_address c = b \<and> account_fits (o_data c))"
      using Cons.prems(3) s1(5) b by simp
  qed
  from Cons.IH [OF s1(2) nin(2) this]
  obtain s' m' where s': "Finalise_loop D del as s1 = Inr s'" "R (s_trie s') m'" "s_dbErr s' = s_dbErr s1"
      "\<forall>b \<in> set as. \<exists>c. map_of (s_objects s1) b = Some c \<and> finalised D del b c s'"
      "\<forall>b. b \<notin> set as \<longrightarrow> map_of (s_objects s') b = map_of (s_objects s1) b \<and> m' b = m1 b"
    by blast
  have "finalised D del a c s'"
    using s1(3) s'(5) nin(1) finalised_cong [of s' a s1 D] stored_represents [OF assms(1) s'(2) c(4)] stored_represents [OF assms(1) s1(2) c(4)] by simp
  moreover have "\<exists>c. map_of (s_objects s) b = Some c \<and> finalised D del b c s'" if "b \<in> set as" for b
    using s'(4) that s1(5) nin(1) by metis
  ultimately show ?case
    using loop s' s1(4,5,6) c(1) by (intro exI [of _ s'] exI [of _ m']) auto
qed

section \<open>The secure database provides the contract\<close>

lemma secure_storage_opens: "storage_opens (secure_database K w)"
  by (simp add: storage_opens_def NewSecure_def zeroHash_def empty_trie_New)

lemma secure_root_length: "root_length (secure_database K w)"
  by (auto simp: root_length_def secure_api_def sec_Hash_def trie_Hash_def zeroHash_def split: sum.splits node.splits)

lemma pad_hash_inj: "n \<le> 32 \<Longrightarrow> inj_on pad_hash {k. length k = n}"
  by (auto simp: inj_on_def pad_hash_def)

section \<open>Properties\<close>

text \<open>
  C10. \<open>Finalise\<close> succeeds and writes every dirty account: an account that is to be removed is gone
  from the trie and from the live objects, every other dirty account is found in the trie with the
  data of its live object, and no other account of the trie changes. This holds on any trie that
  keeps the laws of a map, for accounts whose encoding fits a 64-bit size.
\<close>

theorem Finalise_persists:
  assumes "trie_service (db_trie D) R okk" "R (s_trie s) m" "storage_opens D" "root_length D" "distinct (s_dirty s)"
    "\<forall>a \<in> set (s_dirty s). okk a \<and> (\<exists>c. map_of (s_objects s) a = Some c \<and> o_address c = a \<and> account_fits (o_data c))"
  shows "\<exists>s'. Finalise D del s = Inr s' \<and> s_dbErr s' = s_dbErr s \<and> s_journal s' = [] \<and> s_refund s' = 0
    \<and> (\<forall>a \<in> set (s_dirty s). \<exists>c. map_of (s_objects s) a = Some c \<and> finalised D del a c s')
    \<and> (\<forall>a. a \<notin> set (s_dirty s) \<longrightarrow> okk a \<longrightarrow> stored D (s_trie s') a = stored D (s_trie s) a)"
proof -
  obtain s' m' where s': "Finalise_loop D del (s_dirty s) s = Inr s'" "R (s_trie s') m'" "s_dbErr s' = s_dbErr s"
      "\<forall>a \<in> set (s_dirty s). \<exists>c. map_of (s_objects s) a = Some c \<and> finalised D del a c s'"
      "\<forall>a. a \<notin> set (s_dirty s) \<longrightarrow> map_of (s_objects s') a = map_of (s_objects s) a \<and> m' a = m a"
    using Finalise_loop_spec [OF assms(1,3,4,2,5,6)] by blast
  have "stored D (s_trie s') a = stored D (s_trie s) a" if "a \<notin> set (s_dirty s)" "okk a" for a
    using s'(5) that stored_represents [OF assms(1) s'(2)] stored_represents [OF assms(1,2)] by simp
  moreover have "finalised D del a c (clearJournalAndRefund s') = finalised D del a c s'" for a c
    by (simp add: finalised_def clearJournalAndRefund_def)
  ultimately show ?thesis
    using s' by (intro exI [of _ "clearJournalAndRefund s'"]) (simp add: Finalise_def clearJournalAndRefund_def)
qed

definition sample_dirty :: "SecureTrie StateDB" where
  "sample_dirty = fresh_state\<lparr>s_dirty := [replicate 20 7],
     s_objects := [(replicate 20 7, newObject (secure_database pad_hash NewMemDatabase) (replicate 20 7)
       \<lparr>Nonce = 1, Balance = 9, Contribution = 0, Records = [], Root = zeroHash, CodeHash = []\<rparr> False)]\<rparr>"

theorem Finalise_persists_witness:
  "\<exists>s'. Finalise (secure_database pad_hash NewMemDatabase) True sample_dirty = Inr s'
     \<and> map_option Balance (stored (secure_database pad_hash NewMemDatabase) (s_trie s') (replicate 20 7)) = Some 9"
proof -
  let ?D = "secure_database pad_hash NewMemDatabase"
  let ?a = "\<lparr>Nonce = 1, Balance = 9, Contribution = 0, Records = [], Root = zeroHash, CodeHash = []\<rparr>"
  let ?S = "{k. length k = 20}"
  have t: "trie_service (db_trie ?D) (secure_holds pad_hash ?S) (\<lambda>k. k \<in> ?S)" unfolding secure_database_parts by (rule sec_srv.trie_service_axioms)
  have m: "secure_holds pad_hash ?S (s_trie sample_dirty) Map.empty"
    by (simp add: sample_dirty_def fresh_state_def fresh_trie_holds pad_hash_inj)
  have o: "storage_opens ?D" by (rule secure_storage_opens)
  have r: "root_length ?D" by (rule secure_root_length)
  have "length (venc (account_dval ?a)) < 2 ^ 64"
    by (simp add: account_dval_def rlp_list_def rlp_string_def rlp_head_def be_min.simps zeroHash_def)
  then have f: "account_fits ?a" by (simp add: account_fits_def zeroHash_def)
  let ?c = "newObject ?D (replicate 20 7) ?a False"
  have c: "map_of (s_objects sample_dirty) (replicate 20 7) = Some ?c" by (simp add: sample_dirty_def)
  have d: "distinct (s_dirty sample_dirty)" "s_dirty sample_dirty = [replicate 20 7]" by (simp_all add: sample_dirty_def)
  have "\<forall>a \<in> set (s_dirty sample_dirty). a \<in> ?S \<and> (\<exists>c. map_of (s_objects sample_dirty) a = Some c \<and> o_address c = a \<and> account_fits (o_data c))"
    using c f d(2) by (simp add: newObject_def)
  from Finalise_persists [OF t m o r d(1) this, of True] c d(2)
  obtain s' where "Finalise ?D True sample_dirty = Inr s'" "finalised ?D True (replicate 20 7) ?c s'" by auto
  moreover have "\<not> removed ?D True ?c" by (simp add: removed_def newObject_def obj_empty_def)
  ultimately show ?thesis by (auto simp: finalised_def newObject_def)
qed

text \<open>
  C26. \<open>updateTrie\<close> writes the dirty slots of an object to its storage trie: afterwards the trie holds
  for every dirty slot bytes that \<open>GetState\<close> decodes to the value of the slot, and no entry for a
  slot set to zero; all other slots are as before and no error is recorded.
\<close>

theorem updateTrie_writes_slots:
  assumes "trie_service (db_trie D) R okk" "o_trie c = Some tr" "R tr m" "distinct (map fst (o_dirtyStorage c))"
    "\<forall>v \<in> snd ` set (o_dirtyStorage c). length v = 32" "\<forall>k \<in> fst ` set (o_dirtyStorage c). okk k"
  shows "\<exists>c' tr' m'. updateTrie D c = Inr c' \<and> o_trie c' = Some tr' \<and> R tr' m' \<and> o_dbErr c' = o_dbErr c
    \<and> (\<forall>k v. map_of (o_dirtyStorage c) k = Some v \<longrightarrow> decode_slot (m' k) = Inr (None, v) \<and> (v = zeroHash \<longrightarrow> m' k = None))
    \<and> (\<forall>k. map_of (o_dirtyStorage c) k = None \<longrightarrow> m' k = m k)"
proof -
  obtain tr' c2 where u: "updateTrie_loop D (o_dirtyStorage c) (tr, c) = (tr', c2)" by (cases "updateTrie_loop D (o_dirtyStorage c) (tr, c)")
  let ?m = "\<lambda>k. case map_of (o_dirtyStorage c) k of None \<Rightarrow> m k | Some v \<Rightarrow> slot_bytes v"
  have r: "R tr' ?m" "o_dbErr c2 = o_dbErr c" using updateTrie_loop_spec [OF assms(1,3) u assms(5,4,6)] by simp_all
  have "length v = 32" if "map_of (o_dirtyStorage c) k = Some v" for k v
    using assms(5) map_of_SomeD [OF that] by force
  then have "decode_slot (?m k) = Inr (None, v) \<and> (v = zeroHash \<longrightarrow> ?m k = None)" if "map_of (o_dirtyStorage c) k = Some v" for k v
    using that decode_slot_bytes by (auto simp: slot_bytes_def)
  then show ?thesis
    using u r assms(2) by (intro exI [of _ "c2\<lparr>o_trie := Some tr'\<rparr>"] exI [of _ tr'] exI [of _ ?m]) (auto simp: updateTrie_def getTrie_def)
qed

theorem updateTrie_writes_slots_witness:
  "\<exists>c' tr' m'. updateTrie (secure_database pad_hash NewMemDatabase)
       ((newObject (secure_database pad_hash NewMemDatabase) [] (emptyAccount (secure_database pad_hash NewMemDatabase)) False)
          \<lparr>o_trie := Some (fresh_trie), o_dirtyStorage := [(replicate 32 1, replicate 32 5)]\<rparr>) = Inr c'
     \<and> o_trie c' = Some tr' \<and> secure_holds pad_hash {k. length k = 32} tr' m' \<and> decode_slot (m' (replicate 32 1)) = Inr (None, replicate 32 5)"
proof -
  let ?D = "secure_database pad_hash NewMemDatabase"
  let ?c = "(newObject ?D [] (emptyAccount ?D) False)\<lparr>o_trie := Some (fresh_trie), o_dirtyStorage := [(replicate 32 1, replicate 32 5)]\<rparr>"
  have t: "trie_service (db_trie ?D) (secure_holds pad_hash {k. length k = 32}) (\<lambda>k. k \<in> {k. length k = 32})"
    unfolding secure_database_parts by (rule sec_srv.trie_service_axioms)
  have "\<exists>c' tr' m'. updateTrie ?D ?c = Inr c' \<and> o_trie c' = Some tr' \<and> secure_holds pad_hash {k. length k = 32} tr' m' \<and> o_dbErr c' = o_dbErr ?c
    \<and> (\<forall>k v. map_of (o_dirtyStorage ?c) k = Some v \<longrightarrow> decode_slot (m' k) = Inr (None, v) \<and> (v = zeroHash \<longrightarrow> m' k = None))
    \<and> (\<forall>k. map_of (o_dirtyStorage ?c) k = None \<longrightarrow> m' k = Map.empty k)"
    by (rule updateTrie_writes_slots [OF t _ fresh_trie_holds]) (simp_all add: pad_hash_inj)
  then show ?thesis by fastforce
qed

end
