(* ===== verification/Managed_State.thy ===== *)
theory Managed_State
  imports State_Snapshot
begin

text \<open>
  The nonces of pending transactions, \<^verbatim>\<open>pkg/core/state/managed_state.go\<close>: a copy of the account
  state with, per managed account, the nonce it started from and a flag for each nonce given out
  since. The object a managed account points to is only stored, never read, and is left out; the
  lock is taken for a whole operation and is left out too.
\<close>

record account =
  a_nstart :: u64
  a_nonces :: "bool list"

record 't ManagedState =
  ms_StateDB :: "'t StateDB"
  ms_accounts :: "(address \<times> account) list"

definition ManageState :: "'t database \<Rightarrow> 't StateDB \<Rightarrow> 't ManagedState panics" where
  "ManageState D statedb = go_bind (Copy D statedb) (\<lambda>st. Inr \<lparr>ms_StateDB = st, ms_accounts = []\<rparr>)"

definition ms_SetState :: "'t StateDB \<Rightarrow> 't ManagedState \<Rightarrow> 't ManagedState" where
  "ms_SetState statedb ms = ms\<lparr>ms_StateDB := statedb\<rparr>"

definition newAccount :: "'t stateObject \<Rightarrow> account" where
  "newAccount so = \<lparr>a_nstart = Nonce (o_data so), a_nonces = []\<rparr>"

definition hasAccount :: "address \<Rightarrow> 't ManagedState \<Rightarrow> bool" where
  "hasAccount addr ms \<longleftrightarrow> map_of (ms_accounts ms) addr \<noteq> None"

definition put_account :: "address \<Rightarrow> account \<Rightarrow> 't ManagedState \<Rightarrow> 't ManagedState" where
  "put_account addr acc ms = ms\<lparr>ms_accounts := AList.update addr acc (ms_accounts ms)\<rparr>"

definition getAccount :: "'t database \<Rightarrow> address \<Rightarrow> 't ManagedState \<Rightarrow> account \<times> 't ManagedState" where
  "getAccount D addr ms =
     (case map_of (ms_accounts ms) addr of
        None \<Rightarrow>
          (let (so, st) = GetOrNewStateObject D addr (ms_StateDB ms);
               acc = newAccount so
           in (acc, put_account addr acc (ms\<lparr>ms_StateDB := st\<rparr>)))
      | Some account \<Rightarrow>
          (let (so, st) = getStateObject D addr (ms_StateDB ms); ms1 = ms\<lparr>ms_StateDB := st\<rparr>
           in case so of
                None \<Rightarrow> (account, ms1)
              | Some so1 \<Rightarrow>
                  if word_of_nat (length (a_nonces account)) + a_nstart account < Nonce (o_data so1)
                  then (newAccount so1, put_account addr (newAccount so1) ms1)
                  else (account, ms1)))"

definition RemoveNonce :: "'t database \<Rightarrow> address \<Rightarrow> u64 \<Rightarrow> 't ManagedState \<Rightarrow> 't ManagedState" where
  "RemoveNonce D addr n ms =
     (if hasAccount addr ms then
        (let (account, ms1) = getAccount D addr ms
         in if n - a_nstart account \<le> word_of_nat (length (a_nonces account))
            then put_account addr (account\<lparr>a_nonces := take (unat (n - a_nstart account)) (a_nonces account)\<rparr>) ms1
            else ms1)
      else ms)"

definition NewNonce :: "'t database \<Rightarrow> address \<Rightarrow> 't ManagedState \<Rightarrow> u64 \<times> 't ManagedState" where
  "NewNonce D addr ms =
     (let (account, ms1) = getAccount D addr ms
      in case find_index False (a_nonces account) 0 of
           Some i \<Rightarrow> (a_nstart account + word_of_nat i, ms1)
         | None \<Rightarrow>
             (let account' = account\<lparr>a_nonces := a_nonces account @ [True]\<rparr>
              in (word_of_nat (length (a_nonces account') - 1) + a_nstart account', put_account addr account' ms1)))"

definition ms_GetNonce :: "'t database \<Rightarrow> address \<Rightarrow> 't ManagedState \<Rightarrow> u64 \<times> 't ManagedState" where
  "ms_GetNonce D addr ms =
     (if hasAccount addr ms
      then (let (account, ms1) = getAccount D addr ms
            in (word_of_nat (length (a_nonces account)) + a_nstart account, ms1))
      else (let (n, st) = GetNonce D addr (ms_StateDB ms) in (n, ms\<lparr>ms_StateDB := st\<rparr>)))"

definition ms_SetNonce :: "'t database \<Rightarrow> address \<Rightarrow> u64 \<Rightarrow> 't ManagedState \<Rightarrow> 't ManagedState" where
  "ms_SetNonce D addr nonce ms =
     (let (so, st) = GetOrNewStateObject D addr (ms_StateDB ms);
          (so1, st1) = obj_SetNonce nonce (so, st)
      in put_account addr (newAccount so1) (ms\<lparr>ms_StateDB := setStateObject so1 st1\<rparr>))"

section \<open>The next nonce\<close>

text \<open>The nonce that follows those given out, and the invariant of a managed account.\<close>

definition tracked :: "account \<Rightarrow> nat" where
  "tracked a = unat (a_nstart a) + length (a_nonces a)"

definition account_ok :: "account \<Rightarrow> bool" where
  "account_ok a \<longleftrightarrow> False \<notin> set (a_nonces a) \<and> tracked a < 2 ^ 64"

definition state_nonce :: "'t database \<Rightarrow> address \<Rightarrow> 't ManagedState \<Rightarrow> u64" where
  "state_nonce D addr ms = fst (GetNonce D addr (ms_StateDB ms))"

definition next_nonce :: "'t database \<Rightarrow> address \<Rightarrow> 't ManagedState \<Rightarrow> nat" where
  "next_nonce D addr ms =
     (case map_of (ms_accounts ms) addr of
        None \<Rightarrow> unat (state_nonce D addr ms)
      | Some a \<Rightarrow> max (tracked a) (unat (state_nonce D addr ms)))"

definition managed_ok :: "'t database \<Rightarrow> address \<Rightarrow> 't ManagedState \<Rightarrow> bool" where
  "managed_ok D addr ms \<longleftrightarrow> state_inv D (ms_StateDB ms) \<and> (\<forall>a. map_of (ms_accounts ms) addr = Some a \<longrightarrow> account_ok a)"

lemma unat_of_nat_u64: "n < 2 ^ 64 \<Longrightarrow> unat (word_of_nat n :: u64) = n"
  by (simp add: unsigned_of_nat take_bit_nat_eq_self)

lemma tracked_word:
  assumes "account_ok a"
  shows "unat (word_of_nat (length (a_nonces a)) + a_nstart a) = tracked a"
proof -
  have "length (a_nonces a) < 2 ^ 64" "length (a_nonces a) + unat (a_nstart a) < 2 ^ 64"
    using assms unfolding account_ok_def tracked_def by linarith+
  then show ?thesis
    using unat_add_lem [of "word_of_nat (length (a_nonces a))" "a_nstart a"] unat_of_nat_u64 by (simp add: tracked_def)
qed

lemma find_index_None: "x \<notin> set xs \<Longrightarrow> find_index x xs k = None"
  by (induction xs arbitrary: k) auto

lemma put_account_simps [simp]:
  "ms_StateDB (put_account a acc ms) = ms_StateDB ms" "map_of (ms_accounts (put_account a acc ms)) a = Some acc"
  "state_nonce D b (put_account a acc ms) = state_nonce D b ms"
  by (simp_all add: put_account_def update_conv' state_nonce_def)

lemma newAccount_ok: "account_ok (newAccount so)" "tracked (newAccount so) = unat (Nonce (o_data so))"
  using unsigned_less [of "Nonce (o_data so)"] by (simp_all add: account_ok_def newAccount_def tracked_def)

context state_backend
begin

lemma GetOrNew_nonce:
  assumes "state_inv D s" "GetOrNewStateObject D a s = (c, s')"
  shows "Nonce (o_data c) = fst (GetNonce D a s)" "fst (GetNonce D a s') = fst (GetNonce D a s)" "state_inv D s'"
proof -
  note n = GetOrNew_spec [OF assms]
  obtain r s1 where g: "getStateObject D a s = (r, s1)" by (cases "getStateObject D a s")
  have c: "Nonce (o_data c) = fst (GetNonce D a s)"
  proof (cases r)
    case (Some q)
    then show ?thesis using assms(2) g getStateObject_spec(6) [OF assms(1) g Some]
      by (simp add: GetOrNewStateObject_def GetNonce_def)
  next
    case None
    have "Nonce (o_data c) = 0"
      using assms(2) g None
      by (auto simp: GetOrNewStateObject_def createObject_def obj_setNonce_def obj_onDirty_def newObject_def Let_def split: prod.splits)
    then show ?thesis using g None by (simp add: GetNonce_def)
  qed
  then show "Nonce (o_data c) = fst (GetNonce D a s)" .
  show "state_inv D s'" using n(3) .
  show "fst (GetNonce D a s') = fst (GetNonce D a s)" using answers(4) [OF n(3), of a] n(4) c by simp
qed

lemma getAccount_spec:
  assumes "managed_ok D addr ms" "getAccount D addr ms = (acc, ms')"
  shows "account_ok acc" "tracked acc = next_nonce D addr ms" "map_of (ms_accounts ms') addr = Some acc"
    "state_nonce D addr ms' = state_nonce D addr ms" "state_inv D (ms_StateDB ms')"
proof -
  have i: "state_inv D (ms_StateDB ms)" using assms(1) by (simp add: managed_ok_def)
  have "account_ok acc \<and> tracked acc = next_nonce D addr ms \<and> map_of (ms_accounts ms') addr = Some acc
      \<and> state_nonce D addr ms' = state_nonce D addr ms \<and> state_inv D (ms_StateDB ms')"
  proof (cases "map_of (ms_accounts ms) addr")
    case None
    obtain so st where g: "GetOrNewStateObject D addr (ms_StateDB ms) = (so, st)" by (cases "GetOrNewStateObject D addr (ms_StateDB ms)")
    have "acc = newAccount so" "ms' = put_account addr acc (ms\<lparr>ms_StateDB := st\<rparr>)"
      using assms(2) None g by (auto simp: getAccount_def Let_def)
    then show ?thesis
      using GetOrNew_nonce [OF i g] None newAccount_ok [of so] by (simp add: next_nonce_def state_nonce_def put_account_def update_conv')
  next
    case (Some a)
    obtain so st where g: "getStateObject D addr (ms_StateDB ms) = (so, st)" by (cases "getStateObject D addr (ms_StateDB ms)")
    note gs = getStateObject_spec [OF i g]
    have n: "state_nonce D addr ms = (case so of None \<Rightarrow> 0 | Some c \<Rightarrow> Nonce (o_data c))"
      using g by (simp add: state_nonce_def GetNonce_def)
    have m: "fst (GetNonce D addr st) = state_nonce D addr ms"
      using answers(4) [OF i, of addr] answers(4) [OF gs(3), of addr] gs(1) by (simp add: state_nonce_def view_def)
    have a: "account_ok a" using assms(1) Some by (simp add: managed_ok_def)
    have w: "word_of_nat (length (a_nonces a)) + a_nstart a < v \<longleftrightarrow> tracked a < unat v" for v
      by (simp add: word_less_nat_alt tracked_word [OF a])
    show ?thesis
    proof (cases so)
      case None
      then have "acc = a" "ms' = ms\<lparr>ms_StateDB := st\<rparr>" using assms(2) Some g by (auto simp: getAccount_def)
      then show ?thesis using Some None n m gs(3) a by (simp add: next_nonce_def state_nonce_def)
    next
      case (Some c)
      let ?fresh = "tracked a < unat (Nonce (o_data c))"
      have "acc = (if ?fresh then newAccount c else a)"
          "ms' = (if ?fresh then put_account addr (newAccount c) (ms\<lparr>ms_StateDB := st\<rparr>) else ms\<lparr>ms_StateDB := st\<rparr>)"
        using assms(2) \<open>map_of (ms_accounts ms) addr = Some a\<close> Some g w [of "Nonce (o_data c)"] by (auto simp: getAccount_def Let_def split: if_splits)
      then show ?thesis
        using \<open>map_of (ms_accounts ms) addr = Some a\<close> Some n m gs(3) a newAccount_ok [of c] by (simp add: next_nonce_def state_nonce_def)
    qed
  qed
  then show "account_ok acc" "tracked acc = next_nonce D addr ms" "map_of (ms_accounts ms') addr = Some acc"
    "state_nonce D addr ms' = state_nonce D addr ms" "state_inv D (ms_StateDB ms')" by blast+
qed

lemma ms_GetNonce_next: "managed_ok D addr ms \<Longrightarrow> unat (fst (ms_GetNonce D addr ms)) = next_nonce D addr ms"
proof (cases "hasAccount addr ms")
  case True
  assume m: "managed_ok D addr ms"
  obtain acc ms' where g: "getAccount D addr ms = (acc, ms')" by (cases "getAccount D addr ms")
  show ?thesis using True g getAccount_spec [OF m g] tracked_word by (simp add: ms_GetNonce_def)
qed (simp add: ms_GetNonce_def hasAccount_def next_nonce_def state_nonce_def split_beta)

lemma NewNonce_step:
  assumes "managed_ok D addr ms" "NewNonce D addr ms = (n, ms')" "next_nonce D addr ms + 1 < 2 ^ 64"
  shows "unat n = next_nonce D addr ms" "managed_ok D addr ms'" "next_nonce D addr ms' = next_nonce D addr ms + 1"
proof -
  obtain acc ms1 where g: "getAccount D addr ms = (acc, ms1)" by (cases "getAccount D addr ms")
  note s = getAccount_spec [OF assms(1) g]
  have f: "find_index False (a_nonces acc) 0 = None" using s(1) by (simp add: account_ok_def find_index_None)
  let ?a = "acc\<lparr>a_nonces := a_nonces acc @ [True]\<rparr>"
  have r: "n = word_of_nat (length (a_nonces acc)) + a_nstart acc" "ms' = put_account addr ?a ms1"
    using assms(2) g f by (auto simp: NewNonce_def)
  have ok: "account_ok ?a" "tracked ?a = tracked acc + 1" using s(1,2) assms(3) by (auto simp: account_ok_def tracked_def)
  show "unat n = next_nonce D addr ms" using r(1) tracked_word [OF s(1)] s(2) by simp
  show "managed_ok D addr ms'" using r(2) ok(1) s(5) by (simp add: managed_ok_def)
  have "unat (state_nonce D addr ms) \<le> next_nonce D addr ms" by (auto simp: next_nonce_def split: option.split)
  then show "next_nonce D addr ms' = next_nonce D addr ms + 1"
    using ok(2) s(2,4) unfolding r(2) by (simp add: next_nonce_def [of D addr "put_account addr ?a ms1"])
qed

end

fun new_nonces :: "'t database \<Rightarrow> address \<Rightarrow> nat \<Rightarrow> 't ManagedState \<Rightarrow> u64 list \<times> 't ManagedState" where
  "new_nonces D addr 0 ms = ([], ms)"
| "new_nonces D addr (Suc k) ms =
     (let (n, ms1) = NewNonce D addr ms; (ns, ms2) = new_nonces D addr k ms1 in (n # ns, ms2))"

section \<open>Properties\<close>

text \<open>
  C27. The nonces handed out for an account are consecutive: \<open>k\<close> calls of \<open>NewNonce\<close> return the
  nonce that \<open>GetNonce\<close> announces and its successors, without gap or repetition, whether or not
  the account was managed before, as long as they fit 64 bits; \<open>GetNonce\<close> then announces the next.
\<close>

theorem NewNonce_consecutive:
  assumes "state_backend D" "managed_ok D addr ms" "unat (fst (ms_GetNonce D addr ms)) + k < 2 ^ 64"
    "new_nonces D addr k ms = (ns, ms')"
  shows "map unat ns = [unat (fst (ms_GetNonce D addr ms)) ..< unat (fst (ms_GetNonce D addr ms)) + k]
    \<and> unat (fst (ms_GetNonce D addr ms')) = unat (fst (ms_GetNonce D addr ms)) + k"
proof -
  note nn = state_backend.ms_GetNonce_next [OF assms(1)]
  have "map unat ns = [next_nonce D addr ms ..< next_nonce D addr ms + k] \<and> managed_ok D addr ms'
      \<and> next_nonce D addr ms' = next_nonce D addr ms + k"
    using assms(2,4) assms(3) unfolding nn [OF assms(2)]
  proof (induction k arbitrary: ms ns)
    case (Suc k)
    obtain n ms1 where n: "NewNonce D addr ms = (n, ms1)" by (cases "NewNonce D addr ms")
    obtain ns1 where ns: "new_nonces D addr k ms1 = (ns1, ms')" "ns = n # ns1"
      using Suc.prems(2) n by (auto split: prod.splits)
    have b: "next_nonce D addr ms + 1 < 2 ^ 64" using Suc.prems(3) by linarith
    note s = state_backend.NewNonce_step [OF assms(1) Suc.prems(1) n b]
    have "next_nonce D addr ms1 + k < 2 ^ 64" using Suc.prems(3) s(3) by linarith
    from Suc.IH [OF s(2) ns(1) this]
    have ih: "map unat ns1 = [next_nonce D addr ms + 1 ..< next_nonce D addr ms + 1 + k]" "managed_ok D addr ms'"
        "next_nonce D addr ms' = next_nonce D addr ms + 1 + k"
      using s(3) by simp_all
    have "map unat ns = next_nonce D addr ms # [next_nonce D addr ms + 1 ..< next_nonce D addr ms + 1 + k]"
      using ns(2) ih(1) s(1) by simp
    then show ?case using ih(2,3) by (simp add: upt_conv_Cons)
  qed simp
  then show ?thesis using nn [OF assms(2)] nn [of addr ms'] by simp
qed

text \<open>
  C28. \<open>RemoveNonce\<close> gives back a nonce and all later ones: when the nonce lies between the start
  of the account and the next nonce, it becomes the next nonce unless the state is already past
  it; for any other nonce, also below the start where the unsigned difference wraps around,
  nothing changes.
\<close>

theorem RemoveNonce_next:
  assumes "state_backend D" "managed_ok D addr ms" "map_of (ms_accounts ms) addr = Some acc"
    "unat (state_nonce D addr ms) \<le> tracked acc"
  shows "unat (fst (ms_GetNonce D addr (RemoveNonce D addr n ms))) =
    (if unat (a_nstart acc) \<le> unat n \<and> unat n \<le> tracked acc then max (unat n) (unat (state_nonce D addr ms)) else tracked acc)"
proof -
  obtain acc' ms1 where g: "getAccount D addr ms = (acc', ms1)" by (cases "getAccount D addr ms")
  note s = state_backend.getAccount_spec [OF assms(1,2) g]
  have ok: "account_ok acc" using assms(2,3) by (simp add: managed_ok_def)
  have acc: "acc' = acc"
  proof -
    obtain so st where o: "getStateObject D addr (ms_StateDB ms) = (so, st)" by (cases "getStateObject D addr (ms_StateDB ms)")
    have "state_nonce D addr ms = (case so of None \<Rightarrow> 0 | Some c \<Rightarrow> Nonce (o_data c))"
      using o by (simp add: state_nonce_def GetNonce_def)
    then show ?thesis
      using g assms(3,4) o tracked_word [OF ok] by (auto simp: getAccount_def word_less_nat_alt split: option.splits if_splits)
  qed
  have le: "n - a_nstart acc \<le> word_of_nat (length (a_nonces acc)) \<longleftrightarrow> unat (a_nstart acc) \<le> unat n \<and> unat n \<le> tracked acc"
  proof -
    have len: "length (a_nonces acc) < 2 ^ 64" "tracked acc < 2 ^ 64" using ok by (simp_all add: account_ok_def tracked_def)
    have l: "unat (word_of_nat (length (a_nonces acc)) :: u64) = length (a_nonces acc)"
      using len by (simp add: unsigned_of_nat take_bit_nat_eq_self)
    show ?thesis
    proof (cases "a_nstart acc \<le> n")
      case True
      then show ?thesis using l by (auto simp: word_le_nat_alt unat_sub tracked_def)
    next
      case False
      then have "unat n < unat (a_nstart acc)" by (simp add: word_le_nat_alt)
      moreover have "unat (n - a_nstart acc) = 2 ^ 64 - (unat (a_nstart acc) - unat n)"
        using calculation unsigned_less [of "a_nstart acc"] by (simp add: unat_sub_if')
      ultimately show ?thesis using l len by (simp add: word_le_nat_alt tracked_def)
    qed
  qed
  let ?m = "unat (n - a_nstart acc)"
  show ?thesis
  proof (cases "unat (a_nstart acc) \<le> unat n \<and> unat n \<le> tracked acc")
    case True
    have m: "?m = unat n - unat (a_nstart acc)" "?m \<le> length (a_nonces acc)"
      using True unat_sub [of "a_nstart acc" n] by (auto simp: word_le_nat_alt tracked_def)
    let ?a = "acc\<lparr>a_nonces := take ?m (a_nonces acc)\<rparr>"
    have r: "RemoveNonce D addr n ms = put_account addr ?a ms1"
      using g acc le True assms(3) by (simp add: RemoveNonce_def hasAccount_def)
    have "tracked ?a = unat n" using m True by (simp add: tracked_def)
    moreover have "account_ok ?a" using ok True \<open>tracked ?a = unat n\<close> unsigned_less [of n] by (auto simp: account_ok_def dest: in_set_takeD)
    ultimately show ?thesis
      using True r s(4,5) state_backend.ms_GetNonce_next [OF assms(1), of addr "put_account addr ?a ms1"]
      by (simp add: managed_ok_def next_nonce_def)
  next
    case False
    then have "\<not> n - a_nstart acc \<le> word_of_nat (length (a_nonces acc))" using le by blast
    then have r: "RemoveNonce D addr n ms = ms1" using g acc assms(3) by (simp add: RemoveNonce_def hasAccount_def)
    show ?thesis
      using False r s(3,4,5) ok acc assms(4) state_backend.ms_GetNonce_next [OF assms(1), of addr ms1]
      by (auto simp: managed_ok_def next_nonce_def)
  qed
qed

definition sample_managed :: "SecureTrie ManagedState" where
  "sample_managed = \<lparr>ms_StateDB = fresh_state, ms_accounts = [(replicate 20 7, \<lparr>a_nstart = 3, a_nonces = [True, True]\<rparr>)]\<rparr>"

lemma sample_managed_ok: "managed_ok (secure_database pad_hash NewMemDatabase) (replicate 20 7) sample_managed"
  using fresh_state_ok by (simp add: managed_ok_def sample_managed_def account_ok_def tracked_def)

lemma sample_state_nonce: "state_nonce (secure_database pad_hash NewMemDatabase) (replicate 20 7) sample_managed = 0"
  using state_backend.answers(4) [OF secure_backend.state_backend_axioms fresh_state_ok(1)] 
  by (simp add: state_nonce_def sample_managed_def acct_def acct_of_def base_empty fresh_state_def)

lemma sample_next: "unat (fst (ms_GetNonce (secure_database pad_hash NewMemDatabase) (replicate 20 7) sample_managed)) = 5"
  using state_backend.ms_GetNonce_next [OF secure_backend.state_backend_axioms sample_managed_ok] sample_state_nonce
  by (simp add: next_nonce_def) (simp add: sample_managed_def tracked_def)

theorem NewNonce_consecutive_witness:
  "map unat (fst (new_nonces (secure_database pad_hash NewMemDatabase) (replicate 20 7) 3 sample_managed)) = [5, 6, 7]"
proof -
  let ?r = "new_nonces (secure_database pad_hash NewMemDatabase) (replicate 20 7) 3 sample_managed"
  have "?r = (fst ?r, snd ?r)" by simp
  from NewNonce_consecutive [OF secure_backend.state_backend_axioms sample_managed_ok _ this] sample_next
  show ?thesis by (simp add: upt_conv_Cons)
qed

theorem RemoveNonce_next_witness:
  "unat (fst (ms_GetNonce (secure_database pad_hash NewMemDatabase) (replicate 20 7)
     (RemoveNonce (secure_database pad_hash NewMemDatabase) (replicate 20 7) 4 sample_managed))) = 4"
  using RemoveNonce_next [OF secure_backend.state_backend_axioms sample_managed_ok, of "\<lparr>a_nstart = 3, a_nonces = [True, True]\<rparr>" 4] sample_state_nonce
  by (simp add: sample_managed_def tracked_def)

end
