(* ===== verification/Block_Header.thy ===== *)
theory Block_Header
  imports RLP_Values
begin

text \<open>
  Block headers, \<^verbatim>\<open>pkg/core/types/block.go\<close>, with the roots of the consensus tries
  (\<open>PocContextProto\<close> of \<^verbatim>\<open>poc_context.go\<close>). The pointers \<open>Number\<close> and \<open>PocContext\<close>, which the code
  compares with nil, are options; the other big integers of a header are never nil in a header that
  was decoded or copied. Keccak-256 is a parameter.
\<close>

section \<open>Headers\<close>

record PocContextProto =
  EpochHash :: hash
  ContributionHash :: hash
  CandidateHash :: hash
  LatestTxHash :: hash
  MintCntHash :: hash

record Header =
  h_ParentHash :: hash
  h_UncleHash :: hash
  h_Validator :: address
  h_Coinbase :: address
  h_Root :: hash
  h_RecordRoot :: hash
  h_TxHash :: hash
  h_ReceiptHash :: hash
  h_PocContext :: "PocContextProto option"
  h_Bloom :: bytes
  h_Difficulty :: int
  h_Number :: "int option"
  h_GasLimit :: int
  h_GasUsed :: int
  h_Time :: int
  h_Extra :: bytes
  h_MixDigest :: hash
  h_Nonce :: bytes

definition EncodeNonce :: "u64 \<Rightarrow> bytes" where
  "EncodeNonce i = be_fixed 8 (unat i)"

definition BlockNonce_Uint64 :: "bytes \<Rightarrow> u64" where
  "BlockNonce_Uint64 n = word_of_nat (be_val n)"

text \<open>The values that the encoder sees; a nil pointer to a big integer or a struct is an empty value.\<close>

definition proto_val :: "PocContextProto \<Rightarrow> rlp_val" where
  "proto_val p = RList (map RBytes [EpochHash p, ContributionHash p, CandidateHash p, LatestTxHash p, MintCntHash p])"

definition number_val :: "int option \<Rightarrow> rlp_val" where
  "number_val n = (case n of None \<Rightarrow> RBigNil | Some i \<Rightarrow> RBig i)"

definition header_val :: "Header \<Rightarrow> rlp_val" where
  "header_val h = RList
     [RBytes (h_ParentHash h), RBytes (h_UncleHash h), RBytes (h_Validator h), RBytes (h_Coinbase h), RBytes (h_Root h),
      RBytes (h_RecordRoot h), RBytes (h_TxHash h), RBytes (h_ReceiptHash h),
      (case h_PocContext h of None \<Rightarrow> RList [] | Some p \<Rightarrow> proto_val p), RBytes (h_Bloom h),
      RBig (h_Difficulty h), number_val (h_Number h), RBig (h_GasLimit h), RBig (h_GasUsed h), RBig (h_Time h),
      RBytes (h_Extra h), RBytes (h_MixDigest h), RBytes (h_Nonce h)]"

definition Header_Hash :: "(bytes \<Rightarrow> hash) \<Rightarrow> Header \<Rightarrow> hash" where
  "Header_Hash keccak h = rlpHash keccak (header_val h)"

definition HashNoNonce :: "(bytes \<Rightarrow> hash) \<Rightarrow> Header \<Rightarrow> hash" where
  "HashNoNonce keccak h = rlpHash keccak (RList
     [RBytes (h_ParentHash h), RBytes (h_UncleHash h), RBytes (h_Validator h), RBytes (h_Coinbase h), RBytes (h_Root h),
      RBytes (h_RecordRoot h), RBytes (h_TxHash h), RBytes (h_ReceiptHash h), RBytes (h_Bloom h),
      RBig (h_Difficulty h), number_val (h_Number h), RBig (h_GasLimit h), RBig (h_GasUsed h), RBig (h_Time h),
      RBytes (h_Extra h)])"

definition CalcUncleHash :: "(bytes \<Rightarrow> hash) \<Rightarrow> Header list \<Rightarrow> hash" where
  "CalcUncleHash keccak uncles = rlpHash keccak (RList (map header_val uncles))"

definition Proto_Root :: "(bytes \<Rightarrow> hash) \<Rightarrow> PocContextProto \<Rightarrow> hash" where
  "Proto_Root keccak p = keccak (concat (map (\<lambda>x. rlp_Encode (RBytes x))
     [EpochHash p, ContributionHash p, CandidateHash p, LatestTxHash p, MintCntHash p]))"

definition emptyProto :: PocContextProto where
  "emptyProto = \<lparr>EpochHash = replicate 32 0, ContributionHash = replicate 32 0, CandidateHash = replicate 32 0,
     LatestTxHash = replicate 32 0, MintCntHash = replicate 32 0\<rparr>"

definition CopyHeader :: "Header \<Rightarrow> Header" where
  "CopyHeader h = h\<lparr>h_Number := Some (case h_Number h of None \<Rightarrow> 0 | Some n \<Rightarrow> n),
     h_PocContext := Some (case h_PocContext h of None \<Rightarrow> emptyProto | Some p \<Rightarrow> p)\<rparr>"

section \<open>Decoding\<close>

definition proto_type :: rlp_type where
  "proto_type = TStruct [TByteArray 32, TByteArray 32, TByteArray 32, TByteArray 32, TByteArray 32]"

definition header_type :: rlp_type where
  "header_type = TStruct
     [TByteArray 32, TByteArray 32, TByteArray 20, TByteArray 20, TByteArray 32, TByteArray 32, TByteArray 32, TByteArray 32,
      TPtr proto_type, TByteArray 256, TPtr TBigInt, TPtr TBigInt, TPtr TBigInt, TPtr TBigInt, TPtr TBigInt, TBytes,
      TByteArray 32, TByteArray 8]"

definition dval_proto :: "dval \<Rightarrow> PocContextProto" where
  "dval_proto v = (let vs = map dval_bytes (dval_list v) in
     \<lparr>EpochHash = vs ! 0, ContributionHash = vs ! 1, CandidateHash = vs ! 2, LatestTxHash = vs ! 3, MintCntHash = vs ! 4\<rparr>)"

definition dval_header :: "dval \<Rightarrow> Header" where
  "dval_header v = (let vs = dval_list v; b = (\<lambda>i. dval_bytes (vs ! i)); n = (\<lambda>i. dval_big (vs ! i)) in
     \<lparr>h_ParentHash = b 0, h_UncleHash = b 1, h_Validator = b 2, h_Coinbase = b 3, h_Root = b 4, h_RecordRoot = b 5,
      h_TxHash = b 6, h_ReceiptHash = b 7, h_PocContext = Some (dval_proto (vs ! 8)), h_Bloom = b 9, h_Difficulty = n 10,
      h_Number = Some (n 11), h_GasLimit = n 12, h_GasUsed = n 13, h_Time = n 14, h_Extra = b 15, h_MixDigest = b 16,
      h_Nonce = b 17\<rparr>)"

definition decode_header :: "bytes \<Rightarrow> Header option" where
  "decode_header b = (case DecodeBytes (length b + 40) header_type b of Inl e \<Rightarrow> None | Inr v \<Rightarrow> Some (dval_header v))"

section \<open>The encoding of a header determines it\<close>

text \<open>The fields have the lengths of their array types, the integers are not negative, and the size fits.\<close>

definition proto_ok :: "PocContextProto \<Rightarrow> bool" where
  "proto_ok p \<longleftrightarrow> length (EpochHash p) = 32 \<and> length (ContributionHash p) = 32 \<and> length (CandidateHash p) = 32
     \<and> length (LatestTxHash p) = 32 \<and> length (MintCntHash p) = 32"

definition header_fields_ok :: "Header \<Rightarrow> bool" where
  "header_fields_ok h \<longleftrightarrow> length (h_ParentHash h) = 32 \<and> length (h_UncleHash h) = 32 \<and> length (h_Validator h) = 20
     \<and> length (h_Coinbase h) = 20 \<and> length (h_Root h) = 32 \<and> length (h_RecordRoot h) = 32 \<and> length (h_TxHash h) = 32
     \<and> length (h_ReceiptHash h) = 32 \<and> (\<exists>p. h_PocContext h = Some p \<and> proto_ok p) \<and> length (h_Bloom h) = 256
     \<and> 0 \<le> h_Difficulty h \<and> (\<exists>n \<ge> 0. h_Number h = Some n) \<and> 0 \<le> h_GasLimit h \<and> 0 \<le> h_GasUsed h \<and> 0 \<le> h_Time h
     \<and> length (h_MixDigest h) = 32 \<and> length (h_Nonce h) = 8"

definition header_ok :: "Header \<Rightarrow> bool" where
  "header_ok h \<longleftrightarrow> header_fields_ok h \<and> length (rlp_enc (header_val h)) < 2 ^ 64"

definition header_dval :: "Header \<Rightarrow> dval" where
  "header_dval h = (let p = the (h_PocContext h) in DList
     [DBytes (h_ParentHash h), DBytes (h_UncleHash h), DBytes (h_Validator h), DBytes (h_Coinbase h), DBytes (h_Root h),
      DBytes (h_RecordRoot h), DBytes (h_TxHash h), DBytes (h_ReceiptHash h),
      DList (map DBytes [EpochHash p, ContributionHash p, CandidateHash p, LatestTxHash p, MintCntHash p]), DBytes (h_Bloom h),
      DBig (h_Difficulty h), DBig (the (h_Number h)), DBig (h_GasLimit h), DBig (h_GasUsed h), DBig (h_Time h),
      DBytes (h_Extra h), DBytes (h_MixDigest h), DBytes (h_Nonce h)])"

lemma header_val_dval: "header_fields_ok h \<Longrightarrow> to_val (header_dval h) = header_val h"
  by (auto simp: header_fields_ok_def header_dval_def header_val_def proto_val_def number_val_def)

lemma dval_header_dval: "header_fields_ok h \<Longrightarrow> dval_header (header_dval h) = h"
  by (cases h) (auto simp: header_fields_ok_def header_dval_def dval_header_def dval_proto_def Let_def)

lemma header_type_ok: "type_ok header_type" "tdepth header_type \<le> 40"
  by (simp_all add: header_type_def proto_type_def)

lemma header_wt: "header_fields_ok h \<Longrightarrow> wt header_type (header_dval h)"
  by (auto simp: header_fields_ok_def header_dval_def header_type_def proto_type_def proto_ok_def)

lemma header_encode:
  assumes "header_ok h"
  shows "EncodeToBytes (header_val h) = Inr (Some (rlp_enc (header_val h)))" "decode_header (rlp_enc (header_val h)) = Some h"
proof -
  have ok: "header_fields_ok h" using assms by (simp add: header_ok_def)
  have v: "venc (header_dval h) = rlp_enc (header_val h)" using header_val_dval [OF ok] by (simp add: venc_def)
  have l: "length (venc (header_dval h)) < 2 ^ 64" using assms v by (simp add: header_ok_def)
  have f: "length (venc (header_dval h)) + tdepth header_type \<le> length (rlp_enc (header_val h)) + 40"
    using v header_type_ok(2) by simp
  note r = decode_encode [OF header_type_ok(1) header_wt [OF ok] l f]
  show "EncodeToBytes (header_val h) = Inr (Some (rlp_enc (header_val h)))" using r header_val_dval [OF ok] v by simp
  show "decode_header (rlp_enc (header_val h)) = Some h" using r v dval_header_dval [OF ok] by (simp add: decode_header_def)
qed

lemma Header_Hash_enc: "header_ok h \<Longrightarrow> Header_Hash keccak h = keccak (rlp_enc (header_val h))"
  using header_encode(1) by (simp add: Header_Hash_def rlpHash_def rlp_Encode_def)

section \<open>Properties\<close>

text \<open>
  C31. A block hash commits to the whole header: encoding a header and decoding the bytes gives the
  header back, so two headers with equal hashes are equal, provided that Keccak-256 does not
  collide on their encodings.
\<close>

theorem Header_Hash_binding:
  assumes "header_ok h" "header_ok h'" "keccak (rlp_enc (header_val h)) = keccak (rlp_enc (header_val h')) \<Longrightarrow>
      rlp_enc (header_val h) = rlp_enc (header_val h')"
  shows "EncodeToBytes (header_val h) = Inr (Some (rlp_enc (header_val h))) \<and> decode_header (rlp_enc (header_val h)) = Some h
    \<and> (Header_Hash keccak h = Header_Hash keccak h' \<longleftrightarrow> h = h')"
proof -
  have "h = h'" if "Header_Hash keccak h = Header_Hash keccak h'"
  proof -
    have "rlp_enc (header_val h) = rlp_enc (header_val h')"
      using assms(3) that unfolding Header_Hash_enc [OF assms(1)] Header_Hash_enc [OF assms(2)] .
    then have "Some h = Some h'"
      unfolding header_encode(2) [OF assms(1), symmetric] header_encode(2) [OF assms(2), symmetric] by (rule arg_cong)
    then show ?thesis by simp
  qed
  then have "Header_Hash keccak h = Header_Hash keccak h' \<longleftrightarrow> h = h'" by blast
  then show ?thesis using header_encode [OF assms(1)] by blast
qed

definition sample_header :: Header where
  "sample_header = \<lparr>h_ParentHash = replicate 32 1, h_UncleHash = replicate 32 2, h_Validator = replicate 20 3, h_Coinbase = replicate 20 3,
     h_Root = replicate 32 4, h_RecordRoot = replicate 32 5, h_TxHash = replicate 32 6, h_ReceiptHash = replicate 32 7,
     h_PocContext = Some emptyProto, h_Bloom = replicate 256 0, h_Difficulty = 1, h_Number = Some 5, h_GasLimit = 4712388, h_GasUsed = 0,
     h_Time = 1200, h_Extra = replicate 97 0, h_MixDigest = replicate 32 0, h_Nonce = replicate 8 0\<rparr>"

lemma sample_header_ok: "header_ok sample_header"
  by (simp add: header_ok_def header_fields_ok_def sample_header_def proto_ok_def emptyProto_def header_val_def proto_val_def number_val_def
      rlp_list_def rlp_string_def rlp_head_def be_min.simps)

theorem Header_Hash_binding_witness:
  "decode_header (rlp_enc (header_val sample_header)) = Some sample_header
     \<and> Header_Hash (\<lambda>b. b) sample_header \<noteq> Header_Hash (\<lambda>b. b) (sample_header\<lparr>h_Time := 1220\<rparr>)"
proof -
  have "header_ok (sample_header\<lparr>h_Time := 1220\<rparr>)"
    by (simp add: header_ok_def header_fields_ok_def sample_header_def proto_ok_def emptyProto_def header_val_def proto_val_def number_val_def
      rlp_list_def rlp_string_def rlp_head_def be_min.simps)
  moreover have "sample_header \<noteq> sample_header\<lparr>h_Time := 1220\<rparr>" by (simp add: sample_header_def)
  ultimately show ?thesis
    using Header_Hash_binding [OF sample_header_ok, of "sample_header\<lparr>h_Time := 1220\<rparr>" "\<lambda>b. b"] by simp
qed

end
