(* ===== verification/Poc_Context.thy ===== *)
theory Poc_Context
  imports Block_Header Trie_Service
begin

text \<open>
  The consensus state of \<^verbatim>\<open>pkg/core/types/poc_context.go\<close>: five tries with the validators of the
  epoch, the contributions at the last election, the latest transaction of each account, the
  candidates, and the number of blocks each validator minted per epoch. The tries are values of an
  abstract type with the methods of \<open>trie.Trie\<close> as a record of functions; an iterator is given by
  the values of the leaves it visits. The database is opaque, and nil is \<open>None\<close>.
\<close>

section \<open>The environment\<close>

record ('t, 'w) poc_trie = "'t trie_api" +
  api_NodeIterator :: "'t \<Rightarrow> bytes \<Rightarrow> bytes list \<times> 't"
  api_PrefixIterator :: "'t \<Rightarrow> bytes \<Rightarrow> bytes list \<times> 't"
  api_CommitTo :: "'t \<Rightarrow> 'w \<Rightarrow> (trie_error + hash) \<times> 't \<times> 'w"

record ('t, 'w, 'd) poc_env =
  pe_trie :: "('t, 'w) poc_trie"
  pe_NewTrieWithPrefix :: "hash \<Rightarrow> bytes \<Rightarrow> 'd option \<Rightarrow> trie_error + 't"
  pe_keccak :: "bytes \<Rightarrow> hash"

datatype poc_error =
    PocTrieError trie_error
  | FailedToDecodeValidators rlp_error
  | FailedToEncodeValidators
  | FailedToDecodeContributions rlp_error
  | FailedToEncodeContributions
  | FailedToEncodeTransaction

record ('t, 'd) PocContext =
  epochTrie :: 't
  contributionTrie :: 't
  latestTxTrie :: 't
  candidateTrie :: 't
  mintCntTrie :: 't
  pc_db :: "'d option"

definition go_string :: "string \<Rightarrow> bytes" where
  "go_string s = map of_char s"

definition epochPrefix :: bytes where
  "epochPrefix = go_string ''epoch-''"

definition contributionPrefix :: bytes where
  "contributionPrefix = go_string ''contributionTrie-''"

definition latestTxPrefix :: bytes where
  "latestTxPrefix = go_string ''latestTx-''"

definition candidatePrefix :: bytes where
  "candidatePrefix = go_string ''candidate-''"

definition mintCntPrefix :: bytes where
  "mintCntPrefix = go_string ''mintCnt-''"

section \<open>Opening and saving\<close>

definition NewEpochTrie :: "('t, 'w, 'd) poc_env \<Rightarrow> hash \<Rightarrow> 'd option \<Rightarrow> trie_error + 't" where
  "NewEpochTrie E root db = pe_NewTrieWithPrefix E root epochPrefix db"

definition NewContributionTrie :: "('t, 'w, 'd) poc_env \<Rightarrow> hash \<Rightarrow> 'd option \<Rightarrow> trie_error + 't" where
  "NewContributionTrie E root db = pe_NewTrieWithPrefix E root contributionPrefix db"

definition NewLatestTxTrie :: "('t, 'w, 'd) poc_env \<Rightarrow> hash \<Rightarrow> 'd option \<Rightarrow> trie_error + 't" where
  "NewLatestTxTrie E root db = pe_NewTrieWithPrefix E root latestTxPrefix db"

definition NewCandidateTrie :: "('t, 'w, 'd) poc_env \<Rightarrow> hash \<Rightarrow> 'd option \<Rightarrow> trie_error + 't" where
  "NewCandidateTrie E root db = pe_NewTrieWithPrefix E root candidatePrefix db"

definition NewMintCntTrie :: "('t, 'w, 'd) poc_env \<Rightarrow> hash \<Rightarrow> 'd option \<Rightarrow> trie_error + 't" where
  "NewMintCntTrie E root db = pe_NewTrieWithPrefix E root mintCntPrefix db"

definition NewPocContextFromProto :: "('t, 'w, 'd) poc_env \<Rightarrow> 'd option \<Rightarrow> PocContextProto \<Rightarrow> trie_error + ('t, 'd) PocContext" where
  "NewPocContextFromProto E db ctxProto =
     go_bind (NewEpochTrie E (EpochHash ctxProto) db) (\<lambda>epoch.
     go_bind (NewContributionTrie E (ContributionHash ctxProto) db) (\<lambda>contribution.
     go_bind (NewLatestTxTrie E (LatestTxHash ctxProto) db) (\<lambda>latestTx.
     go_bind (NewCandidateTrie E (CandidateHash ctxProto) db) (\<lambda>candidate.
     go_bind (NewMintCntTrie E (MintCntHash ctxProto) db) (\<lambda>mintCnt.
       Inr \<lparr>epochTrie = epoch, contributionTrie = contribution, latestTxTrie = latestTx, candidateTrie = candidate,
            mintCntTrie = mintCnt, pc_db = db\<rparr>)))))"

definition NewPocContext :: "('t, 'w, 'd) poc_env \<Rightarrow> 'd option \<Rightarrow> trie_error + ('t, 'd) PocContext" where
  "NewPocContext E db =
     (let zero = replicate 32 0 in
     go_bind (NewEpochTrie E zero db) (\<lambda>epoch.
     go_bind (NewContributionTrie E zero db) (\<lambda>contribution.
     go_bind (NewLatestTxTrie E zero db) (\<lambda>latestTx.
     go_bind (NewCandidateTrie E zero db) (\<lambda>candidate.
     go_bind (NewMintCntTrie E zero db) (\<lambda>mintCnt.
       Inr \<lparr>epochTrie = epoch, contributionTrie = contribution, latestTxTrie = latestTx, candidateTrie = candidate,
            mintCntTrie = mintCnt, pc_db = db\<rparr>))))))"

text \<open>\<open>Copy\<close> copies the tries but not the database.\<close>

definition PocContext_Copy :: "('t, 'd) PocContext \<Rightarrow> ('t, 'd) PocContext" where
  "PocContext_Copy pc = pc\<lparr>pc_db := None\<rparr>"

definition PocContext_Snapshot :: "('t, 'd) PocContext \<Rightarrow> ('t, 'd) PocContext" where
  "PocContext_Snapshot pc = PocContext_Copy pc"

definition RevertToSnapShot :: "('t, 'd) PocContext \<Rightarrow> ('t, 'd) PocContext \<Rightarrow> ('t, 'd) PocContext" where
  "RevertToSnapShot snapshot pc = pc\<lparr>epochTrie := epochTrie snapshot, contributionTrie := contributionTrie snapshot,
     candidateTrie := candidateTrie snapshot, latestTxTrie := latestTxTrie snapshot, mintCntTrie := mintCntTrie snapshot\<rparr>"

text \<open>
  \<open>FromProto\<close> replaces the tries one after the other and stops at the first that does not open; the
  context then holds a nil trie and is of no use.
\<close>

definition FromProto :: "('t, 'w, 'd) poc_env \<Rightarrow> PocContextProto \<Rightarrow> ('t, 'd) PocContext \<Rightarrow> trie_error + ('t, 'd) PocContext" where
  "FromProto E dcp pc =
     go_bind (NewEpochTrie E (EpochHash dcp) (pc_db pc)) (\<lambda>t. let pc = pc\<lparr>epochTrie := t\<rparr> in
     go_bind (NewContributionTrie E (ContributionHash dcp) (pc_db pc)) (\<lambda>t. let pc = pc\<lparr>contributionTrie := t\<rparr> in
     go_bind (NewCandidateTrie E (CandidateHash dcp) (pc_db pc)) (\<lambda>t. let pc = pc\<lparr>candidateTrie := t\<rparr> in
     go_bind (NewLatestTxTrie E (LatestTxHash dcp) (pc_db pc)) (\<lambda>t. let pc = pc\<lparr>latestTxTrie := t\<rparr> in
     go_bind (NewMintCntTrie E (MintCntHash dcp) (pc_db pc)) (\<lambda>t. Inr (pc\<lparr>mintCntTrie := t\<rparr>))))))"

text \<open>Hashing a trie stores the hashes in its nodes, so it returns the trie too.\<close>

definition ToProto :: "('t, 'w, 'd) poc_env \<Rightarrow> ('t, 'd) PocContext \<Rightarrow> PocContextProto \<times> ('t, 'd) PocContext" where
  "ToProto E pc =
     (let (e, te) = api_Hash (pe_trie E) (epochTrie pc);
          (c, tc) = api_Hash (pe_trie E) (contributionTrie pc);
          (d, td) = api_Hash (pe_trie E) (candidateTrie pc);
          (l, tl) = api_Hash (pe_trie E) (latestTxTrie pc);
          (m, tm) = api_Hash (pe_trie E) (mintCntTrie pc)
      in (\<lparr>EpochHash = e, ContributionHash = c, CandidateHash = d, LatestTxHash = l, MintCntHash = m\<rparr>,
          pc\<lparr>epochTrie := te, contributionTrie := tc, candidateTrie := td, latestTxTrie := tl, mintCntTrie := tm\<rparr>))"

definition PocContext_Root :: "('t, 'w, 'd) poc_env \<Rightarrow> ('t, 'd) PocContext \<Rightarrow> hash \<times> ('t, 'd) PocContext" where
  "PocContext_Root E pc =
     (let (e, te) = api_Hash (pe_trie E) (epochTrie pc);
          (c, tc) = api_Hash (pe_trie E) (contributionTrie pc);
          (d, td) = api_Hash (pe_trie E) (candidateTrie pc);
          (l, tl) = api_Hash (pe_trie E) (latestTxTrie pc);
          (m, tm) = api_Hash (pe_trie E) (mintCntTrie pc)
      in (pe_keccak E (concat (map (\<lambda>x. rlp_Encode (RBytes x)) [e, c, d, l, m])),
          pc\<lparr>epochTrie := te, contributionTrie := tc, candidateTrie := td, latestTxTrie := tl, mintCntTrie := tm\<rparr>))"

definition PocContext_CommitTo :: "('t, 'w, 'd) poc_env \<Rightarrow> ('t, 'd) PocContext \<Rightarrow> 'w \<Rightarrow>
    (trie_error + PocContextProto) \<times> ('t, 'd) PocContext \<times> 'w" where
  "PocContext_CommitTo E pc w =
     (case api_CommitTo (pe_trie E) (epochTrie pc) w of (Inl e, t, w) \<Rightarrow> (Inl e, pc\<lparr>epochTrie := t\<rparr>, w) | (Inr er, t, w) \<Rightarrow>
     (let pc = pc\<lparr>epochTrie := t\<rparr> in
      case api_CommitTo (pe_trie E) (contributionTrie pc) w of (Inl e, t, w) \<Rightarrow> (Inl e, pc\<lparr>contributionTrie := t\<rparr>, w) | (Inr cr, t, w) \<Rightarrow>
     (let pc = pc\<lparr>contributionTrie := t\<rparr> in
      case api_CommitTo (pe_trie E) (latestTxTrie pc) w of (Inl e, t, w) \<Rightarrow> (Inl e, pc\<lparr>latestTxTrie := t\<rparr>, w) | (Inr lr, t, w) \<Rightarrow>
     (let pc = pc\<lparr>latestTxTrie := t\<rparr> in
      case api_CommitTo (pe_trie E) (candidateTrie pc) w of (Inl e, t, w) \<Rightarrow> (Inl e, pc\<lparr>candidateTrie := t\<rparr>, w) | (Inr dr, t, w) \<Rightarrow>
     (let pc = pc\<lparr>candidateTrie := t\<rparr> in
      case api_CommitTo (pe_trie E) (mintCntTrie pc) w of (Inl e, t, w) \<Rightarrow> (Inl e, pc\<lparr>mintCntTrie := t\<rparr>, w) | (Inr mr, t, w) \<Rightarrow>
        (Inr \<lparr>EpochHash = er, ContributionHash = cr, CandidateHash = dr, LatestTxHash = lr, MintCntHash = mr\<rparr>,
         pc\<lparr>mintCntTrie := t\<rparr>, w))))))"

section \<open>Entries\<close>

text \<open>\<open>Get\<close> and \<open>Update\<close> of a trie log an error and go on.\<close>

definition api_Get :: "('t, 'w) poc_trie \<Rightarrow> 't \<Rightarrow> bytes \<Rightarrow> bytes option \<times> 't" where
  "api_Get T t k = (case api_TryGet T t k of (Inl e, t') \<Rightarrow> (None, t') | (Inr v, t') \<Rightarrow> (v, t'))"

definition api_Update :: "('t, 'w) poc_trie \<Rightarrow> 't \<Rightarrow> bytes \<Rightarrow> bytes \<Rightarrow> 't" where
  "api_Update T t k v = snd (api_TryUpdate T t k v)"

definition nil_bytes :: "bytes option \<Rightarrow> bytes" where
  "nil_bytes v = (case v of None \<Rightarrow> [] | Some b \<Rightarrow> b)"

definition KickoutCandidate :: "('t, 'w, 'd) poc_env \<Rightarrow> address \<Rightarrow> ('t, 'd) PocContext \<Rightarrow> poc_error option \<times> ('t, 'd) PocContext" where
  "KickoutCandidate E candidate pc =
     (let (err, t) = api_TryDelete (pe_trie E) (candidateTrie pc) candidate; pc1 = pc\<lparr>candidateTrie := t\<rparr>
      in case err of
           None \<Rightarrow> (None, pc1)
         | Some (MissingNodeError h p) \<Rightarrow> (None, pc1)
         | Some e \<Rightarrow> (Some (PocTrieError e), pc1))"

definition BecomeCandidate :: "('t, 'w, 'd) poc_env \<Rightarrow> address \<Rightarrow> ('t, 'd) PocContext \<Rightarrow> poc_error option \<times> ('t, 'd) PocContext" where
  "BecomeCandidate E candidate pc =
     (let (err, t) = api_TryUpdate (pe_trie E) (candidateTrie pc) candidate candidate
      in (map_option PocTrieError err, pc\<lparr>candidateTrie := t\<rparr>))"

definition validators_type :: rlp_type where
  "validators_type = TSlice (TByteArray 20)"

definition validator_key :: bytes where
  "validator_key = go_string ''validator''"

definition GetValidators :: "('t, 'w, 'd) poc_env \<Rightarrow> ('t, 'd) PocContext \<Rightarrow> (poc_error + address list) \<times> ('t, 'd) PocContext" where
  "GetValidators E pc =
     (let (v, t) = api_Get (pe_trie E) (epochTrie pc) validator_key; b = nil_bytes v
      in (case DecodeBytes (length b + 10) validators_type b of
            Inl e \<Rightarrow> Inl (FailedToDecodeValidators e)
          | Inr d \<Rightarrow> Inr (map dval_bytes (dval_list d)),
          pc\<lparr>epochTrie := t\<rparr>))"

definition SetValidators :: "('t, 'w, 'd) poc_env \<Rightarrow> address list \<Rightarrow> ('t, 'd) PocContext \<Rightarrow> poc_error option \<times> ('t, 'd) PocContext" where
  "SetValidators E validators pc =
     (case EncodeToBytes (RList (map RBytes validators)) of
        Inr (Some b) \<Rightarrow> (None, pc\<lparr>epochTrie := api_Update (pe_trie E) (epochTrie pc) validator_key b\<rparr>)
      | _ \<Rightarrow> (Some FailedToEncodeValidators, pc))"

record AccountContribution =
  ac_Account :: address
  ac_Contribution :: int

record AccountLastedTx =
  al_Account :: address
  al_TxHash :: hash
  al_RecordTime :: int

definition contributions_type :: rlp_type where
  "contributions_type = TSlice (TStruct [TByteArray 20, TPtr TBigInt])"

definition lastedTx_type :: rlp_type where
  "lastedTx_type = TStruct [TByteArray 20, TByteArray 32, TPtr TBigInt]"

definition contribution_key :: bytes where
  "contribution_key = go_string ''contribution''"

definition dval_contribution :: "dval \<Rightarrow> AccountContribution" where
  "dval_contribution v = \<lparr>ac_Account = dval_bytes (dval_list v ! 0), ac_Contribution = dval_big (dval_list v ! 1)\<rparr>"

definition dval_lastedTx :: "dval \<Rightarrow> AccountLastedTx" where
  "dval_lastedTx v = \<lparr>al_Account = dval_bytes (dval_list v ! 0), al_TxHash = dval_bytes (dval_list v ! 1), al_RecordTime = dval_big (dval_list v ! 2)\<rparr>"

definition GetContributions :: "('t, 'w, 'd) poc_env \<Rightarrow> ('t, 'd) PocContext \<Rightarrow> (poc_error + AccountContribution list) \<times> ('t, 'd) PocContext" where
  "GetContributions E pc =
     (let (v, t) = api_Get (pe_trie E) (contributionTrie pc) contribution_key; b = nil_bytes v
      in (case DecodeBytes (length b + 10) contributions_type b of
            Inl e \<Rightarrow> Inl (FailedToDecodeContributions e)
          | Inr d \<Rightarrow> Inr (map dval_contribution (dval_list d)),
          pc\<lparr>contributionTrie := t\<rparr>))"

definition SetContributions :: "('t, 'w, 'd) poc_env \<Rightarrow> AccountContribution list \<Rightarrow> ('t, 'd) PocContext \<Rightarrow> poc_error option \<times> ('t, 'd) PocContext" where
  "SetContributions E contributions pc =
     (case EncodeToBytes (RList (map (\<lambda>c. RList [RBytes (ac_Account c), RBig (ac_Contribution c)]) contributions)) of
        Inr (Some b) \<Rightarrow> (None, pc\<lparr>contributionTrie := api_Update (pe_trie E) (contributionTrie pc) contribution_key b\<rparr>)
      | _ \<Rightarrow> (Some FailedToEncodeContributions, pc))"

definition GetLastedTx :: "('t, 'w, 'd) poc_env \<Rightarrow> address \<Rightarrow> ('t, 'd) PocContext \<Rightarrow> (poc_error + AccountLastedTx) \<times> ('t, 'd) PocContext" where
  "GetLastedTx E account pc =
     (let (v, t) = api_Get (pe_trie E) (latestTxTrie pc) account; b = nil_bytes v
      in (case DecodeBytes (length b + 10) lastedTx_type b of
            Inl e \<Rightarrow> Inl (FailedToDecodeContributions e)
          | Inr d \<Rightarrow> Inr (dval_lastedTx d),
          pc\<lparr>latestTxTrie := t\<rparr>))"

definition SetLastedTx :: "('t, 'w, 'd) poc_env \<Rightarrow> AccountLastedTx \<Rightarrow> ('t, 'd) PocContext \<Rightarrow> poc_error option \<times> ('t, 'd) PocContext" where
  "SetLastedTx E tx pc =
     (case EncodeToBytes (RList [RBytes (al_Account tx), RBytes (al_TxHash tx), RBig (al_RecordTime tx)]) of
        Inr (Some b) \<Rightarrow> (None, pc\<lparr>latestTxTrie := api_Update (pe_trie E) (latestTxTrie pc) (al_Account tx) b\<rparr>)
      | _ \<Rightarrow> (Some FailedToEncodeTransaction, pc))"

definition GetCandidates :: "('t, 'w, 'd) poc_env \<Rightarrow> ('t, 'd) PocContext \<Rightarrow> address list \<times> ('t, 'd) PocContext" where
  "GetCandidates E pc =
     (let (vs, t) = api_NodeIterator (pe_trie E) (candidateTrie pc) [] in (map BytesToAddress vs, pc\<lparr>candidateTrie := t\<rparr>))"

section \<open>The laws of the tries\<close>

text \<open>
  What the consensus code relies on: the tries are maps, an iterator visits the values of the keys
  from its start in key order, or those with its prefix, and a trie at the zero root opens empty. The
  iterators may work for some maps only: the code makes none for a trie whose hash is that of the
  empty string.
\<close>

definition poc_prefixes :: "bytes list" where
  "poc_prefixes = [epochPrefix, contributionPrefix, latestTxPrefix, candidatePrefix, mintCntPrefix]"

definition keys_from :: "(bytes \<rightharpoonup> bytes) \<Rightarrow> bytes \<Rightarrow> bytes list \<Rightarrow> bool" where
  "keys_from m start ks \<longleftrightarrow> sorted_wrt hex_less ks \<and> set ks = {k \<in> dom m. not_before start k}"

definition keys_prefixed :: "(bytes \<rightharpoonup> bytes) \<Rightarrow> bytes \<Rightarrow> bytes list \<Rightarrow> bool" where
  "keys_prefixed m p ks \<longleftrightarrow> sorted_wrt hex_less ks \<and> set ks = {k \<in> dom m. key_prefixed p k}"

locale poc_service = trie_service "trie_api.truncate (pe_trie E)" represents "\<lambda>_. True"
  for E :: "('t, 'w, 'd) poc_env" and represents :: "'t \<Rightarrow> (bytes \<rightharpoonup> bytes) \<Rightarrow> bool" +
  fixes iterable :: "(bytes \<rightharpoonup> bytes) \<Rightarrow> bool"
  assumes iterator_law: "represents t m \<Longrightarrow> iterable m \<Longrightarrow>
      (\<exists>ks. keys_from m start ks \<and> fst (api_NodeIterator (pe_trie E) t start) = map (the \<circ> m) ks)
      \<and> represents (snd (api_NodeIterator (pe_trie E) t start)) m"
    and prefix_iterator_law: "represents t m \<Longrightarrow> iterable m \<Longrightarrow>
      (\<exists>ks. keys_prefixed m p ks \<and> fst (api_PrefixIterator (pe_trie E) t p) = map (the \<circ> m) ks)
      \<and> represents (snd (api_PrefixIterator (pe_trie E) t p)) m"
    and open_empty_law: "p \<in> set poc_prefixes \<Longrightarrow> \<exists>t. pe_NewTrieWithPrefix E (replicate 32 0) p db = Inr t \<and> represents t Map.empty"
begin

lemma Get_law: "represents t m \<Longrightarrow> fst (api_Get (pe_trie E) t k) = m k \<and> represents (snd (api_Get (pe_trie E) t k)) m"
  using get_law [of t m k] by (auto simp: api_Get_def trie_api.defs split: prod.splits sum.splits)

lemma Update_law: "represents t m \<Longrightarrow> represents (api_Update (pe_trie E) t k v) (if v = [] then m(k := None) else m(k \<mapsto> v))"
  using update_law [of t m k v] by (simp add: api_Update_def trie_api.defs)

lemma Delete_law:
  "represents t m \<Longrightarrow> fst (api_TryDelete (pe_trie E) t k) = None \<and> represents (snd (api_TryDelete (pe_trie E) t k)) (m(k := None))"
  using delete_law [of t m k] by (simp add: trie_api.defs)

end

end
