(* ===== verification/Go_Order.thy ===== *)
theory Go_Order
  imports Trie_Service "HOL-Library.Multiset"
begin

text \<open>
  Sorting as the code uses it. \<open>sort.Sort\<close> is not stable, so its result is determined only when
  elements that compare equal are equal; for such an order every sorted permutation is the one that
  insertion gives. The locale \<open>go_less\<close> states what a \<open>Less\<close> method has to provide. The order of
  addresses goes by their checksummed hex form, \<open>Address.Hex\<close> of \<^verbatim>\<open>pkg/common/types.go\<close>.
\<close>

section \<open>Sorting with a comparison function\<close>

fun sort_insert :: "('a \<Rightarrow> 'a \<Rightarrow> bool) \<Rightarrow> 'a \<Rightarrow> 'a list \<Rightarrow> 'a list" where
  "sort_insert lt x [] = [x]"
| "sort_insert lt x (y # ys) = (if lt y x then y # sort_insert lt x ys else x # y # ys)"

fun sort_Sort :: "('a \<Rightarrow> 'a \<Rightarrow> bool) \<Rightarrow> 'a list \<Rightarrow> 'a list" where
  "sort_Sort lt [] = []"
| "sort_Sort lt (x # xs) = sort_insert lt x (sort_Sort lt xs)"

lemma mset_sort_insert: "mset (sort_insert lt x xs) = add_mset x (mset xs)"
  by (induction xs) auto

lemma mset_sort_Sort [simp]: "mset (sort_Sort lt xs) = mset xs"
  by (induction xs) (auto simp: mset_sort_insert)

lemma set_sort_Sort [simp]: "set (sort_Sort lt xs) = set xs"
  by (metis mset_sort_Sort set_mset_mset)

lemma length_sort_Sort [simp]: "length (sort_Sort lt xs) = length xs"
  by (metis mset_sort_Sort size_mset)

lemma distinct_sort_Sort [simp]: "distinct (sort_Sort lt xs) = distinct xs"
  by (metis mset_sort_Sort mset_eq_imp_distinct_iff)

locale go_less =
  fixes lt :: "'a \<Rightarrow> 'a \<Rightarrow> bool" and valid :: "'a \<Rightarrow> bool"
  assumes irrefl: "\<not> lt x x"
    and trans: "lt x y \<Longrightarrow> lt y z \<Longrightarrow> lt x z"
    and total: "valid x \<Longrightarrow> valid y \<Longrightarrow> x \<noteq> y \<Longrightarrow> lt x y \<or> lt y x"
begin

abbreviation ordered :: "'a list \<Rightarrow> bool" where
  "ordered xs \<equiv> sorted_wrt (\<lambda>x y. \<not> lt y x) xs"

lemma ordered_insert:
  assumes "ordered ys" "\<forall>y \<in> set (x # ys). valid y"
  shows "ordered (sort_insert lt x ys)"
  using assms
proof (induction ys)
  case (Cons y ys)
  have s: "set (sort_insert lt x ys) = insert x (set ys)"
    using mset_sort_insert [of lt x ys] by (metis set_mset_add_mset_insert set_mset_mset)
  show ?case
  proof (cases "lt y x")
    case True
    then have "\<not> lt x y" using irrefl trans by blast
    then show ?thesis using Cons True s by auto
  next
    case False
    have "\<not> lt z x" if "z \<in> set ys" for z
    proof
      assume "lt z x"
      moreover have "\<not> lt z y" using Cons.prems(1) that by simp
      ultimately show False
        using False trans total [of y z] Cons.prems(2) that by (metis list.set_intros(1) list.set_intros(2))
    qed
    then show ?thesis using Cons False by simp
  qed
qed simp

lemma ordered_sort: "\<forall>x \<in> set xs. valid x \<Longrightarrow> ordered (sort_Sort lt xs)"
  by (induction xs) (simp_all add: ordered_insert)

text \<open>Every sorted permutation is this one, so the algorithm behind \<open>sort.Sort\<close> does not matter.\<close>

lemma ordered_unique: "ordered xs \<Longrightarrow> ordered ys \<Longrightarrow> mset xs = mset ys \<Longrightarrow> \<forall>x \<in> set xs. valid x \<Longrightarrow> xs = ys"
proof (induction xs arbitrary: ys)
  case (Cons x xs)
  then obtain y ys' where ys: "ys = y # ys'" by (cases ys) auto
  have sets: "set (x # xs) = set ys" using Cons.prems(3) mset_eq_setD by blast
  have "x = y"
  proof (rule ccontr)
    assume ne: "x \<noteq> y"
    then have "y \<in> set xs" "x \<in> set ys'" using sets ys by auto
    then have "\<not> lt y x" "\<not> lt x y" using Cons.prems(1,2) ys by auto
    then show False using total [of x y] ne Cons.prems(4) \<open>y \<in> set xs\<close> by auto
  qed
  then show ?case using Cons ys by simp
qed simp

lemma ordered_sort_unique:
  "ordered ys \<Longrightarrow> mset ys = mset xs \<Longrightarrow> \<forall>x \<in> set xs. valid x \<Longrightarrow> ys = sort_Sort lt xs"
  using ordered_unique [of ys "sort_Sort lt xs"] ordered_sort mset_eq_setD by fastforce

lemma reversed: "go_less (\<lambda>x y. lt y x) valid"
  using irrefl trans total by unfold_locales blast+

end

section \<open>Checksummed addresses\<close>

definition hex_digit :: "byte \<Rightarrow> byte" where
  "hex_digit n = (if n < 10 then 48 + n else 87 + n)"

definition hex_EncodeToString :: "bytes \<Rightarrow> bytes" where
  "hex_EncodeToString a = concat (map (\<lambda>b. [hex_digit (b div 16), hex_digit (b mod 16)]) a)"

definition Address_Hex :: "(bytes \<Rightarrow> hash) \<Rightarrow> address \<Rightarrow> bytes" where
  "Address_Hex keccak a =
     (let unchecksummed = hex_EncodeToString a;
          hash = keccak unchecksummed
      in [48, 120] @ map (\<lambda>i.
           let hashByte = hash ! (i div 2);
               nib = (if i mod 2 = 0 then hashByte div 16 else hashByte mod 16)
           in if unchecksummed ! i > 57 \<and> nib > 7 then unchecksummed ! i - 32 else unchecksummed ! i)
         [0..<length unchecksummed])"

definition lower :: "byte \<Rightarrow> byte" where
  "lower c = (if 65 \<le> c \<and> c \<le> 70 then c + 32 else c)"

lemma byte_cases_16: "(n :: byte) < 16 \<Longrightarrow> n \<in> {0, 1, 2, 3, 4, 5, 6, 7, 8, 9, 10, 11, 12, 13, 14, 15}"
proof -
  assume "n < 16"
  then have "unat n < 16" by (simp add: word_less_nat_alt)
  then have "unat n \<in> {0, 1, 2, 3, 4, 5, 6, 7, 8, 9, 10, 11, 12, 13, 14, 15}"
    by (simp add: numeral_eq_Suc less_Suc_eq)
  then show ?thesis by (auto simp: word_unat_eq_iff)
qed

lemma hex_digit_lower: "n < 16 \<Longrightarrow> lower (hex_digit n) = hex_digit n" "n < 16 \<Longrightarrow> hex_digit n > 57 \<Longrightarrow> lower (hex_digit n - 32) = hex_digit n"
  using byte_cases_16 [of n] by (auto simp: hex_digit_def lower_def)

lemma hex_digit_inj: "n < 16 \<Longrightarrow> m < 16 \<Longrightarrow> hex_digit n = hex_digit m \<Longrightarrow> n = m"
  using byte_cases_16 [of n] byte_cases_16 [of m] by (auto simp: hex_digit_def)

lemma byte_nibbles: "(b :: byte) div 16 < 16" "(b :: byte) mod 16 < 16"
proof -
  have "unat b div 16 < 16" using unat_byte_less [of b] by simp
  then show "b div 16 < 16" by (simp add: word_less_nat_alt unat_div)
  show "b mod 16 < 16" by (simp add: word_less_nat_alt unat_mod)
qed

lemma byte_nibbles_inj: "(b :: byte) div 16 = c div 16 \<Longrightarrow> b mod 16 = c mod 16 \<Longrightarrow> b = c"
  by (metis word_mod_div_equality)

lemma hex_EncodeToString_inj: "hex_EncodeToString a = hex_EncodeToString b \<Longrightarrow> a = b"
proof (induction a arbitrary: b)
  case Nil
  then show ?case by (cases b) (auto simp: hex_EncodeToString_def)
next
  case (Cons x a)
  then show ?case
    by (cases b) (auto simp: hex_EncodeToString_def intro: byte_nibbles_inj dest!: hex_digit_inj [OF byte_nibbles(1) byte_nibbles(1)]
        hex_digit_inj [OF byte_nibbles(2) byte_nibbles(2)])
qed

lemma hex_chars: "c \<in> set (hex_EncodeToString a) \<Longrightarrow> \<exists>n < 16. c = hex_digit n"
  using byte_nibbles by (auto simp: hex_EncodeToString_def)

lemma lower_Address_Hex: "map lower (drop 2 (Address_Hex keccak a)) = hex_EncodeToString a"
proof (rule nth_equalityI)
  show "length (map lower (drop 2 (Address_Hex keccak a))) = length (hex_EncodeToString a)"
    by (simp add: Address_Hex_def Let_def)
  fix i assume "i < length (map lower (drop 2 (Address_Hex keccak a)))"
  then have i: "i < length (hex_EncodeToString a)" by (simp add: Address_Hex_def Let_def)
  then obtain n where n: "n < 16" "hex_EncodeToString a ! i = hex_digit n" using hex_chars nth_mem by blast
  show "map lower (drop 2 (Address_Hex keccak a)) ! i = hex_EncodeToString a ! i"
    using i n hex_digit_lower [OF n(1)] by (simp add: Address_Hex_def Let_def)
qed

lemma Address_Hex_inj: "Address_Hex keccak a = Address_Hex keccak b \<Longrightarrow> a = b"
  using lower_Address_Hex hex_EncodeToString_inj by metis

end
