(* ===== verification/Poc_Epoch.thy ===== *)
theory Poc_Epoch
  imports Poc_Context State_DB Go_Order
begin

text \<open>
  Elections, \<^verbatim>\<open>pkg/consensus/poc/epoch_context.go\<close>. Time is cut into epochs of \<open>epochInterval\<close>
  seconds and slots of \<open>blockInterval\<close> seconds. The first block of an epoch removes inactive
  validators from the candidates and elects the candidates with the highest contributions; within
  the epoch the validators take turns. Keccak-512 and the pseudo-random generator seeded with a
  value are parameters; \<open>rnd seed k n\<close> is the \<open>k\<close>-th draw \<open>Int31n(n)\<close>.
\<close>

section \<open>Constants\<close>

definition blockInterval :: int where "blockInterval = 20"
definition epochInterval :: int where "epochInterval = 360"
definition maxValidatorSize :: nat where "maxValidatorSize = 3"
definition safeSize :: nat where "safeSize = maxValidatorSize * 2 div 3 + 1"
definition consensusSize :: nat where "consensusSize = maxValidatorSize * 2 div 3 + 1"

lemmas poc_consts = blockInterval_def epochInterval_def maxValidatorSize_def safeSize_def consensusSize_def

datatype epoch_error =
    PocErr poc_error
  | NoCandidates
  | FailedToGetValidator poc_error
  | NoValidatorCouldBeKickout
  | ErrInvalidMintBlockTime
  | FailedToLookupValidator
  | TooFewCandidates
  | EpochPanic

section \<open>State\<close>

record ('t, 'd, 's) EpochContext =
  ec_TimeStamp :: int
  ec_PocContext :: "('t, 'd) PocContext"
  ec_stateDB :: "'s StateDB"

text \<open>Everything the elections depend on besides the state.\<close>

record ('t, 'w, 'd, 's) election_env =
  ee_poc :: "('t, 'w, 'd) poc_env"
  ee_state :: "'s database"
  ee_keccak512 :: "bytes \<Rightarrow> bytes"
  ee_rnd :: "int \<Rightarrow> nat \<Rightarrow> nat \<Rightarrow> nat"

definition PutUint64 :: "u64 \<Rightarrow> bytes" where
  "PutUint64 v = be_fixed 8 (unat v)"

definition BigEndian_Uint64 :: "bytes \<Rightarrow> u64 option" where
  "BigEndian_Uint64 b = (if length b < 8 then None else Some (word_of_nat (be_val (take 8 b))))"

definition LittleEndian_Uint32 :: "bytes \<Rightarrow> u32 option" where
  "LittleEndian_Uint32 b = (if length b < 4 then None else Some (word_of_nat (be_val (rev (take 4 b)))))"

section \<open>Candidates in order\<close>

record sortableAddress =
  sa_address :: address
  sa_weight :: int

definition sortable_Less :: "(bytes \<Rightarrow> hash) \<Rightarrow> sortableAddress \<Rightarrow> sortableAddress \<Rightarrow> bool" where
  "sortable_Less keccak p q =
     (if sa_weight p < sa_weight q then False
      else if sa_weight p > sa_weight q then True
      else bytes_less (Address_Hex keccak (sa_address p)) (Address_Hex keccak (sa_address q)))"

fun contributions_loop :: "'s database \<Rightarrow> bytes list \<Rightarrow> 's StateDB \<Rightarrow> AccountContribution list \<times> 's StateDB" where
  "contributions_loop D [] s = ([], s)"
| "contributions_loop D (v # vs) s =
     (let candidateAddr = BytesToAddress v;
          (c, s1) = GetContribution D candidateAddr s;
          (cs, s2) = contributions_loop D vs s1
      in (\<lparr>ac_Account = candidateAddr, ac_Contribution = c\<rparr> # cs, s2))"

definition countContributions :: "('t, 'w, 'd, 's) election_env \<Rightarrow> ('t, 'd, 's) EpochContext \<Rightarrow>
    (epoch_error + AccountContribution list) \<times> ('t, 'd, 's) EpochContext" where
  "countContributions X ec =
     (let (vs, t) = api_NodeIterator (pe_trie (ee_poc X)) (candidateTrie (ec_PocContext ec)) [];
          ec1 = ec\<lparr>ec_PocContext := (ec_PocContext ec)\<lparr>candidateTrie := t\<rparr>\<rparr>
      in if vs = [] then (Inl NoCandidates, ec1)
         else (let (cs, s) = contributions_loop (ee_state X) vs (ec_stateDB ec1) in (Inr cs, ec1\<lparr>ec_stateDB := s\<rparr>)))"

section \<open>Removing inactive validators\<close>

text \<open>The number of blocks a validator minted in an epoch.\<close>

definition mint_key :: "int \<Rightarrow> address \<Rightarrow> bytes" where
  "mint_key epoch validator = PutUint64 (word_of_int epoch) @ validator"

definition mint_count :: "('t, 'w, 'd) poc_env \<Rightarrow> int \<Rightarrow> address \<Rightarrow> ('t, 'd) PocContext \<Rightarrow> (epoch_error + int) \<times> ('t, 'd) PocContext" where
  "mint_count E epoch validator pc =
     (let (v, t) = api_Get (pe_trie E) (mintCntTrie pc) (mint_key epoch validator); pc1 = pc\<lparr>mintCntTrie := t\<rparr>
      in case v of
           None \<Rightarrow> (Inr 0, pc1)
         | Some b \<Rightarrow> (case BigEndian_Uint64 b of None \<Rightarrow> (Inl EpochPanic, pc1) | Some n \<Rightarrow> (Inr (sint n), pc1)))"

fun inactive_loop :: "('t, 'w, 'd) poc_env \<Rightarrow> int \<Rightarrow> int \<Rightarrow> address list \<Rightarrow> ('t, 'd) PocContext \<Rightarrow>
    (epoch_error + sortableAddress list) \<times> ('t, 'd) PocContext" where
  "inactive_loop E epoch threshold [] pc = (Inr [], pc)"
| "inactive_loop E epoch threshold (validator # vs) pc =
     (case mint_count E epoch validator pc of
        (Inl e, pc1) \<Rightarrow> (Inl e, pc1)
      | (Inr cnt, pc1) \<Rightarrow>
          (case inactive_loop E epoch threshold vs pc1 of
             (Inl e, pc2) \<Rightarrow> (Inl e, pc2)
           | (Inr rest, pc2) \<Rightarrow>
               (Inr (if cnt < threshold then \<lparr>sa_address = validator, sa_weight = cnt\<rparr> # rest else rest), pc2)))"

text \<open>The loop that counts candidates stops at \<open>limit\<close>.\<close>

fun count_loop :: "bytes list \<Rightarrow> nat \<Rightarrow> nat \<Rightarrow> nat" where
  "count_loop [] limit n = n"
| "count_loop (v # vs) limit n = (if n + 1 \<ge> limit then n + 1 else count_loop vs limit (n + 1))"

fun kickout_loop :: "('t, 'w, 'd) poc_env \<Rightarrow> nat \<Rightarrow> sortableAddress list \<Rightarrow> ('t, 'd) PocContext \<Rightarrow> epoch_error option \<times> ('t, 'd) PocContext" where
  "kickout_loop E candidateCount [] pc = (None, pc)"
| "kickout_loop E candidateCount (validator # vs) pc =
     (if candidateCount \<le> safeSize then (None, pc)
      else (case KickoutCandidate E (sa_address validator) pc of
          (Some e, pc1) \<Rightarrow> (Some (PocErr e), pc1)
        | (None, pc1) \<Rightarrow> kickout_loop E (candidateCount - 1) vs pc1))"

definition kickout_inactive :: "('t, 'w, 'd) poc_env \<Rightarrow> sortableAddress list \<Rightarrow> ('t, 'd) PocContext \<Rightarrow> epoch_error option \<times> ('t, 'd) PocContext" where
  "kickout_inactive E needKickout pc =
     (if length needKickout = 0 then (None, pc)
      else
        (let sorted = sort_Sort (\<lambda>x y. sortable_Less (pe_keccak E) y x) needKickout;
             (vs, t) = api_NodeIterator (pe_trie E) (candidateTrie pc) [];
             candidateCount = count_loop vs (length needKickout + safeSize) 0
         in kickout_loop E candidateCount sorted (pc\<lparr>candidateTrie := t\<rparr>)))"

text \<open>\<open>first\<close> is the package variable \<open>timeOfFirstBlock\<close>.\<close>

definition kickoutValidator :: "('t, 'w, 'd, 's) election_env \<Rightarrow> int \<Rightarrow> int \<Rightarrow> ('t, 'd, 's) EpochContext \<Rightarrow>
    epoch_error option \<times> ('t, 'd, 's) EpochContext" where
  "kickoutValidator X first epoch ec =
     (let E = ee_poc X;
          (r, pc1) = GetValidators E (ec_PocContext ec);
          ec1 = ec\<lparr>ec_PocContext := pc1\<rparr>
      in case r of
           Inl e \<Rightarrow> (Some (FailedToGetValidator e), ec1)
         | Inr validators \<Rightarrow>
             if length validators = 0 then (Some NoValidatorCouldBeKickout, ec1)
             else
               (let elapsed = i64 (ec_TimeStamp ec - first);
                    epochDuration = (if elapsed < epochInterval then elapsed else epochInterval);
                    threshold = go_quot (go_quot (go_quot epochDuration blockInterval) (int maxValidatorSize)) 2
                in case inactive_loop E epoch threshold validators pc1 of
                     (Inl e, pc2) \<Rightarrow> (Some e, ec1\<lparr>ec_PocContext := pc2\<rparr>)
                   | (Inr needKickout, pc2) \<Rightarrow>
                       (let (err, pc3) = kickout_inactive E needKickout pc2 in (err, ec1\<lparr>ec_PocContext := pc3\<rparr>))))"

section \<open>Whose turn it is\<close>

definition lookupValidator :: "('t, 'w, 'd) poc_env \<Rightarrow> int \<Rightarrow> ('t, 'd) PocContext \<Rightarrow> (epoch_error + address) \<times> ('t, 'd) PocContext" where
  "lookupValidator E now pc =
     (let offset = go_rem now epochInterval
      in if go_rem offset blockInterval \<noteq> 0 then (Inl ErrInvalidMintBlockTime, pc)
         else
           (let offset = go_quot offset blockInterval;
                (r, pc1) = GetValidators E pc
            in case r of
                 Inl e \<Rightarrow> (Inl (PocErr e), pc1)
               | Inr validators \<Rightarrow>
                   if length validators = 0 then (Inl FailedToLookupValidator, pc1)
                   else (let offset = go_rem offset (int (length validators))
                         in if offset < 0 then (Inl EpochPanic, pc1) else (Inr (validators ! nat offset), pc1))))"

section \<open>Elections\<close>

text \<open>The shuffle draws an index for every position from the last down to the second.\<close>

definition swap :: "nat \<Rightarrow> nat \<Rightarrow> 'a list \<Rightarrow> 'a list" where
  "swap i j xs = xs[i := xs ! j, j := xs ! i]"

fun shuffle_loop :: "(nat \<Rightarrow> nat \<Rightarrow> nat) \<Rightarrow> nat \<Rightarrow> nat \<Rightarrow> 'a list \<Rightarrow> 'a list" where
  "shuffle_loop draw k 0 xs = xs"
| "shuffle_loop draw k (Suc i) xs = shuffle_loop draw (Suc k) i (swap (Suc i) (draw k (Suc i + 1)) xs)"

definition shuffle :: "(nat \<Rightarrow> nat \<Rightarrow> nat) \<Rightarrow> 'a list \<Rightarrow> 'a list" where
  "shuffle draw xs = shuffle_loop draw 0 (length xs - 1) xs"

text \<open>The choice of the validators from the counted contributions.\<close>

definition ranked :: "(bytes \<Rightarrow> hash) \<Rightarrow> AccountContribution list \<Rightarrow> sortableAddress list" where
  "ranked keccak ctbs =
     sort_Sort (sortable_Less keccak) (map (\<lambda>c. \<lparr>sa_address = ac_Account c, sa_weight = ac_Contribution c\<rparr>) ctbs)"

definition elected :: "('t, 'w, 'd, 's) election_env \<Rightarrow> hash \<Rightarrow> int \<Rightarrow> AccountContribution list \<Rightarrow> epoch_error + address list" where
  "elected X parentHash i ctbs =
     (if length ctbs < safeSize then Inl TooFewCandidates
      else
        (let candidates = ranked (pe_keccak (ee_poc X)) ctbs;
             candidates = (if length candidates > maxValidatorSize then take maxValidatorSize candidates else candidates)
         in case LittleEndian_Uint32 (ee_keccak512 X parentHash) of
              None \<Rightarrow> Inl EpochPanic
            | Some w \<Rightarrow> Inr (map sa_address (shuffle (ee_rnd X (i64 (int (unat w) + i))) candidates))))"

definition elect_epoch :: "('t, 'w, 'd, 's) election_env \<Rightarrow> hash \<Rightarrow> int \<Rightarrow> ('t, 'd, 's) EpochContext \<Rightarrow>
    epoch_error option \<times> ('t, 'd, 's) EpochContext" where
  "elect_epoch X parentHash i ec =
     (let E = ee_poc X in
      case countContributions X ec of
        (Inl e, ec1) \<Rightarrow> (Some e, ec1)
      | (Inr ctbs, ec1) \<Rightarrow>
          (case elected X parentHash i ctbs of
             Inl e \<Rightarrow> (Some e, ec1)
           | Inr sortedValidators \<Rightarrow>
               (case NewEpochTrie E (replicate 32 0) (pc_db (ec_PocContext ec1)) of
                  Inl e \<Rightarrow> (Some EpochPanic, ec1)
                | Inr t \<Rightarrow>
                    (case SetValidators E sortedValidators ((ec_PocContext ec1)\<lparr>epochTrie := t\<rparr>) of
                       (Some e, pc2) \<Rightarrow> (Some (PocErr e), ec1\<lparr>ec_PocContext := pc2\<rparr>)
                     | (None, pc2) \<Rightarrow>
                         (let (err, pc3) = SetContributions E ctbs pc2
                          in (map_option PocErr err, ec1\<lparr>ec_PocContext := pc3\<rparr>))))))"

text \<open>
  The loop over the epochs: \<open>n\<close> epochs are left from \<open>i\<close>, and \<open>marks\<close> is what the iterator over the
  mint counts of the previous epoch has left.
\<close>

fun elect_loop :: "('t, 'w, 'd, 's) election_env \<Rightarrow> int \<Rightarrow> hash \<Rightarrow> bool \<Rightarrow> int \<Rightarrow> nat \<Rightarrow> int \<Rightarrow> bytes list \<Rightarrow>
    ('t, 'd, 's) EpochContext \<Rightarrow> epoch_error option \<times> ('t, 'd, 's) EpochContext" where
  "elect_loop X first parentHash genesis prevEpoch 0 i marks ec = (None, ec)"
| "elect_loop X first parentHash genesis prevEpoch (Suc n) i marks ec =
     (let (err, ec1) = (if \<not> genesis \<and> marks \<noteq> [] then kickoutValidator X first prevEpoch ec else (None, ec));
          marks1 = (if genesis then marks else tl marks)
      in case err of
           Some e \<Rightarrow> (Some e, ec1)
         | None \<Rightarrow>
             (case elect_epoch X parentHash i ec1 of
                (Some e, ec2) \<Rightarrow> (Some e, ec2)
              | (None, ec2) \<Rightarrow> elect_loop X first parentHash genesis prevEpoch n (i + 1) marks1 ec2))"

definition tryElect :: "('t, 'w, 'd, 's) election_env \<Rightarrow> int \<Rightarrow> Header \<Rightarrow> Header \<Rightarrow> ('t, 'd, 's) EpochContext \<Rightarrow>
    epoch_error option \<times> ('t, 'd, 's) EpochContext" where
  "tryElect X first genesis parent ec =
     (let E = ee_poc X;
          genesisEpoch = go_quot (big_Int64 (h_Time genesis)) epochInterval;
          prevEpoch0 = go_quot (big_Int64 (h_Time parent)) epochInterval;
          currentEpoch = go_quot (ec_TimeStamp ec) epochInterval;
          prevEpochIsGenesis = (prevEpoch0 = genesisEpoch);
          prevEpoch = (if prevEpochIsGenesis \<and> prevEpoch0 < currentEpoch then currentEpoch - 1 else prevEpoch0);
          (marks, t) = api_PrefixIterator (pe_trie E) (mintCntTrie (ec_PocContext ec)) (PutUint64 (word_of_int prevEpoch))
      in elect_loop X first (Header_Hash (pe_keccak E) parent) prevEpochIsGenesis prevEpoch (nat (currentEpoch - prevEpoch)) prevEpoch marks
           (ec\<lparr>ec_PocContext := (ec_PocContext ec)\<lparr>mintCntTrie := t\<rparr>\<rparr>))"

end
