(* ===== verification/Chain_Config.thy ===== *)
theory Chain_Config
  imports Block_Header
begin

text \<open>
  The chain configuration, \<^verbatim>\<open>pkg/params/config.go\<close>, with the gas tables it selects
  (\<^verbatim>\<open>gas_table.go\<close>) and the checks of headers that depend on it (\<^verbatim>\<open>pkg/consensus/misc\<close>). A nil block
  number, which switches a fork off, is \<open>None\<close>.
\<close>

section \<open>Configuration\<close>

record ChainConfig =
  ChainId :: "int option"
  HomesteadBlock :: "int option"
  DAOForkBlock :: "int option"
  DAOForkSupport :: bool
  EIP150Block :: "int option"
  EIP150Hash :: hash
  EIP155Block :: "int option"
  EIP158Block :: "int option"
  ByzantiumBlock :: "int option"
  PocValidators :: "address list option"

definition PocChainConfig :: ChainConfig where
  "PocChainConfig = \<lparr>ChainId = Some 5, HomesteadBlock = Some 0, DAOForkBlock = None, DAOForkSupport = False, EIP150Block = Some 0,
     EIP150Hash = replicate 32 0, EIP155Block = Some 0, EIP158Block = Some 0, ByzantiumBlock = Some 0, PocValidators = Some []\<rparr>"

definition isForked :: "int option \<Rightarrow> int option \<Rightarrow> bool" where
  "isForked s head = (case (s, head) of (Some a, Some h) \<Rightarrow> a \<le> h | _ \<Rightarrow> False)"

definition IsHomestead :: "ChainConfig \<Rightarrow> int option \<Rightarrow> bool" where
  "IsHomestead c num = isForked (HomesteadBlock c) num"

definition IsDAOFork :: "ChainConfig \<Rightarrow> int option \<Rightarrow> bool" where
  "IsDAOFork c num = isForked (DAOForkBlock c) num"

definition IsEIP150 :: "ChainConfig \<Rightarrow> int option \<Rightarrow> bool" where
  "IsEIP150 c num = isForked (EIP150Block c) num"

definition IsEIP155 :: "ChainConfig \<Rightarrow> int option \<Rightarrow> bool" where
  "IsEIP155 c num = isForked (EIP155Block c) num"

definition IsEIP158 :: "ChainConfig \<Rightarrow> int option \<Rightarrow> bool" where
  "IsEIP158 c num = isForked (EIP158Block c) num"

definition IsByzantium :: "ChainConfig \<Rightarrow> int option \<Rightarrow> bool" where
  "IsByzantium c num = isForked (ByzantiumBlock c) num"

record GasTable =
  ExtcodeSize :: u64
  ExtcodeCopy :: u64
  gt_Balance :: u64
  SLoad :: u64
  Calls :: u64
  gt_Suicide :: u64
  ExpByte :: u64
  CreateBySuicide :: u64

definition GasTableHomestead :: GasTable where
  "GasTableHomestead = \<lparr>ExtcodeSize = 20, ExtcodeCopy = 20, gt_Balance = 20, SLoad = 50, Calls = 40, gt_Suicide = 0, ExpByte = 10,
     CreateBySuicide = 0\<rparr>"

definition GasTableEIP150 :: GasTable where
  "GasTableEIP150 = \<lparr>ExtcodeSize = 700, ExtcodeCopy = 700, gt_Balance = 400, SLoad = 200, Calls = 700, gt_Suicide = 5000, ExpByte = 10,
     CreateBySuicide = 25000\<rparr>"

definition GasTableEIP158 :: GasTable where
  "GasTableEIP158 = \<lparr>ExtcodeSize = 700, ExtcodeCopy = 700, gt_Balance = 400, SLoad = 200, Calls = 700, gt_Suicide = 5000, ExpByte = 50,
     CreateBySuicide = 25000\<rparr>"

definition GasTable_of :: "ChainConfig \<Rightarrow> int option \<Rightarrow> GasTable" where
  "GasTable_of c num =
     (if num = None then GasTableHomestead
      else if IsEIP158 c num then GasTableEIP158
      else if IsEIP150 c num then GasTableEIP150
      else GasTableHomestead)"

record Rules =
  r_ChainId :: int
  r_IsHomestead :: bool
  r_IsEIP150 :: bool
  r_IsEIP155 :: bool
  r_IsEIP158 :: bool
  r_IsByzantium :: bool

definition Rules_of :: "ChainConfig \<Rightarrow> int option \<Rightarrow> Rules" where
  "Rules_of c num =
     \<lparr>r_ChainId = (case ChainId c of None \<Rightarrow> 0 | Some i \<Rightarrow> i), r_IsHomestead = IsHomestead c num, r_IsEIP150 = IsEIP150 c num,
      r_IsEIP155 = IsEIP155 c num, r_IsEIP158 = IsEIP158 c num, r_IsByzantium = IsByzantium c num\<rparr>"

section \<open>Changing the configuration of a chain\<close>

definition configNumEqual :: "int option \<Rightarrow> int option \<Rightarrow> bool" where
  "configNumEqual x y = (case x of None \<Rightarrow> y = None | Some a \<Rightarrow> (case y of None \<Rightarrow> False | Some b \<Rightarrow> a = b))"

definition isForkIncompatible :: "int option \<Rightarrow> int option \<Rightarrow> int option \<Rightarrow> bool" where
  "isForkIncompatible s1 s2 head \<longleftrightarrow> (isForked s1 head \<or> isForked s2 head) \<and> \<not> configNumEqual s1 s2"

record ConfigCompatError =
  ce_What :: string
  ce_StoredConfig :: "int option"
  ce_NewConfig :: "int option"
  ce_RewindTo :: u64

definition newCompatError :: "string \<Rightarrow> int option \<Rightarrow> int option \<Rightarrow> ConfigCompatError" where
  "newCompatError what storedblock newblock =
     (let rew = (case storedblock of
            None \<Rightarrow> newblock
          | Some s \<Rightarrow> (case newblock of None \<Rightarrow> storedblock | Some n \<Rightarrow> if s < n then storedblock else newblock))
      in \<lparr>ce_What = what, ce_StoredConfig = storedblock, ce_NewConfig = newblock,
          ce_RewindTo = (case rew of None \<Rightarrow> 0 | Some r \<Rightarrow> if r > 0 then big_Uint64 r - 1 else 0)\<rparr>)"

definition checkCompatible :: "ChainConfig \<Rightarrow> ChainConfig \<Rightarrow> int \<Rightarrow> ConfigCompatError option" where
  "checkCompatible c newcfg n =
     (let head = Some n in
      if isForkIncompatible (HomesteadBlock c) (HomesteadBlock newcfg) head
      then Some (newCompatError ''Homestead fork block'' (HomesteadBlock c) (HomesteadBlock newcfg))
      else if isForkIncompatible (DAOForkBlock c) (DAOForkBlock newcfg) head
      then Some (newCompatError ''DAO fork block'' (DAOForkBlock c) (DAOForkBlock newcfg))
      else if IsDAOFork c head \<and> DAOForkSupport c \<noteq> DAOForkSupport newcfg
      then Some (newCompatError ''DAO fork support flag'' (DAOForkBlock c) (DAOForkBlock newcfg))
      else if isForkIncompatible (EIP150Block c) (EIP150Block newcfg) head
      then Some (newCompatError ''EIP150 fork block'' (EIP150Block c) (EIP150Block newcfg))
      else if isForkIncompatible (EIP155Block c) (EIP155Block newcfg) head
      then Some (newCompatError ''EIP155 fork block'' (EIP155Block c) (EIP155Block newcfg))
      else if isForkIncompatible (EIP158Block c) (EIP158Block newcfg) head
      then Some (newCompatError ''EIP158 fork block'' (EIP158Block c) (EIP158Block newcfg))
      else if IsEIP158 c head \<and> \<not> configNumEqual (ChainId c) (ChainId newcfg)
      then Some (newCompatError ''EIP158 chain ID'' (EIP158Block c) (EIP158Block newcfg))
      else if isForkIncompatible (ByzantiumBlock c) (ByzantiumBlock newcfg) head
      then Some (newCompatError ''Byzantium fork block'' (ByzantiumBlock c) (ByzantiumBlock newcfg))
      else None)"

lemma configNumEqual_eq [simp]: "configNumEqual x y \<longleftrightarrow> x = y"
  by (auto simp: configNumEqual_def split: option.splits)

lemma uint_big_Uint64_minus_one:
  assumes "0 < r" "r \<le> uint (b :: u64)"
  shows "uint (big_Uint64 r - 1) = r - 1"
proof -
  have "r < 2 ^ 64" using assms(2) uint_bounded [of b] by simp
  then have u: "uint (big_Uint64 r) = r" using assms(1) by (simp add: big_Uint64_def uint_word_of_int)
  then have "1 \<le> big_Uint64 r" using assms(1) by (simp add: word_le_def)
  then show ?thesis using u by (simp add: uint_minus_simple_alt word_le_def)
qed

text \<open>A conflict at a head comes from a fork at or below that head, so it rewinds below it.\<close>

lemma newCompatError_rewind:
  assumes "isForked s (Some (uint (b :: u64))) \<or> isForked n (Some (uint b))"
  shows "ce_RewindTo (newCompatError what s n) = 0 \<or> ce_RewindTo (newCompatError what s n) < b"
proof -
  have "big_Uint64 r - 1 < b" if "0 < r" "r \<le> uint b" for r
    using uint_big_Uint64_minus_one [OF that] that by (simp add: word_less_def)
  then show ?thesis
    using assms(1) by (auto simp: newCompatError_def isForked_def split: option.splits)
qed

lemma checkCompatible_iff:
  "checkCompatible c d n = None \<longleftrightarrow>
     \<not> isForkIncompatible (HomesteadBlock c) (HomesteadBlock d) (Some n) \<and> \<not> isForkIncompatible (DAOForkBlock c) (DAOForkBlock d) (Some n)
     \<and> \<not> (IsDAOFork c (Some n) \<and> DAOForkSupport c \<noteq> DAOForkSupport d) \<and> \<not> isForkIncompatible (EIP150Block c) (EIP150Block d) (Some n)
     \<and> \<not> isForkIncompatible (EIP155Block c) (EIP155Block d) (Some n) \<and> \<not> isForkIncompatible (EIP158Block c) (EIP158Block d) (Some n)
     \<and> \<not> (IsEIP158 c (Some n) \<and> ChainId c \<noteq> ChainId d) \<and> \<not> isForkIncompatible (ByzantiumBlock c) (ByzantiumBlock d) (Some n)"
  by (simp add: checkCompatible_def Let_def)

text \<open>Every conflict is one of two fork blocks, and remains as long as one of them is in force.\<close>

definition fork_conflict :: "ChainConfig \<Rightarrow> ChainConfig \<Rightarrow> int \<Rightarrow> ConfigCompatError \<Rightarrow> bool" where
  "fork_conflict c d h e \<longleftrightarrow> (\<exists>what s n. e = newCompatError what s n \<and> (isForked s (Some h) \<or> isForked n (Some h))
     \<and> (\<forall>k. isForked s (Some k) \<or> isForked n (Some k) \<longrightarrow> checkCompatible c d k \<noteq> None))"

lemma fork_conflictI:
  assumes "isForked s (Some h) \<or> isForked n (Some h)" "\<And>k. isForked s (Some k) \<or> isForked n (Some k) \<Longrightarrow> checkCompatible c d k \<noteq> None"
  shows "fork_conflict c d h (newCompatError what s n)"
  unfolding fork_conflict_def using assms by blast

lemma fork_conflict_incompatible:
  assumes "isForkIncompatible s n (Some h)" "\<And>k. isForkIncompatible s n (Some k) \<Longrightarrow> checkCompatible c d k \<noteq> None"
  shows "fork_conflict c d h (newCompatError what s n)"
  using assms by (intro fork_conflictI) (auto simp: isForkIncompatible_def)

lemma checkCompatible_conflict_forks:
  assumes "checkCompatible c d h = Some e"
  shows "fork_conflict c d h e"
proof -
  have b: "fork_conflict c d h (newCompatError w (f c) (f d))"
    if "isForkIncompatible (f c) (f d) (Some h)" "f \<in> {HomesteadBlock, DAOForkBlock, EIP150Block, EIP155Block, EIP158Block, ByzantiumBlock}" for w f
    using that(1) by (rule fork_conflict_incompatible) (use that(2) in \<open>auto simp: checkCompatible_iff\<close>)
  have l: "fork_conflict c d h (newCompatError w (f c) (f d))"
    if "isForked (f c) (Some h)" "\<not> isForkIncompatible (f c) (f d) (Some h)" "\<And>k. isForked (f c) (Some k) \<Longrightarrow> checkCompatible c d k \<noteq> None" for w f
    using that by (intro fork_conflictI) (auto simp: isForkIncompatible_def)
  have dao: "fork_conflict c d h (newCompatError w (DAOForkBlock c) (DAOForkBlock d))"
    if "IsDAOFork c (Some h)" "DAOForkSupport c \<noteq> DAOForkSupport d" "\<not> isForkIncompatible (DAOForkBlock c) (DAOForkBlock d) (Some h)" for w
    using that by (intro l) (auto simp: IsDAOFork_def checkCompatible_iff)
  have eip: "fork_conflict c d h (newCompatError w (EIP158Block c) (EIP158Block d))"
    if "IsEIP158 c (Some h)" "ChainId c \<noteq> ChainId d" "\<not> isForkIncompatible (EIP158Block c) (EIP158Block d) (Some h)" for w
    using that by (intro l) (auto simp: IsEIP158_def checkCompatible_iff)
  show ?thesis
    using assms b dao eip unfolding checkCompatible_def Let_def configNumEqual_eq
    by (auto split: if_split_asm)
qed

lemma checkCompatible_rewind:
  assumes "checkCompatible c newcfg (uint b) = Some err"
  shows "ce_RewindTo err = 0 \<or> ce_RewindTo err < b"
  using checkCompatible_conflict_forks [OF assms] newCompatError_rewind unfolding fork_conflict_def by blast

text \<open>The loop of \<open>CheckCompatible\<close>, which rewinds until it finds no new conflict.\<close>

function (sequential) compat_loop :: "ChainConfig \<Rightarrow> ChainConfig \<Rightarrow> ConfigCompatError option \<Rightarrow> u64 \<Rightarrow> ConfigCompatError option" where
  "compat_loop c newcfg lasterr bhead =
     (case checkCompatible c newcfg (uint bhead) of
        None \<Rightarrow> lasterr
      | Some err \<Rightarrow>
          if lasterr \<noteq> None \<and> ce_RewindTo err = ce_RewindTo (the lasterr) then lasterr
          else compat_loop c newcfg (Some err) (ce_RewindTo err))"
  by pat_completeness auto
termination
proof (relation "measure (\<lambda>(c, newcfg, lasterr, bhead). 2 * unat bhead + (if map_option ce_RewindTo lasterr = Some bhead then 0 else 1))")
  fix c newcfg and lasterr :: "ConfigCompatError option" and bhead :: u64 and err
  assume c: "checkCompatible c newcfg (uint bhead) = Some err" and n: "\<not> (lasterr \<noteq> None \<and> ce_RewindTo err = ce_RewindTo (the lasterr))"
  have le: "ce_RewindTo err = 0 \<or> ce_RewindTo err < bhead" using checkCompatible_rewind [OF c] .
  show "((c, newcfg, Some err, ce_RewindTo err), (c, newcfg, lasterr, bhead))
      \<in> measure (\<lambda>(c, newcfg, lasterr, bhead). 2 * unat bhead + (if map_option ce_RewindTo lasterr = Some bhead then 0 else 1))"
  proof (cases "bhead = 0")
    case True
    then show ?thesis using n le by auto
  next
    case False
    then show ?thesis using le by (auto simp: word_less_nat_alt unat_gt_0)
  qed
qed simp

declare compat_loop.simps [simp del]

definition CheckCompatible :: "ChainConfig \<Rightarrow> ChainConfig \<Rightarrow> u64 \<Rightarrow> ConfigCompatError option" where
  "CheckCompatible c newcfg height = compat_loop c newcfg None height"

section \<open>Fork checks of headers\<close>

datatype misc_error = ForkHashMismatch hash hash | ErrBadProDAOExtra | ErrBadNoDAOExtra

definition VerifyForkHashes :: "(bytes \<Rightarrow> hash) \<Rightarrow> ChainConfig \<Rightarrow> Header \<Rightarrow> bool \<Rightarrow> misc_error option" where
  "VerifyForkHashes keccak config header uncle =
     (if uncle then None
      else if EIP150Block config \<noteq> None \<and> EIP150Block config = h_Number header then
        (if EIP150Hash config \<noteq> replicate 32 0 \<and> EIP150Hash config \<noteq> Header_Hash keccak header
         then Some (ForkHashMismatch (Header_Hash keccak header) (EIP150Hash config)) else None)
      else None)"

definition DAOForkExtraRange :: int where "DAOForkExtraRange = 10"
definition DAOForkBlockExtra :: bytes where "DAOForkBlockExtra = [0x64, 0x61, 0x6f, 0x2d, 0x68, 0x61, 0x72, 0x64, 0x2d, 0x66, 0x6f, 0x72, 0x6b]"

text \<open>A header without a number makes the comparison panic; the outer \<open>option\<close> is the panic.\<close>

definition VerifyDAOHeaderExtraData :: "ChainConfig \<Rightarrow> Header \<Rightarrow> misc_error option option" where
  "VerifyDAOHeaderExtraData config header =
     (case DAOForkBlock config of
        None \<Rightarrow> Some None
      | Some b \<Rightarrow>
          (case h_Number header of
             None \<Rightarrow> None
           | Some n \<Rightarrow>
               Some (let limit = b + DAOForkExtraRange in
                 if n < b \<or> n \<ge> limit then None
                 else if DAOForkSupport config then (if h_Extra header \<noteq> DAOForkBlockExtra then Some ErrBadProDAOExtra else None)
                 else (if h_Extra header = DAOForkBlockExtra then Some ErrBadNoDAOExtra else None))))"

section \<open>Lemmas\<close>

text \<open>The forks and flags that are in force at \<open>h\<close> are the same in both configurations.\<close>

definition agree :: "ChainConfig \<Rightarrow> ChainConfig \<Rightarrow> int \<Rightarrow> bool" where
  "agree c d h \<longleftrightarrow>
     (\<forall>f \<in> {HomesteadBlock, DAOForkBlock, EIP150Block, EIP155Block, EIP158Block, ByzantiumBlock}.
        \<forall>n \<le> h. f c = Some n \<longleftrightarrow> f d = Some n)
     \<and> (IsDAOFork c (Some h) \<longrightarrow> DAOForkSupport c = DAOForkSupport d) \<and> (IsEIP158 c (Some h) \<longrightarrow> ChainId c = ChainId d)"

lemma not_incompatible: "\<not> isForkIncompatible s t (Some h) \<longleftrightarrow> (\<forall>n \<le> h. s = Some n \<longleftrightarrow> t = Some n)"
  by (auto simp: isForkIncompatible_def isForked_def split: option.splits)

lemma checkCompatible_None: "checkCompatible c d h = None \<longleftrightarrow> agree c d h"
  unfolding checkCompatible_iff agree_def not_incompatible [symmetric] by auto

lemma newCompatError_conflict:
  assumes "isForked s (Some (uint (b :: u64))) \<or> isForked n (Some (uint b))" "uint (ce_RewindTo (newCompatError what s n)) < k"
  shows "isForked s (Some k) \<or> isForked n (Some k)"
  using assms uint_big_Uint64_minus_one [of _ b]
  by (auto simp: newCompatError_def isForked_def split: option.splits if_splits)

lemma checkCompatible_conflict:
  assumes "checkCompatible c d (uint (b :: u64)) = Some e" "uint (ce_RewindTo e) < k"
  shows "\<not> agree c d k"
  using checkCompatible_conflict_forks [OF assms(1)] newCompatError_conflict assms(2)
  unfolding fork_conflict_def by (metis checkCompatible_None)

text \<open>What an answer \<open>e\<close> of the loop says: both configurations agree at the block to rewind to.\<close>

definition rewinds :: "ChainConfig \<Rightarrow> ChainConfig \<Rightarrow> ConfigCompatError \<Rightarrow> bool" where
  "rewinds c d e \<longleftrightarrow> (ce_RewindTo e = 0 \<or> agree c d (uint (ce_RewindTo e))) \<and> (\<forall>k > uint (ce_RewindTo e). \<not> agree c d k)"

lemma compat_loop_last:
  "(\<forall>k > uint (ce_RewindTo l). \<not> agree c d k) \<Longrightarrow>
   \<exists>e. compat_loop c d (Some l) (ce_RewindTo l) = Some e \<and> rewinds c d e \<and> ce_RewindTo e \<le> ce_RewindTo l"
proof (induction "unat (ce_RewindTo l)" arbitrary: l rule: less_induct)
  case less
  let ?b = "ce_RewindTo l"
  show ?case
  proof (cases "checkCompatible c d (uint ?b)")
    case None
    then show ?thesis using less.prems by (simp add: compat_loop.simps [of _ _ _ ?b] rewinds_def flip: checkCompatible_None)
  next
    case (Some err)
    note le = checkCompatible_rewind [OF Some] and cf = checkCompatible_conflict [OF Some]
    show ?thesis
    proof (cases "ce_RewindTo err = ?b")
      case True
      then have "?b = 0" using le by simp
      then show ?thesis using True Some less.prems by (simp add: compat_loop.simps [of _ _ _ 0] rewinds_def)
    next
      case False
      then have lt: "ce_RewindTo err < ?b" using le by (auto simp: word_gt_0)
      obtain e where "compat_loop c d (Some err) (ce_RewindTo err) = Some e" "rewinds c d e" "ce_RewindTo e \<le> ce_RewindTo err"
        using less.hyps [of err] lt cf by (auto simp: word_less_nat_alt)
      then show ?thesis using False Some lt by (simp add: compat_loop.simps [of _ _ _ ?b])
    qed
  qed
qed

lemma CheckCompatible_spec:
  "case CheckCompatible c d height of
     None \<Rightarrow> agree c d (uint height)
   | Some e \<Rightarrow> \<not> agree c d (uint height) \<and> rewinds c d e \<and> (ce_RewindTo e = 0 \<or> ce_RewindTo e < height)"
proof (cases "checkCompatible c d (uint height)")
  case None
  then show ?thesis by (simp add: CheckCompatible_def compat_loop.simps [of c d None height] flip: checkCompatible_None)
next
  case (Some err)
  obtain e where e: "compat_loop c d (Some err) (ce_RewindTo err) = Some e" "rewinds c d e" "ce_RewindTo e \<le> ce_RewindTo err"
    using compat_loop_last checkCompatible_conflict [OF Some] by blast
  moreover have "ce_RewindTo e = 0 \<or> ce_RewindTo e < height"
    using checkCompatible_rewind [OF Some] e(3) by auto
  moreover have "\<not> agree c d (uint height)" using Some by (simp flip: checkCompatible_None)
  ultimately show ?thesis using Some by (simp add: CheckCompatible_def compat_loop.simps [of c d None height])
qed

section \<open>Properties\<close>

text \<open>
  C32. \<open>CheckCompatible\<close> finds the block to rewind to. It returns nil exactly when both configurations
  agree on everything in force at the height; otherwise they disagree at every block above
  \<open>RewindTo\<close>, which is below the height, and agree at \<open>RewindTo\<close> unless that is the genesis block.
\<close>

theorem CheckCompatible_rewind:
  "case CheckCompatible c d height of
     None \<Rightarrow> agree c d (uint height)
   | Some e \<Rightarrow> \<not> agree c d (uint height) \<and> rewinds c d e \<and> (ce_RewindTo e = 0 \<or> ce_RewindTo e < height)"
  by (rule CheckCompatible_spec)

end
