(* ===== verification/Poc_Engine.thy ===== *)
theory Poc_Engine
  imports Poc_Epoch Chain_Config
begin

text \<open>
  The consensus engine, \<^verbatim>\<open>pkg/consensus/poc/poc.go\<close> and \<^verbatim>\<open>api.go\<close>: verification of headers and of
  their seals, the confirmed block, preparing and sealing a block, and the count of minted blocks.
  The chain is the interface \<open>ChainReader\<close>. The clock is an argument \<open>now\<close>. Parameters are Keccak-256,
  \<open>crypto.Ecrecover\<close>, the signing function of the wallet, the LRU cache of a third-party package and
  the database.
\<close>

section \<open>Constants, errors and state\<close>

definition extraVanity :: nat where "extraVanity = 32"
definition extraSeal :: nat where "extraSeal = 65"
definition frontierBlockReward :: int where "frontierBlockReward = 5000000000000000000"
definition byzantiumBlockReward :: int where "byzantiumBlockReward = 3000000000000000000"

datatype engine_error =
    UnknownBlock
  | ErrFutureBlock
  | MissingVanity
  | MissingSignature
  | InvalidMixDigest
  | InvalidDifficulty
  | InvalidUncleHash
  | ForkHashError misc_error
  | ErrUnknownAncestor
  | ErrInvalidTimestamp
  | UnclesNotAllowed
  | ErrWaitForPrevBlock
  | ErrMintFutureBlock
  | ErrMismatchSignerAndValidator
  | ErrInvalidBlockValidator
  | ErrNilBlockHeader
  | ContextError trie_error
  | EpochError epoch_error
  | ApiError poc_error
  | EcrecoverError
  | SignError
  | DatabaseError
  | EnginePanic

record ChainReader =
  cr_Config :: ChainConfig
  cr_CurrentHeader :: "Header option"
  cr_GetHeader :: "hash \<Rightarrow> u64 \<Rightarrow> Header option"
  cr_GetHeaderByNumber :: "u64 \<Rightarrow> Header option"
  cr_GetHeaderByHash :: "hash \<Rightarrow> Header option"

text \<open>The parameters; \<open>'c\<close> is the cache, \<open>'d\<close> the database. A failed write leaves the database as it was.\<close>

record ('t, 'w, 'd, 'c) engine_env =
  en_poc :: "('t, 'w, 'd) poc_env"
  en_Get :: "'d \<Rightarrow> bytes \<Rightarrow> bytes option"
  en_Put :: "'d \<Rightarrow> bytes \<Rightarrow> bytes \<Rightarrow> 'd option"
  en_Ecrecover :: "hash \<Rightarrow> bytes \<Rightarrow> bytes option"
  en_cache_Get :: "'c \<Rightarrow> hash \<Rightarrow> address option \<times> 'c"
  en_cache_Add :: "'c \<Rightarrow> hash \<Rightarrow> address \<Rightarrow> 'c"

record ('d, 'c) Poc =
  poc_db :: 'd
  poc_signer :: address
  poc_signFn :: "address \<Rightarrow> hash \<Rightarrow> bytes option"
  poc_signatures :: 'c
  poc_confirmedBlockHeader :: "Header option"

abbreviation en_keccak :: "('t, 'w, 'd, 'c) engine_env \<Rightarrow> bytes \<Rightarrow> hash" where
  "en_keccak N \<equiv> pe_keccak (en_poc N)"

definition confirmedBlockHead :: bytes where
  "confirmedBlockHead = go_string ''confirmed-block-head''"

definition Authorize :: "address \<Rightarrow> (address \<Rightarrow> hash \<Rightarrow> bytes option) \<Rightarrow> ('d, 'c) Poc \<Rightarrow> ('d, 'c) Poc" where
  "Authorize signer signFn d = d\<lparr>poc_signer := signer, poc_signFn := signFn\<rparr>"

section \<open>Signatures\<close>

text \<open>
  The hash that is signed: the header without the last 65 bytes of the extra data. A short extra
  data or a nil context panics, \<open>None\<close>.
\<close>

definition sigHash :: "(bytes \<Rightarrow> hash) \<Rightarrow> Header \<Rightarrow> hash option" where
  "sigHash keccak h =
     (if length (h_Extra h) < 65 then None
      else (case h_PocContext h of
          None \<Rightarrow> None
        | Some p \<Rightarrow> Some (rlpHash keccak (RList
            [RBytes (h_ParentHash h), RBytes (h_UncleHash h), RBytes (h_Validator h), RBytes (h_Coinbase h), RBytes (h_Root h),
             RBytes (h_RecordRoot h), RBytes (h_TxHash h), RBytes (h_ReceiptHash h), RBytes (h_Bloom h),
             RBig (h_Difficulty h), number_val (h_Number h), RBig (h_GasLimit h), RBig (h_GasUsed h), RBig (h_Time h),
             RBytes (take (length (h_Extra h) - 65) (h_Extra h)), RBytes (h_MixDigest h), RBytes (h_Nonce h),
             RBytes (Proto_Root keccak p)]))))"

text \<open>The address of the signer, without the cache.\<close>

definition recover_signer :: "('t, 'w, 'd, 'c) engine_env \<Rightarrow> Header \<Rightarrow> engine_error + address" where
  "recover_signer N header =
     (if length (h_Extra header) < extraSeal then Inl MissingSignature
      else
        (let signature = drop (length (h_Extra header) - extraSeal) (h_Extra header)
         in case sigHash (en_keccak N) header of
              None \<Rightarrow> Inl EnginePanic
            | Some h \<Rightarrow>
                (case en_Ecrecover N h signature of
                   None \<Rightarrow> Inl EcrecoverError
                 | Some [] \<Rightarrow> Inl EnginePanic
                 | Some (_ # pubkey) \<Rightarrow> Inr (take 20 (drop 12 (en_keccak N pubkey))))))"

definition ecrecover :: "('t, 'w, 'd, 'c) engine_env \<Rightarrow> Header \<Rightarrow> 'c \<Rightarrow> (engine_error + address) \<times> 'c" where
  "ecrecover N header sigcache =
     (let hash = Header_Hash (en_keccak N) header;
          (known, sigcache1) = en_cache_Get N sigcache hash
      in case known of
           Some address \<Rightarrow> (Inr address, sigcache1)
         | None \<Rightarrow>
             (case recover_signer N header of
                Inl e \<Rightarrow> (Inl e, sigcache1)
              | Inr signer \<Rightarrow> (Inr signer, en_cache_Add N sigcache1 hash signer)))"

definition verifyBlockSigner :: "('t, 'w, 'd, 'c) engine_env \<Rightarrow> address \<Rightarrow> Header \<Rightarrow> ('d, 'c) Poc \<Rightarrow> engine_error option \<times> ('d, 'c) Poc" where
  "verifyBlockSigner N validator header d =
     (let (r, sigs) = ecrecover N header (poc_signatures d); d1 = d\<lparr>poc_signatures := sigs\<rparr>
      in case r of
           Inl e \<Rightarrow> (Some e, d1)
         | Inr signer \<Rightarrow>
             if signer \<noteq> validator then (Some ErrInvalidBlockValidator, d1)
             else if signer \<noteq> h_Validator header then (Some ErrMismatchSignerAndValidator, d1)
             else (None, d1))"

section \<open>Headers\<close>

definition uncleHash :: "(bytes \<Rightarrow> hash) \<Rightarrow> hash" where
  "uncleHash keccak = CalcUncleHash keccak []"

definition parent_of :: "ChainReader \<Rightarrow> Header \<Rightarrow> u64 \<Rightarrow> Header list \<Rightarrow> Header option" where
  "parent_of chain header number parents =
     (if length parents > 0 then Some (last parents) else cr_GetHeader chain (h_ParentHash header) (number - 1))"

text \<open>The ancestor checks at the end of \<open>verifyHeader\<close>; a parent without a number panics.\<close>

definition verify_ancestor :: "(bytes \<Rightarrow> hash) \<Rightarrow> Header \<Rightarrow> u64 \<Rightarrow> Header option \<Rightarrow> engine_error option" where
  "verify_ancestor keccak header number parent =
     (case parent of
        None \<Rightarrow> Some ErrUnknownAncestor
      | Some p \<Rightarrow>
          (case h_Number p of
             None \<Rightarrow> Some EnginePanic
           | Some pn \<Rightarrow>
               if big_Uint64 pn \<noteq> number - 1 \<or> Header_Hash keccak p \<noteq> h_ParentHash header then Some ErrUnknownAncestor
               else if big_Uint64 (h_Time p) + word_of_int blockInterval > big_Uint64 (h_Time header) then Some ErrInvalidTimestamp
               else None))"

definition verifyHeader :: "(bytes \<Rightarrow> hash) \<Rightarrow> int \<Rightarrow> ChainReader \<Rightarrow> Header \<Rightarrow> Header list \<Rightarrow> engine_error option" where
  "verifyHeader keccak now chain header parents =
     (case h_Number header of
        None \<Rightarrow> Some UnknownBlock
      | Some num \<Rightarrow>
          (let number = big_Uint64 num in
           if h_Time header > now then Some ErrFutureBlock
           else if length (h_Extra header) < extraVanity then Some MissingVanity
           else if length (h_Extra header) < extraVanity + extraSeal then Some MissingSignature
           else if h_MixDigest header \<noteq> replicate 32 0 then Some InvalidMixDigest
           else if big_Uint64 (h_Difficulty header) \<noteq> 1 then Some InvalidDifficulty
           else if h_UncleHash header \<noteq> uncleHash keccak then Some InvalidUncleHash
           else (case VerifyForkHashes keccak (cr_Config chain) header False of
               Some e \<Rightarrow> Some (ForkHashError e)
             | None \<Rightarrow> verify_ancestor keccak header number (parent_of chain header number parents))))"

definition VerifyHeader :: "(bytes \<Rightarrow> hash) \<Rightarrow> int \<Rightarrow> ChainReader \<Rightarrow> Header \<Rightarrow> bool \<Rightarrow> engine_error option" where
  "VerifyHeader keccak now chain header seal = verifyHeader keccak now chain header []"

text \<open>
  The results that the goroutine of \<open>VerifyHeaders\<close> sends, in order. The clock is read for every header,
  \<open>now i\<close> being the time at the \<open>i\<close>-th; \<open>aborted i\<close> tells whether the goroutine takes the abort signal
  instead of sending the \<open>i\<close>-th result.
\<close>

definition VerifyHeaders :: "(bytes \<Rightarrow> hash) \<Rightarrow> (nat \<Rightarrow> int) \<Rightarrow> (nat \<Rightarrow> bool) \<Rightarrow> ChainReader \<Rightarrow> Header list \<Rightarrow> engine_error option list" where
  "VerifyHeaders keccak now aborted chain headers =
     map (\<lambda>i. verifyHeader keccak (now i) chain (headers ! i) (take i headers)) (takeWhile (\<lambda>i. \<not> aborted i) [0..<length headers])"

definition VerifyUncles :: "Header list \<Rightarrow> engine_error option" where
  "VerifyUncles uncles = (if length uncles > 0 then Some UnclesNotAllowed else None)"

section \<open>The confirmed block\<close>

definition loadConfirmedBlockHeader :: "('t, 'w, 'd, 'c) engine_env \<Rightarrow> ChainReader \<Rightarrow> ('d, 'c) Poc \<Rightarrow> engine_error + Header" where
  "loadConfirmedBlockHeader N chain s =
     (case en_Get N (poc_db s) confirmedBlockHead of
        None \<Rightarrow> Inl DatabaseError
      | Some key \<Rightarrow> (case cr_GetHeaderByHash chain (BytesToHash key) of None \<Rightarrow> Inl ErrNilBlockHeader | Some h \<Rightarrow> Inr h))"

definition storeConfirmedBlockHeader :: "('t, 'w, 'd, 'c) engine_env \<Rightarrow> Header \<Rightarrow> ('d, 'c) Poc \<Rightarrow> engine_error option \<times> ('d, 'c) Poc" where
  "storeConfirmedBlockHeader N header s =
     (case en_Put N (poc_db s) confirmedBlockHead (Header_Hash (en_keccak N) header) of
        None \<Rightarrow> (Some DatabaseError, s)
      | Some db \<Rightarrow> (None, s\<lparr>poc_db := db\<rparr>))"

text \<open>
  The walk back from the current header. \<open>seen\<close> holds the keys of \<open>validatorMap\<close>; the result is the
  header to confirm, nothing, or an error; a header without a number panics. The walk follows hashes, so it need not end on an
  arbitrary \<open>ChainReader\<close>.
\<close>

partial_function (option) confirm_walk ::
    "(bytes \<Rightarrow> hash) \<Rightarrow> ChainReader \<Rightarrow> Header \<Rightarrow> Header \<Rightarrow> int \<Rightarrow> address list \<Rightarrow> (engine_error + Header option) option" where
  "confirm_walk keccak chain confirmed curHeader epoch seen =
     (case (h_Number confirmed, h_Number curHeader) of
        (Some cn, Some n) \<Rightarrow>
          if Header_Hash keccak confirmed \<noteq> Header_Hash keccak curHeader \<and> big_Uint64 cn < big_Uint64 n then
            (let curEpoch = go_quot (big_Int64 (h_Time curHeader)) epochInterval;
                 seen1 = (if curEpoch \<noteq> epoch then [] else seen)
             in if i64 (big_Int64 n - big_Int64 cn) < int consensusSize - int (length seen1) then Some (Inr None)
                else
                  (let seen2 = List.insert (h_Validator curHeader) seen1
                   in if length seen2 \<ge> consensusSize then Some (Inr (Some curHeader))
                      else (case cr_GetHeaderByHash chain (h_ParentHash curHeader) of
                          None \<Rightarrow> Some (Inl ErrNilBlockHeader)
                        | Some p \<Rightarrow> confirm_walk keccak chain confirmed p curEpoch seen2)))
          else Some (Inr None)
      | _ \<Rightarrow> if Header_Hash keccak confirmed \<noteq> Header_Hash keccak curHeader then Some (Inl EnginePanic) else Some (Inr None))"

definition confirmed_start :: "('t, 'w, 'd, 'c) engine_env \<Rightarrow> ChainReader \<Rightarrow> ('d, 'c) Poc \<Rightarrow> engine_error + Header" where
  "confirmed_start N chain d =
     (case poc_confirmedBlockHeader d of
        Some h \<Rightarrow> Inr h
      | None \<Rightarrow>
          (case loadConfirmedBlockHeader N chain d of
             Inr h \<Rightarrow> Inr h
           | Inl e \<Rightarrow> (case cr_GetHeaderByNumber chain 0 of None \<Rightarrow> Inl e | Some h \<Rightarrow> Inr h)))"

definition updateConfirmedBlockHeader :: "('t, 'w, 'd, 'c) engine_env \<Rightarrow> ChainReader \<Rightarrow> ('d, 'c) Poc \<Rightarrow>
    (engine_error option \<times> ('d, 'c) Poc) option" where
  "updateConfirmedBlockHeader N chain d =
     (case confirmed_start N chain d of
        Inl e \<Rightarrow> Some (Some e, d)
      | Inr confirmed \<Rightarrow>
          (let d1 = d\<lparr>poc_confirmedBlockHeader := Some confirmed\<rparr>
           in case cr_CurrentHeader chain of
                None \<Rightarrow> Some (Some EnginePanic, d1)
              | Some cur \<Rightarrow>
                  map_option
                    (\<lambda>r. case r of
                           Inl e \<Rightarrow> (Some e, d1)
                         | Inr None \<Rightarrow> (None, d1)
                         | Inr (Some h) \<Rightarrow> storeConfirmedBlockHeader N h (d1\<lparr>poc_confirmedBlockHeader := Some h\<rparr>))
                    (confirm_walk (en_keccak N) chain confirmed cur (-1) [])))"

section \<open>Seals\<close>

text \<open>The part of \<open>verifySeal\<close> before the confirmed block is updated.\<close>

definition check_seal :: "('t, 'w, 'd, 'c) engine_env \<Rightarrow> ChainReader \<Rightarrow> Header \<Rightarrow> Header list \<Rightarrow> ('d, 'c) Poc \<Rightarrow>
    engine_error option \<times> ('d, 'c) Poc" where
  "check_seal N chain header parents d =
     (case h_Number header of
        None \<Rightarrow> (Some EnginePanic, d)
      | Some num \<Rightarrow>
          (let number = big_Uint64 num in
           if number = 0 then (Some UnknownBlock, d)
           else (case parent_of chain header number parents of
               None \<Rightarrow> (Some EnginePanic, d)
             | Some parent \<Rightarrow>
                 (case h_PocContext parent of
                    None \<Rightarrow> (Some EnginePanic, d)
                  | Some proto \<Rightarrow>
                      (case NewPocContextFromProto (en_poc N) (Some (poc_db d)) proto of
                         Inl e \<Rightarrow> (Some (ContextError e), d)
                       | Inr pocContext \<Rightarrow>
                           (case fst (lookupValidator (en_poc N) (big_Int64 (h_Time header)) pocContext) of
                              Inl e \<Rightarrow> (Some (EpochError e), d)
                            | Inr validator \<Rightarrow> verifyBlockSigner N validator header d))))))"

definition verifySeal :: "('t, 'w, 'd, 'c) engine_env \<Rightarrow> ChainReader \<Rightarrow> Header \<Rightarrow> Header list \<Rightarrow> ('d, 'c) Poc \<Rightarrow>
    (engine_error option \<times> ('d, 'c) Poc) option" where
  "verifySeal N chain header parents d =
     (case check_seal N chain header parents d of
        (Some e, d1) \<Rightarrow> Some (Some e, d1)
      | (None, d1) \<Rightarrow> updateConfirmedBlockHeader N chain d1)"

definition VerifySeal :: "('t, 'w, 'd, 'c) engine_env \<Rightarrow> ChainReader \<Rightarrow> Header \<Rightarrow> ('d, 'c) Poc \<Rightarrow> (engine_error option \<times> ('d, 'c) Poc) option" where
  "VerifySeal N chain header d = verifySeal N chain header [] d"

section \<open>Making blocks\<close>

definition CalcDifficulty :: int where "CalcDifficulty = 1"

definition poc_Prepare :: "ChainReader \<Rightarrow> Header \<Rightarrow> ('d, 'c) Poc \<Rightarrow> engine_error option \<times> Header" where
  "poc_Prepare chain header d =
     (let header1 = header\<lparr>h_Nonce := replicate 8 0\<rparr> in
      case h_Number header1 of
        None \<Rightarrow> (Some EnginePanic, header1)
      | Some num \<Rightarrow>
          (let number = big_Uint64 num;
               extra = (if length (h_Extra header1) < extraVanity
                        then h_Extra header1 @ replicate (extraVanity - length (h_Extra header1)) 0 else h_Extra header1);
               header2 = header1\<lparr>h_Extra := take extraVanity extra @ replicate extraSeal 0\<rparr>
           in case cr_GetHeader chain (h_ParentHash header2) (number - 1) of
                None \<Rightarrow> (Some ErrUnknownAncestor, header2)
              | Some parent \<Rightarrow> (None, header2\<lparr>h_Difficulty := CalcDifficulty, h_Validator := poc_signer d\<rparr>)))"

definition AccumulateRewards :: "'s database \<Rightarrow> ChainConfig \<Rightarrow> Header \<Rightarrow> 's StateDB \<Rightarrow> 's StateDB" where
  "AccumulateRewards D config header state =
     (let blockReward = (if IsByzantium config (h_Number header) then byzantiumBlockReward else frontierBlockReward)
      in AddBalance D (h_Coinbase header) blockReward state)"

definition PrevSlot :: "int \<Rightarrow> int" where
  "PrevSlot now = i64 (go_quot (i64 (now - 1)) blockInterval * blockInterval)"

definition NextSlot :: "int \<Rightarrow> int" where
  "NextSlot now = i64 (go_quot (i64 (i64 (now + blockInterval) - 1)) blockInterval * blockInterval)"

text \<open>A block is given by its header, which \<open>Header()\<close> copies.\<close>

definition checkDeadline :: "Header \<Rightarrow> int \<Rightarrow> engine_error option" where
  "checkDeadline lastBlock now =
     (let prevSlot = PrevSlot now; nextSlot = NextSlot now; t = big_Int64 (h_Time lastBlock)
      in if t \<ge> nextSlot then Some ErrMintFutureBlock
         else if t = prevSlot \<or> i64 (nextSlot - now) \<le> 1 then None
         else Some ErrWaitForPrevBlock)"

definition CheckValidator :: "('t, 'w, 'd, 'c) engine_env \<Rightarrow> Header \<Rightarrow> int \<Rightarrow> ('d, 'c) Poc \<Rightarrow> engine_error option" where
  "CheckValidator N lastBlock now d =
     (case checkDeadline lastBlock now of
        Some e \<Rightarrow> Some e
      | None \<Rightarrow>
          (case NewPocContextFromProto (en_poc N) (Some (poc_db d)) (the (h_PocContext (CopyHeader lastBlock))) of
             Inl e \<Rightarrow> Some (ContextError e)
           | Inr pocContext \<Rightarrow>
               (case fst (lookupValidator (en_poc N) now pocContext) of
                  Inl e \<Rightarrow> Some (EpochError e)
                | Inr validator \<Rightarrow>
                    if validator = replicate 20 0 \<or> validator \<noteq> poc_signer d then Some ErrInvalidBlockValidator else None)))"

text \<open>
  \<open>Seal\<close> waits for the next slot unless it is stopped, and signs. The statement that sets the time
  works on a copy of the header and has no effect.
\<close>

definition Seal :: "('t, 'w, 'd, 'c) engine_env \<Rightarrow> Header \<Rightarrow> int \<Rightarrow> bool \<Rightarrow> ('d, 'c) Poc \<Rightarrow> engine_error + Header option" where
  "Seal N block now stopped d =
     (let header = CopyHeader block; number = big_Uint64 (the (h_Number header)) in
      if number = 0 then Inl UnknownBlock
      else if i64 (NextSlot now - now) > 0 \<and> stopped then Inr None
      else (case sigHash (en_keccak N) header of
          None \<Rightarrow> Inl EnginePanic
        | Some h \<Rightarrow>
            (case poc_signFn d (poc_signer d) h of
               None \<Rightarrow> Inl SignError
             | Some sighash \<Rightarrow>
                 Inr (Some (header\<lparr>h_Extra := snd (copy_at (h_Extra header) (length (h_Extra header) - extraSeal) sighash)\<rparr>)))))"

section \<open>Minted blocks and contributions\<close>

definition updateMintCnt :: "('t, 'w, 'd) poc_env \<Rightarrow> int \<Rightarrow> int \<Rightarrow> address \<Rightarrow> ('t, 'd) PocContext \<Rightarrow> engine_error option \<times> ('t, 'd) PocContext" where
  "updateMintCnt E parentBlockTime currentBlockTime validator pc =
     (let currentEpoch = go_quot parentBlockTime epochInterval;
          newEpoch = go_quot currentBlockTime epochInterval;
          (cnt, pc1) =
            (if currentEpoch = newEpoch then
               (let (vs, t) = api_NodeIterator (pe_trie E) (mintCntTrie pc) (PutUint64 (word_of_int currentEpoch)); pc1 = pc\<lparr>mintCntTrie := t\<rparr>
                in if vs \<noteq> [] then
                     (let (b, t2) = api_Get (pe_trie E) (mintCntTrie pc1) (mint_key currentEpoch validator); pc2 = pc1\<lparr>mintCntTrie := t2\<rparr>
                      in case b of
                           None \<Rightarrow> (Some 1, pc2)
                         | Some c \<Rightarrow> (map_option (\<lambda>w. w + 1) (BigEndian_Uint64 c), pc2))
                   else (Some 1, pc1))
             else (Some 1, pc))
      in case cnt of
           None \<Rightarrow> (Some EnginePanic, pc1)
         | Some c \<Rightarrow> (None, pc1\<lparr>mintCntTrie := snd (api_TryUpdate (pe_trie E) (mintCntTrie pc1) (mint_key newEpoch validator) (PutUint64 c))\<rparr>))"

text \<open>
  The contribution that an account regains over time. The receiver of the subtraction and of the
  division is the package variable \<open>big0\<close>, whose new value is returned.
\<close>

definition AccumulateContribution :: "('t, 'w, 'd) poc_env \<Rightarrow> int \<Rightarrow> address \<Rightarrow> ('t, 'd) PocContext \<Rightarrow> int \<Rightarrow>
    (poc_error + int) \<times> ('t, 'd) PocContext \<times> int" where
  "AccumulateContribution E now address pc big0 =
     (let (r, pc1) = GetLastedTx E address pc
      in case r of
           Inl e \<Rightarrow> (Inl e, pc1, big0)
         | Inr tx \<Rightarrow> (let t = now - al_RecordTime tx; q = t div 3600 in (Inr (2 * q), pc1, q)))"

section \<open>The RPC interface\<close>

definition api_header :: "ChainReader \<Rightarrow> int option \<Rightarrow> Header option" where
  "api_header chain number =
     (case number of
        None \<Rightarrow> cr_CurrentHeader chain
      | Some n \<Rightarrow> if n = - 1 then cr_CurrentHeader chain else cr_GetHeaderByNumber chain (word_of_int n))"

definition api_proto :: "ChainReader \<Rightarrow> int option \<Rightarrow> engine_error + PocContextProto" where
  "api_proto chain number =
     (case api_header chain number of
        None \<Rightarrow> Inl UnknownBlock
      | Some header \<Rightarrow> (case h_PocContext header of None \<Rightarrow> Inl EnginePanic | Some p \<Rightarrow> Inr p))"

text \<open>A context that holds one trie only; the accessors below use no other.\<close>

definition context_of :: "'t \<Rightarrow> ('t, 'd) PocContext" where
  "context_of t = \<lparr>epochTrie = t, contributionTrie = t, latestTxTrie = t, candidateTrie = t, mintCntTrie = t, pc_db = None\<rparr>"

definition api_GetValidators :: "('t, 'w, 'd, 'c) engine_env \<Rightarrow> ChainReader \<Rightarrow> int option \<Rightarrow> ('d, 'c) Poc \<Rightarrow> engine_error + address list" where
  "api_GetValidators N chain number d =
     go_bind (api_proto chain number) (\<lambda>p.
       case NewEpochTrie (en_poc N) (EpochHash p) (Some (poc_db d)) of
         Inl e \<Rightarrow> Inl (ContextError e)
       | Inr t \<Rightarrow> (case fst (GetValidators (en_poc N) (context_of t)) of Inl e \<Rightarrow> Inl (ApiError e) | Inr vs \<Rightarrow> Inr vs))"

definition api_GetConfirmedBlockNumber :: "('t, 'w, 'd, 'c) engine_env \<Rightarrow> ChainReader \<Rightarrow> ('d, 'c) Poc \<Rightarrow> engine_error + int option" where
  "api_GetConfirmedBlockNumber N chain d =
     (case poc_confirmedBlockHeader d of
        Some h \<Rightarrow> Inr (h_Number h)
      | None \<Rightarrow> go_bind (loadConfirmedBlockHeader N chain d) (\<lambda>h. Inr (h_Number h)))"

text \<open>The trie of contributions is opened with the prefix of the candidates.\<close>

definition api_GetContributions :: "('t, 'w, 'd, 'c) engine_env \<Rightarrow> ChainReader \<Rightarrow> int option \<Rightarrow> ('d, 'c) Poc \<Rightarrow>
    engine_error + AccountContribution list" where
  "api_GetContributions N chain number d =
     go_bind (api_proto chain number) (\<lambda>p.
       case NewCandidateTrie (en_poc N) (ContributionHash p) (Some (poc_db d)) of
         Inl e \<Rightarrow> Inl (ContextError e)
       | Inr t \<Rightarrow> (case fst (GetContributions (en_poc N) (context_of t)) of Inl e \<Rightarrow> Inl (ApiError e) | Inr cs \<Rightarrow> Inr cs))"

definition api_GetCandidates :: "('t, 'w, 'd, 'c) engine_env \<Rightarrow> ChainReader \<Rightarrow> int option \<Rightarrow> ('d, 'c) Poc \<Rightarrow> engine_error + address list" where
  "api_GetCandidates N chain number d =
     go_bind (api_proto chain number) (\<lambda>p.
       case NewCandidateTrie (en_poc N) (CandidateHash p) (Some (poc_db d)) of
         Inl e \<Rightarrow> Inl (ContextError e)
       | Inr t \<Rightarrow> Inr (fst (GetCandidates (en_poc N) (context_of t))))"

text \<open>
  \<open>GetLastedTx\<close> puts the trie of the latest transactions into the slot of the candidates of a new context,
  and then reads the slot of the latest transactions, a nil pointer.
\<close>

record 't nil_context =
  nil_latestTx :: "'t option"
  nil_candidate :: "'t option"

definition api_GetLastedTx :: "('t, 'w, 'd, 'c) engine_env \<Rightarrow> ChainReader \<Rightarrow> address \<Rightarrow> ('d, 'c) Poc \<Rightarrow> engine_error + AccountLastedTx" where
  "api_GetLastedTx N chain account d =
     go_bind (api_proto chain None) (\<lambda>p.
       case NewLatestTxTrie (en_poc N) (LatestTxHash p) (Some (poc_db d)) of
         Inl e \<Rightarrow> Inl (ContextError e)
       | Inr t \<Rightarrow>
           (let pc = \<lparr>nil_latestTx = None, nil_candidate = Some t\<rparr>
            in case nil_latestTx pc of
                 None \<Rightarrow> Inl EnginePanic
               | Some l \<Rightarrow> (case fst (GetLastedTx (en_poc N) account (context_of l)) of Inl e \<Rightarrow> Inl (ApiError e) | Inr tx \<Rightarrow> Inr tx)))"

lemma api_GetLastedTx_fails: "\<exists>e. api_GetLastedTx N chain account d = Inl e"
  by (auto simp: api_GetLastedTx_def go_bind_def split: sum.split)

end
