(* ===== verification/Poc_Trie.thy ===== *)
theory Poc_Trie
  imports Poc_Context Secure_Trie Mem_Database
begin

text \<open>
  The environment of the consensus code with the tries of \<^verbatim>\<open>pkg/trie\<close>: the methods of \<open>trie.Trie\<close> with
  the hasher and the iterators, over a database that is in memory. Shown: it keeps the laws of
  \<open>poc_service\<close>, on the tries that hold a map and have one of the five prefixes of the context.
\<close>

section \<open>The tries as environment\<close>

text \<open>
  The values of the leaves that \<open>trie.NewIterator\<close> visits, and the trie after it. Where the code panics
  or does not end the list is empty; the laws below show that it returns.
\<close>

definition iterator_values :: "(bytes \<Rightarrow> bytes) \<Rightarrow> trie \<Rightarrow> (iter_panic, NodeIterator) outcome \<Rightarrow> bytes list \<times> trie" where
  "iterator_values keccak t r =
     (case out_bind r (\<lambda>ni. iterate keccak (NewIterator ni)) of
        Some (Inr (kvs, it)) \<Rightarrow> (map snd kvs, NI_trie (it_nodeIt it))
      | _ \<Rightarrow> ([], t))"

definition trie_hash :: "(bytes \<Rightarrow> bytes) \<Rightarrow> trie \<Rightarrow> hash \<times> trie" where
  "trie_hash keccak t = (case trie_Hash keccak t of Inr (h, t') \<Rightarrow> (h, t') | Inl _ \<Rightarrow> (zeroHash, t))"

definition trie_poc_trie :: "(bytes \<Rightarrow> bytes) \<Rightarrow> ('w \<Rightarrow> bytes \<Rightarrow> bytes \<Rightarrow> bool \<times> 'w) \<Rightarrow> (trie, 'w) poc_trie" where
  "trie_poc_trie keccak put =
     trie_api.extend (trie_api_of (trie_hash keccak))
       \<lparr>api_NodeIterator = (\<lambda>t start. iterator_values keccak t (out_bind (trie_NodeIterator keccak t start) (\<lambda>it. Some (Inr (NodeIt it))))),
        api_PrefixIterator = (\<lambda>t p. iterator_values keccak t (out_bind (trie_PrefixIterator keccak t p) (\<lambda>it. Some (Inr (PrefixIt it))))),
        api_CommitTo = trie_CommitTo keccak put\<rparr>"

text \<open>A nil database does for a root that needs no node; opening any other root panics.\<close>

definition open_with_prefix :: "hash \<Rightarrow> bytes \<Rightarrow> MemDatabase option \<Rightarrow> trie_error + trie" where
  "open_with_prefix root prefix db =
     (case db of
        Some d \<Rightarrow> NewTrieWithPrefix root prefix (md_db d)
      | None \<Rightarrow> if root = replicate 32 0 \<or> root = emptyRoot then NewTrieWithPrefix root prefix Map.empty else Inl TriePanic)"

definition trie_poc_env :: "(bytes \<Rightarrow> bytes) \<Rightarrow> ('w \<Rightarrow> bytes \<Rightarrow> bytes \<Rightarrow> bool \<times> 'w) \<Rightarrow> (trie, 'w, MemDatabase) poc_env" where
  "trie_poc_env keccak put =
     \<lparr>pe_trie = trie_poc_trie keccak put, pe_NewTrieWithPrefix = open_with_prefix, pe_keccak = (\<lambda>b. BytesToHash (keccak b))\<rparr>"

section \<open>The tries of a context\<close>

definition poc_holds :: "(bytes \<Rightarrow> bytes) \<Rightarrow> trie \<Rightarrow> (bytes \<rightharpoonup> bytes) \<Rightarrow> bool" where
  "poc_holds K t m \<longleftrightarrow> trie_hashed K t m \<and> t_prefix t \<in> Some ` set poc_prefixes"

text \<open>
  A map that the iterators work for: no trie of it, with one of the five prefixes, has the hash of
  the empty string.
\<close>

definition trie_iterable :: "(bytes \<Rightarrow> bytes) \<Rightarrow> (bytes \<rightharpoonup> bytes) \<Rightarrow> bool" where
  "trie_iterable K m \<longleftrightarrow> (\<forall>t root t1. poc_holds K t m \<longrightarrow> trie_Hash K t = Inr (root, t1) \<longrightarrow> root \<noteq> BytesToHash (K []))"

lemma poc_holds_kv: "kv_store (poc_holds K) TryGet TryUpdate TryDelete (\<lambda>v. v = []) (\<lambda>_. True)"
proof
  fix t m k v
  assume "poc_holds K t m"
  then have m: "trie_mapF (hflag K) t m" and p: "t_prefix t \<in> Some ` set poc_prefixes" by (simp_all add: poc_holds_def trie_hashed_def)
  have kv: "kv_store (\<lambda>t' m. trie_mapF (hflag K) t' m \<and> t_prefix t' = t_prefix t) TryGet TryUpdate TryDelete (\<lambda>v. v = []) (\<lambda>_. True)"
    by (rule trie_mapF_prefix_kv) (rule hflag_fresh)
  have holds: "trie_mapF (hflag K) t' m' \<and> t_prefix t' = t_prefix t \<Longrightarrow> poc_holds K t' m'" for t' m'
    using p by (simp add: poc_holds_def trie_hashed_def)
  show "\<exists>t'. TryGet t k = Some (Inr (m k, t')) \<and> poc_holds K t' m"
    using kv_store.get_law [OF kv, of t m k] m holds by blast
  show "\<exists>t'. TryUpdate t k v = Some (Inr t') \<and> poc_holds K t' (if v = [] then m(k := None) else m(k \<mapsto> v))"
    using kv_store.update_law [OF kv, of t m k v] m holds by blast
  show "\<exists>t'. TryDelete t k = Some (Inr t') \<and> poc_holds K t' (m(k := None))"
    using kv_store.delete_law [OF kv, of t m k] m holds by blast
qed

interpretation poc_kv: kv_store "poc_holds K" TryGet TryUpdate TryDelete "\<lambda>v. v = []" "\<lambda>_. True"
  by (rule poc_holds_kv)

lemma poc_holds_hash: "poc_holds K t m \<Longrightarrow> \<exists>h t'. trie_Hash K t = Inr (h, t') \<and> poc_holds K t' m"
  using trie_Hash_tree [of K t] unfolding poc_holds_def trie_hashed_iff by (fastforce simp: full_key_def)

interpretation poc_srv: trie_service "trie_api_of (trie_hash K)" "poc_holds K" "\<lambda>_. True"
proof
  fix t m k v
  show "fst (api_TryGet (trie_api_of (trie_hash K)) (snd (api_TryGet (trie_api_of (trie_hash K)) t' k)) k') = fst (api_TryGet (trie_api_of (trie_hash K)) t' k')" for t' k'
    by (rule trie_read_law)
  assume m: "poc_holds K t m"
  show "fst (api_TryGet (trie_api_of (trie_hash K)) t k) = Inr (m k) \<and> poc_holds K (snd (api_TryGet (trie_api_of (trie_hash K)) t k)) m"
    using poc_kv.get_law [OF m, of k] by (auto simp: trie_api_of_def)
  show "fst (api_TryUpdate (trie_api_of (trie_hash K)) t k v) = None
      \<and> poc_holds K (snd (api_TryUpdate (trie_api_of (trie_hash K)) t k v)) (if v = [] then m(k := None) else m(k \<mapsto> v))"
    using poc_kv.update_law [OF m, of k v] by (auto simp: trie_api_of_def)
  show "fst (api_TryDelete (trie_api_of (trie_hash K)) t k) = None \<and> poc_holds K (snd (api_TryDelete (trie_api_of (trie_hash K)) t k)) (m(k := None))"
    using poc_kv.delete_law [OF m, of k] by (auto simp: trie_api_of_def)
  show "poc_holds K (snd (api_Hash (trie_api_of (trie_hash K)) t)) m"
    using poc_holds_hash [OF m] by (auto simp: trie_api_of_def trie_hash_def)
qed

section \<open>The iterators keep the laws\<close>

lemma hex_less_full: "hex_less (full_key t a) (full_key t b) \<longleftrightarrow> hex_less a b"
  by (cases "t_prefix t") (simp_all add: full_key_def hex_less_def keybytesToHex_join bytes_less_append)

lemma iterator_values_yields:
  assumes "poc_holds K t m" "r = Some (Inr ni)" "yields K t m P (iterate K (NewIterator ni))"
  shows "(\<exists>ks. sorted_wrt hex_less ks \<and> set ks = {k \<in> dom m. P k} \<and> fst (iterator_values K t r) = map (the \<circ> m) ks)
    \<and> poc_holds K (snd (iterator_values K t r)) m"
proof -
  obtain kvs it c where y: "iterate K (NewIterator ni) = Some (Inr (kvs, it))" "NI_trie (it_nodeIt it) = t\<lparr>t_root := c\<rparr>"
      "trie_hashed K (t\<lparr>t_root := c\<rparr>) m" "sorted_wrt (\<lambda>a b. hex_less (fst a) (fst b)) kvs"
      "set kvs = {(full_key t key, v) |key v. m key = Some v \<and> P key}"
    using assms(3) by (auto simp: yields_def)
  have "\<forall>kv \<in> set kvs. \<exists>k. fst kv = full_key t k \<and> m k = Some (snd kv)" using y(5) by auto
  then obtain f where f: "\<And>kv. kv \<in> set kvs \<Longrightarrow> fst kv = full_key t (f kv) \<and> m (f kv) = Some (snd kv)" by metis
  let ?ks = "map f kvs"
  have less: "hex_less (f a) (f b)" if "a \<in> set kvs" "b \<in> set kvs" "hex_less (fst a) (fst b)" for a b
    using that f hex_less_full by metis
  have "sorted_wrt hex_less ?ks" unfolding sorted_wrt_map by (rule sorted_wrt_mono_rel [OF less y(4)])
  moreover have "set ?ks = {k \<in> dom m. P k}"
  proof (intro set_eqI iffI)
    fix k assume "k \<in> set ?ks"
    then obtain kv where kv: "kv \<in> set kvs" "k = f kv" by auto
    then obtain key v where "kv = (full_key t key, v)" "m key = Some v" "P key" using y(5) by auto
    then show "k \<in> {k \<in> dom m. P k}" using f [OF kv(1)] kv(2) by auto
  next
    fix k assume "k \<in> {k \<in> dom m. P k}"
    then obtain v where v: "(full_key t k, v) \<in> set kvs" using y(5) by auto
    then have "f (full_key t k, v) = k" using f [OF v] by auto
    then show "k \<in> set ?ks" using v by force
  qed
  moreover have "map snd kvs = map (the \<circ> m) ?ks" using f by auto
  moreover have "poc_holds K (t\<lparr>t_root := c\<rparr>) m" using y(3) assms(1) by (simp add: poc_holds_def)
  ultimately show ?thesis using y(1,2) assms(2) by (intro conjI exI [of _ ?ks]) (simp_all add: iterator_values_def)
qed

lemma trie_poc_laws: "poc_service (trie_poc_env K put) (poc_holds K) (trie_iterable K)"
proof (intro poc_service.intro poc_service_axioms.intro)
  let ?E = "trie_poc_env K put"
  have "trie_api.truncate (pe_trie ?E) = trie_api_of (trie_hash K)"
    by (simp add: trie_poc_env_def trie_poc_trie_def trie_api.defs)
  then show "trie_service (trie_api.truncate (pe_trie ?E)) (poc_holds K) (\<lambda>_. True)" using poc_srv.trie_service_axioms by metis
  show "\<exists>t. pe_NewTrieWithPrefix ?E (replicate 32 0) p db = Inr t \<and> poc_holds K t Map.empty" if "p \<in> set poc_prefixes" for p db
  proof -
    have "trie_hashed K (empty_trie d\<lparr>t_prefix := Some p\<rparr>) Map.empty" for d
      unfolding trie_hashed_iff
      by (rule exI [of _ PNil]) (simp add: trie_treeF_def addressable_def pwf_def empty_trie_def expands.exp_nil)
    then show ?thesis
      using that by (cases db) (auto simp: trie_poc_env_def open_with_prefix_def NewTrieWithPrefix_def empty_trie_New poc_holds_def)
  qed
  fix t m
  assume m: "poc_holds K t m" "trie_iterable K m"
  then have h: "trie_hashed K t m" by (simp add: poc_holds_def)
  obtain root t1 where t1: "trie_Hash K t = Inr (root, t1)" "root \<noteq> BytesToHash (K [])"
    using poc_holds_hash [OF m(1)] m unfolding trie_iterable_def by blast
  show "(\<exists>ks. keys_from m start ks \<and> fst (api_NodeIterator (pe_trie ?E) t start) = map (the \<circ> m) ks)
      \<and> poc_holds K (snd (api_NodeIterator (pe_trie ?E) t start)) m" for start
  proof -
    obtain it where "trie_NodeIterator K t start = Some (Inr it)" "yields K t m (not_before start) (iterate K (NewIterator (NodeIt it)))"
      using NodeIterator_yields [OF h t1] by blast
    then show ?thesis
      using iterator_values_yields [OF m(1) refl, where ni = "NodeIt it" and P = "not_before start"]
      by (simp add: keys_from_def trie_poc_env_def trie_poc_trie_def trie_api.defs)
  qed
  show "(\<exists>ks. keys_prefixed m p ks \<and> fst (api_PrefixIterator (pe_trie ?E) t p) = map (the \<circ> m) ks)
      \<and> poc_holds K (snd (api_PrefixIterator (pe_trie ?E) t p)) m" for p
  proof -
    obtain it where "trie_PrefixIterator K t p = Some (Inr it)" "yields K t m (key_prefixed p) (iterate K (NewIterator (PrefixIt it)))"
      using PrefixIterator_yields [OF h t1] by blast
    then show ?thesis
      using iterator_values_yields [OF m(1) refl, where ni = "PrefixIt it" and P = "key_prefixed p"]
      by (simp add: keys_prefixed_def trie_poc_env_def trie_poc_trie_def trie_api.defs)
  qed
qed

interpretation trie_poc: poc_service "trie_poc_env K put" "poc_holds K" "trie_iterable K"
  by (rule trie_poc_laws)

section \<open>A hash for examples\<close>

text \<open>A stand-in for Keccak that tells the empty string from every other one, so that every map can be iterated.\<close>

definition tag_hash :: "bytes \<Rightarrow> bytes" where
  "tag_hash x = (if x = [] then 1 # replicate 31 0 else 0 # take 31 (x @ replicate 31 0))"

lemma length_copy_at: "copy_at out pos src = (n, out') \<Longrightarrow> length out' = length out"
  by (auto simp: copy_at_def Let_def)

lemma length_toBytes_loop: "toBytes_loop str heads out strpos pos = Some b \<Longrightarrow> length b = length out"
proof (induction heads arbitrary: out strpos pos)
  case Nil
  then show ?case using length_copy_at [of out pos "drop strpos str"] by (cases "copy_at out pos (drop strpos str)") simp
next
  case (Cons head heads)
  then show ?case by (auto simp: Let_def length_copy_at split: prod.splits if_splits)
qed

lemma EncodeToBytes_list_nonempty:
  assumes "EncodeToBytes (RList vs) = Inr (Some b)"
  shows "b \<noteq> []"
proof -
  obtain w where w: "toBytes w = Some b" "0 < eb_lhsize w"
    using assms by (cases "rlp_write_list vs (snd (encbuf_list encbuf_reset))")
      (auto simp: EncodeToBytes_def encbuf_listEnd_def Let_def split: prod.splits)
  then show ?thesis using length_toBytes_loop by (fastforce simp: toBytes_def encbuf_size_def)
qed

lemma penc_nonempty: "pnode p \<Longrightarrow> penc K p \<noteq> []"
  using pcoll_list [of p K] EncodeToBytes_pcoll [of K p] EncodeToBytes_list_nonempty by fastforce

lemma iterable_tag_hash: "trie_iterable tag_hash m"
  unfolding trie_iterable_def
proof (intro allI impI)
  fix t root t1
  assume "poc_holds tag_hash t m" and h: "trie_Hash tag_hash t = Inr (root, t1)"
  then obtain p where p: "trie_treeF (hflag tag_hash) t p" by (auto simp: poc_holds_def trie_hashed_iff)
  then have "root = BytesToHash (proot tag_hash p)" using trie_Hash_tree [OF p] h by auto
  moreover have "length (tag_hash x) = 32" for x by (simp add: tag_hash_def min_def)
  moreover have "tag_hash x \<noteq> tag_hash []" if "x \<noteq> []" for x using that by (simp add: tag_hash_def)
  moreover have "p = PNil \<or> penc tag_hash p \<noteq> []" using p penc_nonempty by (auto simp: trie_treeF_def pwf_def)
  moreover have "length emptyRoot = 32" "emptyRoot \<noteq> tag_hash []" by (simp_all add: emptyRoot_def tag_hash_def)
  ultimately show "root \<noteq> BytesToHash (tag_hash [])" by (auto simp: proot_def BytesToHash_id)
qed

end
