(* ===== verification/Poc_Election.thy ===== *)
theory Poc_Election
  imports Poc_Epoch State_Snapshot Poc_Trie
begin

text \<open>
  Correctness of the elections: the order of the candidates is total, the shuffle is a permutation,
  removing inactive validators never leaves fewer candidates than \<open>safeSize\<close>, and the validators of
  an epoch are the candidates with the highest contributions.
\<close>

section \<open>The order of the candidates\<close>

lemma sortable_Less_go_less: "go_less (sortable_Less keccak) (\<lambda>_. True)"
proof
  show "\<not> sortable_Less keccak x x" for x by (simp add: sortable_Less_def)
  show "sortable_Less keccak x z" if "sortable_Less keccak x y" "sortable_Less keccak y z" for x y z
    using that bytes_less_trans by (auto simp: sortable_Less_def split: if_splits)
  show "sortable_Less keccak x y \<or> sortable_Less keccak y x" if "x \<noteq> y" for x y
  proof (cases "sa_address x = sa_address y")
    case True
    then have "sa_weight x \<noteq> sa_weight y" using that by (cases x, cases y) auto
    then show ?thesis by (auto simp: sortable_Less_def)
  next
    case False
    then have "Address_Hex keccak (sa_address x) \<noteq> Address_Hex keccak (sa_address y)" using Address_Hex_inj by blast
    then show ?thesis using bytes_less_linear by (auto simp: sortable_Less_def)
  qed
qed

interpretation by_rank: go_less "sortable_Less keccak" "\<lambda>_. True"
  by (rule sortable_Less_go_less)

interpretation by_rank_reversed: go_less "\<lambda>x y. sortable_Less keccak y x" "\<lambda>_. True"
  by (rule by_rank.reversed)

section \<open>The shuffle\<close>

lemma mset_swap': "i < length xs \<Longrightarrow> j < length xs \<Longrightarrow> mset (swap i j xs) = mset xs"
  using mset_swap [of j xs i] by (simp add: swap_def)

lemma mset_shuffle_loop:
  assumes "\<And>k n. 0 < n \<Longrightarrow> draw k n < n"
  shows "i < length xs \<Longrightarrow> mset (shuffle_loop draw k i xs) = mset xs"
proof (induction i arbitrary: k xs)
  case (Suc i)
  have d: "draw k (Suc i + 1) < length xs" using assms [of "Suc i + 1" k] Suc.prems by simp
  have "length (swap (Suc i) (draw k (Suc i + 1)) xs) = length xs" by (simp add: swap_def)
  then show ?case using Suc mset_swap' [OF Suc.prems d] by simp
qed simp

lemma mset_shuffle: "(\<And>k n. 0 < n \<Longrightarrow> draw k n < n) \<Longrightarrow> mset (shuffle draw xs) = mset xs"
  by (cases xs) (simp_all add: shuffle_def mset_shuffle_loop)

section \<open>Validators in the epoch trie\<close>

lemma length_concat_20: "\<forall>v \<in> set vs. length v = 20 \<Longrightarrow> length (concat (map rlp_string vs)) = 21 * length vs"
  by (induction vs) (auto simp: rlp_string_def rlp_head_def)

lemma validators_round_trip:
  assumes "\<forall>v \<in> set vs. length v = 20" "length vs < 2 ^ 32"
  shows "\<exists>b. EncodeToBytes (RList (map RBytes vs)) = Inr (Some b) \<and> b \<noteq> []
    \<and> DecodeBytes (length b + 10) validators_type b = Inr (DList (map DBytes vs))"
proof -
  let ?v = "DList (map DBytes vs)"
  have n: "length (concat (map venc (map DBytes vs))) = 21 * length vs"
    using length_concat_20 [OF assms(1)] by (simp add: o_def)
  have small: "21 * length vs < 2 ^ 37" using assms(2) by simp
  have l: "length (venc ?v) < 2 ^ 64"
    using n small length_rlp_head_le [of "21 * length vs" "0xC0" "0xF7"] by (simp add: rlp_list_def)
  have t: "type_ok validators_type" "tdepth validators_type \<le> 10" by (simp_all add: validators_type_def)
  have w: "wt validators_type ?v" using assms(1) by (simp add: validators_type_def)
  have v: "to_val ?v = RList (map RBytes vs)" by (simp add: o_def)
  have ne: "venc ?v \<noteq> []" by (simp add: rlp_list_def)
  have f: "length (venc ?v) + tdepth validators_type \<le> length (venc ?v) + 10" using t(2) by simp
  show ?thesis
    using decode_encode [OF t(1) w l f] ne unfolding v by blast
qed

section \<open>Counting contributions\<close>

context state_backend
begin

lemma GetContribution_stable:
  assumes "state_inv D s" "GetContribution D a s = (c, s')"
  shows "state_inv D s'" "fst (GetContribution D b s') = fst (GetContribution D b s)"
proof -
  obtain r s1 where g: "getStateObject D a s = (r, s1)" by (cases "getStateObject D a s")
  note gs = getStateObject_spec [OF assms(1) g]
  have s': "s' = s1" using assms(2) g by (simp add: GetContribution_def)
  show "state_inv D s'" using gs(3) s' by simp
  show "fst (GetContribution D b s') = fst (GetContribution D b s)"
    unfolding s' answers(3) [OF gs(3)] answers(3) [OF assms(1)] using gs(1) by (simp add: view_def)
qed

lemma contributions_loop_spec:
  assumes "state_inv D s" "contributions_loop D vs s = (cs, s')"
  shows "cs = map (\<lambda>v. \<lparr>ac_Account = BytesToAddress v, ac_Contribution = fst (GetContribution D (BytesToAddress v) s)\<rparr>) vs
    \<and> state_inv D s' \<and> (\<forall>b. fst (GetContribution D b s') = fst (GetContribution D b s))"
  using assms
proof (induction vs arbitrary: s cs)
  case (Cons v vs)
  obtain c s1 where c: "GetContribution D (BytesToAddress v) s = (c, s1)" by (cases "GetContribution D (BytesToAddress v) s")
  obtain cs1 where r: "contributions_loop D vs s1 = (cs1, s')" "cs = \<lparr>ac_Account = BytesToAddress v, ac_Contribution = c\<rparr> # cs1"
    using Cons.prems(2) c by (auto split: prod.splits)
  note st = GetContribution_stable [OF Cons.prems(1) c]
  show ?case using Cons.IH [OF st(1) r(1)] r(2) st(2) c by simp
qed simp

end

section \<open>Candidates\<close>

text \<open>
  The candidate trie maps each candidate to itself, as \<open>BecomeCandidate\<close> writes it, and can be iterated,
  also when candidates are removed.
\<close>

definition candidates_ok :: "((bytes \<rightharpoonup> bytes) \<Rightarrow> bool) \<Rightarrow> (bytes \<rightharpoonup> bytes) \<Rightarrow> bool" where
  "candidates_ok iterable m \<longleftrightarrow> (\<forall>k v. m k = Some v \<longrightarrow> v = k \<and> length k = 20) \<and> (\<forall>m'. m' \<subseteq>\<^sub>m m \<longrightarrow> iterable m')"

lemma keys_from_Nil: "keys_from m [] ks \<Longrightarrow> sorted_wrt hex_less ks \<and> set ks = dom m"
  by (auto simp: keys_from_def not_before_def elim: bytes_less.elims)

lemma sorted_hex_distinct: "sorted_wrt hex_less ks \<Longrightarrow> distinct ks"
  by (induction ks) auto

lemma candidate_values: "candidates_ok iterable m \<Longrightarrow> set ks = dom m \<Longrightarrow> map (the \<circ> m) ks = ks"
  by (auto simp: candidates_ok_def intro!: map_idI)

lemma count_loop_le: "count_loop vs limit n \<le> n + length vs"
proof (induction vs arbitrary: n)
  case (Cons v vs)
  show ?case using Cons.IH [of "n + 1"] by simp
qed simp

text \<open>The tries of a context are maps, the candidate trie the map \<open>m\<close>.\<close>

definition tries_ok :: "('t \<Rightarrow> (bytes \<rightharpoonup> bytes) \<Rightarrow> bool) \<Rightarrow> ((bytes \<rightharpoonup> bytes) \<Rightarrow> bool) \<Rightarrow> ('t, 'd) PocContext \<Rightarrow> (bytes \<rightharpoonup> bytes) \<Rightarrow> bool" where
  "tries_ok represents iterable pc m \<longleftrightarrow> represents (candidateTrie pc) m \<and> candidates_ok iterable m \<and> finite (dom m)
     \<and> (\<exists>m1. represents (epochTrie pc) m1) \<and> (\<exists>m2. represents (mintCntTrie pc) m2 \<and> iterable m2) \<and> (\<exists>m3. represents (contributionTrie pc) m3)"

text \<open>The candidates that are left, \<open>m'\<close>, of the candidates \<open>m\<close>.\<close>

definition safe_removal :: "bytes set \<Rightarrow> (bytes \<rightharpoonup> bytes) \<Rightarrow> (bytes \<rightharpoonup> bytes) \<Rightarrow> bool" where
  "safe_removal allowed m m' \<longleftrightarrow> m' \<subseteq>\<^sub>m m \<and> dom m - dom m' \<subseteq> allowed \<and> min (card (dom m)) safeSize \<le> card (dom m')"

lemma safe_removal_refl: "safe_removal A m m"
  by (simp add: safe_removal_def)

lemma safe_removal_ok:
  assumes "safe_removal A m m'" "candidates_ok iterable m" "finite (dom m)"
  shows "candidates_ok iterable m'" "finite (dom m')"
proof -
  have sub: "m' k = Some v \<Longrightarrow> m k = Some v" for k v using assms(1) by (auto simp: safe_removal_def map_le_def dom_def)
  have "m'' \<subseteq>\<^sub>m m" if "m'' \<subseteq>\<^sub>m m'" for m'' using assms(1) that map_le_trans by (auto simp: safe_removal_def)
  then show "candidates_ok iterable m'" using assms(2) sub by (auto simp: candidates_ok_def)
  have "dom m' \<subseteq> dom m" using sub by auto
  then show "finite (dom m')" using assms(3) finite_subset by blast
qed

text \<open>The validators \<open>vs\<close> are the best of the candidates \<open>C\<close> by weight \<open>w\<close>, ties broken by the hex form.\<close>

definition best_of :: "(bytes \<Rightarrow> hash) \<Rightarrow> (address \<Rightarrow> int) \<Rightarrow> address set \<Rightarrow> address list \<Rightarrow> bool" where
  "best_of keccak w C vs \<longleftrightarrow> distinct vs \<and> set vs \<subseteq> C \<and> length vs = maxValidatorSize
     \<and> (\<forall>v \<in> set vs. \<forall>c \<in> C - set vs. w c < w v \<or> (w c = w v \<and> bytes_less (Address_Hex keccak v) (Address_Hex keccak c)))"

lemma elected_best:
  assumes "elected X ph i (map (\<lambda>k. \<lparr>ac_Account = k, ac_Contribution = w k\<rparr>) ks) = Inr vs" "distinct ks"
    "\<forall>seed k n. 0 < n \<longrightarrow> ee_rnd X seed k n < n"
  shows "best_of (pe_keccak (ee_poc X)) w (set ks) vs"
proof -
  let ?K = "pe_keccak (ee_poc X)"
  let ?sa = "\<lambda>k. \<lparr>sa_address = k, sa_weight = w k\<rparr>"
  define r where "r = sort_Sort (sortable_Less ?K) (map ?sa ks)"
  have inj: "inj ?sa" by (auto simp: inj_def)
  have r: "distinct r" "set r = ?sa ` set ks" "length r = length ks" "by_rank.ordered ?K r"
    using assms(2) inj by_rank.ordered_sort [of "map ?sa ks" ?K] by (auto simp: r_def distinct_map intro: inj_on_subset)
  have size: "3 \<le> length ks"
    using assms(1) by (auto simp: elected_def safeSize_def maxValidatorSize_def split: if_splits)
  define top where "top = take maxValidatorSize r"
  have "\<exists>draw. vs = map sa_address (shuffle draw top) \<and> (\<forall>k n. 0 < n \<longrightarrow> draw k n < n)"
    using assms(1,3) size r(3)
    by (auto simp: elected_def safeSize_def maxValidatorSize_def top_def r_def ranked_def o_def Let_def split: option.splits if_splits)
  then obtain draw where vs: "vs = map sa_address (shuffle draw top)" "\<forall>k n. 0 < n \<longrightarrow> draw k n < n" by blast
  have m: "mset vs = mset (map sa_address top)" using mset_shuffle [of draw top] vs by simp
  have top: "top = map ?sa (map sa_address top)"
    using r(2) set_take_subset [of maxValidatorSize r] by (auto simp: top_def intro!: map_idI [symmetric])
  have sv: "set vs = sa_address ` set top" using m mset_eq_setD by fastforce
  have "distinct (map sa_address top)"
    using r(1) top by (metis distinct_map distinct_take top_def)
  then have d: "distinct vs" using m mset_eq_imp_distinct_iff by blast
  have len: "length vs = maxValidatorSize"
    using m size r(3) by (metis length_map length_take maxValidatorSize_def min.absorb2 mset_eq_length top_def)
  have sub: "set vs \<subseteq> set ks" using sv r(2) set_take_subset [of maxValidatorSize r] by (auto simp: top_def)
  have "w c < w v \<or> (w c = w v \<and> bytes_less (Address_Hex ?K v) (Address_Hex ?K c))"
    if v: "v \<in> set vs" and c: "c \<in> set ks - set vs" for v c
  proof -
    have vt: "?sa v \<in> set top" using v sv top by (metis (no_types, lifting) imageE imageI list.set_map)
    have "?sa c \<in> set r" "?sa c \<notin> set top" using c sv r(2) by force+
    then have cd: "?sa c \<in> set (drop maxValidatorSize r)"
      unfolding top_def by (metis UnE append_take_drop_id set_append)
    have "by_rank.ordered ?K (take maxValidatorSize r @ drop maxValidatorSize r)" using r(4) by simp
    then have "\<not> sortable_Less ?K (?sa c) (?sa v)"
      using vt cd unfolding top_def sorted_wrt_append by blast
    moreover have "c \<noteq> v" using v c by auto
    ultimately show ?thesis
      using Address_Hex_inj [of ?K c v] bytes_less_linear [of "Address_Hex ?K c" "Address_Hex ?K v"]
      by (auto simp: sortable_Less_def split: if_splits)
  qed
  then show ?thesis using d len sub by (auto simp: best_of_def)
qed

context poc_service
begin

lemma candidate_keys:
  assumes "represents t m" "candidates_ok iterable m" "api_NodeIterator (pe_trie E) t [] = (vs, t')"
  shows "distinct vs \<and> set vs = dom m \<and> represents t' m"
proof -
  obtain ks where k: "keys_from m [] ks" "vs = map (the \<circ> m) ks" "represents t' m"
    using iterator_law [OF assms(1), of "[]"] assms(2,3) by (auto simp: candidates_ok_def)
  then have "sorted_wrt hex_less ks" "set ks = dom m" using keys_from_Nil by auto
  then show ?thesis using k candidate_values [OF assms(2)] sorted_hex_distinct by simp
qed

lemma KickoutCandidate_law:
  assumes "represents (candidateTrie pc) m" "KickoutCandidate E a pc = (e, pc')"
  shows "e = None \<and> represents (candidateTrie pc') (m(a := None)) \<and> epochTrie pc' = epochTrie pc
    \<and> mintCntTrie pc' = mintCntTrie pc \<and> contributionTrie pc' = contributionTrie pc \<and> pc_db pc' = pc_db pc"
  using assms(2) Delete_law [OF assms(1), of a] by (auto simp: KickoutCandidate_def Let_def fun_upd_def split: prod.splits option.splits)

text \<open>The loop removes only listed validators, and never goes below \<open>safeSize\<close> candidates.\<close>

lemma kickout_loop_spec:
  assumes "represents (candidateTrie pc) m" "finite (dom m)" "n \<le> card (dom m)" "kickout_loop E n vs pc = (e, pc')"
  shows "e = None \<and> (\<exists>m'. represents (candidateTrie pc') m' \<and> m' \<subseteq>\<^sub>m m \<and> dom m - dom m' \<subseteq> sa_address ` set vs
      \<and> min (card (dom m)) safeSize \<le> card (dom m'))
    \<and> epochTrie pc' = epochTrie pc \<and> mintCntTrie pc' = mintCntTrie pc \<and> contributionTrie pc' = contributionTrie pc \<and> pc_db pc' = pc_db pc"
  using assms
proof (induction vs arbitrary: n m pc)
  case Nil
  then show ?case by auto
next
  case (Cons v vs)
  show ?case
  proof (cases "n \<le> safeSize")
    case True
    then show ?thesis using Cons.prems by auto
  next
    case False
    obtain e1 pc1 where k: "KickoutCandidate E (sa_address v) pc = (e1, pc1)" by (cases "KickoutCandidate E (sa_address v) pc")
    let ?m = "m(sa_address v := None)"
    have r: "e1 = None" "represents (candidateTrie pc1) ?m" "epochTrie pc1 = epochTrie pc" "mintCntTrie pc1 = mintCntTrie pc"
        "contributionTrie pc1 = contributionTrie pc" "pc_db pc1 = pc_db pc"
      using KickoutCandidate_law [OF Cons.prems(1) k] by auto
    have d: "dom ?m = dom m - {sa_address v}" by auto
    have c: "card (dom m) - 1 \<le> card (dom ?m)" "finite (dom ?m)" unfolding d using Cons.prems(2) by (simp_all add: card_Diff_singleton_if)
    have le: "n - 1 \<le> card (dom ?m)" using c(1) Cons.prems(3) by linarith
    have loop: "kickout_loop E (n - 1) vs pc1 = (e, pc')" using Cons.prems(4) False k r(1) by simp
    obtain m' where m': "e = None" "represents (candidateTrie pc') m'" "m' \<subseteq>\<^sub>m ?m" "dom ?m - dom m' \<subseteq> sa_address ` set vs"
        "min (card (dom ?m)) safeSize \<le> card (dom m')" "epochTrie pc' = epochTrie pc1" "mintCntTrie pc' = mintCntTrie pc1"
        "contributionTrie pc' = contributionTrie pc1" "pc_db pc' = pc_db pc1"
      using Cons.IH [OF r(2) c(2) le loop] by blast
    have "m' \<subseteq>\<^sub>m m" using m'(3) by (auto simp: map_le_def split: if_splits)
    moreover have "dom m - dom m' \<subseteq> sa_address ` set (v # vs)" using m'(4) d by auto
    moreover have "min (card (dom m)) safeSize \<le> card (dom m')" using m'(5) c(1) False Cons.prems(3) by linarith
    ultimately show ?thesis using m' r by auto
  qed
qed

lemma NewPocContext_empty:
  "\<exists>pc. NewPocContext E db = Inr pc \<and> represents (epochTrie pc) Map.empty \<and> represents (contributionTrie pc) Map.empty
    \<and> represents (latestTxTrie pc) Map.empty \<and> represents (candidateTrie pc) Map.empty \<and> represents (mintCntTrie pc) Map.empty"
proof -
  have "\<exists>t. pe_NewTrieWithPrefix E (replicate 32 0) p db = Inr t \<and> represents t Map.empty"
    if "p \<in> {epochPrefix, contributionPrefix, latestTxPrefix, candidatePrefix, mintCntPrefix}" for p
    using open_empty_law that by (simp add: poc_prefixes_def)
  then obtain f where "pe_NewTrieWithPrefix E (replicate 32 0) p db = Inr (f p) \<and> represents (f p) Map.empty"
    if "p \<in> {epochPrefix, contributionPrefix, latestTxPrefix, candidatePrefix, mintCntPrefix}" for p by metis
  then show ?thesis
    by (simp add: NewPocContext_def NewEpochTrie_def NewContributionTrie_def NewLatestTxTrie_def NewCandidateTrie_def NewMintCntTrie_def)
qed

lemma BecomeCandidate_law:
  assumes "represents (candidateTrie pc) m" "a \<noteq> []" "BecomeCandidate E a pc = (e, pc')"
  shows "e = None \<and> represents (candidateTrie pc') (m(a \<mapsto> a)) \<and> epochTrie pc' = epochTrie pc
    \<and> mintCntTrie pc' = mintCntTrie pc \<and> contributionTrie pc' = contributionTrie pc \<and> pc_db pc' = pc_db pc"
  using assms(2,3) update_law [OF assms(1), of a a] by (auto simp: BecomeCandidate_def trie_api.defs fun_upd_def split: prod.splits)

lemma candidates_added:
  assumes "represents (candidateTrie pc) m" "\<forall>a \<in> set as. a \<noteq> []"
  shows "represents (candidateTrie (fold (\<lambda>a pc. snd (BecomeCandidate E a pc)) as pc)) (fold (\<lambda>a m. m(a \<mapsto> a)) as m)
    \<and> epochTrie (fold (\<lambda>a pc. snd (BecomeCandidate E a pc)) as pc) = epochTrie pc
    \<and> mintCntTrie (fold (\<lambda>a pc. snd (BecomeCandidate E a pc)) as pc) = mintCntTrie pc
    \<and> contributionTrie (fold (\<lambda>a pc. snd (BecomeCandidate E a pc)) as pc) = contributionTrie pc"
  using assms
proof (induction as arbitrary: pc m)
  case (Cons a as)
  let ?pc = "snd (BecomeCandidate E a pc)"
  have law: "represents (candidateTrie ?pc) (m(a \<mapsto> a))" "epochTrie ?pc = epochTrie pc" "mintCntTrie ?pc = mintCntTrie pc"
      "contributionTrie ?pc = contributionTrie pc"
    using BecomeCandidate_law [OF Cons.prems(1), of a "fst (BecomeCandidate E a pc)" ?pc] Cons.prems(2) by simp_all
  show ?case using Cons.IH [OF law(1)] Cons.prems(2) law(2-4) by simp
qed simp

lemma GetValidators_keeps:
  assumes "represents (epochTrie pc) m" "GetValidators E pc = (r, pc')"
  shows "represents (epochTrie pc') m \<and> candidateTrie pc' = candidateTrie pc \<and> mintCntTrie pc' = mintCntTrie pc
    \<and> contributionTrie pc' = contributionTrie pc \<and> pc_db pc' = pc_db pc"
  using assms(2) Get_law [OF assms(1), of validator_key] by (auto simp: GetValidators_def Let_def split: prod.splits)

lemma SetValidators_GetValidators:
  assumes "represents (epochTrie pc) m" "\<forall>v \<in> set vs. length v = 20" "length vs < 2 ^ 32" "SetValidators E vs pc = (e, pc')"
  shows "e = None \<and> fst (GetValidators E pc') = Inr vs \<and> (\<exists>m'. represents (epochTrie pc') m')
    \<and> candidateTrie pc' = candidateTrie pc \<and> mintCntTrie pc' = mintCntTrie pc \<and> contributionTrie pc' = contributionTrie pc \<and> pc_db pc' = pc_db pc"
proof -
  obtain b where b: "EncodeToBytes (RList (map RBytes vs)) = Inr (Some b)" "b \<noteq> []"
      "DecodeBytes (length b + 10) validators_type b = Inr (DList (map DBytes vs))"
    using validators_round_trip [OF assms(2,3)] by blast
  have pc': "e = None" "pc' = pc\<lparr>epochTrie := api_Update (pe_trie E) (epochTrie pc) validator_key b\<rparr>"
    using assms(4) b(1) by (auto simp: SetValidators_def)
  have r: "represents (epochTrie pc') (m(validator_key \<mapsto> b))"
    using Update_law [OF assms(1), of validator_key b] b(2) pc'(2) by (simp add: fun_upd_def)
  have "fst (api_Get (pe_trie E) (epochTrie pc') validator_key) = Some b" using Get_law [OF r, of validator_key] by simp
  then obtain t where "api_Get (pe_trie E) (epochTrie pc') validator_key = (Some b, t)" by (metis prod.collapse)
  then have "fst (GetValidators E pc') = Inr vs" using b(3) by (simp add: GetValidators_def nil_bytes_def o_def)
  then show ?thesis using pc' r by auto
qed

lemma inactive_loop_spec:
  assumes "represents (mintCntTrie pc) m" "inactive_loop E epoch th vs pc = (r, pc')"
  shows "represents (mintCntTrie pc') m \<and> candidateTrie pc' = candidateTrie pc \<and> epochTrie pc' = epochTrie pc
    \<and> contributionTrie pc' = contributionTrie pc \<and> pc_db pc' = pc_db pc
    \<and> (\<forall>need. r = Inr need \<longrightarrow> (\<forall>x \<in> set need. sa_address x \<in> set vs \<and> sa_weight x < th))"
  using assms
proof (induction vs arbitrary: pc r pc')
  case (Cons v vs)
  obtain c pc1 where c: "mint_count E epoch v pc = (c, pc1)" by (cases "mint_count E epoch v pc")
  have m: "represents (mintCntTrie pc1) m" "candidateTrie pc1 = candidateTrie pc" "epochTrie pc1 = epochTrie pc"
      "contributionTrie pc1 = contributionTrie pc" "pc_db pc1 = pc_db pc"
    using c Get_law [OF Cons.prems(1), of "mint_key epoch v"]
    by (auto simp: mint_count_def Let_def split: prod.splits option.splits)
  show ?case
  proof (cases c)
    case (Inl e)
    then show ?thesis using Cons.prems(2) c m by auto
  next
    case (Inr cnt)
    obtain r2 pc2 where l: "inactive_loop E epoch th vs pc1 = (r2, pc2)" by (cases "inactive_loop E epoch th vs pc1")
    then show ?thesis using Cons.prems(2) c m Inr Cons.IH [OF m(1) l] by (cases r2) (auto split: if_splits)
  qed
qed auto

lemma kickout_inactive_spec:
  assumes "represents (candidateTrie pc) m" "candidates_ok iterable m" "finite (dom m)" "kickout_inactive E need pc = (e, pc')"
  shows "\<exists>m'. represents (candidateTrie pc') m' \<and> safe_removal (sa_address ` set need) m m' \<and> epochTrie pc' = epochTrie pc
    \<and> mintCntTrie pc' = mintCntTrie pc \<and> contributionTrie pc' = contributionTrie pc \<and> pc_db pc' = pc_db pc"
proof (cases "need = []")
  case True
  then show ?thesis using assms safe_removal_refl by (auto simp: kickout_inactive_def)
next
  case False
  obtain vs t where it: "api_NodeIterator (pe_trie E) (candidateTrie pc) [] = (vs, t)" by (cases "api_NodeIterator (pe_trie E) (candidateTrie pc) []")
  have it': "distinct vs" "set vs = dom m" "represents t m" using candidate_keys [OF assms(1,2) it] by auto
  let ?n = "count_loop vs (length need + safeSize) 0"
  let ?ks = "sort_Sort (\<lambda>x y. sortable_Less (pe_keccak E) y x) need"
  have n: "?n \<le> card (dom m)" using count_loop_le [of vs "length need + safeSize" 0] it'(1,2) distinct_card [OF it'(1)] by simp
  have r: "represents (candidateTrie (pc\<lparr>candidateTrie := t\<rparr>)) m" using it'(3) by simp
  have "kickout_loop E ?n ?ks (pc\<lparr>candidateTrie := t\<rparr>) = (e, pc')" using assms(4) False it by (simp add: kickout_inactive_def)
  from kickout_loop_spec [OF r assms(3) n this] show ?thesis unfolding safe_removal_def by auto
qed

lemma kickoutValidator_spec:
  assumes "ee_poc X = E" "tries_ok represents iterable (ec_PocContext ec) m" "kickoutValidator X first epoch ec = (e, ec')"
  shows "ec_stateDB ec' = ec_stateDB ec \<and> ec_TimeStamp ec' = ec_TimeStamp ec \<and> pc_db (ec_PocContext ec') = pc_db (ec_PocContext ec)
    \<and> (\<exists>m'. tries_ok represents iterable (ec_PocContext ec') m'
      \<and> safe_removal (case fst (GetValidators E (ec_PocContext ec)) of Inl _ \<Rightarrow> {} | Inr vs \<Rightarrow> set vs) m m')"
proof -
  let ?pc = "ec_PocContext ec"
  obtain m1 m2 m3 where t: "represents (candidateTrie ?pc) m" "candidates_ok iterable m" "finite (dom m)" "represents (epochTrie ?pc) m1"
      "represents (mintCntTrie ?pc) m2" "represents (contributionTrie ?pc) m3" "iterable m2"
    using assms(2) by (auto simp: tries_ok_def)
  obtain r pc1 where g: "GetValidators E ?pc = (r, pc1)" by (cases "GetValidators E ?pc")
  note g1 = GetValidators_keeps [OF t(4) g]
  have ok1: "tries_ok represents iterable pc1 m" using g1 t unfolding tries_ok_def by auto
  show ?thesis
  proof (cases "\<exists>vs. r = Inr vs \<and> vs \<noteq> []")
    case False
    then have "ec' = ec\<lparr>ec_PocContext := pc1\<rparr>" using assms(1,3) g by (cases r) (auto simp: kickoutValidator_def)
    then show ?thesis using g1 ok1 safe_removal_refl by auto
  next
    case True
    then obtain validators where v: "r = Inr validators" "validators \<noteq> []" by blast
    define th where "th = (let elapsed = i64 (ec_TimeStamp ec - first); epochDuration = (if elapsed < epochInterval then elapsed else epochInterval)
      in go_quot (go_quot (go_quot epochDuration blockInterval) (int maxValidatorSize)) 2)"
    obtain r2 pc2 where l: "inactive_loop E epoch th validators pc1 = (r2, pc2)" by (cases "inactive_loop E epoch th validators pc1")
    have rm: "represents (mintCntTrie pc1) m2" using g1 t(5) by simp
    note l2 = inactive_loop_spec [OF rm l]
    show ?thesis
    proof (cases r2)
      case (Inl er)
      then have "ec' = ec\<lparr>ec_PocContext := pc2\<rparr>"
        using assms(1,3) g v l by (simp add: kickoutValidator_def th_def Let_def)
      moreover have "tries_ok represents iterable pc2 m" using l2 g1 t unfolding tries_ok_def by auto
      ultimately show ?thesis using l2 g1 safe_removal_refl by auto
    next
      case (Inr need)
      obtain er pc3 where k: "kickout_inactive E need pc2 = (er, pc3)" by (cases "kickout_inactive E need pc2")
      have ec': "ec' = ec\<lparr>ec_PocContext := pc3\<rparr>"
        using assms(1,3) g v l Inr k by (simp add: kickoutValidator_def th_def Let_def)
      have rc: "represents (candidateTrie pc2) m" using l2 g1 t(1) by simp
      obtain m' where m': "represents (candidateTrie pc3) m'" "safe_removal (sa_address ` set need) m m'" "epochTrie pc3 = epochTrie pc2"
          "mintCntTrie pc3 = mintCntTrie pc2" "contributionTrie pc3 = contributionTrie pc2" "pc_db pc3 = pc_db pc2"
        using kickout_inactive_spec [OF rc t(2,3) k] by blast
      have "tries_ok represents iterable pc3 m'" using m' safe_removal_ok [OF m'(2) t(2,3)] l2 g1 t unfolding tries_ok_def by auto
      moreover have "safe_removal (set validators) m m'" using m'(2) l2 Inr by (auto simp: safe_removal_def)
      ultimately show ?thesis using ec' m' l2 g1 g v(1) by auto
    qed
  qed
qed

text \<open>The state that the elections depend on, and what they keep of it.\<close>

definition election_inv :: "('t, 'w, 'd, 's) election_env \<Rightarrow> (address \<Rightarrow> int) \<Rightarrow> (bytes \<rightharpoonup> bytes) \<Rightarrow> ('t, 'd, 's) EpochContext \<Rightarrow> bool" where
  "election_inv X w m ec \<longleftrightarrow> tries_ok represents iterable (ec_PocContext ec) m \<and> state_inv (ee_state X) (ec_stateDB ec)
     \<and> (\<forall>a. fst (GetContribution (ee_state X) a (ec_stateDB ec)) = w a)"

lemma countContributions_spec:
  assumes "ee_poc X = E" "state_backend (ee_state X)" "election_inv X w m ec" "countContributions X ec = (r, ec')"
  shows "election_inv X w m ec' \<and> pc_db (ec_PocContext ec') = pc_db (ec_PocContext ec)
    \<and> (\<forall>ctbs. r = Inr ctbs \<longrightarrow> (\<exists>ks. distinct ks \<and> set ks = dom m \<and> ctbs = map (\<lambda>k. \<lparr>ac_Account = k, ac_Contribution = w k\<rparr>) ks))"
proof -
  let ?pc = "ec_PocContext ec"
  have i: "represents (candidateTrie ?pc) m" "candidates_ok iterable m" "state_inv (ee_state X) (ec_stateDB ec)"
    using assms(3) by (auto simp: election_inv_def tries_ok_def)
  obtain ks t where it: "api_NodeIterator (pe_trie E) (candidateTrie ?pc) [] = (ks, t)" by (cases "api_NodeIterator (pe_trie E) (candidateTrie ?pc) []")
  have k: "distinct ks" "set ks = dom m" "represents t m" using candidate_keys [OF i(1,2) it] by auto
  have ba: "BytesToAddress a = a" if "a \<in> set ks" for a
    using that k(2) i(2) by (auto simp: candidates_ok_def)
  obtain cs s where l: "contributions_loop (ee_state X) ks (ec_stateDB ec) = (cs, s)" by (cases "contributions_loop (ee_state X) ks (ec_stateDB ec)")
  note ls = state_backend.contributions_loop_spec [OF assms(2) i(3) l]
  have cs: "cs = map (\<lambda>k. \<lparr>ac_Account = k, ac_Contribution = w k\<rparr>) ks"
    using ls ba assms(3) by (auto simp: election_inv_def)
  have ec': "r = (if ks = [] then Inl NoCandidates else Inr cs)"
      "ec' = (if ks = [] then ec\<lparr>ec_PocContext := ?pc\<lparr>candidateTrie := t\<rparr>\<rparr> else ec\<lparr>ec_PocContext := ?pc\<lparr>candidateTrie := t\<rparr>, ec_stateDB := s\<rparr>)"
    using assms(1,4) it l by (auto simp: countContributions_def)
  show ?thesis
    using ec' assms(3) k cs ls by (auto simp: election_inv_def tries_ok_def)
qed

lemma SetContributions_keeps:
  assumes "represents (contributionTrie pc) m" "SetContributions E cs pc = (e, pc')"
  shows "epochTrie pc' = epochTrie pc \<and> candidateTrie pc' = candidateTrie pc \<and> mintCntTrie pc' = mintCntTrie pc \<and> pc_db pc' = pc_db pc
    \<and> (\<exists>m'. represents (contributionTrie pc') m')"
proof (cases "\<exists>b. EncodeToBytes (RList (map (\<lambda>c. RList [RBytes (ac_Account c), RBig (ac_Contribution c)]) cs)) = Inr (Some b)")
  case True
  then obtain b where "pc' = pc\<lparr>contributionTrie := api_Update (pe_trie E) (contributionTrie pc) contribution_key b\<rparr>"
    using assms(2) by (auto simp: SetContributions_def)
  then show ?thesis using Update_law [OF assms(1), of contribution_key b] by auto
next
  case False
  then have "pc' = pc" using assms(2) by (auto simp: SetContributions_def split: sum.splits option.splits)
  then show ?thesis using assms(1) by auto
qed

lemma open_epoch: "\<exists>t. NewEpochTrie E (replicate 32 0) db = Inr t \<and> represents t Map.empty"
  using open_empty_law by (auto simp: NewEpochTrie_def poc_prefixes_def)

lemma elect_epoch_spec:
  assumes "ee_poc X = E" "state_backend (ee_state X)" "\<forall>seed k n. 0 < n \<longrightarrow> ee_rnd X seed k n < n" "election_inv X w m ec"
    "elect_epoch X ph i ec = (None, ec')"
  shows "election_inv X w m ec' \<and> (\<exists>vs. fst (GetValidators E (ec_PocContext ec')) = Inr vs \<and> best_of (pe_keccak E) w (dom m) vs)"
proof -
  obtain r ec1 where c: "countContributions X ec = (r, ec1)" by (cases "countContributions X ec")
  note cs = countContributions_spec [OF assms(1,2,4) c]
  obtain ctbs where r: "r = Inr ctbs" using assms(5) c by (cases r) (auto simp: elect_epoch_def)
  obtain ks where ks: "distinct ks" "set ks = dom m" "ctbs = map (\<lambda>k. \<lparr>ac_Account = k, ac_Contribution = w k\<rparr>) ks" using cs r by blast
  obtain vs where vs: "elected X ph i ctbs = Inr vs" using assms(5) c r by (cases "elected X ph i ctbs") (auto simp: elect_epoch_def)
  have best: "best_of (pe_keccak E) w (dom m) vs" using elected_best [OF vs [unfolded ks(3)] ks(1) assms(3)] ks(2) assms(1) by simp
  obtain t where t: "NewEpochTrie E (replicate 32 0) (pc_db (ec_PocContext ec1)) = Inr t" "represents t Map.empty"
    using open_epoch by blast
  let ?pc = "(ec_PocContext ec1)\<lparr>epochTrie := t\<rparr>"
  have i1: "election_inv X w m ec1" using cs by simp
  have v20: "\<forall>v \<in> set vs. length v = 20" "length vs < 2 ^ 32"
    using best i1 by (auto simp: best_of_def election_inv_def tries_ok_def candidates_ok_def maxValidatorSize_def)
  obtain e2 pc2 where s2: "SetValidators E vs ?pc = (e2, pc2)" by (cases "SetValidators E vs ?pc")
  have re: "represents (epochTrie ?pc) Map.empty" using t(2) by simp
  note sv = SetValidators_GetValidators [OF re v20 s2]
  obtain m3 where m3: "represents (contributionTrie pc2) m3" using sv i1 by (auto simp: election_inv_def tries_ok_def)
  obtain e3 pc3 where s3: "SetContributions E ctbs pc2 = (e3, pc3)" by (cases "SetContributions E ctbs pc2")
  note sc = SetContributions_keeps [OF m3 s3]
  have ec': "ec' = ec1\<lparr>ec_PocContext := pc3\<rparr>"
    using assms(1,5) c r vs t(1) s2 s3 sv by (simp add: elect_epoch_def)
  have "GetValidators E pc3 = (fst (GetValidators E pc2), (pc3\<lparr>epochTrie := epochTrie (snd (GetValidators E pc2))\<rparr>))"
    using sc by (simp add: GetValidators_def split_beta Let_def)
  then have "fst (GetValidators E pc3) = Inr vs" using sv by simp
  moreover have "election_inv X w m ec'" using i1 ec' sc sv by (auto simp: election_inv_def tries_ok_def)
  ultimately show ?thesis using best ec' by auto
qed

lemma elect_step:
  assumes "ee_poc X = E" "state_backend (ee_state X)" "\<forall>seed k n. 0 < n \<longrightarrow> ee_rnd X seed k n < n" "election_inv X w m ec"
    "elect_loop X first ph gen prev (Suc n) i marks ec = (None, ec')"
  shows "\<exists>m1 ec2 marks1 vs. election_inv X w m1 ec2 \<and> m1 \<subseteq>\<^sub>m m \<and> fst (GetValidators E (ec_PocContext ec2)) = Inr vs
    \<and> best_of (pe_keccak E) w (dom m1) vs \<and> elect_loop X first ph gen prev n (i + 1) marks1 ec2 = (None, ec')"
proof -
  let ?kick = "if \<not> gen \<and> marks \<noteq> [] then kickoutValidator X first prev ec else (None, ec)"
  obtain e1 ec1 where k: "?kick = (e1, ec1)" by (cases ?kick)
  obtain m1 where m1: "election_inv X w m1 ec1" "m1 \<subseteq>\<^sub>m m"
  proof (cases "\<not> gen \<and> marks \<noteq> []")
    case True
    then have kv: "kickoutValidator X first prev ec = (e1, ec1)" using k by simp
    have t: "tries_ok represents iterable (ec_PocContext ec) m" using assms(4) by (simp add: election_inv_def)
    show ?thesis
      using kickoutValidator_spec [OF assms(1) t kv] assms(4) that by (auto simp: election_inv_def safe_removal_def)
  next
    case False
    then show ?thesis using that k assms(4) by auto
  qed
  have "e1 = None" using assms(5) k by (cases e1) (auto split: prod.splits)
  obtain e2 ec2 where el: "elect_epoch X ph i ec1 = (e2, ec2)" by (cases "elect_epoch X ph i ec1")
  have "e2 = None" using assms(5) k \<open>e1 = None\<close> el by (cases e2) (auto split: prod.splits)
  then have rest: "elect_loop X first ph gen prev n (i + 1) (if gen then marks else tl marks) ec2 = (None, ec')"
    using assms(5) k \<open>e1 = None\<close> el by (simp add: Let_def split: prod.splits)
  show ?thesis
    using elect_epoch_spec [OF assms(1,2,3) m1(1)] el \<open>e2 = None\<close> rest m1(2) by blast
qed

lemma elect_loop_spec:
  assumes "ee_poc X = E" "state_backend (ee_state X)" "\<forall>seed k n. 0 < n \<longrightarrow> ee_rnd X seed k n < n"
  shows "election_inv X w m ec \<Longrightarrow> elect_loop X first ph gen prev (Suc n) i marks ec = (None, ec') \<Longrightarrow>
    \<exists>m' vs. election_inv X w m' ec' \<and> m' \<subseteq>\<^sub>m m \<and> fst (GetValidators E (ec_PocContext ec')) = Inr vs \<and> best_of (pe_keccak E) w (dom m') vs"
proof (induction n arbitrary: m i marks ec)
  case (0 m i marks ec)
  then show ?case using elect_step [OF assms 0] by auto
next
  case (Suc n)
  obtain m1 ec2 marks1 where s: "election_inv X w m1 ec2" "m1 \<subseteq>\<^sub>m m" "elect_loop X first ph gen prev (Suc n) (i + 1) marks1 ec2 = (None, ec')"
    using elect_step [OF assms Suc.prems] by blast
  then show ?case using Suc.IH [OF s(1,3)] map_le_trans by blast
qed

end

section \<open>Elections succeed\<close>

lemma length_concat_le: "\<forall>x \<in> set xss. length x \<le> n \<Longrightarrow> length (concat xss) \<le> n * length xss"
  by (induction xss) auto

lemma encodable_contributions:
  assumes "\<forall>c \<in> set cs. length (ac_Account c) = 20 \<and> 0 \<le> ac_Contribution c \<and> ac_Contribution c < 256 ^ 32" "length cs < 2 ^ 32"
  shows "\<exists>b. EncodeToBytes (RList (map (\<lambda>c. RList [RBytes (ac_Account c), RBig (ac_Contribution c)]) cs)) = Inr (Some b)"
proof -
  let ?v = "\<lambda>c. RList [RBytes (ac_Account c), RBig (ac_Contribution c)]"
  have item: "rlp_ok (?v c) \<and> length (rlp_enc (?v c)) \<le> 100" if "c \<in> set cs" for c
  proof -
    have c: "length (ac_Account c) = 20" "0 \<le> ac_Contribution c" "nat (ac_Contribution c) < 256 ^ 32"
      using assms(1) that by (simp_all add: nat_less_iff)
    then have b: "length (be_min (nat (ac_Contribution c))) \<le> 32" using length_be_min_le by blast
    have s: "length (rlp_string b) \<le> 9 + length b" if "length b \<le> 32" for b
      using that length_rlp_head_le [of "length b" "0x80" "0xB7"] by (auto simp: rlp_string_def)
    have l: "length (rlp_string (ac_Account c) @ rlp_string (be_min (nat (ac_Contribution c)))) \<le> 70"
      using s [of "ac_Account c"] s [OF b] b c(1) by simp
    then show ?thesis
      using c b length_rlp_head_le [of "length (rlp_string (ac_Account c) @ rlp_string (be_min (nat (ac_Contribution c))))" "0xC0" "0xF7"]
      by (simp add: rlp_list_def)
  qed
  then have "length (concat (map rlp_enc (map ?v cs))) \<le> 100 * length cs"
    using length_concat_le [of "map rlp_enc (map ?v cs)" 100] by auto
  then have "rlp_ok (RList (map ?v cs))" using item assms(2) by (auto simp del: rlp_ok.simps(1,2) rlp_enc.simps)
  then show ?thesis using EncodeToBytes_enc by blast
qed

text \<open>Every mint count has eight bytes, as \<open>updateMintCnt\<close> writes it; the contributions fit into 256 bits.\<close>

definition counts_ok :: "((bytes \<rightharpoonup> bytes) \<Rightarrow> bool) \<Rightarrow> (bytes \<rightharpoonup> bytes) \<Rightarrow> bool" where
  "counts_ok iterable m \<longleftrightarrow> iterable m \<and> (\<forall>k v. m k = Some v \<longrightarrow> 8 \<le> length v)"

definition weights_ok :: "(address \<Rightarrow> int) \<Rightarrow> (bytes \<rightharpoonup> bytes) \<Rightarrow> bool" where
  "weights_ok w m \<longleftrightarrow> card (dom m) < 2 ^ 32 \<and> (\<forall>a \<in> dom m. 0 \<le> w a \<and> w a < 256 ^ 32)"

context poc_service
begin

lemma inactive_loop_succeeds:
  assumes "represents (mintCntTrie pc) m" "counts_ok iterable m"
  shows "\<exists>need pc'. inactive_loop E epoch th vs pc = (Inr need, pc')"
  using assms(1)
proof (induction vs arbitrary: pc)
  case (Cons v vs)
  obtain r t where g: "api_Get (pe_trie E) (mintCntTrie pc) (mint_key epoch v) = (r, t)" by (cases "api_Get (pe_trie E) (mintCntTrie pc) (mint_key epoch v)")
  have r: "r = m (mint_key epoch v)" "represents t m" using Get_law [OF Cons.prems, of "mint_key epoch v"] g by auto
  obtain n where "mint_count E epoch v pc = (Inr n, pc\<lparr>mintCntTrie := t\<rparr>)"
    using g r(1) assms(2) by (cases "m (mint_key epoch v)") (force simp: mint_count_def BigEndian_Uint64_def counts_ok_def)+
  then show ?case using Cons.IH [of "pc\<lparr>mintCntTrie := t\<rparr>"] r(2) by fastforce
qed simp

lemma kickout_inactive_succeeds:
  assumes "represents (candidateTrie pc) m" "candidates_ok iterable m" "finite (dom m)"
  shows "fst (kickout_inactive E need pc) = None"
proof (cases "need = []")
  case False
  obtain vs t where it: "api_NodeIterator (pe_trie E) (candidateTrie pc) [] = (vs, t)" by (cases "api_NodeIterator (pe_trie E) (candidateTrie pc) []")
  have it': "distinct vs" "set vs = dom m" "represents t m" using candidate_keys [OF assms(1,2) it] by auto
  let ?n = "count_loop vs (length need + safeSize) 0"
  have n: "?n \<le> card (dom m)" using count_loop_le [of vs "length need + safeSize" 0] it'(1,2) distinct_card [OF it'(1)] by simp
  have r: "represents (candidateTrie (pc\<lparr>candidateTrie := t\<rparr>)) m" using it'(3) by simp
  show ?thesis
    using kickout_loop_spec [OF r assms(3) n prod.collapse [symmetric]] False it by (simp add: kickout_inactive_def)
qed (simp add: kickout_inactive_def)

lemma kickoutValidator_succeeds:
  assumes "ee_poc X = E" "tries_ok represents iterable (ec_PocContext ec) m" "represents (mintCntTrie (ec_PocContext ec)) m2" "counts_ok iterable m2"
    "fst (GetValidators E (ec_PocContext ec)) = Inr vs" "vs \<noteq> []"
  shows "\<exists>ec'. kickoutValidator X first epoch ec = (None, ec') \<and> represents (mintCntTrie (ec_PocContext ec')) m2"
proof -
  let ?pc = "ec_PocContext ec"
  obtain m1 where t: "represents (candidateTrie ?pc) m" "candidates_ok iterable m" "finite (dom m)" "represents (epochTrie ?pc) m1"
    using assms(2) by (auto simp: tries_ok_def)
  obtain pc1 where g: "GetValidators E ?pc = (Inr vs, pc1)" using assms(5) by (metis prod.collapse)
  note g1 = GetValidators_keeps [OF t(4) g]
  define th where "th = (let elapsed = i64 (ec_TimeStamp ec - first); epochDuration = (if elapsed < epochInterval then elapsed else epochInterval)
    in go_quot (go_quot (go_quot epochDuration blockInterval) (int maxValidatorSize)) 2)"
  have rm: "represents (mintCntTrie pc1) m2" using g1 assms(3) by simp
  obtain need pc2 where l: "inactive_loop E epoch th vs pc1 = (Inr need, pc2)" using inactive_loop_succeeds [OF rm assms(4)] by blast
  note l2 = inactive_loop_spec [OF rm l]
  have rc: "represents (candidateTrie pc2) m" using l2 g1 t(1) by simp
  obtain pc3 where k: "kickout_inactive E need pc2 = (None, pc3)"
    using kickout_inactive_succeeds [OF rc t(2,3)] by (metis prod.collapse)
  have "kickoutValidator X first epoch ec = (None, ec\<lparr>ec_PocContext := pc3\<rparr>)"
    using assms(1,6) g l k by (simp add: kickoutValidator_def th_def Let_def)
  then show ?thesis using kickout_inactive_spec [OF rc t(2,3) k] l2 by auto
qed

lemma elected_succeeds:
  assumes "safeSize \<le> length ctbs" "4 \<le> length (ee_keccak512 X ph)"
  shows "\<exists>vs. elected X ph i ctbs = Inr vs"
  using assms by (auto simp: elected_def LittleEndian_Uint32_def Let_def)

lemma elect_epoch_succeeds:
  assumes "ee_poc X = E" "state_backend (ee_state X)" "\<forall>seed k n. 0 < n \<longrightarrow> ee_rnd X seed k n < n" "election_inv X w m ec"
    "safeSize \<le> card (dom m)" "weights_ok w m" "4 \<le> length (ee_keccak512 X ph)"
  shows "\<exists>ec'. elect_epoch X ph i ec = (None, ec') \<and> mintCntTrie (ec_PocContext ec') = mintCntTrie (ec_PocContext ec)"
proof -
  obtain r ec1 where c: "countContributions X ec = (r, ec1)" by (cases "countContributions X ec")
  note cs = countContributions_spec [OF assms(1,2,4) c]
  have m: "candidates_ok iterable m" using assms(4) by (simp add: election_inv_def tries_ok_def)
  have mc: "mintCntTrie (ec_PocContext ec1) = mintCntTrie (ec_PocContext ec)"
    using c by (auto simp: countContributions_def Let_def split: prod.splits if_splits)
  obtain ctbs where r: "r = Inr ctbs"
  proof (cases r)
    case (Inl e)
    obtain ks t where it: "api_NodeIterator (pe_trie E) (candidateTrie (ec_PocContext ec)) [] = (ks, t)"
      by (cases "api_NodeIterator (pe_trie E) (candidateTrie (ec_PocContext ec)) []")
    have "ks = []" using c it Inl assms(1) by (auto simp: countContributions_def Let_def split: prod.splits if_splits)
    then have "dom m = {}" using candidate_keys [OF _ m it] assms(4) by (auto simp: election_inv_def tries_ok_def)
    then show ?thesis using assms(5) by (simp add: safeSize_def)
  qed blast
  obtain ks where ks: "distinct ks" "set ks = dom m" "ctbs = map (\<lambda>k. \<lparr>ac_Account = k, ac_Contribution = w k\<rparr>) ks" using cs r by blast
  have len: "length ctbs = card (dom m)" using ks distinct_card by fastforce
  obtain vs where vs: "elected X ph i ctbs = Inr vs" using elected_succeeds [OF _ assms(7)] assms(5) len by metis
  have best: "best_of (pe_keccak E) w (dom m) vs" using elected_best [OF vs [unfolded ks(3)] ks(1) assms(3)] ks(2) assms(1) by simp
  obtain t where t: "NewEpochTrie E (replicate 32 0) (pc_db (ec_PocContext ec1)) = Inr t" "represents t Map.empty"
    using open_epoch by blast
  let ?pc = "(ec_PocContext ec1)\<lparr>epochTrie := t\<rparr>"
  have v20: "\<forall>v \<in> set vs. length v = 20" "length vs < 2 ^ 32"
    using best m by (auto simp: best_of_def candidates_ok_def maxValidatorSize_def)
  obtain e2 pc2 where s2: "SetValidators E vs ?pc = (e2, pc2)" by (cases "SetValidators E vs ?pc")
  have re: "represents (epochTrie ?pc) Map.empty" using t(2) by simp
  note sv = SetValidators_GetValidators [OF re v20 s2]
  have "\<forall>c \<in> set ctbs. length (ac_Account c) = 20 \<and> 0 \<le> ac_Contribution c \<and> ac_Contribution c < 256 ^ 32"
    using ks(2,3) m assms(6) by (auto simp: candidates_ok_def weights_ok_def)
  then obtain pc3 where "SetContributions E ctbs pc2 = (None, pc3)" "mintCntTrie pc3 = mintCntTrie pc2"
    using encodable_contributions [of ctbs] len assms(6) by (auto simp: SetContributions_def weights_ok_def)
  then show ?thesis using assms(1) c r vs t(1) s2 sv mc by (simp add: elect_epoch_def)
qed

lemma elect_loop_succeeds:
  assumes "ee_poc X = E" "state_backend (ee_state X)" "\<forall>seed k n. 0 < n \<longrightarrow> ee_rnd X seed k n < n" "4 \<le> length (ee_keccak512 X ph)" "counts_ok iterable m2"
  shows "election_inv X w m ec \<Longrightarrow> safeSize \<le> card (dom m) \<Longrightarrow> weights_ok w m \<Longrightarrow> represents (mintCntTrie (ec_PocContext ec)) m2 \<Longrightarrow>
    fst (GetValidators E (ec_PocContext ec)) = Inr vs \<Longrightarrow> vs \<noteq> [] \<Longrightarrow> fst (elect_loop X first ph gen prev n i marks ec) = None"
proof (induction n arbitrary: m i marks ec vs)
  case (Suc n)
  let ?kick = "if \<not> gen \<and> marks \<noteq> [] then kickoutValidator X first prev ec else (None, ec)"
  have t: "tries_ok represents iterable (ec_PocContext ec) m" using Suc.prems(1) by (simp add: election_inv_def)
  obtain ec1 where k: "?kick = (None, ec1)" "represents (mintCntTrie (ec_PocContext ec1)) m2"
    using kickoutValidator_succeeds [OF assms(1) t Suc.prems(4) assms(5) Suc.prems(5,6), of first prev] Suc.prems(4)
    by (cases "\<not> gen \<and> marks \<noteq> []") auto
  have "\<exists>m1. election_inv X w m1 ec1 \<and> m1 \<subseteq>\<^sub>m m \<and> min (card (dom m)) safeSize \<le> card (dom m1)"
  proof (cases "\<not> gen \<and> marks \<noteq> []")
    case True
    then have kv: "kickoutValidator X first prev ec = (None, ec1)" using k(1) by simp
    show ?thesis
      using kickoutValidator_spec [OF assms(1) t kv] Suc.prems(1) by (auto simp: election_inv_def safe_removal_def)
  next
    case False
    then show ?thesis using k(1) Suc.prems(1) by auto
  qed
  then obtain m1 where m1: "election_inv X w m1 ec1" "m1 \<subseteq>\<^sub>m m" "safeSize \<le> card (dom m1)" using Suc.prems(2) by auto
  have fin: "finite (dom m)" "dom m1 \<subseteq> dom m" using t map_le_implies_dom_le [OF m1(2)] by (simp_all add: tries_ok_def)
  then have w1: "weights_ok w m1" using Suc.prems(3) card_mono [OF fin] by (auto simp: weights_ok_def)
  obtain ec2 where el: "elect_epoch X ph i ec1 = (None, ec2)" "mintCntTrie (ec_PocContext ec2) = mintCntTrie (ec_PocContext ec1)"
    using elect_epoch_succeeds [OF assms(1,2,3) m1(1,3) w1 assms(4)] by blast
  obtain vs2 where v2: "election_inv X w m1 ec2" "fst (GetValidators E (ec_PocContext ec2)) = Inr vs2" "length vs2 = 3"
    using elect_epoch_spec [OF assms(1,2,3) m1(1) el(1)] by (auto simp: best_of_def maxValidatorSize_def)
  then have ne: "vs2 \<noteq> []" by auto
  have "fst (elect_loop X first ph gen prev n (i + 1) (if gen then marks else tl marks) ec2) = None"
    using Suc.IH [OF v2(1) m1(3) w1 _ v2(2) ne] k(2) el(2) by simp
  then show ?case using k(1) el(1) by (simp add: Let_def)
qed simp

end

lemma tryElect_ok:
  assumes "poc_service (ee_poc X) R I" "state_backend (ee_state X)" "\<forall>seed k n. 0 < n \<longrightarrow> ee_rnd X seed k n < n"
    "\<forall>b. 4 \<le> length (ee_keccak512 X b)" "tries_ok R I (ec_PocContext ec) m" "state_inv (ee_state X) (ec_stateDB ec)"
    "safeSize \<le> card (dom m)" "weights_ok (\<lambda>a. fst (GetContribution (ee_state X) a (ec_stateDB ec))) m"
    "R (mintCntTrie (ec_PocContext ec)) m2" "counts_ok I m2"
    "fst (GetValidators (ee_poc X) (ec_PocContext ec)) = Inr vs" "vs \<noteq> []"
  shows "fst (tryElect X first genesis parent ec) = None"
proof -
  let ?E = "ee_poc X" and ?w = "\<lambda>a. fst (GetContribution (ee_state X) a (ec_stateDB ec))"
  have r: "fst (elect_loop X first ph gen prev n i marks (ec\<lparr>ec_PocContext := (ec_PocContext ec)\<lparr>mintCntTrie := t\<rparr>\<rparr>)) = None"
    if "R t m2" for ph gen prev n i marks t
  proof -
    let ?ec = "ec\<lparr>ec_PocContext := (ec_PocContext ec)\<lparr>mintCntTrie := t\<rparr>\<rparr>"
    have i: "poc_service.election_inv R I X ?w m ?ec"
      using assms(5,6,10) that by (auto simp: poc_service.election_inv_def [OF assms(1)] tries_ok_def counts_ok_def)
    have v: "fst (GetValidators ?E (ec_PocContext ?ec)) = Inr vs"
      using assms(11) by (simp add: GetValidators_def split_beta Let_def)
    show ?thesis
      using poc_service.elect_loop_succeeds [OF assms(1) refl assms(2,3) _ assms(10) i assms(7,8) _ v assms(12)] assms(4) that by simp
  qed
  have "R (snd (api_PrefixIterator (pe_trie ?E) (mintCntTrie (ec_PocContext ec)) p)) m2" for p
    using poc_service.prefix_iterator_law [OF assms(1,9)] assms(10) by (auto simp: counts_ok_def)
  then show ?thesis using r unfolding tryElect_def Let_def split_beta by blast
qed

lemma tryElect_best:
  assumes "poc_service (ee_poc X) R I" "state_backend (ee_state X)" "\<forall>seed k n. 0 < n \<longrightarrow> ee_rnd X seed k n < n"
    "tries_ok R I (ec_PocContext ec) m" "state_inv (ee_state X) (ec_stateDB ec)"
    "go_quot (big_Int64 (h_Time parent)) epochInterval < go_quot (ec_TimeStamp ec) epochInterval"
    "tryElect X first genesis parent ec = (None, ec')"
  shows "\<exists>m' vs. tries_ok R I (ec_PocContext ec') m' \<and> m' \<subseteq>\<^sub>m m \<and> fst (GetValidators (ee_poc X) (ec_PocContext ec')) = Inr vs
    \<and> best_of (pe_keccak (ee_poc X)) (\<lambda>a. fst (GetContribution (ee_state X) a (ec_stateDB ec))) (dom m') vs"
proof -
  let ?E = "ee_poc X" and ?w = "\<lambda>a. fst (GetContribution (ee_state X) a (ec_stateDB ec))"
  let ?gen = "go_quot (big_Int64 (h_Time parent)) epochInterval = go_quot (big_Int64 (h_Time genesis)) epochInterval"
  let ?cur = "go_quot (ec_TimeStamp ec) epochInterval"
  let ?prev = "if ?gen then ?cur - 1 else go_quot (big_Int64 (h_Time parent)) epochInterval"
  obtain marks t where it: "api_PrefixIterator (pe_trie ?E) (mintCntTrie (ec_PocContext ec)) (PutUint64 (word_of_int ?prev)) = (marks, t)"
    by (cases "api_PrefixIterator (pe_trie ?E) (mintCntTrie (ec_PocContext ec)) (PutUint64 (word_of_int ?prev))")
  let ?ec = "ec\<lparr>ec_PocContext := (ec_PocContext ec)\<lparr>mintCntTrie := t\<rparr>\<rparr>"
  obtain m2 where m2: "R (mintCntTrie (ec_PocContext ec)) m2" "I m2" using assms(4) by (auto simp: tries_ok_def)
  then have "R t m2" using poc_service.prefix_iterator_law [OF assms(1) m2] it by (metis snd_conv)
  then have i: "poc_service.election_inv R I X ?w m ?ec"
    using assms(4,5) m2(2) by (auto simp: poc_service.election_inv_def [OF assms(1)] tries_ok_def)
  obtain n where n: "nat (?cur - ?prev) = Suc n" using assms(6) by (cases "nat (?cur - ?prev)") (auto split: if_splits)
  have "tryElect X first genesis parent ec = elect_loop X first (Header_Hash (pe_keccak ?E) parent) ?gen ?prev (nat (?cur - ?prev)) ?prev marks ?ec"
    using assms(6) it unfolding tryElect_def Let_def by simp
  then have loop: "elect_loop X first (Header_Hash (pe_keccak ?E) parent) ?gen ?prev (Suc n) ?prev marks ?ec = (None, ec')"
    using assms(7) n by simp
  show ?thesis
    using poc_service.elect_loop_spec [OF assms(1) refl assms(2,3) i loop] by (auto simp: poc_service.election_inv_def [OF assms(1)])
qed

section \<open>Elections on the tries of the node\<close>

text \<open>
  What a node runs the elections on: the tries of \<^verbatim>\<open>pkg/trie\<close> for the consensus state, and the secure
  tries of the caching database for the accounts. Parameters are the two hash functions, the generator
  of pseudo-random numbers, the LRU cache of code sizes and the writer of a commit.
\<close>

record ('w, 'c) node_config =
  nc_keccak :: "bytes \<Rightarrow> bytes"
  nc_keccak512 :: "bytes \<Rightarrow> bytes"
  nc_rnd :: "int \<Rightarrow> nat \<Rightarrow> nat \<Rightarrow> nat"
  nc_Put :: "'w \<Rightarrow> bytes \<Rightarrow> bytes \<Rightarrow> bool \<times> 'w"
  nc_Get :: "'c \<Rightarrow> hash \<Rightarrow> nat option \<times> 'c"
  nc_Add :: "'c \<Rightarrow> hash \<Rightarrow> nat \<Rightarrow> 'c"
  nc_db :: "'c cachingDB"

definition node_env :: "('w, 'c) node_config \<Rightarrow> (trie, 'w, MemDatabase, SecureTrie) election_env" where
  "node_env N =
     \<lparr>ee_poc = trie_poc_env (nc_keccak N) (nc_Put N), ee_state = database_of (nc_keccak N) (nc_Get N) (nc_Add N) (nc_db N),
      ee_keccak512 = nc_keccak512 N, ee_rnd = nc_rnd N\<rparr>"

text \<open>The tries of a context hold maps, the candidate trie the map \<open>m\<close> of candidates.\<close>

definition context_ok :: "('w, 'c) node_config \<Rightarrow> (trie, 'd) PocContext \<Rightarrow> (bytes \<rightharpoonup> bytes) \<Rightarrow> bool" where
  "context_ok N = tries_ok (poc_holds (nc_keccak N)) (trie_iterable (nc_keccak N))"

definition draws_ok :: "('w, 'c) node_config \<Rightarrow> bool" where
  "draws_ok N \<longleftrightarrow> (\<forall>seed k n. 0 < n \<longrightarrow> nc_rnd N seed k n < n)"

lemma node_env_laws:
  "poc_service (ee_poc (node_env N)) (poc_holds (nc_keccak N)) (trie_iterable (nc_keccak N))" "state_backend (ee_state (node_env N))"
  using trie_poc_laws caching_backend.state_backend_axioms by (simp_all add: node_env_def)

section \<open>Properties\<close>

text \<open>
  C11. An election chooses the best candidates. On the tries of the node, when the block that
  \<open>tryElect\<close> works on starts a new epoch and the election succeeds, the validators of the new epoch are
  exactly \<open>maxValidatorSize\<close> distinct candidates, and every candidate that was not chosen has a smaller
  contribution in the account state than every validator, or an equal one and a greater hex form. The
  candidates are among those before the election. Assumed are a context whose tries hold maps that can
  be iterated, with 20-byte candidates that map to themselves, a state that keeps its invariant, and a
  generator that draws below its bound.
\<close>

theorem tryElect_best_candidates:
  assumes "draws_ok N" "context_ok N (ec_PocContext ec) m" "state_inv (ee_state (node_env N)) (ec_stateDB ec)"
    "go_quot (big_Int64 (h_Time parent)) epochInterval < go_quot (ec_TimeStamp ec) epochInterval"
    "tryElect (node_env N) first genesis parent ec = (None, ec')"
  shows "\<exists>m' vs. context_ok N (ec_PocContext ec') m' \<and> m' \<subseteq>\<^sub>m m \<and> fst (GetValidators (ee_poc (node_env N)) (ec_PocContext ec')) = Inr vs
    \<and> best_of (\<lambda>b. BytesToHash (nc_keccak N b)) (\<lambda>a. fst (GetContribution (ee_state (node_env N)) a (ec_stateDB ec))) (dom m') vs"
proof -
  have "\<forall>seed k n. 0 < n \<longrightarrow> ee_rnd (node_env N) seed k n < n" using assms(1) by (simp add: draws_ok_def node_env_def)
  from tryElect_best [OF node_env_laws this assms(2) [unfolded context_ok_def] assms(3-5)] show ?thesis
    by (simp add: context_ok_def node_env_def trie_poc_env_def)
qed

text \<open>
  C13. Removing inactive validators is safe: on the tries of the node, \<open>kickoutValidator\<close> removes only
  validators of the epoch from the candidates, and leaves at least \<open>safeSize\<close> candidates, or as many as
  there were; also when it returns an error.
\<close>

theorem kickoutValidator_safe:
  assumes "context_ok N (ec_PocContext ec) m" "fst (GetValidators (ee_poc (node_env N)) (ec_PocContext ec)) = Inr vs"
    "kickoutValidator (node_env N) first epoch ec = (e, ec')"
  shows "\<exists>m'. context_ok N (ec_PocContext ec') m' \<and> m' \<subseteq>\<^sub>m m \<and> dom m - dom m' \<subseteq> set vs \<and> min (card (dom m)) safeSize \<le> card (dom m')"
  using poc_service.kickoutValidator_spec [OF node_env_laws(1) refl assms(1) [unfolded context_ok_def] assms(3)] assms(2)
  by (auto simp: safe_removal_def context_ok_def)

text \<open>
  C30. Inside an epoch nothing is elected: when the parent block is of the same epoch, \<open>tryElect\<close>
  succeeds and leaves validators, candidates, contributions and the account state alone.
\<close>

theorem tryElect_same_epoch:
  assumes "go_quot (big_Int64 (h_Time parent)) epochInterval = go_quot (ec_TimeStamp ec) epochInterval"
  shows "\<exists>t. tryElect X first genesis parent ec = (None, ec\<lparr>ec_PocContext := (ec_PocContext ec)\<lparr>mintCntTrie := t\<rparr>\<rparr>)"
  using assms unfolding tryElect_def Let_def by (auto split: prod.split)

text \<open>
  C29. Validators take turns: at a time that is a multiple of \<open>blockInterval\<close> the block belongs to the
  validator at the number of the slot within the epoch, modulo the number of validators; at any
  other time \<open>lookupValidator\<close> refuses.
\<close>

theorem lookupValidator_turns:
  assumes "fst (GetValidators E pc) = Inr vs" "vs \<noteq> []" "0 \<le> now"
  shows "fst (lookupValidator E now pc) =
    (if blockInterval dvd now then Inr (vs ! (nat (now mod epochInterval div blockInterval) mod length vs))
     else Inl ErrInvalidMintBlockTime)"
proof -
  obtain pc1 where g: "GetValidators E pc = (Inr vs, pc1)" using assms(1) by (metis prod.collapse)
  have "now mod 360 mod 20 = now mod (20 :: int)" by (simp add: mod_mod_cancel)
  then have d: "go_rem (go_rem now epochInterval) blockInterval = 0 \<longleftrightarrow> blockInterval dvd now"
    using assms(3) by (simp add: go_rem_nonneg poc_consts dvd_eq_mod_eq_0)
  let ?o = "now mod epochInterval div blockInterval"
  have o: "0 \<le> ?o" "go_quot (go_rem now epochInterval) blockInterval = ?o"
    using assms(3) by (simp_all add: go_rem_nonneg go_quot_nonneg poc_consts)
  have m: "go_rem ?o (int (length vs)) = ?o mod int (length vs)" using o(1) assms(2) by (simp add: go_rem_nonneg)
  have "nat (?o mod int (length vs)) = nat ?o mod length vs" using o(1) by (simp add: nat_mod_distrib)
  moreover have "\<not> ?o mod int (length vs) < 0" using assms(2) by (simp add: not_less)
  ultimately show ?thesis
    using g d o m assms(2) by (simp add: lookupValidator_def Let_def)
qed

text \<open>
  C12. Elections never get stuck: with at least \<open>safeSize\<close> candidates, less than \<open>2 ^ 32\<close>, whose
  contributions are not negative and below \<open>256 ^ 32\<close>, mint counts of eight bytes and a validator list that can be decoded and is
  not empty, \<open>tryElect\<close> succeeds on the tries of the node, whatever the times of the block and of its parent.
\<close>

theorem tryElect_succeeds:
  assumes "draws_ok N" "\<forall>b. 4 \<le> length (nc_keccak512 N b)" "context_ok N (ec_PocContext ec) m" "state_inv (ee_state (node_env N)) (ec_stateDB ec)"
    "safeSize \<le> card (dom m)" "weights_ok (\<lambda>a. fst (GetContribution (ee_state (node_env N)) a (ec_stateDB ec))) m"
    "poc_holds (nc_keccak N) (mintCntTrie (ec_PocContext ec)) m2" "counts_ok (trie_iterable (nc_keccak N)) m2"
    "fst (GetValidators (ee_poc (node_env N)) (ec_PocContext ec)) = Inr vs" "vs \<noteq> []"
  shows "fst (tryElect (node_env N) first genesis parent ec) = None"
  by (rule tryElect_ok [OF node_env_laws _ _ assms(3) [unfolded context_ok_def] assms(4-10)])
    (use assms(1,2) in \<open>simp_all add: draws_ok_def node_env_def\<close>)

section \<open>An example\<close>

text \<open>A node with four candidates, three of which are the validators, and accounts without contributions.\<close>

definition sample_node :: "(MemDatabase, unit) node_config" where
  "sample_node =
     \<lparr>nc_keccak = tag_hash, nc_keccak512 = (\<lambda>_. replicate 64 0), nc_rnd = (\<lambda>_ _ _. 0), nc_Put = mem_Put,
      nc_Get = (\<lambda>c _. (None, c)), nc_Add = (\<lambda>c _ _. c), nc_db = NewDatabase () NewMemDatabase\<rparr>"

definition sample_addresses :: "address list" where
  "sample_addresses = map (replicate 20) [1, 2, 3, 4]"

definition sample_context :: "(trie, MemDatabase) PocContext" where
  "sample_context =
     (let E = ee_poc (node_env sample_node)
      in snd (SetValidators E (take 3 sample_addresses)
           (fold (\<lambda>a pc. snd (BecomeCandidate E a pc)) sample_addresses (projr (NewPocContext E (Some NewMemDatabase))))))"

definition sample_epoch :: "(trie, MemDatabase, SecureTrie) EpochContext" where
  "sample_epoch = \<lparr>ec_TimeStamp = 720, ec_PocContext = sample_context, ec_stateDB = fresh_state\<rparr>"

definition sample_map :: "bytes \<rightharpoonup> bytes" where
  "sample_map = fold (\<lambda>a m. m(a \<mapsto> a)) sample_addresses Map.empty"

lemma dom_sample_map: "dom sample_map = set sample_addresses" "card (dom sample_map) = 4"
proof -
  show d: "dom sample_map = set sample_addresses" by (auto simp: sample_map_def sample_addresses_def)
  have "distinct sample_addresses" by (simp add: sample_addresses_def)
  then show "card (dom sample_map) = 4" unfolding d using distinct_card by (fastforce simp: sample_addresses_def)
qed

lemma sample_candidates: "candidates_ok (trie_iterable tag_hash) sample_map"
  by (auto simp: candidates_ok_def sample_map_def sample_addresses_def iterable_tag_hash split: if_splits)

lemma sample_context_ok: "context_ok sample_node sample_context sample_map" "poc_holds tag_hash (mintCntTrie sample_context) Map.empty"
    "fst (GetValidators (ee_poc (node_env sample_node)) sample_context) = Inr (take 3 sample_addresses)"
proof -
  let ?E = "trie_poc_env tag_hash mem_Put"
  have E: "ee_poc (node_env sample_node) = ?E" by (simp add: node_env_def sample_node_def)
  obtain pc where pc: "NewPocContext ?E (Some NewMemDatabase) = Inr pc" "poc_holds tag_hash (epochTrie pc) Map.empty"
      "poc_holds tag_hash (contributionTrie pc) Map.empty" "poc_holds tag_hash (candidateTrie pc) Map.empty" "poc_holds tag_hash (mintCntTrie pc) Map.empty"
    using trie_poc.NewPocContext_empty by blast
  let ?pc = "fold (\<lambda>a pc. snd (BecomeCandidate ?E a pc)) sample_addresses pc"
  have "\<forall>a \<in> set sample_addresses. a \<noteq> []" by (auto simp: sample_addresses_def)
  note c = trie_poc.candidates_added [OF pc(4) this, of mem_Put, folded sample_map_def]
  have l: "\<forall>v \<in> set (take 3 sample_addresses). length v = 20" "length (take 3 sample_addresses) < 2 ^ 32"
    by (auto simp: sample_addresses_def)
  have s: "SetValidators ?E (take 3 sample_addresses) ?pc = (fst (SetValidators ?E (take 3 sample_addresses) ?pc), sample_context)"
    using pc(1) by (simp add: sample_context_def E Let_def)
  have e: "poc_holds tag_hash (epochTrie ?pc) Map.empty" using c pc(2) by simp
  note v = trie_poc.SetValidators_GetValidators [OF e l s]
  have f: "finite (dom sample_map)" by (simp add: dom_sample_map(1))
  show m: "poc_holds tag_hash (mintCntTrie sample_context) Map.empty" using v c pc(5) by simp
  show "fst (GetValidators (ee_poc (node_env sample_node)) sample_context) = Inr (take 3 sample_addresses)" using v by (simp add: E)
  show "context_ok sample_node sample_context sample_map"
    using v c pc(3,5) f sample_candidates iterable_tag_hash by (auto simp: context_ok_def tries_ok_def sample_node_def)
qed

lemma sample_state: "ee_state (node_env sample_node) = secure_database tag_hash NewMemDatabase"
  by (simp add: node_env_def sample_node_def secure_database_def)

lemma sample_contribution: "fst (GetContribution (ee_state (node_env sample_node)) a (ec_stateDB sample_epoch)) = 0"
  unfolding sample_state sample_epoch_def EpochContext.simps state_backend.answers(3) [OF secure_backend.state_backend_axioms fresh_state_ok(1)]
  by (simp add: acct_def acct_of_def base_empty fresh_state_def)

lemma sample_epoch_ok: "draws_ok sample_node" "\<forall>b. 4 \<le> length (nc_keccak512 sample_node b)"
    "context_ok sample_node (ec_PocContext sample_epoch) sample_map" "state_inv (ee_state (node_env sample_node)) (ec_stateDB sample_epoch)"
    "safeSize \<le> card (dom sample_map)"
    "weights_ok (\<lambda>a. fst (GetContribution (ee_state (node_env sample_node)) a (ec_stateDB sample_epoch))) sample_map"
    "poc_holds (nc_keccak sample_node) (mintCntTrie (ec_PocContext sample_epoch)) Map.empty" "counts_ok (trie_iterable (nc_keccak sample_node)) Map.empty"
    "fst (GetValidators (ee_poc (node_env sample_node)) (ec_PocContext sample_epoch)) = Inr (take 3 sample_addresses)" "take 3 sample_addresses \<noteq> []"
  unfolding sample_contribution
  using sample_context_ok fresh_state_ok iterable_tag_hash
  by (simp_all add: sample_epoch_def sample_state draws_ok_def dom_sample_map poc_consts weights_ok_def counts_ok_def sample_addresses_def)
    (simp_all add: sample_node_def)

theorem tryElect_succeeds_witness:
  "fst (tryElect (node_env sample_node) 0 (sample_header\<lparr>h_Time := 0\<rparr>) (sample_header\<lparr>h_Time := 340\<rparr>) sample_epoch) = None"
  by (rule tryElect_succeeds [OF sample_epoch_ok])

lemma sample_elects: "fst (tryElect (node_env sample_node) first genesis parent sample_epoch) = None"
  by (rule tryElect_ok [OF node_env_laws _ _ sample_epoch_ok(3) [unfolded context_ok_def] sample_epoch_ok(4-10)])
    (use sample_epoch_ok(1,2) in \<open>simp_all add: draws_ok_def node_env_def\<close>)

theorem tryElect_best_candidates_witness:
  "\<exists>ec' m' vs. tryElect (node_env sample_node) 0 (sample_header\<lparr>h_Time := 0\<rparr>) (sample_header\<lparr>h_Time := 340\<rparr>) sample_epoch = (None, ec')
     \<and> fst (GetValidators (ee_poc (node_env sample_node)) (ec_PocContext ec')) = Inr vs
     \<and> best_of (\<lambda>b. BytesToHash (nc_keccak sample_node b)) (\<lambda>_. 0) (dom m') vs \<and> m' \<subseteq>\<^sub>m sample_map"
proof -
  let ?g = "sample_header\<lparr>h_Time := 0\<rparr>" and ?p = "sample_header\<lparr>h_Time := 340\<rparr>"
  obtain ec' where e: "tryElect (node_env sample_node) 0 ?g ?p sample_epoch = (None, ec')"
    using sample_elects by (metis prod.collapse)
  have t: "go_quot (big_Int64 (h_Time ?p)) epochInterval < go_quot (ec_TimeStamp sample_epoch) epochInterval"
    by (simp add: sample_epoch_def big_Int64_def go_quot_def epochInterval_def i64_def)
  show ?thesis
    using tryElect_best_candidates [OF sample_epoch_ok(1,3,4) t e] e unfolding sample_contribution by blast
qed

theorem kickoutValidator_safe_witness:
  "\<exists>e ec' m'. kickoutValidator (node_env sample_node) 0 1 sample_epoch = (e, ec') \<and> context_ok sample_node (ec_PocContext ec') m'
     \<and> set sample_addresses - dom m' \<subseteq> set (take 3 sample_addresses) \<and> 3 \<le> card (dom m')"
proof -
  obtain e ec' where k: "kickoutValidator (node_env sample_node) 0 1 sample_epoch = (e, ec')"
    by (cases "kickoutValidator (node_env sample_node) 0 1 sample_epoch")
  show ?thesis
    using kickoutValidator_safe [OF sample_epoch_ok(3,9) k] k dom_sample_map by (auto simp: poc_consts)
qed

theorem tryElect_same_epoch_witness:
  "\<exists>t. tryElect (node_env sample_node) 0 (sample_header\<lparr>h_Time := 0\<rparr>) (sample_header\<lparr>h_Time := 1060\<rparr>) sample_epoch
     = (None, sample_epoch\<lparr>ec_PocContext := (ec_PocContext sample_epoch)\<lparr>mintCntTrie := t\<rparr>\<rparr>)"
  by (rule tryElect_same_epoch) (simp add: sample_epoch_def big_Int64_def go_quot_def epochInterval_def i64_def)

theorem lookupValidator_turns_witness:
  "fst (lookupValidator (ee_poc (node_env sample_node)) 400 sample_context) = Inr (replicate 20 3)
     \<and> fst (lookupValidator (ee_poc (node_env sample_node)) 405 sample_context) = Inl ErrInvalidMintBlockTime"
proof -
  have v: "take 3 sample_addresses \<noteq> []" by (simp add: sample_addresses_def)
  show ?thesis
    using lookupValidator_turns [OF sample_context_ok(3) v, of 400] lookupValidator_turns [OF sample_context_ok(3) v, of 405]
    by (simp add: poc_consts sample_addresses_def)
qed

end
