(* ===== verification/Poc_Safety.thy ===== *)
theory Poc_Safety
  imports Poc_Engine Poc_Election
begin

text \<open>
  Correctness of the consensus engine: what a verified header and a verified seal guarantee, that
  the walk to the confirmed block ends and what it confirms, that a sealed block verifies, the slots
  of time, and the count of minted blocks.
\<close>

section \<open>Signatures\<close>

text \<open>
  What the code relies on of the cache: it gives back only what was added under the same key. The
  cached signers were recovered from a header with the hash they are stored under.
\<close>

definition cache_laws :: "('t, 'w, 'd, 'c) engine_env \<Rightarrow> ('c \<Rightarrow> hash \<Rightarrow> address \<Rightarrow> bool) \<Rightarrow> bool" where
  "cache_laws N holds \<longleftrightarrow>
     (\<forall>c k a. fst (en_cache_Get N c k) = Some a \<longrightarrow> holds c k a)
     \<and> (\<forall>c k k' a'. holds (snd (en_cache_Get N c k)) k' a' \<longrightarrow> holds c k' a')
     \<and> (\<forall>c k a k' a'. holds (en_cache_Add N c k a) k' a' \<longrightarrow> k' = k \<and> a' = a \<or> holds c k' a')"

definition signed_by :: "('t, 'w, 'd, 'c) engine_env \<Rightarrow> hash \<Rightarrow> address \<Rightarrow> bool" where
  "signed_by N k a \<longleftrightarrow> (\<exists>h. Header_Hash (en_keccak N) h = k \<and> recover_signer N h = Inr a)"

definition cache_inv :: "('t, 'w, 'd, 'c) engine_env \<Rightarrow> ('c \<Rightarrow> hash \<Rightarrow> address \<Rightarrow> bool) \<Rightarrow> 'c \<Rightarrow> bool" where
  "cache_inv N holds c \<longleftrightarrow> (\<forall>k a. holds c k a \<longrightarrow> signed_by N k a)"

lemma ecrecover_sound:
  assumes "cache_laws N holds" "cache_inv N holds c" "ecrecover N h c = (r, c')"
  shows "cache_inv N holds c' \<and> (\<forall>a. r = Inr a \<longrightarrow> signed_by N (Header_Hash (en_keccak N) h) a)"
proof -
  let ?k = "Header_Hash (en_keccak N) h"
  obtain o1 c1 where g: "en_cache_Get N c ?k = (o1, c1)" by (cases "en_cache_Get N c ?k")
  have i1: "cache_inv N holds c1" using assms(1,2) g unfolding cache_inv_def cache_laws_def by (metis snd_conv)
  show ?thesis
  proof (cases o1)
    case (Some a)
    then have "holds c ?k a" using assms(1) g unfolding cache_laws_def by (metis fst_conv)
    then show ?thesis using assms(2,3) g Some i1 by (auto simp: ecrecover_def cache_inv_def)
  next
    case None
    show ?thesis
    proof (cases "recover_signer N h")
      case (Inl e)
      then show ?thesis using assms(3) g None i1 by (auto simp: ecrecover_def)
    next
      case (Inr a)
      then have "signed_by N ?k a" by (auto simp: signed_by_def)
      moreover have "r = Inr a" "c' = en_cache_Add N c1 ?k a" using assms(3) g None Inr by (auto simp: ecrecover_def)
      ultimately show ?thesis using assms(1) i1 unfolding cache_inv_def cache_laws_def by (metis sum.inject(2))
    qed
  qed
qed

lemma verifyBlockSigner_sound:
  assumes "cache_laws N holds" "cache_inv N holds (poc_signatures d)" "verifyBlockSigner N v h d = (e, d')"
  shows "cache_inv N holds (poc_signatures d') \<and> d' = d\<lparr>poc_signatures := poc_signatures d'\<rparr>
    \<and> (e = None \<longrightarrow> h_Validator h = v \<and> signed_by N (Header_Hash (en_keccak N) h) v)"
proof -
  obtain r c where r: "ecrecover N h (poc_signatures d) = (r, c)" by (cases "ecrecover N h (poc_signatures d)")
  note s = ecrecover_sound [OF assms(1,2) r]
  have "d' = d\<lparr>poc_signatures := c\<rparr>" using assms(3) r by (auto simp: verifyBlockSigner_def Let_def split: sum.splits if_splits)
  then show ?thesis using s assms(3) r by (auto simp: verifyBlockSigner_def Let_def split: sum.splits if_splits)
qed

text \<open>The validator whose turn it is by the context of the parent.\<close>

definition scheduled :: "('t, 'w, 'd, 'c) engine_env \<Rightarrow> ChainReader \<Rightarrow> 'd \<Rightarrow> Header \<Rightarrow> Header list \<Rightarrow> address \<Rightarrow> bool" where
  "scheduled N chain db header parents v \<longleftrightarrow>
     (\<exists>num parent proto pc. h_Number header = Some num \<and> big_Uint64 num \<noteq> 0 \<and> parent_of chain header (big_Uint64 num) parents = Some parent
        \<and> h_PocContext parent = Some proto \<and> NewPocContextFromProto (en_poc N) (Some db) proto = Inr pc
        \<and> fst (lookupValidator (en_poc N) (big_Int64 (h_Time header)) pc) = Inr v)"

lemma check_seal_sound:
  assumes "cache_laws N holds" "cache_inv N holds (poc_signatures d)" "check_seal N chain header parents d = (e, d')"
  shows "cache_inv N holds (poc_signatures d') \<and> d' = d\<lparr>poc_signatures := poc_signatures d'\<rparr>
    \<and> (e = None \<longrightarrow> scheduled N chain (poc_db d) header parents (h_Validator header)
         \<and> signed_by N (Header_Hash (en_keccak N) header) (h_Validator header))"
proof (cases "\<exists>v. scheduled N chain (poc_db d) header parents v")
  case True
  then obtain v where v: "scheduled N chain (poc_db d) header parents v" by blast
  then have "verifyBlockSigner N v header d = (e, d')" using assms(3) by (auto simp: check_seal_def scheduled_def)
  then show ?thesis using verifyBlockSigner_sound [OF assms(1,2)] v by blast
next
  case False
  then have "d' = d \<and> e \<noteq> None"
    using assms(3) by (auto simp: check_seal_def scheduled_def Let_def split: option.splits if_splits sum.splits)
  then show ?thesis using assms(2) by auto
qed

section \<open>The confirmed block\<close>

text \<open>The headers of a walk back, from the newest on, each the parent of the one before.\<close>

fun walk :: "ChainReader \<Rightarrow> Header list \<Rightarrow> bool" where
  "walk chain (h # p # hs) \<longleftrightarrow> cr_GetHeaderByHash chain (h_ParentHash h) = Some p \<and> walk chain (p # hs)"
| "walk chain _ \<longleftrightarrow> True"

lemma walk_snoc: "walk chain (hs @ [h]) \<Longrightarrow> cr_GetHeaderByHash chain (h_ParentHash h) = Some p \<Longrightarrow> walk chain (hs @ [h, p])"
proof (induction hs)
  case (Cons x hs)
  then show ?case by (cases hs) auto
qed simp

abbreviation epoch_of :: "Header \<Rightarrow> int" where
  "epoch_of h \<equiv> go_quot (big_Int64 (h_Time h)) epochInterval"

text \<open>
  The header \<open>h\<close> is confirmed by the headers \<open>hs\<close> of its epoch, which end with \<open>h\<close> and lie on the way
  back from \<open>cur\<close>: they are of at least \<open>consensusSize\<close> validators.
\<close>

definition confirms :: "ChainReader \<Rightarrow> Header \<Rightarrow> Header list \<Rightarrow> Header \<Rightarrow> bool" where
  "confirms chain cur hs h \<longleftrightarrow>
     (\<exists>pre. walk chain (pre @ hs) \<and> hd (pre @ hs) = cur) \<and> hs \<noteq> [] \<and> last hs = h
     \<and> (\<forall>x \<in> set hs. epoch_of x = epoch_of h) \<and> consensusSize \<le> card (h_Validator ` set hs)"

definition newer :: "Header \<Rightarrow> Header \<Rightarrow> bool" where
  "newer h c \<longleftrightarrow> (\<exists>n cn. h_Number h = Some n \<and> h_Number c = Some cn \<and> big_Uint64 cn < big_Uint64 n)"

text \<open>What the walk has seen: the validators of the headers \<open>hs\<close> of the epoch \<open>epoch\<close>, after \<open>pre\<close> from \<open>start\<close> on.\<close>

definition walked :: "ChainReader \<Rightarrow> Header \<Rightarrow> Header \<Rightarrow> int \<Rightarrow> address list \<Rightarrow> bool" where
  "walked chain start cur epoch seen \<longleftrightarrow>
     (\<exists>pre hs. walk chain (pre @ hs @ [cur]) \<and> hd (pre @ hs @ [cur]) = start \<and> (\<forall>x \<in> set hs. epoch_of x = epoch)
        \<and> distinct seen \<and> set seen = h_Validator ` set hs)"

lemma walked_start: "walked chain cur cur epoch []"
  unfolding walked_def by (rule exI [of _ "[]"], rule exI [of _ "[]"]) simp

text \<open>The visit of one header.\<close>

lemma walked_visit:
  assumes "walked chain start cur epoch seen" "seen1 = (if epoch_of cur \<noteq> epoch then [] else seen)"
    "seen2 = List.insert (h_Validator cur) seen1"
  shows "\<exists>pre hs. walk chain (pre @ hs) \<and> hd (pre @ hs) = start \<and> hs \<noteq> [] \<and> last hs = cur \<and> (\<forall>x \<in> set hs. epoch_of x = epoch_of cur)
    \<and> distinct seen2 \<and> set seen2 = h_Validator ` set hs"
proof -
  obtain pre hs where w: "walk chain (pre @ hs @ [cur])" "hd (pre @ hs @ [cur]) = start" "\<forall>x \<in> set hs. epoch_of x = epoch"
      "distinct seen" "set seen = h_Validator ` set hs"
    using assms(1) by (auto simp: walked_def)
  show ?thesis
  proof (cases "epoch_of cur = epoch")
    case True
    then show ?thesis using w assms(2,3) by (intro exI [of _ pre] exI [of _ "hs @ [cur]"]) auto
  next
    case False
    then show ?thesis using w assms(2,3) by (intro exI [of _ "pre @ hs"] exI [of _ "[cur]"]) auto
  qed
qed

lemma walked_step:
  assumes "walked chain start cur epoch seen" "seen1 = (if epoch_of cur \<noteq> epoch then [] else seen)"
    "seen2 = List.insert (h_Validator cur) seen1" "cr_GetHeaderByHash chain (h_ParentHash cur) = Some p"
  shows "walked chain start p (epoch_of cur) seen2"
proof -
  obtain pre hs where w: "walk chain (pre @ hs)" "hd (pre @ hs) = start" "hs \<noteq> []" "last hs = cur" "\<forall>x \<in> set hs. epoch_of x = epoch_of cur"
      "distinct seen2" "set seen2 = h_Validator ` set hs"
    using walked_visit [OF assms(1-3)] by blast
  obtain ys where ys: "hs = ys @ [cur]" using w(3,4) by (metis append_butlast_last_id)
  have "walk chain ((pre @ ys) @ [cur, p])" using w(1) ys assms(4) by (intro walk_snoc) simp_all
  then have "walk chain (pre @ hs @ [p])" using ys by simp
  moreover have "hd (pre @ hs @ [p]) = start" using w(2,3) by (cases pre) auto
  ultimately show ?thesis using w(5,6,7) unfolding walked_def by blast
qed

lemma walked_confirms:
  assumes "walked chain start cur epoch seen" "seen1 = (if epoch_of cur \<noteq> epoch then [] else seen)"
    "seen2 = List.insert (h_Validator cur) seen1" "consensusSize \<le> length seen2"
  shows "\<exists>hs. confirms chain start hs cur"
proof -
  obtain pre hs where w: "walk chain (pre @ hs)" "hd (pre @ hs) = start" "hs \<noteq> []" "last hs = cur" "\<forall>x \<in> set hs. epoch_of x = epoch_of cur"
      "distinct seen2" "set seen2 = h_Validator ` set hs"
    using walked_visit [OF assms(1-3)] by blast
  then have "consensusSize \<le> card (h_Validator ` set hs)" using assms(4) distinct_card by fastforce
  then show ?thesis using w unfolding confirms_def by blast
qed

lemma confirm_walk_confirms:
  assumes "confirm_walk keccak chain c cur epoch seen = Some r"
  shows "walked chain start cur epoch seen \<longrightarrow> (\<forall>h. r = Inr (Some h) \<longrightarrow> (\<exists>hs. confirms chain start hs h) \<and> newer h c)"
proof (rule confirm_walk.raw_induct [where P = "\<lambda>keccak chain c cur epoch seen r. walked chain start cur epoch seen \<longrightarrow>
    (\<forall>h. r = Inr (Some h) \<longrightarrow> (\<exists>hs. confirms chain start hs h) \<and> newer h c)", OF _ assms], intro impI allI)
  fix walk_rec :: "(bytes \<Rightarrow> hash) \<Rightarrow> ChainReader \<Rightarrow> Header \<Rightarrow> Header \<Rightarrow> int \<Rightarrow> address list \<Rightarrow> (engine_error + Header option) option"
  fix keccak chain c cur epoch seen r h
  assume ih: "\<And>keccak chain c cur epoch seen r. walk_rec keccak chain c cur epoch seen = Some r \<Longrightarrow> walked chain start cur epoch seen \<longrightarrow>
      (\<forall>h. r = Inr (Some h) \<longrightarrow> (\<exists>hs. confirms chain start hs h) \<and> newer h c)"
  assume body: "(case (h_Number c, h_Number cur) of
        (Some cn, Some n) \<Rightarrow>
          if Header_Hash keccak c \<noteq> Header_Hash keccak cur \<and> big_Uint64 cn < big_Uint64 n then
            (let curEpoch = epoch_of cur; seen1 = (if curEpoch \<noteq> epoch then [] else seen)
             in if i64 (big_Int64 n - big_Int64 cn) < int consensusSize - int (length seen1) then Some (Inr None)
                else
                  (let seen2 = List.insert (h_Validator cur) seen1
                   in if length seen2 \<ge> consensusSize then Some (Inr (Some cur))
                      else (case cr_GetHeaderByHash chain (h_ParentHash cur) of
                          None \<Rightarrow> Some (Inl ErrNilBlockHeader)
                        | Some p \<Rightarrow> walk_rec keccak chain c p curEpoch seen2)))
          else Some (Inr None)
      | _ \<Rightarrow> if Header_Hash keccak c \<noteq> Header_Hash keccak cur then Some (Inl EnginePanic) else Some (Inr None)) = Some r"
  assume w: "walked chain start cur epoch seen" and r: "r = Inr (Some h)"
  define seen1 where "seen1 = (if epoch_of cur \<noteq> epoch then [] else seen)"
  define seen2 where "seen2 = List.insert (h_Validator cur) seen1"
  obtain cn n where n: "h_Number c = Some cn" "h_Number cur = Some n" "big_Uint64 cn < big_Uint64 n"
    using body r by (cases "h_Number c"; cases "h_Number cur") (auto split: if_splits)
  show "(\<exists>hs. confirms chain start hs h) \<and> newer h c"
  proof (cases "consensusSize \<le> length seen2")
    case True
    then have "h = cur" using body r n unfolding Let_def seen1_def [symmetric] seen2_def [symmetric] by (simp split: if_splits)
    then show ?thesis using walked_confirms [OF w seen1_def seen2_def True] n by (auto simp: newer_def)
  next
    case False
    obtain p where p: "cr_GetHeaderByHash chain (h_ParentHash cur) = Some p" "walk_rec keccak chain c p (epoch_of cur) seen2 = Some r"
      using body r n False unfolding Let_def seen1_def [symmetric] seen2_def [symmetric] by (simp split: if_splits option.splits)
    show ?thesis using ih [OF p(2)] walked_step [OF w seen1_def seen2_def p(1)] r by blast
  qed
qed

text \<open>On a chain whose headers have numbers, smaller ones at the parents, the walk ends.\<close>

definition numbered :: "ChainReader \<Rightarrow> bool" where
  "numbered chain \<longleftrightarrow>
     (\<forall>h. cr_CurrentHeader chain = Some h \<or> (\<exists>k. cr_GetHeaderByHash chain k = Some h) \<longrightarrow>
        (\<forall>p. cr_GetHeaderByHash chain (h_ParentHash h) = Some p \<longrightarrow> newer h p))"

lemma confirm_walk_ends:
  assumes "numbered chain"
  shows "cr_CurrentHeader chain = Some cur \<or> (\<exists>k. cr_GetHeaderByHash chain k = Some cur) \<Longrightarrow>
    \<exists>r. confirm_walk keccak chain c cur epoch seen = Some r"
proof (induction "unat (big_Uint64 (the (h_Number cur)))" arbitrary: cur epoch seen rule: less_induct)
  case less
  define seen2 where "seen2 = List.insert (h_Validator cur) (if epoch_of cur \<noteq> epoch then [] else seen)"
  have p: "\<exists>r. confirm_walk keccak chain c p (epoch_of cur) seen2 = Some r" if "cr_GetHeaderByHash chain (h_ParentHash cur) = Some p" for p
  proof -
    have "newer cur p" using assms less.prems that by (auto simp: numbered_def)
    then have "unat (big_Uint64 (the (h_Number p))) < unat (big_Uint64 (the (h_Number cur)))"
      by (auto simp: newer_def word_less_nat_alt)
    then show ?thesis using less.hyps that by blast
  qed
  show ?case
    using p unfolding confirm_walk.simps [of keccak chain c cur epoch seen] Let_def seen2_def
    by (auto split: option.split)
qed

lemma updateConfirmedBlockHeader_ends:
  assumes "numbered chain"
  shows "\<exists>r. updateConfirmedBlockHeader N chain d = Some r"
proof (cases "confirmed_start N chain d")
  case (Inr c)
  show ?thesis
  proof (cases "cr_CurrentHeader chain")
    case (Some cur)
    then obtain r where "confirm_walk (en_keccak N) chain c cur (- 1) [] = Some r" using confirm_walk_ends [OF assms] by blast
    then show ?thesis using Inr Some by (simp add: updateConfirmedBlockHeader_def Let_def)
  qed (simp add: updateConfirmedBlockHeader_def Let_def Inr)
qed (simp add: updateConfirmedBlockHeader_def)

lemma updateConfirmedBlockHeader_spec:
  assumes "updateConfirmedBlockHeader N chain d = Some (e, d')" "confirmed_start N chain d = Inr c" "cr_CurrentHeader chain = Some cur"
  shows "poc_confirmedBlockHeader d' = Some c \<or> (\<exists>h hs. poc_confirmedBlockHeader d' = Some h \<and> confirms chain cur hs h \<and> newer h c)"
proof -
  obtain r where r: "confirm_walk (en_keccak N) chain c cur (- 1) [] = Some r"
    using assms by (auto simp: updateConfirmedBlockHeader_def Let_def)
  show ?thesis
  proof (cases "\<exists>h. r = Inr (Some h)")
    case True
    then obtain h where h: "r = Inr (Some h)" by blast
    have "poc_confirmedBlockHeader d' = Some h"
      using assms r h by (auto simp: updateConfirmedBlockHeader_def storeConfirmedBlockHeader_def Let_def split: option.splits)
    then show ?thesis using confirm_walk_confirms [OF r, of cur] walked_start h by blast
  next
    case False
    then show ?thesis
      using assms r by (auto simp: updateConfirmedBlockHeader_def Let_def split: sum.splits option.splits)
  qed
qed

section \<open>Sealing\<close>

lemma copy_at_end: "length sig = k \<Longrightarrow> k \<le> length xs \<Longrightarrow> snd (copy_at xs (length xs - k) sig) = take (length xs - k) xs @ sig"
  by (simp add: copy_at_def Let_def)

lemma sigHash_sealed:
  assumes "65 \<le> length (h_Extra h)" "length sig = 65"
  shows "sigHash keccak (h\<lparr>h_Extra := take (length (h_Extra h) - 65) (h_Extra h) @ sig\<rparr>) = sigHash keccak h"
  using assms by (cases "h_PocContext h") (simp_all add: sigHash_def)

lemma Seal_recovers:
  assumes "\<And>h sig. poc_signFn d (poc_signer d) h = Some sig \<Longrightarrow>
      length sig = 65 \<and> (\<exists>b pk. en_Ecrecover N h sig = Some (b # pk) \<and> take 20 (drop 12 (en_keccak N pk)) = poc_signer d)"
    "Seal N block now stopped d = Inr (Some sealed)"
  shows "recover_signer N sealed = Inr (poc_signer d) \<and> sealed = (CopyHeader block)\<lparr>h_Extra := h_Extra sealed\<rparr>
    \<and> take (length (h_Extra block) - 65) (h_Extra sealed) = take (length (h_Extra block) - 65) (h_Extra block)"
proof -
  let ?h = "CopyHeader block"
  obtain hash sig where s: "sigHash (en_keccak N) ?h = Some hash" "poc_signFn d (poc_signer d) hash = Some sig"
      "sealed = ?h\<lparr>h_Extra := snd (copy_at (h_Extra ?h) (length (h_Extra ?h) - 65) sig)\<rparr>"
    using assms(2) by (auto simp: Seal_def Let_def extraSeal_def split: if_splits option.splits)
  have l: "65 \<le> length (h_Extra ?h)" using s(1) by (auto simp: sigHash_def split: if_splits)
  obtain b pk where r: "length sig = 65" "en_Ecrecover N hash sig = Some (b # pk)" "take 20 (drop 12 (en_keccak N pk)) = poc_signer d"
    using assms(1) [OF s(2)] by blast
  have x: "sealed = ?h\<lparr>h_Extra := take (length (h_Extra ?h) - 65) (h_Extra ?h) @ sig\<rparr>" using s(3) copy_at_end [OF r(1) l] by simp
  have sh: "sigHash (en_keccak N) sealed = Some hash" unfolding x sigHash_sealed [OF l r(1)] by (rule s(1))
  have dr: "drop (length (h_Extra sealed) - 65) (h_Extra sealed) = sig" "65 \<le> length (h_Extra sealed)" using x l r(1) by simp_all
  have "recover_signer N sealed = Inr (poc_signer d)"
    using sh dr r by (simp add: recover_signer_def extraSeal_def Let_def)
  moreover have "h_Extra ?h = h_Extra block" by (simp add: CopyHeader_def)
  ultimately show ?thesis using x l by auto
qed

section \<open>Slots\<close>

lemma slots:
  assumes "1 \<le> now" "now < 2 ^ 63 - 20"
  shows "PrevSlot now = (now - 1) div 20 * 20" "NextSlot now = PrevSlot now + 20" "PrevSlot now < now" "now \<le> NextSlot now"
    "20 dvd PrevSlot now" "20 dvd NextSlot now" "i64 (NextSlot now - now) = NextSlot now - now"
proof -
  have id: "i64 x = x" if "0 \<le> x" "x < 2 ^ 63" for x using that by (simp add: i64_id i64_range_def)
  have d: "(now - 1) div 20 * 20 \<le> now - 1" "now - 1 < (now - 1) div 20 * 20 + 20" by simp_all
  have n: "(now + 20 - 1) div 20 = (now - 1) div 20 + 1" by simp
  have nn: "0 \<le> (now - 1) div 20" using assms(1) by simp
  show p: "PrevSlot now = (now - 1) div 20 * 20"
    using assms d nn by (simp add: PrevSlot_def blockInterval_def go_quot_nonneg id)
  have "NextSlot now = i64 (go_quot (now + 20 - 1) 20 * 20)"
    using assms by (simp add: NextSlot_def blockInterval_def id)
  also have "\<dots> = ((now - 1) div 20 + 1) * 20"
    using assms d nn n id [of "((now - 1) div 20 + 1) * 20"] go_quot_nonneg [of "now + 20 - 1" 20] by simp
  finally show q: "NextSlot now = PrevSlot now + 20" using p by simp
  show "PrevSlot now < now" "now \<le> NextSlot now" using d p q by simp_all
  show "20 dvd PrevSlot now" using p by simp
  then show "20 dvd NextSlot now" using q by simp
  show "i64 (NextSlot now - now) = NextSlot now - now" using d p q by (intro id) simp_all
qed

lemma next_slot_of_slot:
  assumes "1 \<le> now" "now < 2 ^ 63 - 20" "20 dvd now"
  shows "NextSlot now = now"
proof -
  obtain k where k: "now = 20 * k" using assms(3) by blast
  have "(now - 1) div 20 = k - 1" using k by simp
  then show ?thesis using slots(1,2) [OF assms(1,2)] k by simp
qed

lemma lookupValidator_slot:
  assumes "fst (lookupValidator E now pc) = Inr v" "0 \<le> now"
  shows "20 dvd now"
proof -
  have "go_rem (go_rem now 360) 20 = 0"
    using assms(1) by (auto simp: lookupValidator_def Let_def epochInterval_def blockInterval_def split: if_splits)
  then have "now mod 360 mod 20 = 0" using assms(2) by (simp add: go_rem_nonneg)
  then show ?thesis by (simp add: mod_mod_cancel dvd_eq_mod_eq_0)
qed

section \<open>Minted blocks\<close>

lemma BigEndian_PutUint64: "BigEndian_Uint64 (PutUint64 w) = Some w"
proof -
  have "unat w < 256 ^ 8" using unsigned_less [of w] by simp
  then show ?thesis by (simp add: BigEndian_Uint64_def PutUint64_def be_val_be_fixed)
qed

lemma PutUint64_ne: "PutUint64 w \<noteq> []"
  by (simp add: PutUint64_def flip: length_greater_0_conv)

lemma mint_key_eq:
  assumes "i64_range e" "i64_range e'"
  shows "mint_key e v = mint_key e' v' \<longleftrightarrow> e = e' \<and> v = v'"
proof -
  have "e = e'" if "PutUint64 (word_of_int e) = PutUint64 (word_of_int e')"
  proof -
    have "(word_of_int e :: u64) = word_of_int e'" using that BigEndian_PutUint64 by (metis option.inject)
    then have "e mod 2 ^ 64 = e' mod 2 ^ 64" by (simp add: word_of_int_eq_iff take_bit_eq_mod)
    then have "i64 e = i64 e'" unfolding i64_def by (metis mod_add_left_eq)
    then show ?thesis using assms by (simp add: i64_id)
  qed
  then show ?thesis by (auto simp: mint_key_def PutUint64_def)
qed

text \<open>The count that is stored for a validator, as \<open>mint_count\<close> reads it.\<close>

definition stored_count :: "bytes option \<Rightarrow> int" where
  "stored_count b = (case b of None \<Rightarrow> 0 | Some c \<Rightarrow> sint (the (BigEndian_Uint64 c)))"

lemma counts_ok_long: "counts_ok I m \<Longrightarrow> \<forall>k v. m k = Some v \<longrightarrow> 8 \<le> length v"
  by (simp add: counts_ok_def)

context poc_service
begin

lemma mint_count_value:
  assumes "represents (mintCntTrie pc) m" "\<forall>k v. m k = Some v \<longrightarrow> 8 \<le> length v"
  shows "fst (mint_count E e a pc) = Inr (stored_count (m (mint_key e a)))"
  using Get_law [OF assms(1), of "mint_key e a"] assms(2) [rule_format, of "mint_key e a"]
  by (cases "m (mint_key e a)") (auto simp: mint_count_def stored_count_def BigEndian_Uint64_def split: prod.splits)

lemma updateMintCnt_spec:
  assumes "represents (mintCntTrie pc) m" "counts_ok iterable m" "updateMintCnt E pt ct v pc = (e, pc')"
  defines "ce \<equiv> go_quot pt epochInterval" and "ne \<equiv> go_quot ct epochInterval"
  shows "e = None \<and> represents (mintCntTrie pc') (m(mint_key ne v \<mapsto>
      PutUint64 (if ce = ne then (case m (mint_key ce v) of None \<Rightarrow> 1 | Some b \<Rightarrow> the (BigEndian_Uint64 b) + 1) else 1)))"
proof -
  let ?start = "PutUint64 (word_of_int ce)"
  obtain vs t where it: "api_NodeIterator (pe_trie E) (mintCntTrie pc) ?start = (vs, t)" by (cases "api_NodeIterator (pe_trie E) (mintCntTrie pc) ?start")
  obtain ks where ks: "keys_from m ?start ks" "vs = map (the \<circ> m) ks" "represents t m" using iterator_law [OF assms(1), of ?start] assms(2) it by (auto simp: counts_ok_def)
  obtain b t2 where g: "api_Get (pe_trie E) t (mint_key ce v) = (b, t2)" by (cases "api_Get (pe_trie E) t (mint_key ce v)")
  have b: "b = m (mint_key ce v)" "represents t2 m" using Get_law [OF ks(3), of "mint_key ce v"] g by auto
  have none: "m (mint_key ce v) = None" if "vs = []"
    using that ks(1,2) not_before_extend [of ?start v] by (auto simp: keys_from_def mint_key_def)
  have upd: "represents (snd (api_TryUpdate (pe_trie E) x k (PutUint64 c))) (m(k \<mapsto> PutUint64 c))" if "represents x m" for x k c
    using update_law [OF that, of k "PutUint64 c"] PutUint64_ne [of c] by (simp add: trie_api.defs fun_upd_def)
  have c8: "\<exists>w. BigEndian_Uint64 c = Some w" if "m k = Some c" for k c using assms(2) [unfolded counts_ok_def, THEN conjunct2, rule_format, OF that] by (simp add: BigEndian_Uint64_def)
  show ?thesis
  proof (cases "ce = ne \<and> vs \<noteq> []")
    case True
    show ?thesis
    proof (cases "m (mint_key ce v)")
      case None
      then show ?thesis
        using True assms(3) it g b upd [OF b(2)] unfolding updateMintCnt_def ce_def [symmetric] ne_def [symmetric] by (auto simp: Let_def)
    next
      case (Some a)
      obtain w where "BigEndian_Uint64 a = Some w" using c8 [OF Some] by blast
      then show ?thesis
        using True Some assms(3) it g b upd [OF b(2)] unfolding updateMintCnt_def ce_def [symmetric] ne_def [symmetric] by (auto simp: Let_def)
    qed
  next
    case False
    then show ?thesis
      using assms(1,3) it ks(3) none upd unfolding updateMintCnt_def ce_def [symmetric] ne_def [symmetric]
      by (auto simp: Let_def split: if_splits)
  qed
qed

end


section \<open>Headers\<close>

lemma verifyHeader_parent:
  assumes "verifyHeader keccak now chain h (ps @ [p]) = None"
  shows "\<exists>n pn. h_Number h = Some n \<and> h_Number p = Some pn \<and> big_Uint64 pn = big_Uint64 n - 1 \<and> h_ParentHash h = Header_Hash keccak p
    \<and> big_Uint64 (h_Time p) + 20 \<le> big_Uint64 (h_Time h) \<and> h_Time h \<le> now"
  using assms
  by (auto simp: verifyHeader_def verify_ancestor_def parent_of_def blockInterval_def Let_def split: option.splits if_splits)

lemma VerifyHeaders_nil:
  assumes "VerifyHeaders keccak now aborted chain hs = replicate (length hs) None" "i < length hs"
  shows "verifyHeader keccak (now i) chain (hs ! i) (take i hs) = None"
proof -
  let ?is = "takeWhile (\<lambda>i. \<not> aborted i) [0..<length hs]"
  have "length ?is = length hs" using arg_cong [OF assms(1), of length] by (simp add: VerifyHeaders_def)
  then have all: "?is = [0..<length hs]" by (metis length_upt diff_zero takeWhile_eq_take take_all order_refl)
  have "VerifyHeaders keccak now aborted chain hs ! i = verifyHeader keccak (now i) chain (hs ! i) (take i hs)"
    unfolding VerifyHeaders_def all using assms(2) by simp
  then show ?thesis using assms by simp
qed

lemma VerifyHeaders_step:
  assumes "VerifyHeaders keccak now aborted chain hs = replicate (length hs) None" "Suc i < length hs"
  shows "verifyHeader keccak (now (Suc i)) chain (hs ! Suc i) (take i hs @ [hs ! i]) = None"
  using VerifyHeaders_nil [OF assms] assms(2) by (simp add: take_Suc_conv_app_nth)

lemma VerifyHeaders_not_future:
  assumes "VerifyHeaders keccak now aborted chain hs = replicate (length hs) None" "i < length hs"
  shows "h_Time (hs ! i) \<le> now i"
  using VerifyHeaders_nil [OF assms] by (auto simp: verifyHeader_def Let_def split: option.splits if_splits)

lemma big_Uint64_less_imp:
  assumes "0 \<le> t" "t < 2 ^ 63" "0 \<le> u" "u < 2 ^ 63" "big_Uint64 t + 20 \<le> big_Uint64 u"
  shows "t + 20 \<le> u"
proof -
  have t: "uint (big_Uint64 t) = t" "uint (big_Uint64 u) = u" using assms(1-4) by (simp_all add: big_Uint64_def uint_word_of_int)
  have "uint (big_Uint64 t + 20) = t + 20" using assms(1,2) t(1) by (subst uint_plus_simple_iff [THEN iffD1]) (simp_all add: word_le_def uint_word_ariths)
  then show ?thesis using assms(5) t(2) by (simp add: word_le_def)
qed

lemma VerifyHeaders_times:
  assumes "VerifyHeaders keccak now aborted chain hs = replicate (length hs) None" "\<forall>i. now i < 2 ^ 63" "\<forall>h \<in> set hs. 0 \<le> h_Time h" "i < j" "j < length hs"
  shows "h_Time (hs ! i) + 20 * int (j - i) \<le> h_Time (hs ! j)"
  using assms(4,5)
proof (induction j)
  case (Suc j)
  have le: "h_Time (hs ! k) < 2 ^ 63" if "k < length hs" for k
    using VerifyHeaders_not_future [OF assms(1) that] assms(2) le_less_trans by blast
  have "big_Uint64 (h_Time (hs ! j)) + 20 \<le> big_Uint64 (h_Time (hs ! Suc j))"
    using verifyHeader_parent [OF VerifyHeaders_step [OF assms(1) Suc.prems(2)]] by blast
  then have s: "h_Time (hs ! j) + 20 \<le> h_Time (hs ! Suc j)"
    using big_Uint64_less_imp [of "h_Time (hs ! j)" "h_Time (hs ! Suc j)"] le [of j] le [of "Suc j"] assms(3) Suc.prems(2) by simp
  then show ?case using Suc by (cases "i = j") (auto simp: Suc_diff_le)
qed simp

lemma updateConfirmedBlockHeader_signatures:
  assumes "updateConfirmedBlockHeader N chain d = Some (e, d')"
  shows "poc_signatures d' = poc_signatures d"
proof (cases "\<exists>c cur r. confirmed_start N chain d = Inr c \<and> cr_CurrentHeader chain = Some cur \<and> confirm_walk (en_keccak N) chain c cur (- 1) [] = Some r")
  case True
  then obtain c cur r where r: "confirmed_start N chain d = Inr c" "cr_CurrentHeader chain = Some cur"
      "confirm_walk (en_keccak N) chain c cur (- 1) [] = Some r" by blast
  then have "(case r of Inl e \<Rightarrow> (Some e, d\<lparr>poc_confirmedBlockHeader := Some c\<rparr>) | Inr None \<Rightarrow> (None, d\<lparr>poc_confirmedBlockHeader := Some c\<rparr>)
      | Inr (Some h) \<Rightarrow> storeConfirmedBlockHeader N h (d\<lparr>poc_confirmedBlockHeader := Some c, poc_confirmedBlockHeader := Some h\<rparr>)) = (e, d')"
    using assms by (simp add: updateConfirmedBlockHeader_def Let_def)
  then show ?thesis by (auto simp: storeConfirmedBlockHeader_def split: sum.splits option.splits)
next
  case False
  then show ?thesis using assms by (auto simp: updateConfirmedBlockHeader_def Let_def split: sum.splits option.splits)
qed

section \<open>Properties\<close>

text \<open>
  C14. A verified seal is authentic: when \<open>verifySeal\<close> accepts a header, the address in it is that of
  the validator whose turn it is by the context of the parent, and its signature was recovered from
  a header with the same hash. The cache of signatures stays sound.
\<close>

theorem verifySeal_authentic:
  assumes "cache_laws N holds" "cache_inv N holds (poc_signatures d)" "verifySeal N chain header parents d = Some (None, d')"
  shows "scheduled N chain (poc_db d) header parents (h_Validator header)
    \<and> signed_by N (Header_Hash (en_keccak N) header) (h_Validator header) \<and> cache_inv N holds (poc_signatures d')"
proof -
  obtain e1 d1 where c: "check_seal N chain header parents d = (e1, d1)" by (cases "check_seal N chain header parents d")
  have "e1 = None" "updateConfirmedBlockHeader N chain d1 = Some (None, d')"
    using assms(3) c by (auto simp: verifySeal_def split: option.splits)
  then show ?thesis
    using check_seal_sound [OF assms(1,2) c] updateConfirmedBlockHeader_signatures by metis
qed

text \<open>
  C17. Verified headers form a chain: when \<open>VerifyHeaders\<close> sends a nil result for every header, each header
  names the hash of the one before it and has the next number, any two headers are at least
  \<open>blockInterval\<close> seconds apart for every step between them, and no header is later than the time at
  which it was verified. Times are not negative and the clock is below \<open>2 ^ 63\<close>.
\<close>

theorem VerifyHeaders_chain:
  assumes "VerifyHeaders keccak now aborted chain hs = replicate (length hs) None" "\<forall>i. now i < 2 ^ 63" "\<forall>h \<in> set hs. 0 \<le> h_Time h" "i < j" "j < length hs"
  shows "h_Time (hs ! i) + blockInterval * int (j - i) \<le> h_Time (hs ! j) \<and> h_ParentHash (hs ! Suc i) = Header_Hash keccak (hs ! i)
    \<and> (\<exists>n pn. h_Number (hs ! Suc i) = Some n \<and> h_Number (hs ! i) = Some pn \<and> big_Uint64 pn = big_Uint64 n - 1) \<and> h_Time (hs ! j) \<le> now j"
  using VerifyHeaders_times [OF assms] verifyHeader_parent [OF VerifyHeaders_step [OF assms(1), of i]] VerifyHeaders_not_future [OF assms(1,5)] assms(4,5)
  by (auto simp: blockInterval_def)

text \<open>
  C15. The confirmed block has enough witnesses: \<open>updateConfirmedBlockHeader\<close> leaves the confirmed
  block alone, or replaces it by a header with a greater number, reached from the current head by
  parent links, such that the headers of its epoch from it on are of at least \<open>consensusSize\<close>
  different validators.
\<close>

theorem updateConfirmedBlockHeader_witnessed:
  assumes "updateConfirmedBlockHeader N chain d = Some (e, d')" "confirmed_start N chain d = Inr c" "cr_CurrentHeader chain = Some cur"
  shows "poc_confirmedBlockHeader d' = Some c \<or> (\<exists>h hs. poc_confirmedBlockHeader d' = Some h \<and> confirms chain cur hs h \<and> newer h c)"
  using assms by (rule updateConfirmedBlockHeader_spec)

text \<open>
  C16. The walk to the confirmed block ends: on a chain whose headers have numbers, smaller ones at
  the parents, \<open>updateConfirmedBlockHeader\<close> returns.
\<close>

theorem updateConfirmedBlockHeader_terminates:
  assumes "numbered chain"
  shows "\<exists>e d'. updateConfirmedBlockHeader N chain d = Some (e, d')"
  using updateConfirmedBlockHeader_ends [OF assms] by simp

text \<open>
  C18. A sealed block verifies: when the signatures of the wallet recover to the signer, the header
  that \<open>Seal\<close> returns differs from the block's only in the last 65 bytes of the extra data, recovers
  to the signer, and \<open>verifyBlockSigner\<close> accepts it for the signer, if the cache does not know its hash.
\<close>

theorem Seal_verifies:
  assumes "\<forall>h sig. poc_signFn d (poc_signer d) h = Some sig \<longrightarrow>
      length sig = 65 \<and> (\<exists>b pk. en_Ecrecover N h sig = Some (b # pk) \<and> take 20 (drop 12 (en_keccak N pk)) = poc_signer d)"
    "Seal N block now stopped d = Inr (Some sealed)" "h_Validator block = poc_signer d"
    "fst (en_cache_Get N (poc_signatures d) (Header_Hash (en_keccak N) sealed)) = None"
  shows "recover_signer N sealed = Inr (poc_signer d) \<and> sealed = (CopyHeader block)\<lparr>h_Extra := h_Extra sealed\<rparr>
    \<and> take (length (h_Extra block) - 65) (h_Extra sealed) = take (length (h_Extra block) - 65) (h_Extra block)
    \<and> fst (verifyBlockSigner N (poc_signer d) sealed d) = None"
proof -
  have s: "recover_signer N sealed = Inr (poc_signer d)" "sealed = (CopyHeader block)\<lparr>h_Extra := h_Extra sealed\<rparr>"
      "take (length (h_Extra block) - 65) (h_Extra sealed) = take (length (h_Extra block) - 65) (h_Extra block)"
    using Seal_recovers [OF _ assms(2)] assms(1) by blast+
  have "h_Validator sealed = poc_signer d" using assms(3) by (subst s(2)) (simp add: CopyHeader_def)
  moreover obtain c where "en_cache_Get N (poc_signatures d) (Header_Hash (en_keccak N) sealed) = (None, c)" using assms(4) by (metis prod.collapse)
  ultimately have "fst (verifyBlockSigner N (poc_signer d) sealed d) = None"
    using s(1) by (simp add: verifyBlockSigner_def ecrecover_def Let_def)
  then show ?thesis using s by blast
qed

text \<open>
  C34. Every time lies in one slot: the previous slot is before it, the next slot is not, both are
  multiples of \<open>blockInterval\<close> and they are one interval apart.
\<close>

theorem slots_bracket:
  assumes "1 \<le> now" "now < 2 ^ 63 - 20"
  shows "PrevSlot now < now \<and> now \<le> NextSlot now \<and> NextSlot now = PrevSlot now + blockInterval
    \<and> blockInterval dvd PrevSlot now \<and> blockInterval dvd NextSlot now"
  using slots [OF assms] by (simp add: blockInterval_def)

text \<open>
  C33. A validator may mint exactly in its slots: \<open>CheckValidator\<close> returns nil exactly when now is a
  multiple of \<open>blockInterval\<close> after the time of the last block, and the signer, not the zero address,
  is the validator of that slot by the context of the last block.
\<close>

theorem CheckValidator_exact:
  assumes "1 \<le> now" "now < 2 ^ 63 - 20"
  shows "CheckValidator N lastBlock now d = None \<longleftrightarrow>
    blockInterval dvd now \<and> big_Int64 (h_Time lastBlock) < now \<and> poc_signer d \<noteq> replicate 20 0
    \<and> (\<exists>pc. NewPocContextFromProto (en_poc N) (Some (poc_db d)) (the (h_PocContext (CopyHeader lastBlock))) = Inr pc
         \<and> fst (lookupValidator (en_poc N) now pc) = Inr (poc_signer d))" (is "?l \<longleftrightarrow> ?r")
proof
  assume ?l
  then obtain pc where pc: "NewPocContextFromProto (en_poc N) (Some (poc_db d)) (the (h_PocContext (CopyHeader lastBlock))) = Inr pc"
      "fst (lookupValidator (en_poc N) now pc) = Inr (poc_signer d)" "poc_signer d \<noteq> replicate 20 0" "checkDeadline lastBlock now = None"
    by (auto simp: CheckValidator_def split: option.splits sum.splits if_splits)
  have dv: "20 dvd now" using lookupValidator_slot [OF pc(2)] assms(1) by simp
  have "big_Int64 (h_Time lastBlock) < now"
    using pc(4) next_slot_of_slot [OF assms dv] by (auto simp: checkDeadline_def Let_def split: if_splits)
  then show ?r using pc dv by (auto simp: blockInterval_def)
next
  assume r: ?r
  then have "NextSlot now = now" using next_slot_of_slot [OF assms] by (simp add: blockInterval_def)
  then have "checkDeadline lastBlock now = None" using r by (simp add: checkDeadline_def i64_def)
  then show ?l using r by (auto simp: CheckValidator_def)
qed

text \<open>
  C19. Minted blocks are counted: on the tries of \<^verbatim>\<open>pkg/trie\<close>, \<open>updateMintCnt\<close> makes the count of the
  validator in the epoch of the block one more than it was, or one if the block starts the epoch, and
  changes no other count. The trie of counts can be iterated and holds counts of at least eight bytes,
  and the epochs are 64-bit numbers.
\<close>

theorem updateMintCnt_counts:
  assumes "poc_holds keccak (mintCntTrie pc) m" "counts_ok (trie_iterable keccak) m" "i64_range e" "i64_range (go_quot blockTime epochInterval)"
    "updateMintCnt (trie_poc_env keccak put) parentTime blockTime v pc = (err, pc')"
  shows "err = None \<and> fst (mint_count (trie_poc_env keccak put) e a pc') =
    (if e = go_quot blockTime epochInterval \<and> a = v
     then (if go_quot parentTime epochInterval = e then map_sum id (\<lambda>n. i64 (n + 1)) (fst (mint_count (trie_poc_env keccak put) e a pc)) else Inr 1)
     else fst (mint_count (trie_poc_env keccak put) e a pc))"
proof -
  let ?ce = "go_quot parentTime epochInterval" and ?ne = "go_quot blockTime epochInterval"
  let ?c = "if ?ce = ?ne then (case m (mint_key ?ce v) of None \<Rightarrow> 1 | Some b \<Rightarrow> the (BigEndian_Uint64 b) + 1) else 1"
  let ?m = "m(mint_key ?ne v \<mapsto> PutUint64 ?c)"
  have u: "err = None" "poc_holds keccak (mintCntTrie pc') ?m" using trie_poc.updateMintCnt_spec [OF assms(1,2,5)] unfolding fun_upd_def by blast+
  have "length (PutUint64 w) = 8" for w by (simp add: PutUint64_def)
  then have ok: "\<forall>k v. ?m k = Some v \<longrightarrow> 8 \<le> length v" using assms(2) by (auto simp: counts_ok_def)
  have s: "sint (w + 1 :: u64) = i64 (sint w + 1)" for w
    by (simp add: sint_word_ariths i64_def signed_take_bit_eq_take_bit_shift take_bit_eq_mod)
  show ?thesis
    unfolding trie_poc.mint_count_value [OF u(2) ok] trie_poc.mint_count_value [OF assms(1) counts_ok_long [OF assms(2)]]
    using u(1) mint_key_eq [OF assms(3,4)] BigEndian_PutUint64 s
    by (auto simp: stored_count_def i64_def split: option.splits)
qed

section \<open>Sorted lists as tries\<close>

text \<open>
  A second provider of the consensus tries, executable: the sorted lists of \<^verbatim>\<open>Trie_Service\<close> with their
  iterators; a database maps a root to a list. The examples below open a context on it.
\<close>

definition store_poc_trie :: "(store \<Rightarrow> hash) \<Rightarrow> (store, (hash \<times> store) list) poc_trie" where
  "store_poc_trie root =
     \<lparr>api_TryGet = (\<lambda>st k. (Inr (map_of st k), st)),
      api_TryUpdate = (\<lambda>st k v. (None, if v = [] then store_del st k else store_put st k v)),
      api_TryDelete = (\<lambda>st k. (None, store_del st k)),
      api_Hash = (\<lambda>st. (root st, st)),
      api_NodeIterator = (\<lambda>st start. (map snd (filter (\<lambda>(k, v). not_before start k) st), st)),
      api_PrefixIterator = (\<lambda>st p. (map snd (filter (\<lambda>(k, v). key_prefixed p k) st), st)),
      api_CommitTo = (\<lambda>st w. (Inr (root st), st, (root st, st) # w))\<rparr>"

definition store_poc_env :: "(store \<Rightarrow> hash) \<Rightarrow> (bytes \<Rightarrow> hash) \<Rightarrow> (store, (hash \<times> store) list, (hash \<times> store) list) poc_env" where
  "store_poc_env root keccak =
     \<lparr>pe_trie = store_poc_trie root,
      pe_NewTrieWithPrefix = (\<lambda>r p db.
        if r = replicate 32 0 then Inr []
        else (case map_of (case db of None \<Rightarrow> [] | Some d \<Rightarrow> d) r of None \<Rightarrow> Inl (MissingNodeError r []) | Some st \<Rightarrow> Inr st)),
      pe_keccak = keccak\<rparr>"

lemma store_sorted_keys: "store_sorted st \<Longrightarrow> sorted_wrt hex_less (map fst (filter P st))"
  by (induction st) force+

lemma store_sorted_values:
  assumes "store_sorted st"
  shows "map snd (filter P st) = map (the \<circ> map_of st) (map fst (filter P st))"
proof -
  have "distinct (map fst st)" using store_sorted_keys [OF assms, of "\<lambda>_. True"] sorted_hex_distinct by simp
  then show ?thesis by (auto simp: map_of_eq_Some_iff)
qed

lemma store_poc_laws: "poc_service (store_poc_env root keccak) store_represents (\<lambda>_. True)"
proof (intro poc_service.intro poc_service_axioms.intro)
  let ?E = "store_poc_env root keccak"
  have "trie_api.truncate (pe_trie ?E) = store_api root"
    by (simp add: store_poc_env_def store_poc_trie_def store_api_def trie_api.defs)
  then show "trie_service (trie_api.truncate (pe_trie ?E)) store_represents (\<lambda>_. True)" using store_srv.trie_service_axioms by metis
  show "\<exists>t. pe_NewTrieWithPrefix ?E (replicate 32 0) p db = Inr t \<and> store_represents t Map.empty" for p db
    by (simp add: store_poc_env_def store_represents_def)
  fix st m
  assume "store_represents st m"
  then have st: "store_sorted st" "map_of st = m" by (simp_all add: store_represents_def)
  have d: "fst ` set st = dom m" using st(2) dom_map_of_conv_image_fst by metis
  show "(\<exists>ks. keys_from m start ks \<and> fst (api_NodeIterator (pe_trie ?E) st start) = map (the \<circ> m) ks)
      \<and> store_represents (snd (api_NodeIterator (pe_trie ?E) st start)) m" for start
  proof -
    let ?P = "\<lambda>(k, v). not_before start k"
    have "set (map fst (filter ?P st)) = {k \<in> dom m. not_before start k}" unfolding d [symmetric] by force
    then have "keys_from m start (map fst (filter ?P st))" using store_sorted_keys [OF st(1)] by (simp add: keys_from_def)
    then show ?thesis
      using store_sorted_values [OF st(1), of ?P] st by (auto simp: store_poc_env_def store_poc_trie_def store_represents_def)
  qed
  show "(\<exists>ks. keys_prefixed m p ks \<and> fst (api_PrefixIterator (pe_trie ?E) st p) = map (the \<circ> m) ks)
      \<and> store_represents (snd (api_PrefixIterator (pe_trie ?E) st p)) m" for p
  proof -
    let ?P = "\<lambda>(k, v). key_prefixed p k"
    have "set (map fst (filter ?P st)) = {k \<in> dom m. key_prefixed p k}" unfolding d [symmetric] by force
    then have "keys_prefixed m p (map fst (filter ?P st))" using store_sorted_keys [OF st(1)] by (simp add: keys_prefixed_def)
    then show ?thesis
      using store_sorted_values [OF st(1), of ?P] st by (auto simp: store_poc_env_def store_poc_trie_def store_represents_def)
  qed
qed

interpretation store_poc: poc_service "store_poc_env root keccak" store_represents "\<lambda>_. True"
  by (rule store_poc_laws)

section \<open>An example\<close>

text \<open>One validator, the zero address, in a database with the trie of its epoch.\<close>

definition sample_epoch_trie :: store where
  "sample_epoch_trie = epochTrie (snd (SetValidators (store_poc_env (\<lambda>_. replicate 32 1) (\<lambda>_. replicate 32 0)) [replicate 20 0] (context_of [])))"

definition sample_engine :: "(store, (hash \<times> store) list, (hash \<times> store) list, (hash \<times> address) list) engine_env" where
  "sample_engine = \<lparr>en_poc = store_poc_env (\<lambda>_. replicate 32 1) (\<lambda>_. replicate 32 0), en_Get = (\<lambda>_ _. None), en_Put = (\<lambda>d _ _. Some d),
     en_Ecrecover = (\<lambda>_ sig. Some (4 # sig)), en_cache_Get = (\<lambda>c k. (map_of c k, c)), en_cache_Add = (\<lambda>c k a. (k, a) # c)\<rparr>"

definition sample_poc :: "((hash \<times> store) list, (hash \<times> address) list) Poc" where
  "sample_poc = \<lparr>poc_db = [(replicate 32 1, sample_epoch_trie)], poc_signer = replicate 20 0, poc_signFn = (\<lambda>_ _. Some (replicate 65 7)),
     poc_signatures = [], poc_confirmedBlockHeader = None\<rparr>"

definition sample_parent :: Header where
  "sample_parent = sample_header\<lparr>h_Number := Some 4, h_Time := 1180, h_PocContext := Some (emptyProto\<lparr>EpochHash := replicate 32 1\<rparr>)\<rparr>"

definition sample_block :: Header where
  "sample_block = sample_header\<lparr>h_ParentHash := replicate 32 0, h_Validator := replicate 20 0\<rparr>"

definition sample_chain :: ChainReader where
  "sample_chain = \<lparr>cr_Config = PocChainConfig, cr_CurrentHeader = Some sample_parent, cr_GetHeader = (\<lambda>_ _. Some sample_parent),
     cr_GetHeaderByNumber = (\<lambda>_. Some sample_parent), cr_GetHeaderByHash = (\<lambda>_. None)\<rparr>"

lemmas sample_engine_defs = sample_engine_def sample_poc_def sample_parent_def sample_block_def sample_chain_def sample_header_def store_poc_env_def

lemma sample_hash: "Header_Hash (en_keccak sample_engine) h = replicate 32 0"
  by (simp add: Header_Hash_def rlpHash_def sample_engine_def store_poc_env_def)

lemma sample_validators: "fst (GetValidators (en_poc sample_engine) ((context_of [])\<lparr>epochTrie := sample_epoch_trie, pc_db := db\<rparr>)) = Inr [replicate 20 0]"
proof -
  let ?E = "store_poc_env (\<lambda>_. replicate 32 1) (\<lambda>_. replicate 32 0)" and ?pc = "context_of [] :: (store, (hash \<times> store) list) PocContext"
  have e: "store_represents (epochTrie ?pc) Map.empty" by (simp add: context_of_def store_represents_def)
  have l: "\<forall>v \<in> set [replicate 20 0 :: address]. length v = 20" "length [replicate 20 0 :: address] < 2 ^ 32" by simp_all
  obtain e2 pc2 where s: "SetValidators ?E [replicate 20 0] ?pc = (e2, pc2)" by (cases "SetValidators ?E [replicate 20 0] ?pc")
  have "fst (GetValidators ?E pc2) = Inr [replicate 20 0]" using store_poc.SetValidators_GetValidators [OF e l s] by simp
  then show ?thesis using s by (simp add: GetValidators_def sample_engine_def sample_epoch_trie_def split_beta Let_def)
qed

lemma sample_lookup:
  assumes "now = 1200"
  shows "\<exists>pc. NewPocContextFromProto (en_poc sample_engine) (Some (poc_db sample_poc)) (emptyProto\<lparr>EpochHash := replicate 32 1\<rparr>) = Inr pc
    \<and> fst (lookupValidator (en_poc sample_engine) now pc) = Inr (replicate 20 0)"
proof -
  let ?pc = "(context_of [])\<lparr>epochTrie := sample_epoch_trie, pc_db := Some (poc_db sample_poc)\<rparr>"
  have "NewPocContextFromProto (en_poc sample_engine) (Some (poc_db sample_poc)) (emptyProto\<lparr>EpochHash := replicate 32 1\<rparr>) = Inr ?pc"
    by (simp add: NewPocContextFromProto_def NewEpochTrie_def NewContributionTrie_def NewLatestTxTrie_def NewCandidateTrie_def NewMintCntTrie_def
        sample_engine_def sample_poc_def store_poc_env_def emptyProto_def context_of_def)
  moreover obtain pc2 where "GetValidators (en_poc sample_engine) ?pc = (Inr [replicate 20 0], pc2)"
    using sample_validators by (metis prod.collapse)
  then have "fst (lookupValidator (en_poc sample_engine) now ?pc) = Inr (replicate 20 0)"
    using assms by (simp add: lookupValidator_def go_rem_def go_quot_def epochInterval_def blockInterval_def)
  ultimately show ?thesis by blast
qed

lemma sample_recover: "recover_signer sample_engine sample_block = Inr (replicate 20 0)"
  by (simp add: recover_signer_def sigHash_def sample_engine_defs extraSeal_def)

lemma sample_seal: "verifySeal sample_engine sample_chain sample_block [] sample_poc
    = Some (None, sample_poc\<lparr>poc_signatures := [(replicate 32 0, replicate 20 0)], poc_confirmedBlockHeader := Some sample_parent\<rparr>)"
proof -
  obtain pc where pc: "NewPocContextFromProto (en_poc sample_engine) (Some (poc_db sample_poc)) (emptyProto\<lparr>EpochHash := replicate 32 1\<rparr>) = Inr pc"
      "fst (lookupValidator (en_poc sample_engine) 1200 pc) = Inr (replicate 20 0)"
    using sample_lookup by blast
  have h: "h_Number sample_block = Some 5" "h_Time sample_block = 1200" "h_Validator sample_block = replicate 20 0"
      "h_PocContext sample_parent = Some (emptyProto\<lparr>EpochHash := replicate 32 1\<rparr>)" "h_Number sample_parent = Some 4"
    by (simp_all add: sample_block_def sample_parent_def sample_header_def)
  have "ecrecover sample_engine sample_block (poc_signatures sample_poc) = (Inr (replicate 20 0), [(replicate 32 0, replicate 20 0)])"
    using sample_recover sample_hash by (simp add: ecrecover_def sample_poc_def) (simp add: sample_engine_def)
  then have "check_seal sample_engine sample_chain sample_block [] sample_poc = (None, sample_poc\<lparr>poc_signatures := [(replicate 32 0, replicate 20 0)]\<rparr>)"
    using pc h by (simp add: check_seal_def verifyBlockSigner_def parent_of_def big_Uint64_def big_Int64_def i64_def sample_chain_def)
  moreover have "confirm_walk (en_keccak sample_engine) sample_chain sample_parent sample_parent (- 1) [] = Some (Inr None)"
    using h by (simp add: confirm_walk.simps)
  ultimately show ?thesis
    by (simp add: verifySeal_def updateConfirmedBlockHeader_def confirmed_start_def loadConfirmedBlockHeader_def sample_poc_def)
      (simp add: sample_engine_def sample_chain_def)
qed

theorem verifySeal_authentic_witness:
  "scheduled sample_engine sample_chain (poc_db sample_poc) sample_block [] (replicate 20 0)
    \<and> signed_by sample_engine (replicate 32 0) (replicate 20 0)"
proof -
  let ?holds = "\<lambda>c k a. map_of c k = Some a"
  have "cache_laws sample_engine ?holds" by (auto simp: cache_laws_def sample_engine_def split: if_splits)
  moreover have "cache_inv sample_engine ?holds (poc_signatures sample_poc)" by (simp add: cache_inv_def sample_poc_def)
  ultimately show ?thesis
    using verifySeal_authentic [OF _ _ sample_seal] sample_hash by (fastforce simp: sample_block_def)
qed


theorem VerifyHeaders_chain_witness:
  "let hs = [sample_block\<lparr>h_UncleHash := replicate 32 0\<rparr>, sample_block\<lparr>h_UncleHash := replicate 32 0, h_Number := Some 6, h_Time := 1220\<rparr>]
   in VerifyHeaders (\<lambda>_. replicate 32 0) (\<lambda>_. 2000) (\<lambda>_. False) sample_chain hs = [None, None] \<and> h_Time (hs ! 0) + blockInterval \<le> h_Time (hs ! 1)"
proof -
  let ?hs = "[sample_block\<lparr>h_UncleHash := replicate 32 0\<rparr>, sample_block\<lparr>h_UncleHash := replicate 32 0, h_Number := Some 6, h_Time := 1220\<rparr>]"
  have v: "VerifyHeaders (\<lambda>_. replicate 32 0) (\<lambda>_. 2000) (\<lambda>_. False) sample_chain ?hs = [None, None]"
    by (simp add: VerifyHeaders_def verifyHeader_def verify_ancestor_def parent_of_def sample_engine_defs PocChainConfig_def extraVanity_def extraSeal_def
        big_Uint64_def uncleHash_def CalcUncleHash_def rlpHash_def VerifyForkHashes_def Header_Hash_def blockInterval_def word_less_def)
  then have r: "VerifyHeaders (\<lambda>_. replicate 32 0) (\<lambda>_. 2000) (\<lambda>_. False) sample_chain ?hs = replicate (length ?hs) None" by (simp add: numeral_2_eq_2)
  have "h_Time (?hs ! 0) + blockInterval * int (1 - 0) \<le> h_Time (?hs ! 1)"
    using VerifyHeaders_chain [OF r, of 0 1] by (simp add: sample_block_def sample_header_def)
  then show ?thesis using v by (simp add: Let_def)
qed

text \<open>A chain of three headers above a genesis block, with Keccak replaced by an injective function.\<close>

definition sample_headers :: "nat \<Rightarrow> Header" where
  "sample_headers i = sample_header\<lparr>h_Number := Some (int i), h_Validator := replicate 20 (word_of_nat i), h_ParentHash := replicate 32 (word_of_nat (i - 1))\<rparr>"

definition sample_walk :: ChainReader where
  "sample_walk = \<lparr>cr_Config = PocChainConfig, cr_CurrentHeader = Some (sample_headers 5), cr_GetHeader = (\<lambda>_ _. None),
     cr_GetHeaderByNumber = (\<lambda>_. Some (sample_headers 0)),
     cr_GetHeaderByHash = (\<lambda>k. if k = replicate 32 4 then Some (sample_headers 4) else if k = replicate 32 3 then Some (sample_headers 3) else None)\<rparr>"

definition sample_walker :: "(store, (hash \<times> store) list, (hash \<times> store) list, (hash \<times> address) list) engine_env" where
  "sample_walker = sample_engine\<lparr>en_poc := store_poc_env (\<lambda>_. replicate 32 1) (\<lambda>b. b)\<rparr>"

lemma sample_headers_ok: "header_ok (sample_headers 0)" "header_ok (sample_headers 3)" "header_ok (sample_headers 4)" "header_ok (sample_headers 5)"
  by (simp_all add: sample_headers_def header_ok_def header_fields_ok_def sample_header_def proto_ok_def emptyProto_def header_val_def proto_val_def
      number_val_def rlp_list_def rlp_string_def rlp_head_def be_min.simps)

lemma sample_headers_differ:
  assumes "header_ok (sample_headers i)" "header_ok (sample_headers j)" "i \<noteq> j"
  shows "Header_Hash (\<lambda>b. b) (sample_headers i) \<noteq> Header_Hash (\<lambda>b. b) (sample_headers j)"
proof -
  have "h_Number (sample_headers i) \<noteq> h_Number (sample_headers j)" using assms(3) by (simp add: sample_headers_def)
  then have "sample_headers i \<noteq> sample_headers j" by metis
  then show ?thesis
    using header_encode(2) [OF assms(1)] header_encode(2) [OF assms(2)] unfolding Header_Hash_enc [OF assms(1)] Header_Hash_enc [OF assms(2)]
    by (metis option.inject)
qed

lemma sample_walk_confirms: "confirm_walk (\<lambda>b. b) sample_walk (sample_headers 0) (sample_headers 5) (- 1) [] = Some (Inr (Some (sample_headers 3)))"
proof -
  have n: "h_Number (sample_headers i) = Some (int i)" "h_Validator (sample_headers i) = replicate 20 (word_of_nat i)" "h_Time (sample_headers i) = 1200"
      "h_ParentHash (sample_headers i) = replicate 32 (word_of_nat (i - 1))" for i
    by (simp_all add: sample_headers_def sample_header_def)
  have e: "go_quot (big_Int64 1200) 360 = 3" by (simp add: big_Int64_def i64_def go_quot_def)
  have b: "big_Uint64 0 < big_Uint64 5" "big_Uint64 0 < big_Uint64 4" "big_Uint64 0 < big_Uint64 3" "big_Int64 0 = 0" "big_Int64 5 = 5" "big_Int64 4 = 4"
      "big_Int64 3 = 3" "i64 5 = 5" "i64 4 = 4" "i64 3 = 3"
    by (simp_all add: big_Uint64_def big_Int64_def i64_def word_less_def)
  have g: "cr_GetHeaderByHash sample_walk (replicate 32 4) = Some (sample_headers 4)" "cr_GetHeaderByHash sample_walk (replicate 32 3) = Some (sample_headers 3)"
    by (simp_all add: sample_walk_def)
  note d = sample_headers_differ [OF sample_headers_ok(1,4)] sample_headers_differ [OF sample_headers_ok(1,3)] sample_headers_differ [OF sample_headers_ok(1,2)]
  have w3: "confirm_walk (\<lambda>b. b) sample_walk (sample_headers 0) (sample_headers 3) 3 [replicate 20 4, replicate 20 5] = Some (Inr (Some (sample_headers 3)))"
    using d by (subst confirm_walk.simps) (simp add: n e b poc_consts Let_def)
  have w4: "confirm_walk (\<lambda>b. b) sample_walk (sample_headers 0) (sample_headers 4) 3 [replicate 20 5] = Some (Inr (Some (sample_headers 3)))"
    using d w3 by (subst confirm_walk.simps) (simp add: n e b g poc_consts Let_def)
  show ?thesis
    using d w4 by (subst confirm_walk.simps) (simp add: n e b g poc_consts Let_def)
qed

theorem updateConfirmedBlockHeader_witnessed_witness:
  "\<exists>e d' hs. updateConfirmedBlockHeader sample_walker sample_walk sample_poc = Some (e, d') \<and> poc_confirmedBlockHeader d' = Some (sample_headers 3)
     \<and> confirms sample_walk (sample_headers 5) hs (sample_headers 3)"
proof -
  have k: "en_keccak sample_walker = (\<lambda>b. b)" by (simp add: sample_walker_def store_poc_env_def)
  have c: "confirmed_start sample_walker sample_walk sample_poc = Inr (sample_headers 0)" "cr_CurrentHeader sample_walk = Some (sample_headers 5)"
    by (simp_all add: confirmed_start_def loadConfirmedBlockHeader_def sample_walker_def sample_engine_def sample_walk_def sample_poc_def)
  obtain e d' where u: "updateConfirmedBlockHeader sample_walker sample_walk sample_poc = Some (e, d')" "poc_confirmedBlockHeader d' = Some (sample_headers 3)"
    using c sample_walk_confirms k
    by (simp add: updateConfirmedBlockHeader_def storeConfirmedBlockHeader_def Let_def) (simp add: sample_walker_def sample_engine_def)
  have "sample_headers 3 \<noteq> sample_headers 0" by (auto simp: sample_headers_def dest: arg_cong [of _ _ h_Number])
  then show ?thesis using updateConfirmedBlockHeader_witnessed [OF u(1) c] u by auto
qed

theorem updateConfirmedBlockHeader_terminates_witness:
  "numbered sample_walk \<and> (\<exists>e d'. updateConfirmedBlockHeader sample_walker sample_walk sample_poc = Some (e, d'))"
proof -
  have "numbered sample_walk"
    by (auto simp: numbered_def newer_def sample_walk_def sample_headers_def big_Uint64_def word_less_def split: if_splits)
  then show ?thesis using updateConfirmedBlockHeader_terminates by blast
qed

theorem Seal_verifies_witness:
  "\<exists>sealed. Seal sample_engine sample_block 1200 False sample_poc = Inr (Some sealed) \<and> h_Extra sealed = replicate 32 0 @ replicate 65 7
     \<and> fst (verifyBlockSigner sample_engine (replicate 20 0) sealed sample_poc) = None"
proof -
  let ?s = "(CopyHeader sample_block)\<lparr>h_Extra := replicate 32 0 @ replicate 65 7\<rparr>"
  have s: "Seal sample_engine sample_block 1200 False sample_poc = Inr (Some ?s)"
    by (simp add: Seal_def sigHash_def CopyHeader_def sample_engine_defs big_Uint64_def copy_at_def extraSeal_def Let_def)
  have l: "\<forall>h sig. poc_signFn sample_poc (poc_signer sample_poc) h = Some sig \<longrightarrow>
      length sig = 65 \<and> (\<exists>b pk. en_Ecrecover sample_engine h sig = Some (b # pk) \<and> take 20 (drop 12 (en_keccak sample_engine pk)) = poc_signer sample_poc)"
    by (simp add: sample_engine_defs)
  have v: "h_Validator sample_block = poc_signer sample_poc" "fst (en_cache_Get sample_engine (poc_signatures sample_poc) (Header_Hash (en_keccak sample_engine) ?s)) = None"
    by (simp_all add: sample_block_def sample_poc_def sample_engine_def)
  have "fst (verifyBlockSigner sample_engine (poc_signer sample_poc) ?s sample_poc) = None" using Seal_verifies [OF l s v] by blast
  then show ?thesis using s by (auto simp: sample_poc_def)
qed

theorem slots_bracket_witness: "PrevSlot 1207 < 1207 \<and> 1207 \<le> NextSlot 1207 \<and> NextSlot 1207 = PrevSlot 1207 + blockInterval"
  using slots_bracket [of 1207] by simp

theorem CheckValidator_exact_witness:
  "CheckValidator sample_engine sample_parent 1200 (sample_poc\<lparr>poc_signer := replicate 20 1\<rparr>) \<noteq> None"
  using CheckValidator_exact [of 1200 sample_engine sample_parent "sample_poc\<lparr>poc_signer := replicate 20 1\<rparr>"] sample_lookup [of 1200]
  by (auto simp: CopyHeader_def sample_parent_def)

theorem updateMintCnt_counts_witness:
  "\<exists>err pc'. updateMintCnt (trie_poc_env tag_hash mem_Put) 1180 1200 (replicate 20 3) sample_context = (err, pc')
     \<and> fst (mint_count (trie_poc_env tag_hash mem_Put) 3 (replicate 20 3) pc') = Inr 1"
proof -
  let ?E = "trie_poc_env tag_hash mem_Put"
  obtain err pc' where u: "updateMintCnt ?E 1180 1200 (replicate 20 3) sample_context = (err, pc')"
    by (cases "updateMintCnt ?E 1180 1200 (replicate 20 3) sample_context")
  have c: "counts_ok (trie_iterable tag_hash) Map.empty" by (simp add: counts_ok_def iterable_tag_hash)
  have q: "go_quot 1180 epochInterval = 3" "go_quot 1200 epochInterval = 3" "i64_range 3" by (simp_all add: go_quot_def epochInterval_def i64_range_def)
  have "fst (mint_count ?E 3 (replicate 20 3) sample_context) = Inr 0"
    using trie_poc.mint_count_value [OF sample_context_ok(2)] by (simp add: stored_count_def)
  then show ?thesis
    using updateMintCnt_counts [OF sample_context_ok(2) c q(3) _ u, of "replicate 20 3"] u q by (simp add: i64_def)
qed

end
