(* ===== verification/Spec2Isabelle.thy ===== *)
theory Spec2Isabelle
  imports Trie_Encoding Trie_Pure RLP_Encode RLP_Raw RLP_Typed Trie_Ops Trie_Proof Trie_Entries State_Gaps State_Finalise Managed_State Poc_Safety
begin

text \<open>
  A verification library for AQChain, a blockchain node written in Go (a fork of go-ethereum with
  a proof-of-contribution consensus and an account-like state of records). The sources are under
  \<^verbatim>\<open>src/\<close>; file names below are relative to it.

  Conventions (theory \<open>Go_Prelude\<close>). A Go function becomes a HOL function; an error or a panic is
  the left summand of a result type, sequenced with \<open>go_bind\<close>; machine integers are words, or
  \<open>int\<close> with the wrap-around of \<open>int64\<close> written out; a byte slice is a list of 8-bit words.

  Theories.

  \<^item> \<open>Trie_Encoding\<close>: the key encodings of \<^verbatim>\<open>pkg/trie/encoding.go\<close>, with their round trips.

  \<^item> \<open>Trie_Pure\<close>: the abstract Merkle Patricia trie, its canonical form and its map laws.

  \<^item> \<open>RLP_Encode\<close>: the encoder of \<^verbatim>\<open>pkg/rlp/encode.go\<close> with its buffer of deferred list headers,
    against the recursive definition of RLP.

  \<^item> \<open>RLP_Raw\<close>: the splitter of \<^verbatim>\<open>pkg/rlp/raw.go\<close>; it accepts exactly the canonical encodings.
\<close>

end
